(* ===== verification/Ci_Prelude.thy ===== *)
theory Ci_Prelude
  imports Main "HOL-Library.AList" "HOL-Library.List_Lexorder" "HOL-Library.Multiset"
begin

text \<open>
  Shared vocabulary of the hull-ci development: Rust strings, clocks, hash maps and the
  generic lemmas the component theories rest on.

  \<^item> A Rust \<open>String\<close>/\<open>&str\<close> is the list of its Unicode scalar values (\<open>str\<close>), since the code
    counts and filters with \<open>chars()\<close>; \<open>lit\<close> turns an ASCII literal into one. Comparison of
    Rust strings (bytewise on UTF-8) is the lexicographic order on scalar values.
  \<^item> \<open>Instant\<close> and \<open>Duration\<close> are nanosecond counts (\<open>nat\<close>); \<open>saturating_duration_since\<close> is
    truncated subtraction.
  \<^item> A \<open>HashMap\<close> is an association list with distinct keys: the list order stands for the
    iteration order, which Rust leaves unspecified, so a theorem about every list is a theorem
    about every iteration order. A \<open>BTreeMap\<close> is such a list kept sorted by key.
\<close>

named_theorems hm_simps \<open>hash-map lookups after updates\<close>
named_theorems ci_defs \<open>small definitions that component proofs unfold\<close>

section \<open>Strings\<close>

type_synonym str = "nat list"

definition lit :: "string \<Rightarrow> str" where
  "lit s = map of_char s"

lemma lit_simps [simp]:
  "lit [] = []" "lit (c # cs) = of_char c # lit cs"
  by (simp_all add: lit_def)

lemma lit_append [simp]: "lit (a @ b) = lit a @ lit b"
  by (simp add: lit_def)

lemma length_lit [simp]: "length (lit s) = length s"
  by (simp add: lit_def)

text \<open>\<open>char::is_control\<close> is \<open>General_Category = Cc\<close>; \<open>char::is_whitespace\<close> is the Unicode
  property \<open>White_Space\<close>; \<open>char::is_ascii_alphabetic\<close> the two ASCII letter ranges.\<close>

definition is_control :: "nat \<Rightarrow> bool" where
  "is_control c \<longleftrightarrow> c \<le> 0x1f \<or> (0x7f \<le> c \<and> c \<le> 0x9f)"

definition is_whitespace :: "nat \<Rightarrow> bool" where
  "is_whitespace c \<longleftrightarrow> (9 \<le> c \<and> c \<le> 13) \<or> c = 0x20 \<or> c = 0x85 \<or> c = 0xa0 \<or> c = 0x1680 \<or>
     (0x2000 \<le> c \<and> c \<le> 0x200a) \<or> c = 0x2028 \<or> c = 0x2029 \<or> c = 0x202f \<or> c = 0x205f \<or> c = 0x3000"

definition is_ascii_alphabetic :: "nat \<Rightarrow> bool" where
  "is_ascii_alphabetic c \<longleftrightarrow> (0x41 \<le> c \<and> c \<le> 0x5a) \<or> (0x61 \<le> c \<and> c \<le> 0x7a)"

definition to_ascii_lower :: "nat \<Rightarrow> nat" where
  "to_ascii_lower c = (if 0x41 \<le> c \<and> c \<le> 0x5a then c + 32 else c)"

definition eq_ignore_ascii_case :: "str \<Rightarrow> str \<Rightarrow> bool" where
  "eq_ignore_ascii_case a b \<longleftrightarrow> map to_ascii_lower a = map to_ascii_lower b"

text \<open>\<open>str::trim\<close>, \<open>str::split(c)\<close>, joining with a separator, and decimal \<open>Display\<close>.\<close>

definition trim :: "str \<Rightarrow> str" where
  "trim s = rev (dropWhile is_whitespace (rev (dropWhile is_whitespace s)))"

fun split_on :: "nat \<Rightarrow> str \<Rightarrow> str list" where
  "split_on d [] = [[]]"
| "split_on d (c # cs) =
     (if c = d then [] # split_on d cs
      else case split_on d cs of [] \<Rightarrow> [[c]] | w # ws \<Rightarrow> (c # w) # ws)"

fun join :: "nat \<Rightarrow> str list \<Rightarrow> str" where
  "join d [] = []"
| "join d [w] = w"
| "join d (w # v # vs) = w @ d # join d (v # vs)"

fun show_nat :: "nat \<Rightarrow> str" where
  "show_nat n = (if n < 10 then [48 + n] else show_nat (n div 10) @ [48 + n mod 10])"

declare show_nat.simps [simp del]

definition show_int :: "int \<Rightarrow> str" where
  "show_int i = (if i < 0 then 45 # show_nat (nat (- i)) else show_nat (nat i))"

lemma split_on_not_Nil [simp]: "split_on d s \<noteq> []"
  by (induction s) (auto split: list.splits)

lemma join_split_on: "join d (split_on d s) = s"
proof (induction s)
  case Nil
  then show ?case by simp
next
  case (Cons c cs)
  obtain w ws where sp: "split_on d cs = w # ws"
    using split_on_not_Nil by (metis neq_Nil_conv)
  have j: "join d ((c # w) # ws) = c # join d (w # ws)"
    by (cases ws) simp_all
  from Cons sp have IH: "join d (w # ws) = cs" by simp
  show ?case
  proof (cases "c = d")
    case True
    have "join d ([] # w # ws) = c # join d (w # ws)" using True by simp
    then show ?thesis using True sp IH by simp
  next
    case False
    then show ?thesis using sp j IH by simp
  qed
qed

lemma split_on_no_sep: "w \<in> set (split_on d s) \<Longrightarrow> d \<notin> set w"
  by (induction s arbitrary: w) (auto split: if_splits list.splits)

lemma split_on_single: "d \<notin> set w \<Longrightarrow> split_on d w = [w]"
  by (induction w) auto

lemma split_on_append: "d \<notin> set w \<Longrightarrow> split_on d (w @ d # s) = w # split_on d s"
  by (induction w) auto

lemma split_on_join:
  assumes "ws \<noteq> []" and "\<And>w. w \<in> set ws \<Longrightarrow> d \<notin> set w"
  shows "split_on d (join d ws) = ws"
  using assms
  by (induction d ws rule: join.induct) (auto simp: split_on_single split_on_append)

lemma hd_split_on: "hd (split_on d s) = takeWhile (\<lambda>c. c \<noteq> d) s"
  by (induction s) (auto split: list.splits)

lemma join_member_subset: "w \<in> set ws \<Longrightarrow> set w \<subseteq> set (join d ws)"
  by (induction d ws rule: join.induct) auto

lemma set_split_on_subset: "w \<in> set (split_on d s) \<Longrightarrow> set w \<subseteq> set s"
  using join_member_subset [of w "split_on d s" d] by (simp add: join_split_on)

text \<open>Trimming: the result is a sublist with no whitespace at either end, and trimming such a
  string changes nothing.\<close>

definition trimmed :: "str \<Rightarrow> bool" where
  "trimmed s \<longleftrightarrow> s = [] \<or> (\<not> is_whitespace (hd s) \<and> \<not> is_whitespace (last s))"

lemma set_trim: "set (trim s) \<subseteq> set s"
  unfolding trim_def by (auto dest!: set_dropWhileD)

lemma length_trim: "length (trim s) \<le> length s"
  unfolding trim_def
  by (metis length_dropWhile_le length_rev order.trans)

lemma trimmed_trim: "trimmed (trim s)"
proof -
  define t where "t = dropWhile is_whitespace s"
  define u where "u = dropWhile is_whitespace (rev t)"
  have tr: "trim s = rev u" by (simp add: trim_def t_def u_def)
  show ?thesis
  proof (cases "u = []")
    case True
    then show ?thesis by (simp add: trimmed_def tr)
  next
    case False
    then have l: "\<not> is_whitespace (last (rev u))"
      by (simp add: last_rev u_def hd_dropWhile)
    obtain p where p: "rev t = p @ u"
      using takeWhile_dropWhile_id [of is_whitespace "rev t"] unfolding u_def by metis
    then have "t = rev u @ rev p" by (metis rev_append rev_rev_ident)
    then have ht: "hd (rev u) = hd t" and "t \<noteq> []" using False by auto
    then have "\<not> is_whitespace (hd t)" by (simp add: t_def hd_dropWhile)
    with ht l show ?thesis by (simp add: trimmed_def tr)
  qed
qed

lemma trim_Nil [simp]: "trim [] = []"
  by (simp add: trim_def)

lemma trim_id: "trimmed s \<Longrightarrow> trim s = s"
proof (cases "s = []")
  case True
  then show ?thesis by simp
next
  case False
  assume t: "trimmed s"
  from False t have h: "dropWhile is_whitespace s = s"
    by (cases s) (auto simp: trimmed_def)
  from False t have "dropWhile is_whitespace (rev s) = rev s"
    by (cases s rule: rev_cases) (auto simp: trimmed_def)
  with h show ?thesis by (simp add: trim_def)
qed

lemma trim_idem [simp]: "trim (trim s) = trim s"
  by (rule trim_id) (rule trimmed_trim)

lemma no_ws_trimmed: "(\<And>c. c \<in> set s \<Longrightarrow> \<not> is_whitespace c) \<Longrightarrow> trimmed s"
  by (cases s) (auto simp: trimmed_def)

section \<open>Clocks\<close>

type_synonym instant = nat
type_synonym duration = nat

definition secs :: "nat \<Rightarrow> duration" where
  "secs n = n * 1000000000"

definition as_secs :: "duration \<Rightarrow> nat" where
  "as_secs d = d div 1000000000"

lemma as_secs_secs [simp]: "as_secs (secs n) = n"
  by (simp add: as_secs_def secs_def)

section \<open>Hash maps as association lists\<close>

abbreviation hm_ok :: "('k \<times> 'v) list \<Rightarrow> bool" where
  "hm_ok m \<equiv> distinct (map fst m)"

declare map_of_eq_Some_iff [simp del] Some_eq_map_of_iff [simp del]

lemma map_of_hm_update [simp, hm_simps]:
  "map_of (AList.update k v m) = (map_of m)(k \<mapsto> v)"
  by (simp add: update_conv')

lemma map_of_hm_delete [simp, hm_simps]:
  "map_of (AList.delete k m) = (map_of m)(k := None)"
  by (simp add: delete_conv')

lemma hm_ok_update [simp, intro]: "hm_ok m \<Longrightarrow> hm_ok (AList.update k v m)"
  by (rule distinct_update)

lemma hm_ok_delete [simp, intro]: "hm_ok m \<Longrightarrow> hm_ok (AList.delete k m)"
  by (rule distinct_delete)

lemma hm_delete_absent: "map_of m k = None \<Longrightarrow> AList.delete k m = m"
  by (simp add: delete_id map_of_eq_None_iff)

lemma length_hm_delete:
  "hm_ok m \<Longrightarrow> map_of m k = Some v \<Longrightarrow> Suc (length (AList.delete k m)) = length m"
proof (induction m)
  case (Cons p m)
  show ?case
  proof (cases "fst p = k")
    case True
    with Cons.prems have "k \<notin> set (map fst m)" by auto
    then have "AList.delete k m = m" by (simp add: delete_id)
    then show ?thesis using True by (cases p) (simp add: AList.delete_eq)
  next
    case False
    then show ?thesis using Cons by (cases p) (auto simp: AList.delete_eq)
  qed
qed simp

lemma length_update_le: "length (AList.update k v m) \<le> Suc (length m)"
  by (induction m) auto

lemma hm_mem_iff: "hm_ok m \<Longrightarrow> (k, v) \<in> set m \<longleftrightarrow> map_of m k = Some v"
  by (auto simp: map_of_eq_Some_iff)

text \<open>Updating every value of a map in place, as \<open>values_mut\<close> does.\<close>

definition hm_map :: "('k \<Rightarrow> 'v \<Rightarrow> 'v) \<Rightarrow> ('k \<times> 'v) list \<Rightarrow> ('k \<times> 'v) list" where
  "hm_map f m = map (\<lambda>(k, v). (k, f k v)) m"

lemma fst_hm_map [simp]: "map fst (hm_map f m) = map fst m"
  by (induction m) (auto simp: hm_map_def)

lemma map_of_hm_map [simp, hm_simps]: "map_of (hm_map f m) k = map_option (f k) (map_of m k)"
  by (induction m) (auto simp: hm_map_def)

text \<open>\<open>get_mut\<close> followed by writes through the reference.\<close>

definition hm_modify :: "'k \<Rightarrow> ('v \<Rightarrow> 'v) \<Rightarrow> ('k \<times> 'v) list \<Rightarrow> ('k \<times> 'v) list" where
  "hm_modify k f = hm_map (\<lambda>k' v. if k' = k then f v else v)"

lemma fst_hm_modify [simp]: "map fst (hm_modify k f m) = map fst m"
  by (simp add: hm_modify_def)

lemma map_of_hm_modify [simp, hm_simps]:
  "map_of (hm_modify k f m) x = (if x = k then map_option f (map_of m k) else map_of m x)"
  by (simp add: hm_modify_def option.map_ident)

text \<open>A \<open>BTreeMap\<close>: insertion keeps the keys sorted; \<open>entry(k).or_default()\<close> followed by writes.\<close>

fun bt_insert :: "'k::linorder \<Rightarrow> 'v \<Rightarrow> ('k \<times> 'v) list \<Rightarrow> ('k \<times> 'v) list" where
  "bt_insert k v [] = [(k, v)]"
| "bt_insert k v ((k', v') # m) =
     (if k < k' then (k, v) # (k', v') # m
      else if k = k' then (k, v) # m
      else (k', v') # bt_insert k v m)"

definition bt_entry :: "'k::linorder \<Rightarrow> 'v \<Rightarrow> ('v \<Rightarrow> 'v) \<Rightarrow> ('k \<times> 'v) list \<Rightarrow> ('k \<times> 'v) list" where
  "bt_entry k d f m = (case map_of m k of Some v \<Rightarrow> hm_modify k f m | None \<Rightarrow> bt_insert k (f d) m)"

definition bt_ok :: "('k::linorder \<times> 'v) list \<Rightarrow> bool" where
  "bt_ok m \<longleftrightarrow> sorted_wrt (<) (map fst m)"

lemma bt_ok_distinct: "bt_ok m \<Longrightarrow> hm_ok m"
  by (simp add: bt_ok_def strict_sorted_iff)

lemma fst_bt_insert: "fst ` set (bt_insert k v m) = insert k (fst ` set m)"
  by (induction k v m rule: bt_insert.induct) auto

lemma bt_ok_insert: "bt_ok m \<Longrightarrow> bt_ok (bt_insert k v m)"
  unfolding bt_ok_def
proof (induction k v m rule: bt_insert.induct)
  case (2 k v k' v' m)
  then show ?case by (auto simp: fst_bt_insert dest: order.strict_trans)
qed simp

lemma map_of_bt_insert [simp, hm_simps]:
  "bt_ok m \<Longrightarrow> map_of (bt_insert k v m) = (map_of m)(k \<mapsto> v)"
proof (induction k v m rule: bt_insert.induct)
  case (2 k v k' v' m)
  then have "bt_ok m" and gt: "\<forall>x\<in>fst ` set m. k' < x" by (auto simp: bt_ok_def)
  with 2 show ?case by (auto simp: fun_eq_iff)
qed auto

lemma bt_ok_entry [simp, intro]: "bt_ok m \<Longrightarrow> bt_ok (bt_entry k d f m)"
  by (auto simp: bt_entry_def bt_ok_insert bt_ok_def split: option.splits) (auto simp: bt_ok_insert [unfolded bt_ok_def])

lemma map_of_bt_entry [simp, hm_simps]:
  "bt_ok m \<Longrightarrow> map_of (bt_entry k d f m) x =
     (if x = k then Some (f (case map_of m k of Some v \<Rightarrow> v | None \<Rightarrow> d)) else map_of m x)"
  by (auto simp: bt_entry_def split: option.splits)

lemma bt_ok_map [simp]: "bt_ok (hm_map f m) = bt_ok m" "bt_ok (hm_modify k g m) = bt_ok m"
  by (simp_all add: bt_ok_def)

section \<open>Lists\<close>

text \<open>\<open>iter().find(p)\<close>, and updating the first element that satisfies a test, as
  \<open>iter_mut().find(p)\<close> followed by writes through the reference does.\<close>

fun update_first :: "('a \<Rightarrow> bool) \<Rightarrow> ('a \<Rightarrow> 'a) \<Rightarrow> 'a list \<Rightarrow> 'a list" where
  "update_first p f [] = []"
| "update_first p f (x # xs) = (if p x then f x # xs else x # update_first p f xs)"

lemma length_update_first [simp]: "length (update_first p f xs) = length xs"
  by (induction xs) auto

lemma update_first_id: "(\<And>x. x \<in> set xs \<Longrightarrow> \<not> p x) \<Longrightarrow> update_first p f xs = xs"
  by (induction xs) auto

lemma update_first_split:
  assumes "find p xs = Some x"
  obtains ys zs where "xs = ys @ x # zs" and "\<And>y. y \<in> set ys \<Longrightarrow> \<not> p y" and "p x"
    and "\<And>f. update_first p f xs = ys @ f x # zs"
proof -
  have "\<exists>ys zs. xs = ys @ x # zs \<and> (\<forall>y\<in>set ys. \<not> p y) \<and> p x \<and>
      (\<forall>f. update_first p f xs = ys @ f x # zs)"
    using assms
  proof (induction xs)
    case (Cons a xs)
    show ?case
    proof (cases "p a")
      case True
      with Cons.prems show ?thesis by (intro exI [of _ "[]"] exI [of _ xs]) auto
    next
      case False
      with Cons obtain ys zs where "xs = ys @ x # zs" "\<forall>y\<in>set ys. \<not> p y" "p x"
        "\<forall>f. update_first p f xs = ys @ f x # zs" by auto
      with False show ?thesis by (intro exI [of _ "a # ys"] exI [of _ zs]) auto
    qed
  qed simp
  then show ?thesis using that by blast
qed

lemma find_None_all: "find p xs = None \<longleftrightarrow> (\<forall>x\<in>set xs. \<not> p x)"
  by (auto simp: find_None_iff)

lemma find_Some_in: "find p xs = Some x \<Longrightarrow> x \<in> set xs \<and> p x"
  by (auto simp: find_Some_iff)

lemma in_set_map_filter: "y \<in> set (List.map_filter f xs) \<longleftrightarrow> (\<exists>x\<in>set xs. f x = Some y)"
  by (induction xs) (auto simp: List.map_filter_simps split: option.splits)

section \<open>Runs of operations\<close>

text \<open>A state-passing operation applied to a list of requests, collecting the answers.\<close>

fun run :: "('o \<Rightarrow> 's \<Rightarrow> 's \<times> 'r) \<Rightarrow> 'o list \<Rightarrow> 's \<Rightarrow> 's \<times> 'r list" where
  "run f [] s = (s, [])"
| "run f (x # xs) s =
     (let (s1, r) = f x s; (s2, rs) = run f xs s1 in (s2, r # rs))"

lemma run_append:
  "run f (xs @ ys) s = (let (s1, rs) = run f xs s; (s2, rs') = run f ys s1 in (s2, rs @ rs'))"
  by (induction xs arbitrary: s) (auto simp: Let_def split: prod.splits)

lemma length_run: "length (snd (run f xs s)) = length xs"
  by (induction xs arbitrary: s) (auto simp: Let_def case_prod_unfold)

lemma run_invariant:
  assumes "P s" and "\<And>x s. x \<in> set xs \<Longrightarrow> P s \<Longrightarrow> P (fst (f x s))"
  shows "P (fst (run f xs s))"
  using assms
  by (induction xs arbitrary: s) (auto simp: Let_def case_prod_unfold)

text \<open>An invariant that also bounds every answer.\<close>

lemma run_answers:
  assumes "P s" and "\<And>x s. x \<in> set xs \<Longrightarrow> P s \<Longrightarrow> P (fst (f x s)) \<and> Q x (snd (f x s))"
  shows "list_all2 Q xs (snd (run f xs s))"
  using assms
proof (induction xs arbitrary: s)
  case (Cons x xs)
  obtain s1 r where f: "f x s = (s1, r)" by (cases "f x s")
  with Cons.prems(2) [of x s] Cons.prems(1) have "P s1" "Q x r" by auto
  with Cons.IH [of s1] Cons.prems(2) f show ?case by (auto simp: Let_def split: prod.splits)
qed simp

end
