(* ===== verification/Ci_Proto.thy ===== *)
theory Ci_Proto
  imports Ci_Prelude
begin

text \<open>
  The contract crate (\<open>src/crates/hull-ci-proto/src/lib.rs\<close>): the dispatch Hull posts, the
  verdict posted back, the tenancy axes, the section 14 capability gate and the control/node
  wire types. The first half of the theory translates the types and functions in source order;
  the second half shows that the tenant and the \<open>repo\<close> have one canonical spelling, that a
  checked log key cannot traverse, that a sanitized summary is a bounded printable line, and
  that the untrusted-work gate is exactly its ten required clauses.
  A struct field \<open>f\<close> of \<open>Dispatch\<close>, \<open>Verdict\<close>, \<open>Assignment\<close> and \<open>StepReport\<close> is the record
  field \<open>d_f\<close>, \<open>v_f\<close>, \<open>a_f\<close> and \<open>r_f\<close>.
\<close>

section \<open>Errors\<close>

datatype contract_error =
    MissingField str
  | UnsupportedVersion str
  | Malformed (mal_field: str) (mal_why: str)

definition CONTRACT_VERSION :: str where
  "CONTRACT_VERSION = lit ''1''"

definition check_version :: "str option \<Rightarrow> contract_error + unit" where
  "check_version header =
     (case header of
        None \<Rightarrow> Inr ()
      | Some v \<Rightarrow> if v = CONTRACT_VERSION then Inr () else Inl (UnsupportedVersion v))"

section \<open>Invisible characters and path segments\<close>

definition is_invisible_formatting :: "nat \<Rightarrow> bool" where
  "is_invisible_formatting c \<longleftrightarrow>
     c = 0x00ad \<or> c = 0x061c \<or> c = 0x180e
   \<or> (0x200b \<le> c \<and> c \<le> 0x200f) \<or> (0x202a \<le> c \<and> c \<le> 0x202e)
   \<or> (0x2060 \<le> c \<and> c \<le> 0x2064) \<or> (0x2066 \<le> c \<and> c \<le> 0x206f)
   \<or> c = 0xfeff \<or> (0xfff9 \<le> c \<and> c \<le> 0xfffb)
   \<or> c = 0x110bd \<or> c = 0x110cd
   \<or> (0x13430 \<le> c \<and> c \<le> 0x1343f) \<or> (0x1bca0 \<le> c \<and> c \<le> 0x1bca3)
   \<or> (0x1d173 \<le> c \<and> c \<le> 0x1d17a) \<or> c = 0xe0001 \<or> (0xe0020 \<le> c \<and> c \<le> 0xe007f)"

definition slash :: nat where "slash = 0x2f"
definition backslash :: nat where "backslash = 0x5c"

definition check_path_segment :: "str \<Rightarrow> str + unit" where
  "check_path_segment segment =
     (if segment = [] then Inl (lit ''empty path segment'')
      else if segment = lit ''.'' \<or> segment = lit ''..'' then Inl (lit ''`.` and `..` are not names'')
      else if (\<exists>c\<in>set segment. is_whitespace c \<or> is_control c \<or> is_invisible_formatting c)
        then Inl (lit ''whitespace, control or invisible characters in a path segment'')
      else if backslash \<in> set segment
        then Inl (lit ''`'' @ [backslash] @ lit ''` is a path separator, not a name character'')
      else Inr ())"

section \<open>The dispatch\<close>

record dispatch =
  d_repo :: str
  d_change :: str
  d_tree_id :: str
  d_intent :: str
  d_author :: str
  d_source_url :: str
  d_callback_url :: str
  d_fetch_token :: "str option"

definition tenant_of :: "str \<Rightarrow> str" where
  "tenant_of repo0 =
     (let repo = trim repo0; first = trim (hd (split_on slash repo))
      in if first = [] then repo else first)"

definition tenant :: "dispatch \<Rightarrow> str" where
  "tenant d = tenant_of (d_repo d)"

definition repo_name :: "dispatch \<Rightarrow> str" where
  "repo_name d =
     (case split_on slash (trim (d_repo d)) of
        _ # r # rs \<Rightarrow> trim (join slash (r # rs))
      | _ \<Rightarrow> [])"

definition MAX_REPO_LEN :: nat where
  "MAX_REPO_LEN = 256"

fun canonical_segments :: "str list \<Rightarrow> contract_error + str list" where
  "canonical_segments [] = Inr []"
| "canonical_segments (raw # rest) =
     (let segment = trim raw in
      case check_path_segment segment of
        Inl why \<Rightarrow> Inl (Malformed (lit ''repo'') why)
      | Inr _ \<Rightarrow> (case canonical_segments rest of Inl e \<Rightarrow> Inl e | Inr ss \<Rightarrow> Inr (segment # ss)))"

definition canonical_repo :: "str \<Rightarrow> contract_error + str" where
  "canonical_repo repo =
     (let trimmed = trim repo in
      if trimmed = [] then Inl (MissingField (lit ''repo''))
      else if length trimmed > MAX_REPO_LEN
        then Inl (Malformed (lit ''repo'') (lit ''longer than 256 characters''))
      else case canonical_segments (split_on slash trimmed) of
        Inl e \<Rightarrow> Inl e
      | Inr ss \<Rightarrow> Inr (join slash ss))"

fun required_loop :: "(str \<times> str) list \<Rightarrow> contract_error + unit" where
  "required_loop [] = Inr ()"
| "required_loop ((name, val) # rest) =
     (if trim val = [] then Inl (MissingField name) else required_loop rest)"

definition required_fields :: "dispatch \<Rightarrow> contract_error + unit" where
  "required_fields d =
     required_loop
       [(lit ''repo'', d_repo d), (lit ''change'', d_change d), (lit ''tree_id'', d_tree_id d),
        (lit ''source_url'', d_source_url d), (lit ''callback_url'', d_callback_url d)]"

definition validate :: "dispatch \<Rightarrow> contract_error + unit" where
  "validate d =
     (case required_fields d of
        Inl e \<Rightarrow> Inl e
      | Inr _ \<Rightarrow> (case canonical_repo (d_repo d) of Inl e \<Rightarrow> Inl e | Inr _ \<Rightarrow> Inr ()))"

definition canonicalize :: "dispatch \<Rightarrow> contract_error + dispatch" where
  "canonicalize d =
     (case required_fields d of
        Inl e \<Rightarrow> Inl e
      | Inr _ \<Rightarrow> (case canonical_repo (d_repo d) of
          Inl e \<Rightarrow> Inl e
        | Inr r \<Rightarrow> Inr (d\<lparr>d_repo := r\<rparr>)))"

section \<open>The verdict\<close>

datatype status = Green | Red | Errored

fun is_memoizable :: "status \<Rightarrow> bool" where
  "is_memoizable Green = True"
| "is_memoizable Red = True"
| "is_memoizable Errored = False"

fun status_as_str :: "status \<Rightarrow> str" where
  "status_as_str Green = lit ''green''"
| "status_as_str Red = lit ''red''"
| "status_as_str Errored = lit ''errored''"

datatype reason = NoTests | Timeout | Infra | Capacity

record verdict =
  v_status :: status
  v_summary :: "str option"
  v_details_url :: "str option"
  v_reason :: "reason option"

definition verdict_green :: "str \<Rightarrow> verdict" where
  "verdict_green s = \<lparr>v_status = Green, v_summary = Some s, v_details_url = None, v_reason = None\<rparr>"

definition verdict_red :: "str \<Rightarrow> verdict" where
  "verdict_red s = \<lparr>v_status = Red, v_summary = Some s, v_details_url = None, v_reason = None\<rparr>"

definition verdict_errored :: "reason \<Rightarrow> str \<Rightarrow> verdict" where
  "verdict_errored r s =
     \<lparr>v_status = Errored, v_summary = Some s, v_details_url = None, v_reason = Some r\<rparr>"

definition with_details_url :: "verdict \<Rightarrow> str \<Rightarrow> verdict" where
  "with_details_url v url = v\<lparr>v_details_url := Some url\<rparr>"

lemmas verdict_defs = verdict_green_def verdict_red_def verdict_errored_def with_details_url_def

text \<open>The type invariant the constructors enforce: a reason accompanies exactly \<open>errored\<close>.\<close>

definition wf_verdict :: "verdict \<Rightarrow> bool" where
  "wf_verdict v \<longleftrightarrow> (v_reason v \<noteq> None \<longleftrightarrow> v_status v = Errored)"

lemma wf_verdict_constructors [simp]:
  "wf_verdict (verdict_green s)" "wf_verdict (verdict_red s)" "wf_verdict (verdict_errored r s)"
  "wf_verdict (with_details_url v u) = wf_verdict v"
  by (simp_all add: wf_verdict_def verdict_defs)

lemma verdict_status_simps [simp]:
  "v_status (verdict_green s) = Green" "v_status (verdict_red s) = Red"
  "v_status (verdict_errored r s) = Errored" "v_reason (verdict_errored r s) = Some r"
  "v_reason (verdict_red s) = None" "v_reason (verdict_green s) = None"
  "v_summary (verdict_green s) = Some s" "v_summary (verdict_red s) = Some s"
  "v_summary (verdict_errored r s) = Some s"
  by (simp_all add: verdict_defs)

section \<open>Summaries\<close>

definition SUMMARY_MAX_CHARS :: nat where
  "SUMMARY_MAX_CHARS = 200"

definition ESC :: nat where "ESC = 0x1b"
definition SPACE :: nat where "SPACE = 0x20"

text \<open>The inner loop over an ANSI sequence: everything up to and including the first letter.\<close>

fun skip_csi :: "str \<Rightarrow> str" where
  "skip_csi [] = []"
| "skip_csi (t # ts) = (if is_ascii_alphabetic t then ts else skip_csi ts)"

definition after_escape :: "str \<Rightarrow> str" where
  "after_escape cs = (case cs of [] \<Rightarrow> [] | d # ds \<Rightarrow> if d = 0x5b then skip_csi ds else cs)"

lemma length_skip_csi: "length (skip_csi cs) \<le> length cs"
  by (induction cs) auto

lemma length_after_escape [simp]: "length (after_escape cs) < Suc (length cs)"
  using length_skip_csi by (auto simp: after_escape_def less_Suc_eq_le split: list.splits)
    (metis le_SucI)

definition control_to_space :: "nat \<Rightarrow> nat" where
  "control_to_space c = (if is_control c \<or> c = 0x2028 \<or> c = 0x2029 then SPACE else c)"

text \<open>The loop state is the rest of the input, \<open>last_was_space\<close> and the output so far.\<close>

function sanitize_loop :: "nat \<Rightarrow> str \<Rightarrow> bool \<Rightarrow> str \<Rightarrow> str" where
  "sanitize_loop max_chars [] last_was_space out = out"
| "sanitize_loop max_chars (c0 # chars) last_was_space out =
     (if c0 = ESC then sanitize_loop max_chars (after_escape chars) last_was_space out
      else let c = control_to_space c0 in
        if is_invisible_formatting c then sanitize_loop max_chars chars last_was_space out
        else if c = SPACE \<and> last_was_space then sanitize_loop max_chars chars last_was_space out
        else if length out \<ge> max_chars then out
        else sanitize_loop max_chars chars (c = SPACE) (out @ [c]))"
  by pat_completeness auto
termination
  by (relation "measure (\<lambda>(m, cs, sp, out). length cs)") auto

definition sanitize_summary :: "str \<Rightarrow> nat \<Rightarrow> str" where
  "sanitize_summary raw max_chars = trim (sanitize_loop max_chars raw False [])"

section \<open>Tenancy and trust axes\<close>

datatype isolation_tier = MicroVm | Container

datatype author_class = Member | Outsider

fun may_write_shared_cache :: "author_class \<Rightarrow> bool" where
  "may_write_shared_cache Member = True"
| "may_write_shared_cache Outsider = False"

fun may_receive_secrets :: "author_class \<Rightarrow> bool" where
  "may_receive_secrets Member = True"
| "may_receive_secrets Outsider = False"

section \<open>Section 14 clauses and backend capabilities\<close>

record backend_capabilities =
  single_use :: bool
  cross_tenant_safe :: bool
  env_allowlist :: bool
  metadata_blackhole :: bool
  egress_deny :: bool
  no_inbound :: bool
  non_root :: bool
  read_only_rootfs :: bool
  tmpfs_scratch :: bool
  caps_dropped :: bool
  no_new_privileges :: bool
  seccomp_default_deny :: bool
  cpu_limit :: bool
  memory_limit :: bool
  pid_limit :: bool
  disk_limit :: bool
  wall_clock_timeout :: bool
  output_cap :: bool

datatype clause =
    SingleUse
  | KernelIsolation
  | EnvAllowlist
  | MetadataBlackhole
  | EgressDeny
  | NoInbound
  | NonRoot
  | ReadOnlyRootfs
  | TmpfsScratch
  | CapsDropped
  | NoNewPrivileges
  | SeccompDefaultDeny
  | CpuLimit
  | MemoryLimit
  | PidLimit
  | DiskLimit
  | WallClockTimeout
  | OutputCap

definition clause_ALL :: "clause list" where
  "clause_ALL =
     [SingleUse, KernelIsolation, EnvAllowlist, MetadataBlackhole, EgressDeny, NoInbound,
      NonRoot, ReadOnlyRootfs, TmpfsScratch, CapsDropped, NoNewPrivileges, SeccompDefaultDeny,
      CpuLimit, MemoryLimit, PidLimit, DiskLimit, WallClockTimeout, OutputCap]"

text \<open>The section sign of the operator-facing texts is U+00A7.\<close>

fun description :: "clause \<Rightarrow> str" where
  "description SingleUse = 0xa7 # lit ''14.1 single-use sandbox, destroyed after each job''"
| "description KernelIsolation = 0xa7 # lit ''14.1 kernel/hardware isolation (microVM-class boundary)''"
| "description EnvAllowlist = 0xa7 # lit ''14.2 environment scrubbed to an allowlist''"
| "description MetadataBlackhole = 0xa7 # lit ''14.2 cloud metadata endpoint blocked''"
| "description EgressDeny = 0xa7 # lit ''14.3 default egress-deny''"
| "description NoInbound = 0xa7 # lit ''14.3 no inbound network to the sandbox''"
| "description NonRoot = 0xa7 # lit ''14.4 non-root user''"
| "description ReadOnlyRootfs = 0xa7 # lit ''14.4 read-only root filesystem''"
| "description TmpfsScratch = 0xa7 # lit ''14.4 writable tmpfs scratch that dies with the job''"
| "description CapsDropped = 0xa7 # lit ''14.4 all capabilities dropped''"
| "description NoNewPrivileges = 0xa7 # lit ''14.4 no-new-privileges''"
| "description SeccompDefaultDeny = 0xa7 # lit ''14.4 default-deny seccomp profile''"
| "description CpuLimit = 0xa7 # lit ''14.4 CPU limit''"
| "description MemoryLimit = 0xa7 # lit ''14.4 memory limit''"
| "description PidLimit = 0xa7 # lit ''14.4 PID limit''"
| "description DiskLimit = 0xa7 # lit ''14.4 disk limit''"
| "description WallClockTimeout = 0xa7 # lit ''14.4 wall-clock timeout''"
| "description OutputCap = 0xa7 # lit ''14.4 captured output cap''"

fun required_for_untrusted :: "clause \<Rightarrow> bool" where
  "required_for_untrusted KernelIsolation = True"
| "required_for_untrusted SingleUse = True"
| "required_for_untrusted EnvAllowlist = True"
| "required_for_untrusted MetadataBlackhole = True"
| "required_for_untrusted EgressDeny = True"
| "required_for_untrusted NoInbound = True"
| "required_for_untrusted CpuLimit = True"
| "required_for_untrusted MemoryLimit = True"
| "required_for_untrusted WallClockTimeout = True"
| "required_for_untrusted OutputCap = True"
| "required_for_untrusted NonRoot = False"
| "required_for_untrusted ReadOnlyRootfs = False"
| "required_for_untrusted TmpfsScratch = False"
| "required_for_untrusted CapsDropped = False"
| "required_for_untrusted NoNewPrivileges = False"
| "required_for_untrusted SeccompDefaultDeny = False"
| "required_for_untrusted PidLimit = False"
| "required_for_untrusted DiskLimit = False"

fun enforces :: "backend_capabilities \<Rightarrow> clause \<Rightarrow> bool" where
  "enforces b SingleUse = single_use b"
| "enforces b KernelIsolation = cross_tenant_safe b"
| "enforces b EnvAllowlist = env_allowlist b"
| "enforces b MetadataBlackhole = metadata_blackhole b"
| "enforces b EgressDeny = egress_deny b"
| "enforces b NoInbound = no_inbound b"
| "enforces b NonRoot = non_root b"
| "enforces b ReadOnlyRootfs = read_only_rootfs b"
| "enforces b TmpfsScratch = tmpfs_scratch b"
| "enforces b CapsDropped = caps_dropped b"
| "enforces b NoNewPrivileges = no_new_privileges b"
| "enforces b SeccompDefaultDeny = seccomp_default_deny b"
| "enforces b CpuLimit = cpu_limit b"
| "enforces b MemoryLimit = memory_limit b"
| "enforces b PidLimit = pid_limit b"
| "enforces b DiskLimit = disk_limit b"
| "enforces b WallClockTimeout = wall_clock_timeout b"
| "enforces b OutputCap = output_cap b"

definition unmet_clauses :: "backend_capabilities \<Rightarrow> str list" where
  "unmet_clauses b = map description (filter (\<lambda>c. \<not> enforces b c) clause_ALL)"

definition unmet_for_untrusted :: "backend_capabilities \<Rightarrow> str list" where
  "unmet_for_untrusted b =
     map description (filter (\<lambda>c. required_for_untrusted c \<and> \<not> enforces b c) clause_ALL)"

definition fully_conforming :: "backend_capabilities \<Rightarrow> bool" where
  "fully_conforming b \<longleftrightarrow> list_all (enforces b) clause_ALL"

definition admits_untrusted :: "backend_capabilities \<Rightarrow> bool" where
  "admits_untrusted b \<longleftrightarrow> unmet_for_untrusted b = []"

section \<open>Control and node wire types\<close>

record assignment =
  a_job_id :: str
  a_step_id :: str
  a_step_name :: str
  a_tenant :: str
  a_repo :: str
  a_tree_id :: str
  a_argv :: "str list"
  a_secrets :: "str list"
  a_image :: str
  a_tier :: isolation_tier
  a_author_class :: author_class
  a_timeout_secs :: nat
  a_lease_secs :: nat

datatype step_outcome = OutPassed | OutFailed | OutErrored

record step_report =
  r_job_id :: str
  r_step_id :: str
  r_outcome :: step_outcome
  r_reason :: "reason option"
  r_exit_code :: "int option"
  r_log_key :: "str option"
  r_detail :: str

definition MAX_LOG_KEY_LEN :: nat where
  "MAX_LOG_KEY_LEN = 1024"

fun check_segments :: "str list \<Rightarrow> contract_error + unit" where
  "check_segments [] = Inr ()"
| "check_segments (seg # rest) =
     (case check_path_segment seg of
        Inl why \<Rightarrow> Inl (Malformed (lit ''log_key'') why)
      | Inr _ \<Rightarrow> check_segments rest)"

definition check_log_key :: "str \<Rightarrow> contract_error + unit" where
  "check_log_key key =
     (if length key = 0 \<or> length key > MAX_LOG_KEY_LEN
      then Inl (Malformed (lit ''log_key'') (lit ''empty or longer than 1024 characters''))
      else check_segments (split_on slash key))"

section \<open>Path segments\<close>

definition good_char :: "nat \<Rightarrow> bool" where
  "good_char c \<longleftrightarrow> \<not> is_whitespace c \<and> \<not> is_control c \<and> \<not> is_invisible_formatting c \<and> c \<noteq> backslash"

definition good_segment :: "str \<Rightarrow> bool" where
  "good_segment seg \<longleftrightarrow>
     seg \<noteq> [] \<and> seg \<noteq> lit ''.'' \<and> seg \<noteq> lit ''..'' \<and> list_all good_char seg"

lemma check_path_segment_ok: "check_path_segment seg = Inr u \<longleftrightarrow> good_segment seg"
  by (auto simp: check_path_segment_def good_segment_def good_char_def list_all_iff)

lemma check_path_segment_bad: "check_path_segment seg = Inl w \<Longrightarrow> \<not> good_segment seg"
  using check_path_segment_ok [of seg "()"] by auto

lemma check_path_segment_good: "check_path_segment seg = Inr u \<Longrightarrow> good_segment seg"
  by (simp add: check_path_segment_ok)

lemma good_segment_trim: "good_segment seg \<Longrightarrow> trim seg = seg"
  by (rule trim_id, rule no_ws_trimmed) (auto simp: good_segment_def good_char_def list_all_iff)

lemma slash_not_ws: "\<not> is_whitespace slash"
  by (simp add: is_whitespace_def slash_def)

lemma check_segments_ok: "check_segments segs = Inr u \<longleftrightarrow> list_all good_segment segs"
  by (induction segs)
     (auto dest: check_path_segment_bad check_path_segment_good split: sum.splits)

lemma check_log_key_ok:
  "check_log_key key = Inr u \<longleftrightarrow>
     0 < length key \<and> length key \<le> MAX_LOG_KEY_LEN \<and> list_all good_segment (split_on slash key)"
  by (auto simp: check_log_key_def check_segments_ok)

section \<open>The canonical repository name\<close>

lemma canonical_segments_ok:
  "canonical_segments ws = Inr ss \<longleftrightarrow> ss = map trim ws \<and> list_all good_segment (map trim ws)"
proof (induction ws arbitrary: ss)
  case (Cons w ws)
  show ?case
  proof (cases "check_path_segment (trim w)")
    case (Inl why)
    then show ?thesis by (simp add: check_path_segment_bad)
  next
    case (Inr u)
    then have "good_segment (trim w)" by (rule check_path_segment_good)
    with Inr Cons.IH [of "map trim ws"] Cons.IH show ?thesis
      by (cases "canonical_segments ws") auto
  qed
qed auto

lemma length_join_map_trim: "length (join d (map trim ws)) \<le> length (join d ws)"
  by (induction d ws rule: join.induct) (auto simp: length_trim add_mono)

lemma set_join: "set (join d ws) \<subseteq> insert d (\<Union> (set ` set ws))"
  by (induction d ws rule: join.induct) auto

lemma canonical_repo_shape:
  assumes "canonical_repo r = Inr r'"
  obtains ss where "r' = join slash ss" and "ss = map trim (split_on slash (trim r))"
    and "list_all good_segment ss" and "split_on slash r' = ss" and "trim r' = r'"
    and "length r' \<le> MAX_REPO_LEN"
proof -
  define ss where "ss = map trim (split_on slash (trim r))"
  from assms obtain ts where cs: "canonical_segments (split_on slash (trim r)) = Inr ts"
    and ts: "r' = join slash ts" and len: "length (trim r) \<le> MAX_REPO_LEN"
    by (auto simp: canonical_repo_def Let_def split: if_split_asm sum.split_asm)
  from cs have good: "list_all good_segment ss" and tss: "ts = ss"
    unfolding canonical_segments_ok ss_def by auto
  from ts tss have r': "r' = join slash ss" by simp
  have nosl: "slash \<notin> set w" if "w \<in> set ss" for w
  proof -
    from that obtain v where v: "v \<in> set (split_on slash (trim r))" "w = trim v"
      by (auto simp: ss_def)
    with split_on_no_sep set_trim [of v] show ?thesis by blast
  qed
  have "ss \<noteq> []" by (simp add: ss_def)
  then have sp: "split_on slash r' = ss" using nosl by (simp add: r' split_on_join)
  have "c = slash \<or> (\<exists>w\<in>set ss. c \<in> set w)" if "c \<in> set r'" for c
    using that set_join [of slash ss] by (auto simp: r')
  then have "\<not> is_whitespace c" if "c \<in> set r'" for c
    using that good slash_not_ws by (fastforce simp: list_all_iff good_segment_def good_char_def)
  then have "trimmed r'" by (rule no_ws_trimmed)
  then have "trim r' = r'" by (rule trim_id)
  moreover have "length r' \<le> MAX_REPO_LEN"
    using length_join_map_trim [of slash "split_on slash (trim r)"] len
    by (simp add: r' ss_def join_split_on)
  ultimately show ?thesis using that [OF r' ss_def good sp] by blast
qed

lemma canonical_repo_idem:
  assumes "canonical_repo r = Inr r'"
  shows "canonical_repo r' = Inr r'"
proof -
  from assms obtain ss where r': "r' = join slash ss" and good: "list_all good_segment ss"
    and sp: "split_on slash r' = ss" and tr: "trim r' = r'" and len: "length r' \<le> MAX_REPO_LEN"
    by (rule canonical_repo_shape)
  have mt: "map trim ss = ss"
    using good by (simp add: list_all_iff good_segment_trim map_idI)
  have "ss \<noteq> []" using sp by auto
  then obtain w ws where ss: "ss = w # ws" by (cases ss) auto
  with good have "w \<noteq> []" by (simp add: good_segment_def)
  then have "r' \<noteq> []" unfolding r' ss by (cases ws) auto
  moreover have "canonical_segments (split_on slash r') = Inr ss"
    using sp mt good by (simp add: canonical_segments_ok)
  ultimately show ?thesis
    using tr len by (simp add: canonical_repo_def r' [symmetric])
qed

lemma canonical_repo_tenant:
  assumes "canonical_repo r = Inr r'"
  shows "tenant_of r' = tenant_of r \<and> tenant_of r' = hd (split_on slash r') \<and>
    good_segment (tenant_of r') \<and> slash \<notin> set (tenant_of r')"
proof -
  from assms obtain ss where sm: "ss = map trim (split_on slash (trim r))"
    and good: "list_all good_segment ss" and sp: "split_on slash r' = ss" and tr: "trim r' = r'"
    by (rule canonical_repo_shape)
  have ne: "ss \<noteq> []" using sp by auto
  then have hg: "good_segment (hd ss)" using good by (cases ss) auto
  then have h: "trim (hd ss) = hd ss" "hd ss \<noteq> []"
    by (simp_all add: good_segment_trim good_segment_def)
  have "hd ss = trim (hd (split_on slash (trim r)))" by (simp add: sm hd_map)
  then have a: "tenant_of r = hd ss" using h by (simp add: tenant_of_def)
  have b: "tenant_of r' = hd ss" using h sp tr by (simp add: tenant_of_def)
  have "slash \<notin> set (hd ss)"
    using ne sp split_on_no_sep [of "hd ss" slash r'] by simp
  with a b hg sp show ?thesis by simp
qed

section \<open>Sanitized summaries\<close>

definition summary_char :: "nat \<Rightarrow> bool" where
  "summary_char c \<longleftrightarrow>
     \<not> is_control c \<and> c \<noteq> 0x2028 \<and> c \<noteq> 0x2029 \<and> \<not> is_invisible_formatting c"

fun no_double_space :: "str \<Rightarrow> bool" where
  "no_double_space (a # b # s) \<longleftrightarrow> \<not> (a = SPACE \<and> b = SPACE) \<and> no_double_space (b # s)"
| "no_double_space _ = True"

lemma no_double_space_snoc:
  "no_double_space (s @ [c]) \<longleftrightarrow> no_double_space s \<and> (s = [] \<or> \<not> (last s = SPACE \<and> c = SPACE))"
  by (induction s rule: no_double_space.induct) auto

lemma no_double_space_Cons:
  "no_double_space (a # s) \<longleftrightarrow> no_double_space s \<and> (s = [] \<or> \<not> (a = SPACE \<and> hd s = SPACE))"
  by (cases s) auto

lemma no_double_space_append: "no_double_space (a @ b) \<Longrightarrow> no_double_space a \<and> no_double_space b"
  by (induction a) (auto simp: no_double_space_Cons)

lemma summary_char_control_to_space:
  "\<not> is_invisible_formatting (control_to_space c) \<Longrightarrow> summary_char (control_to_space c)"
  by (auto simp: control_to_space_def summary_char_def SPACE_def is_control_def)

lemma sanitize_loop_inv:
  assumes "length out \<le> n" and "list_all summary_char out" and "no_double_space out"
    and "out \<noteq> [] \<and> last out = SPACE \<longrightarrow> sp"
  shows "length (sanitize_loop n cs sp out) \<le> n \<and> list_all summary_char (sanitize_loop n cs sp out)
    \<and> no_double_space (sanitize_loop n cs sp out)"
  using assms
proof (induction n cs sp out rule: sanitize_loop.induct)
  case (1 n sp out)
  then show ?case by simp
next
  case (2 n c0 cs sp out)
  then show ?case
    by (auto simp: Let_def no_double_space_snoc summary_char_control_to_space)
qed

lemma trim_infix: "\<exists>a b. s = a @ trim s @ b"
proof -
  obtain a t where at: "s = a @ t" "t = dropWhile is_whitespace s"
    by (metis takeWhile_dropWhile_id)
  obtain b u where bu: "rev t = b @ u" "u = dropWhile is_whitespace (rev t)"
    by (metis takeWhile_dropWhile_id)
  have "t = rev u @ rev b" using bu(1) by (metis rev_append rev_rev_ident)
  moreover have "trim s = rev u" using at(2) bu(2) by (simp add: trim_def)
  ultimately show ?thesis using at(1) by (metis append.assoc)
qed

lemma sanitize_summary_props:
  "length (sanitize_summary raw n) \<le> n \<and> list_all summary_char (sanitize_summary raw n) \<and>
   no_double_space (sanitize_summary raw n) \<and> trimmed (sanitize_summary raw n)"
proof -
  let ?o = "sanitize_loop n raw False []"
  have inv: "length ?o \<le> n" "list_all summary_char ?o" "no_double_space ?o"
    using sanitize_loop_inv [of "[]" n False raw] by auto
  obtain a b where ab: "?o = a @ trim ?o @ b" using trim_infix by blast
  have "no_double_space (trim ?o)"
    using inv(3) ab no_double_space_append by metis
  moreover have "length (trim ?o) \<le> n" using length_trim [of ?o] inv(1) by linarith
  moreover have "list_all summary_char (trim ?o)"
    using inv(2) set_trim [of ?o] by (auto simp: list_all_iff)
  ultimately show ?thesis by (simp add: sanitize_summary_def trimmed_trim)
qed

lemma sanitize_loop_id:
  assumes "length (out @ s) \<le> n" and "list_all summary_char s" and "no_double_space s"
    and "sp \<longrightarrow> s = [] \<or> hd s \<noteq> SPACE"
  shows "sanitize_loop n s sp out = out @ s"
  using assms
proof (induction s arbitrary: sp out)
  case (Cons c s)
  have c: "c \<noteq> ESC" "control_to_space c = c" "\<not> is_invisible_formatting c"
    using Cons.prems(2)
    by (auto simp: summary_char_def ESC_def is_control_def control_to_space_def)
  have nd: "no_double_space s" using Cons.prems(3) by (cases s) auto
  have "(c = SPACE) \<longrightarrow> s = [] \<or> hd s \<noteq> SPACE" using Cons.prems(3) by (cases s) auto
  with nd Cons.prems have "sanitize_loop n s (c = SPACE) (out @ [c]) = (out @ [c]) @ s"
    by (intro Cons.IH) auto
  with c Cons.prems show ?case by auto
qed simp

lemma sanitize_summary_id:
  "length s \<le> n \<Longrightarrow> list_all summary_char s \<Longrightarrow> no_double_space s \<Longrightarrow> trimmed s \<Longrightarrow>
   sanitize_summary s n = s"
  by (simp add: sanitize_summary_def sanitize_loop_id trim_id)

section \<open>The untrusted-work gate\<close>

lemma clause_ALL_complete [simp]: "c \<in> set clause_ALL"
  by (cases c) (simp_all add: clause_ALL_def)

lemma admits_untrusted_clauses:
  "admits_untrusted b \<longleftrightarrow> (\<forall>c. required_for_untrusted c \<longrightarrow> enforces b c)"
  by (auto simp: admits_untrusted_def unmet_for_untrusted_def filter_empty_conv)

lemma fully_conforming_clauses: "fully_conforming b \<longleftrightarrow> (\<forall>c. enforces b c)"
  by (auto simp: fully_conforming_def list_all_iff)

section \<open>Properties\<close>

lemma canonicalize_idem:
  assumes "canonicalize d = Inr d'"
  shows "canonicalize d' = Inr d'" and "validate d' = Inr ()"
proof -
  from assms obtain r' where req: "required_fields d = Inr ()"
    and cr: "canonical_repo (d_repo d) = Inr r'" and d': "d' = d\<lparr>d_repo := r'\<rparr>"
    by (auto simp: canonicalize_def split: sum.splits)
  from cr have idem: "canonical_repo r' = Inr r'" by (rule canonical_repo_idem)
  then have "trim r' \<noteq> []" by (auto simp: canonical_repo_def Let_def split: if_splits)
  with req have "required_fields d' = Inr ()"
    by (simp add: required_fields_def d' split: if_splits)
  with idem show "canonicalize d' = Inr d'" "validate d' = Inr ()"
    by (simp_all add: canonicalize_def validate_def d')
qed

text \<open>One tenant has one spelling: when a dispatch passes the door, the rewritten dispatch is a
  fixed point of canonicalization and still validates, its tenant is the tenant the total accessor
  already gave for the original spelling, and that tenant is the first path segment of the
  canonical \<open>repo\<close>, a good name without a slash. Nothing but \<open>repo\<close> is rewritten.\<close>

theorem canonicalize_one_tenant:
  assumes "canonicalize d = Inr d'"
  shows "canonicalize d' = Inr d' \<and> validate d' = Inr () \<and> tenant d' = tenant d \<and>
    tenant d' = hd (split_on slash (d_repo d')) \<and> good_segment (tenant d') \<and>
    slash \<notin> set (tenant d') \<and> d'\<lparr>d_repo := d_repo d\<rparr> = d"
proof -
  from assms obtain r' where cr: "canonical_repo (d_repo d) = Inr r'" and d': "d' = d\<lparr>d_repo := r'\<rparr>"
    by (auto simp: canonicalize_def split: sum.splits)
  have "tenant d = tenant_of (d_repo d)" "tenant d' = tenant_of r'" "d_repo d' = r'" "d'\<lparr>d_repo := d_repo d\<rparr> = d"
    by (simp_all add: tenant_def d')
  with canonicalize_idem [OF assms] canonical_repo_tenant [OF cr] show ?thesis by metis
qed

definition example_dispatch :: dispatch where
  "example_dispatch =
     \<lparr>d_repo = lit '' acme / widget '', d_change = lit ''c1'', d_tree_id = lit ''t1'',
      d_intent = [], d_author = lit ''ann'', d_source_url = lit ''http://h/s'',
      d_callback_url = lit ''http://h/c'', d_fetch_token = None\<rparr>"

lemma canonicalize_example:
  "canonicalize example_dispatch = Inr (example_dispatch\<lparr>d_repo := lit ''acme/widget''\<rparr>)"
  by (simp add: canonicalize_def example_dispatch_def required_fields_def canonical_repo_def
      trim_def is_whitespace_def check_path_segment_def is_control_def is_invisible_formatting_def
      slash_def backslash_def MAX_REPO_LEN_def Let_def)

theorem canonicalize_one_tenant_witness:
  "canonicalize example_dispatch = Inr (example_dispatch\<lparr>d_repo := lit ''acme/widget''\<rparr>) \<and>
   tenant (example_dispatch\<lparr>d_repo := lit ''acme/widget''\<rparr>) = tenant example_dispatch"
  using canonicalize_example canonicalize_one_tenant [OF canonicalize_example] by simp

text \<open>Whatever a job printed, the sanitized summary is at most \<open>max_chars\<close> characters of visible
  text on one line: no control character (so no escape and no newline), no line or paragraph
  separator, no bidirectional or zero-width formatting, no run of two spaces, and no whitespace at
  either end. Sanitizing it again changes nothing.\<close>

theorem sanitize_summary_safe:
  "length (sanitize_summary raw max_chars) \<le> max_chars \<and>
   list_all summary_char (sanitize_summary raw max_chars) \<and>
   no_double_space (sanitize_summary raw max_chars) \<and> trimmed (sanitize_summary raw max_chars) \<and>
   sanitize_summary (sanitize_summary raw max_chars) max_chars = sanitize_summary raw max_chars"
  using sanitize_summary_props [of raw max_chars]
  by (intro conjI) (auto intro: sanitize_summary_id)

text \<open>The scheduler's gate for untrusted authors is exactly the ten clauses whose absence reaches
  past the sandbox; the eight in-sandbox hardening clauses are waived, but every unmet clause,
  waivable or not, is still named by \<open>unmet_clauses\<close>, which is empty only for a fully conforming
  backend.\<close>

theorem admits_untrusted_exactly:
  "(admits_untrusted b \<longleftrightarrow>
      cross_tenant_safe b \<and> single_use b \<and> env_allowlist b \<and> metadata_blackhole b \<and> egress_deny b \<and>
      no_inbound b \<and> cpu_limit b \<and> memory_limit b \<and> wall_clock_timeout b \<and> output_cap b) \<and>
   set (unmet_clauses b) = description ` {c. \<not> enforces b c} \<and>
   set (unmet_for_untrusted b) = description ` {c. required_for_untrusted c \<and> \<not> enforces b c} \<and>
   (unmet_clauses b = [] \<longleftrightarrow> fully_conforming b)"
proof (intro conjI)
  show "admits_untrusted b \<longleftrightarrow>
      cross_tenant_safe b \<and> single_use b \<and> env_allowlist b \<and> metadata_blackhole b \<and> egress_deny b \<and>
      no_inbound b \<and> cpu_limit b \<and> memory_limit b \<and> wall_clock_timeout b \<and> output_cap b"
    by (auto simp: admits_untrusted_def unmet_for_untrusted_def clause_ALL_def)
  show "set (unmet_clauses b) = description ` {c. \<not> enforces b c}"
    by (auto simp: unmet_clauses_def)
  show "set (unmet_for_untrusted b) = description ` {c. required_for_untrusted c \<and> \<not> enforces b c}"
    by (auto simp: unmet_for_untrusted_def)
  show "unmet_clauses b = [] \<longleftrightarrow> fully_conforming b"
    by (auto simp: unmet_clauses_def filter_empty_conv fully_conforming_clauses)
qed

end
