(* ===== verification/Ci_Callback.thy ===== *)
theory Ci_Callback
  imports Ci_Proto
begin

text \<open>
  Verdict delivery (\<open>src/crates/hull-ci-control/src/callback.rs\<close>): the response classification,
  the backoff schedule and the retry loop. The HTTP transport is a parameter: \<open>post n\<close> is what the
  \<open>n\<close>-th attempt answered (\<open>Inl\<close> a transport error, \<open>Inr\<close> an HTTP status), so the theorems hold for
  every sequence of answers. Sleeping has no result and is not modelled; the progress reports the
  loop makes are returned as a list.
\<close>

section \<open>Responses and the backoff schedule\<close>

record callback_request =
  cb_url :: str
  cb_secret :: "str option"
  cb_verdict :: verdict
  cb_job_id :: str

definition is_success :: "nat \<Rightarrow> bool" where
  "is_success status \<longleftrightarrow> 200 \<le> status \<and> status < 300"

definition is_retryable :: "nat \<Rightarrow> bool" where
  "is_retryable status \<longleftrightarrow> status \<ge> 500 \<or> status = 408 \<or> status = 429"

record retry_policy =
  base :: duration
  max_delay :: duration
  max_attempts :: nat

definition retry_policy_default :: retry_policy where
  "retry_policy_default = \<lparr>base = secs 1, max_delay = secs (5 * 60), max_attempts = 12\<rparr>"

text \<open>\<open>Duration::checked_mul\<close> fails above \<open>u64::MAX\<close> seconds; \<open>1u32.checked_shl(n)\<close> fails for \<open>n\<close> of 32
  and more.\<close>

definition DURATION_MAX :: nat where
  "DURATION_MAX = (2 ^ 64 - 1) * 1000000000 + 999999999"

definition checked_mul :: "duration \<Rightarrow> nat \<Rightarrow> duration option" where
  "checked_mul d k = (if d * k \<le> DURATION_MAX then Some (d * k) else None)"

definition shl_one_u32 :: "nat \<Rightarrow> nat option" where
  "shl_one_u32 n = (if n < 32 then Some (2 ^ n) else None)"

definition delay_exp :: "retry_policy \<Rightarrow> nat \<Rightarrow> duration" where
  "delay_exp p attempt =
     (let factor = (case shl_one_u32 (attempt - 1) of Some f \<Rightarrow> f | None \<Rightarrow> 2 ^ 32 - 1)
      in min (case checked_mul (base p) factor of Some d \<Rightarrow> d | None \<Rightarrow> max_delay p) (max_delay p))"

text \<open>\<open>rnd\<close> is the \<open>u64\<close> that \<open>rand_u64()\<close> returned.\<close>

definition delay :: "retry_policy \<Rightarrow> nat \<Rightarrow> nat \<Rightarrow> duration" where
  "delay p attempt rnd =
     (let half = delay_exp p attempt div 2;
          spread = half mod 2 ^ 64;
          jitter = (if spread = 0 then 0 else rnd mod spread)
      in half + jitter)"

section \<open>The retry loop\<close>

datatype delivery =
    Delivered (attempts: nat) (dl_status: nat)
  | Parked (attempts: nat) (last_error: str)

fun is_delivered :: "delivery \<Rightarrow> bool" where
  "is_delivered (Delivered _ _) = True"
| "is_delivered (Parked _ _) = False"

record delivery_progress =
  dp_attempt :: nat
  dp_max_attempts :: nat
  dp_waiting :: bool

function deliver_loop :: "(nat \<Rightarrow> str + nat) \<Rightarrow> nat \<Rightarrow> nat \<Rightarrow> delivery \<times> delivery_progress list" where
  "deliver_loop post m attempt =
     (let p = \<lparr>dp_attempt = attempt, dp_max_attempts = m, dp_waiting = False\<rparr>;
          retry = (\<lambda>lst. if attempt \<ge> m then (Parked m lst, [p])
                   else case deliver_loop post m (Suc attempt) of (d, ps) \<Rightarrow> (d, p # p\<lparr>dp_waiting := True\<rparr> # ps))
      in case post attempt of
           Inr st \<Rightarrow>
             if is_success st then (Delivered attempt st, [p])
             else if \<not> is_retryable st
               then (Parked attempt (lit ''HTTP '' @ show_nat st @ lit '' (not retryable)''), [p])
             else retry (lit ''HTTP '' @ show_nat st)
         | Inl e \<Rightarrow> retry (lit ''callback transport failed: '' @ e))"
  by pat_completeness auto
termination
  by (relation "measure (\<lambda>(post, m, a). m - a)") auto

declare deliver_loop.simps [simp del]

definition deliver_reporting ::
    "(nat \<Rightarrow> str + nat) \<Rightarrow> retry_policy \<Rightarrow> delivery \<times> delivery_progress list" where
  "deliver_reporting post policy = deliver_loop post (max (max_attempts policy) 1) 1"

definition deliver :: "(nat \<Rightarrow> str + nat) \<Rightarrow> retry_policy \<Rightarrow> delivery" where
  "deliver post policy = fst (deliver_reporting post policy)"

section \<open>What one attempt answered\<close>

definition att_success :: "str + nat \<Rightarrow> bool" where
  "att_success r = (case r of Inl _ \<Rightarrow> False | Inr st \<Rightarrow> is_success st)"

definition att_retry :: "str + nat \<Rightarrow> bool" where
  "att_retry r = (case r of Inl _ \<Rightarrow> True | Inr st \<Rightarrow> \<not> is_success st \<and> is_retryable st)"

definition att_refused :: "str + nat \<Rightarrow> bool" where
  "att_refused r = (case r of Inl _ \<Rightarrow> False | Inr st \<Rightarrow> \<not> is_success st \<and> \<not> is_retryable st)"

lemma att_cases: "att_success r \<or> att_retry r \<or> att_refused r"
  by (auto simp: att_success_def att_retry_def att_refused_def split: sum.splits)

lemma deliver_loop_success:
  "att_success (post a) \<Longrightarrow> \<exists>st. post a = Inr st \<and> is_success st \<and> fst (deliver_loop post m a) = Delivered a st"
  by (auto simp: att_success_def deliver_loop.simps [of post m a] Let_def split: sum.splits)

lemma deliver_loop_refused:
  "att_refused (post a) \<Longrightarrow> \<exists>e. fst (deliver_loop post m a) = Parked a e"
  by (auto simp: att_refused_def deliver_loop.simps [of post m a] Let_def split: sum.splits)

lemma deliver_loop_retry:
  "att_retry (post a) \<Longrightarrow> a < m \<Longrightarrow>
     fst (deliver_loop post m a) = fst (deliver_loop post m (Suc a))"
  "att_retry (post a) \<Longrightarrow> m \<le> a \<Longrightarrow> \<exists>e. fst (deliver_loop post m a) = Parked m e"
  by (auto simp: att_retry_def deliver_loop.simps [of post m a] Let_def
      split: sum.splits if_splits prod.splits)

text \<open>The loop from attempt \<open>a\<close>: it skips the retryable prefix and stops at the first other answer,
  or at the last attempt.\<close>

lemma deliver_loop_result:
  assumes "a \<le> m"
  shows "\<exists>n. a \<le> n \<and> n \<le> m \<and> (\<forall>k. a \<le> k \<and> k < n \<longrightarrow> att_retry (post k)) \<and>
    ((\<exists>st. post n = Inr st \<and> is_success st \<and> fst (deliver_loop post m a) = Delivered n st) \<or>
     ((att_refused (post n) \<or> (n = m \<and> att_retry (post n))) \<and>
      (\<exists>e. fst (deliver_loop post m a) = Parked n e)))"
  using assms
proof (induction "m - a" arbitrary: a rule: less_induct)
  case less
  consider "att_success (post a)" | "att_refused (post a)" | "att_retry (post a)"
    using att_cases by blast
  then show ?case
  proof cases
    case 1
    then show ?thesis using deliver_loop_success [of post a m] less.prems
      by (intro exI [of _ a]) auto
  next
    case 2
    then show ?thesis using deliver_loop_refused [of post a m] less.prems
      by (intro exI [of _ a]) auto
  next
    case 3
    show ?thesis
    proof (cases "a = m")
      case True
      with 3 show ?thesis using deliver_loop_retry(2) [of post a m] by (intro exI [of _ a]) auto
    next
      case False
      with less.prems have lt: "a < m" by simp
      then have m: "m - Suc a < m - a" and le: "Suc a \<le> m" by auto
      obtain n where n: "Suc a \<le> n" "n \<le> m" "\<forall>k. Suc a \<le> k \<and> k < n \<longrightarrow> att_retry (post k)"
        and r: "(\<exists>st. post n = Inr st \<and> is_success st \<and> fst (deliver_loop post m (Suc a)) = Delivered n st) \<or>
          ((att_refused (post n) \<or> (n = m \<and> att_retry (post n))) \<and>
           (\<exists>e. fst (deliver_loop post m (Suc a)) = Parked n e))"
        using less.hyps [OF m le] by blast
      have "att_retry (post k)" if "a \<le> k" "k < n" for k
        using that n(3) 3 by (cases "k = a") auto
      with n(1,2) r deliver_loop_retry(1) [of post a m] 3 lt show ?thesis
        by (intro exI [of _ n]) auto
    qed
  qed
qed

lemma deliver_loop_progress:
  "a \<le> m \<Longrightarrow> filter (\<lambda>p. \<not> dp_waiting p) (snd (deliver_loop post m a)) =
     map (\<lambda>k. \<lparr>dp_attempt = k, dp_max_attempts = m, dp_waiting = False\<rparr>)
       [a..<Suc (attempts (fst (deliver_loop post m a)))]"
proof (induction "m - a" arbitrary: a rule: less_induct)
  case less
  let ?p = "\<lparr>dp_attempt = a, dp_max_attempts = m, dp_waiting = False\<rparr>"
  show ?case
  proof (cases "att_retry (post a) \<and> a < m")
    case False
    then have "snd (deliver_loop post m a) = [?p] \<and> attempts (fst (deliver_loop post m a)) = a"
      using less.prems
      by (auto simp: deliver_loop.simps [of post m a] att_retry_def Let_def
          split: sum.splits if_splits)
    then show ?thesis by simp
  next
    case True
    then have sm: "m - Suc a < m - a" "Suc a \<le> m" by auto
    obtain n where n: "Suc a \<le> n" "attempts (fst (deliver_loop post m (Suc a))) = n"
      using deliver_loop_result [OF sm(2), of post] by auto
    from True have e: "deliver_loop post m a =
        (case deliver_loop post m (Suc a) of (d, ps) \<Rightarrow> (d, ?p # ?p\<lparr>dp_waiting := True\<rparr> # ps))"
      by (auto simp: deliver_loop.simps [of post m a] att_retry_def Let_def
          split: sum.splits if_splits)
    obtain d ps where dp: "deliver_loop post m (Suc a) = (d, ps)" by (cases "deliver_loop post m (Suc a)")
    have "[a..<Suc n] = a # [Suc a..<Suc n]" using n(1) by (simp add: upt_conv_Cons del: upt_Suc)
    with e less.hyps [OF sm] n(2) show ?thesis by (simp add: dp del: upt_Suc)
  qed
qed

section \<open>Properties\<close>

text \<open>Delivery makes between one and \<open>max 1 max_attempts\<close> attempts and stops at the first one that
  is not retryable: the verdict counts as delivered exactly when that attempt was a success, and
  the job is parked when Hull refused it or when every attempt of the budget failed transiently.
  Every earlier attempt failed transiently, and each attempt made was announced once, in order.\<close>

theorem deliver_reporting_outcome:
  "\<exists>n. 1 \<le> n \<and> n \<le> max 1 (max_attempts policy) \<and>
     list_all (\<lambda>k. att_retry (post k)) [1..<n] \<and>
     ((att_success (post n) \<and> (\<exists>st. post n = Inr st \<and> deliver post policy = Delivered n st)) \<or>
      ((att_refused (post n) \<or> (att_retry (post n) \<and> n = max 1 (max_attempts policy))) \<and>
       (\<exists>e. deliver post policy = Parked n e))) \<and>
     map dp_attempt (filter (\<lambda>p. \<not> dp_waiting p) (snd (deliver_reporting post policy))) = [1..<Suc n]"
proof -
  let ?m = "max (max_attempts policy) 1"
  have m: "(1::nat) \<le> ?m" by simp
  from deliver_loop_result [OF m, of post] obtain n where
    n: "1 \<le> n" "n \<le> ?m" "\<forall>k. 1 \<le> k \<and> k < n \<longrightarrow> att_retry (post k)"
    and r: "(\<exists>st. post n = Inr st \<and> is_success st \<and> fst (deliver_loop post ?m 1) = Delivered n st) \<or>
      ((att_refused (post n) \<or> (n = ?m \<and> att_retry (post n))) \<and>
       (\<exists>e. fst (deliver_loop post ?m 1) = Parked n e))"
    by blast
  have "attempts (fst (deliver_loop post ?m 1)) = n" using r by auto
  then have "filter (\<lambda>p. \<not> dp_waiting p) (snd (deliver_loop post ?m 1)) =
      map (\<lambda>k. \<lparr>dp_attempt = k, dp_max_attempts = ?m, dp_waiting = False\<rparr>) [1..<Suc n]"
    using deliver_loop_progress [OF m, of post] by simp
  then have "map dp_attempt (filter (\<lambda>p. \<not> dp_waiting p) (snd (deliver_loop post ?m 1))) = [1..<Suc n]"
    by (simp add: comp_def)
  moreover have "list_all (\<lambda>k. att_retry (post k)) [1..<n]"
    using n(3) by (auto simp: list_all_iff)
  ultimately show ?thesis
    using n(1,2) r
    by (intro exI [of _ n])
       (auto simp: deliver_def deliver_reporting_def att_success_def max.commute)
qed

text \<open>The backoff never exceeds the configured ceiling and never drops below half of the
  exponential step, whatever the random draw; the exponential step itself never shrinks from one
  attempt to the next, even past the point where the shift or the multiplication would overflow.\<close>

theorem delay_bounds:
  "delay_exp p attempt div 2 \<le> delay p attempt rnd \<and> delay p attempt rnd \<le> delay_exp p attempt \<and>
   delay_exp p attempt \<le> max_delay p \<and> delay_exp p attempt \<le> delay_exp p (attempt + k)"
proof -
  define f :: "nat \<Rightarrow> nat" where
    "f a = (case shl_one_u32 (a - 1) of Some g \<Rightarrow> g | None \<Rightarrow> 2 ^ 32 - 1)" for a
  have jit: "(if s mod 2 ^ 64 = 0 then 0 else rnd mod (s mod 2 ^ 64)) \<le> (s::nat)" for s
  proof (cases "s mod 2 ^ 64 = 0")
    case False
    then have "rnd mod (s mod 2 ^ 64) < s mod 2 ^ 64" by simp
    also have "\<dots> \<le> s" by (rule mod_less_eq_dividend)
    finally show ?thesis using False by simp
  qed simp
  have "(2::nat) ^ n \<le> 2 ^ 32 - 1" if "n < 32" for n
  proof -
    have "(2::nat) ^ n \<le> 2 ^ 31" using that by (intro power_increasing) auto
    then show ?thesis by simp
  qed
  then have "f attempt \<le> f (attempt + k)"
    by (auto simp: f_def shl_one_u32_def intro: power_increasing)
  then have mono: "base p * f attempt \<le> base p * f (attempt + k)" by simp
  have de: "delay_exp p a = min (if base p * f a \<le> DURATION_MAX then base p * f a else max_delay p) (max_delay p)" for a
    unfolding delay_exp_def checked_mul_def f_def Let_def by simp
  have "min (if A \<le> D then A else M) M \<le> min (if B \<le> D then B else M) M" if "A \<le> B" for A B D M :: nat
    using that by (auto simp: min_def)
  from this [OF mono] have "delay_exp p attempt \<le> delay_exp p (attempt + k)"
    unfolding de .
  moreover have "delay_exp p attempt \<le> max_delay p" by (simp add: de)
  moreover define h where "h = delay_exp p attempt div 2"
  moreover have "h + h \<le> delay_exp p attempt" by (simp add: h_def)
  moreover obtain j where "delay p attempt rnd = h + j" and "j \<le> h"
    using jit [of h] that by (simp only: delay_def Let_def h_def)
  ultimately show ?thesis by linarith
qed

end
