(* ===== verification/Ci_Model.thy ===== *)
theory Ci_Model
  imports Ci_Callback
begin

text \<open>
  The job and step model (\<open>src/crates/hull-ci-control/src/model.rs\<close>): the two state enums with
  their transition tables, the step specification, the step and the job records and their
  methods. Constructors of \<open>JobState\<close> carry the prefix \<open>J\<close>, those of \<open>StepState\<close> the prefix \<open>S\<close>;
  a field \<open>f\<close> of \<open>StepSpec\<close>, \<open>Step\<close> and \<open>Job\<close> is \<open>sp_f\<close>, \<open>s_f\<close> and \<open>j_f\<close>. The \<open>u32\<close> attempt counters
  are \<open>nat\<close>. The last section shows what the tables allow along any run of transitions.
\<close>

section \<open>States\<close>

type_synonym job_id = str
type_synonym step_id = str
type_synonym step_key = str

datatype job_state =
    JQueued | JFetching | JPlanning | JRunning | JGreen | JRed | JErrored | JReported | JReportFailed

fun from_status :: "status \<Rightarrow> job_state" where
  "from_status Green = JGreen"
| "from_status Red = JRed"
| "from_status Errored = JErrored"

definition has_verdict :: "job_state \<Rightarrow> bool" where
  "has_verdict s = (case s of
      JGreen \<Rightarrow> True | JRed \<Rightarrow> True | JErrored \<Rightarrow> True | JReported \<Rightarrow> True | JReportFailed \<Rightarrow> True
    | _ \<Rightarrow> False)"

definition is_finished :: "job_state \<Rightarrow> bool" where
  "is_finished s = has_verdict s"

definition owes_a_verdict :: "job_state \<Rightarrow> bool" where
  "owes_a_verdict s \<longleftrightarrow> s \<noteq> JReported"

fun job_state_as_str :: "job_state \<Rightarrow> str" where
  "job_state_as_str JQueued = lit ''queued''"
| "job_state_as_str JFetching = lit ''fetching''"
| "job_state_as_str JPlanning = lit ''planning''"
| "job_state_as_str JRunning = lit ''running''"
| "job_state_as_str JGreen = lit ''green''"
| "job_state_as_str JRed = lit ''red''"
| "job_state_as_str JErrored = lit ''errored''"
| "job_state_as_str JReported = lit ''reported''"
| "job_state_as_str JReportFailed = lit ''report_failed''"

definition job_can_transition_to :: "job_state \<Rightarrow> job_state \<Rightarrow> bool" where
  "job_can_transition_to s n \<longleftrightarrow>
     (s = JQueued \<and> n = JFetching)
   \<or> (s = JFetching \<and> n = JPlanning)
   \<or> (s = JPlanning \<and> n = JRunning)
   \<or> (s = JRunning \<and> n \<in> {JGreen, JRed, JErrored})
   \<or> (s \<in> {JQueued, JFetching, JPlanning} \<and> n = JErrored)
   \<or> (s \<in> {JGreen, JRed, JErrored} \<and> n \<in> {JReported, JReportFailed})
   \<or> (s = JReportFailed \<and> n = JReported)"

datatype step_state =
    SPending | SReady | SLeased | SRunning | SPassed | SFailed | SErrored | SCached | SSkipped

definition is_terminal :: "step_state \<Rightarrow> bool" where
  "is_terminal s = (case s of
      SPassed \<Rightarrow> True | SFailed \<Rightarrow> True | SErrored \<Rightarrow> True | SCached \<Rightarrow> True | SSkipped \<Rightarrow> True
    | _ \<Rightarrow> False)"

definition is_in_flight :: "step_state \<Rightarrow> bool" where
  "is_in_flight s \<longleftrightarrow> \<not> is_terminal s"

fun step_state_as_str :: "step_state \<Rightarrow> str" where
  "step_state_as_str SPending = lit ''pending''"
| "step_state_as_str SReady = lit ''ready''"
| "step_state_as_str SLeased = lit ''leased''"
| "step_state_as_str SRunning = lit ''running''"
| "step_state_as_str SPassed = lit ''passed''"
| "step_state_as_str SFailed = lit ''failed''"
| "step_state_as_str SErrored = lit ''errored''"
| "step_state_as_str SCached = lit ''cached''"
| "step_state_as_str SSkipped = lit ''skipped''"

definition step_can_transition_to :: "step_state \<Rightarrow> step_state \<Rightarrow> bool" where
  "step_can_transition_to s n \<longleftrightarrow>
     (s = SPending \<and> n = SReady)
   \<or> (s = SReady \<and> n = SLeased)
   \<or> (s = SLeased \<and> n = SRunning)
   \<or> (s \<in> {SLeased, SRunning} \<and> n \<in> {SPassed, SFailed, SErrored})
   \<or> (s \<in> {SLeased, SRunning} \<and> n = SReady)
   \<or> (s \<in> {SPending, SReady} \<and> n = SCached)
   \<or> (s \<in> {SPending, SReady} \<and> n = SFailed)
   \<or> (s \<in> {SPending, SReady, SLeased, SRunning} \<and> n = SSkipped)
   \<or> (s \<in> {SPending, SReady} \<and> n = SErrored)"

datatype state_error =
    JobTransition (je_from: str) (je_to: str)
  | StepTransition (se_from: str) (se_to: str)

section \<open>Steps\<close>

record step_spec =
  sp_name :: str
  sp_argv :: "str list"
  sp_image :: str
  sp_timeout :: "duration option"
  sp_continue_on_error :: bool
  sp_needs :: "str list"
  sp_secrets :: "str list"
  sp_inputs :: "str list"
  sp_env_allowlist :: "(str \<times> str) list"

definition step_spec_new :: "str \<Rightarrow> str list \<Rightarrow> str \<Rightarrow> step_spec" where
  "step_spec_new name argv img =
     \<lparr>sp_name = name, sp_argv = argv, sp_image = img, sp_timeout = None,
      sp_continue_on_error = False, sp_needs = [], sp_secrets = [], sp_inputs = [],
      sp_env_allowlist = []\<rparr>"

record step =
  s_id :: step_id
  s_spec :: step_spec
  s_state :: step_state
  s_attempt :: nat
  s_node_id :: "str option"
  s_lease_expires_at :: "instant option"
  s_ready_at :: "instant option"
  s_started_at :: "instant option"
  s_finished_at :: "instant option"
  s_exit_code :: "int option"
  s_log_key :: "str option"
  s_detail :: str
  s_error_reason :: "reason option"
  s_memo_key :: "step_key option"

definition step_new :: "step_id \<Rightarrow> step_spec \<Rightarrow> step" where
  "step_new i spec =
     \<lparr>s_id = i, s_spec = spec, s_state = SPending, s_attempt = 0, s_node_id = None,
      s_lease_expires_at = None, s_ready_at = None, s_started_at = None, s_finished_at = None,
      s_exit_code = None, s_log_key = None, s_detail = [], s_error_reason = None, s_memo_key = None\<rparr>"

definition step_transition :: "step \<Rightarrow> step_state \<Rightarrow> state_error + step" where
  "step_transition s n =
     (if \<not> step_can_transition_to (s_state s) n
      then Inl (StepTransition (step_state_as_str (s_state s)) (step_state_as_str n))
      else Inr (s\<lparr>s_state := n\<rparr>))"

definition failed_fatally :: "step \<Rightarrow> bool" where
  "failed_fatally s \<longleftrightarrow> s_state s = SFailed \<and> \<not> sp_continue_on_error (s_spec s)"

section \<open>Jobs\<close>

record job =
  j_id :: job_id
  j_dispatch :: dispatch
  j_author_class :: author_class
  j_state :: job_state
  j_steps :: "step list"
  j_verdict :: "verdict option"
  j_created_at :: instant
  j_deadline_at :: instant
  j_report_attempts :: nat
  j_callback_urls :: "str list"
  j_delivery :: "delivery_progress option"
  j_delivering :: bool
  j_last_delivery_at :: "instant option"
  j_settled_at :: "instant option"

definition add_callback_url :: "job \<Rightarrow> str \<Rightarrow> job \<times> bool" where
  "add_callback_url j url =
     (if url \<in> set (j_callback_urls j) then (j, False)
      else (j\<lparr>j_callback_urls := j_callback_urls j @ [url]\<rparr>, True))"

definition job_new :: "job_id \<Rightarrow> dispatch \<Rightarrow> author_class \<Rightarrow> instant \<Rightarrow> duration \<Rightarrow> job" where
  "job_new i d ac now job_timeout =
     \<lparr>j_id = i, j_dispatch = d, j_author_class = ac, j_state = JQueued, j_steps = [],
      j_verdict = None, j_created_at = now, j_deadline_at = now + job_timeout,
      j_report_attempts = 0, j_callback_urls = [d_callback_url d], j_delivery = None,
      j_delivering = False, j_last_delivery_at = None, j_settled_at = None\<rparr>"

definition awaits_redelivery :: "job \<Rightarrow> instant \<Rightarrow> duration \<Rightarrow> bool" where
  "awaits_redelivery j now cooldown \<longleftrightarrow>
     j_state j = JReportFailed \<and> \<not> j_delivering j \<and>
     (case j_last_delivery_at j of None \<Rightarrow> True | Some t \<Rightarrow> now - t \<ge> cooldown)"

text \<open>\<open>TreeKey\<close> is the pair of the repository and the tree id.\<close>

definition job_key :: "job \<Rightarrow> str \<times> str" where
  "job_key j = (d_repo (j_dispatch j), d_tree_id (j_dispatch j))"

definition job_transition_at :: "job \<Rightarrow> job_state \<Rightarrow> instant \<Rightarrow> state_error + job" where
  "job_transition_at j n now =
     (if \<not> job_can_transition_to (j_state j) n
      then Inl (JobTransition (job_state_as_str (j_state j)) (job_state_as_str n))
      else let j' = j\<lparr>j_state := n\<rparr> in
        Inr (if is_finished n \<and> j_settled_at j' = None then j'\<lparr>j_settled_at := Some now\<rparr> else j'))"

definition job_step :: "job \<Rightarrow> step_id \<Rightarrow> step option" where
  "job_step j i = find (\<lambda>s. s_id s = i) (j_steps j)"

text \<open>\<open>step_mut\<close> followed by writes through the reference.\<close>

definition job_step_mut :: "job \<Rightarrow> step_id \<Rightarrow> (step \<Rightarrow> step) \<Rightarrow> job" where
  "job_step_mut j i f = j\<lparr>j_steps := update_first (\<lambda>s. s_id s = i) f (j_steps j)\<rparr>"

text \<open>\<open>let _ = x.transition(n)\<close>: an illegal transition leaves the value alone.\<close>

definition step_try :: "step \<Rightarrow> step_state \<Rightarrow> step" where
  "step_try s n = (case step_transition s n of Inl _ \<Rightarrow> s | Inr s' \<Rightarrow> s')"

definition job_try :: "job \<Rightarrow> job_state \<Rightarrow> instant \<Rightarrow> job" where
  "job_try j n now = (case job_transition_at j n now of Inl _ \<Rightarrow> j | Inr j' \<Rightarrow> j')"

section \<open>Runs of transitions\<close>

text \<open>A terminal step never leaves its state, and every legal step transition either moves forward
  in the life of a step or returns a leased step to the queue.\<close>

inductive step_run :: "step_state \<Rightarrow> step_state \<Rightarrow> bool" where
  here: "step_run s s"
| move: "step_run s t \<Longrightarrow> step_can_transition_to t u \<Longrightarrow> step_run s u"

inductive job_run :: "job \<Rightarrow> job \<Rightarrow> bool" where
  stay: "job_run j j"
| move: "job_run j k \<Longrightarrow> job_transition_at k n now = Inr l \<Longrightarrow> job_run j l"

lemma terminal_no_step: "is_terminal s \<Longrightarrow> \<not> step_can_transition_to s n"
  by (cases s) (auto simp: is_terminal_def step_can_transition_to_def)

lemma step_transition_Inr:
  "step_transition s n = Inr s' \<longleftrightarrow> step_can_transition_to (s_state s) n \<and> s' = s\<lparr>s_state := n\<rparr>"
  by (auto simp: step_transition_def)

lemma step_transition_Inl:
  "step_transition s n = Inl e \<Longrightarrow> \<not> step_can_transition_to (s_state s) n"
  by (auto simp: step_transition_def split: if_splits)

lemma step_try_cases:
  "step_try s n = (if step_can_transition_to (s_state s) n then s\<lparr>s_state := n\<rparr> else s)"
  by (simp add: step_try_def step_transition_def)

lemma job_try_cases:
  "job_try j n now =
     (if job_can_transition_to (j_state j) n
      then j\<lparr>j_state := n, j_settled_at :=
        (if is_finished n \<and> j_settled_at j = None then Some now else j_settled_at j)\<rparr> else j)"
  by (simp add: job_try_def job_transition_at_def Let_def)

lemma job_transition_Inr:
  "job_transition_at j n now = Inr j' \<Longrightarrow>
     job_can_transition_to (j_state j) n \<and> j_state j' = n \<and> j_verdict j' = j_verdict j \<and>
     (case j_settled_at j of Some t \<Rightarrow> j_settled_at j' = Some t
        | None \<Rightarrow> j_settled_at j' = (if is_finished n then Some now else None))"
  by (auto simp: job_transition_at_def Let_def split: if_splits option.splits)

lemma step_run_from_terminal: "step_run s t \<Longrightarrow> is_terminal s \<Longrightarrow> t = s"
  by (induction rule: step_run.induct) (auto dest: terminal_no_step)

text \<open>A decided job stays decided, keeps its first settlement time, and its colour is fixed until it
  is only a delivery state.\<close>

definition settled_ok :: "job \<Rightarrow> bool" where
  "settled_ok j \<longleftrightarrow> (j_settled_at j \<noteq> None \<longleftrightarrow> is_finished (j_state j))"

lemma job_transition_finished:
  "job_can_transition_to s n \<Longrightarrow> is_finished s \<Longrightarrow> is_finished n \<and> n \<in> {JReported, JReportFailed}"
  by (cases s) (auto simp: job_can_transition_to_def is_finished_def has_verdict_def)

lemma job_transition_settled_ok:
  "job_transition_at j n now = Inr j' \<Longrightarrow> settled_ok j \<Longrightarrow> settled_ok j'"
  using job_transition_Inr [of j n now j'] job_transition_finished [of "j_state j" n]
  by (auto simp: settled_ok_def split: option.splits if_splits)

lemma job_run_settled_ok: "job_run j k \<Longrightarrow> settled_ok j \<Longrightarrow> settled_ok k"
  by (induction rule: job_run.induct) (auto intro: job_transition_settled_ok)

lemma job_run_settled_at: "job_run j k \<Longrightarrow> j_settled_at j = Some t \<Longrightarrow> j_settled_at k = Some t"
  by (induction rule: job_run.induct) (auto dest!: job_transition_Inr)

lemma job_run_reported: "job_run j k \<Longrightarrow> j_state j = JReported \<Longrightarrow> j_state k = JReported"
proof (induction rule: job_run.induct)
  case (move j k n now l)
  then show ?case by (auto dest!: job_transition_Inr simp: job_can_transition_to_def)
qed

lemma job_run_decided:
  "job_run j k \<Longrightarrow> is_finished (j_state j) \<Longrightarrow>
     j_state k = j_state j \<or> j_state k \<in> {JReported, JReportFailed}"
proof (induction rule: job_run.induct)
  case (move j k n now l)
  then have "is_finished (j_state k)"
    by (auto simp: is_finished_def has_verdict_def)
  with move show ?case using job_transition_Inr job_transition_finished by metis
qed auto

section \<open>Properties\<close>

text \<open>Along any run of legal transitions of a new job: it has a settlement time exactly when it
  has decided, the first settlement time is never rewritten (a redelivery does not renew the
  retention clock), a decided job never runs again and never changes colour (it only moves to a
  delivery state), and \<open>reported\<close> is final.\<close>

theorem job_run_life:
  assumes "job_run (job_new i d ac t0 tmo) j" and "job_run j k"
  shows "(j_settled_at k \<noteq> None \<longleftrightarrow> is_finished (j_state k)) \<and>
    (\<forall>t. j_settled_at j = Some t \<longrightarrow> j_settled_at k = Some t) \<and>
    (is_finished (j_state j) \<longrightarrow> j_state k = j_state j \<or> j_state k \<in> {JReported, JReportFailed}) \<and>
    (j_state j = JReported \<longrightarrow> j_state k = JReported)"
proof -
  have "settled_ok (job_new i d ac t0 tmo)"
    by (simp add: settled_ok_def job_new_def is_finished_def has_verdict_def)
  with assms have "settled_ok k" by (blast intro: job_run_settled_ok)
  with assms(2) show ?thesis
    by (auto simp: settled_ok_def dest: job_run_settled_at job_run_decided job_run_reported)
qed

definition example_job :: job where
  "example_job = job_new (lit ''job_1'') example_dispatch Member 0 (secs 3600)"

lemma example_job_run:
  "job_run example_job (example_job\<lparr>j_state := JErrored, j_settled_at := Some 5\<rparr>)"
  by (rule job_run.move [OF job_run.stay, of _ JErrored 5])
     (simp add: job_transition_at_def example_job_def job_new_def job_can_transition_to_def
       is_finished_def has_verdict_def)

theorem job_run_life_witness:
  "is_finished (j_state (example_job\<lparr>j_state := JErrored, j_settled_at := Some 5\<rparr>)) \<and>
   j_settled_at (example_job\<lparr>j_state := JErrored, j_settled_at := Some 5\<rparr>) = Some 5"
  using job_run_life [OF example_job_run [unfolded example_job_def] job_run.stay]
  by (simp add: example_job_def is_finished_def has_verdict_def)

end
