(* ===== verification/Ci_Timeouts.thy ===== *)
theory Ci_Timeouts
  imports Ci_Model
begin

text \<open>
  The clocks (\<open>src/crates/hull-ci-control/src/timeouts.rs\<close>): the configured limits, which clock a step
  is under, and the sweep that turns an overdue step into \<open>errored\<close> with the reason of the clock that
  fired. The properties state that a sweep errors exactly the overdue steps and leaves no deadline
  in the past, so the driver that sleeps until the next deadline always makes progress.
\<close>

section \<open>Limits and expiries\<close>

record timeouts =
  t_step :: duration
  t_job :: duration
  t_queue_wait :: duration
  t_fetch :: duration
  t_max_step :: duration

definition timeouts_default :: timeouts where
  "timeouts_default =
     \<lparr>t_step = secs (20 * 60), t_job = secs (60 * 60), t_queue_wait = secs (30 * 60),
      t_fetch = secs (5 * 60), t_max_step = secs (60 * 60)\<rparr>"

definition step_timeout :: "timeouts \<Rightarrow> duration option \<Rightarrow> duration" where
  "step_timeout t requested = min (case requested of Some d \<Rightarrow> d | None \<Rightarrow> t_step t) (t_max_step t)"

datatype expiry = ExStep | ExJob | ExQueueWait | ExFetch

fun expiry_reason :: "expiry \<Rightarrow> reason" where
  "expiry_reason ExStep = Timeout"
| "expiry_reason ExJob = Timeout"
| "expiry_reason ExQueueWait = Capacity"
| "expiry_reason ExFetch = Infra"

fun expiry_as_str :: "expiry \<Rightarrow> str" where
  "expiry_as_str ExStep = lit ''step wall clock''"
| "expiry_as_str ExJob = lit ''job wall clock''"
| "expiry_as_str ExQueueWait = lit ''queue wait''"
| "expiry_as_str ExFetch = lit ''source fetch''"

definition human :: "duration \<Rightarrow> str" where
  "human d =
     (let s = as_secs d; mins = s div 60; rem = s mod 60
      in if mins > 0 \<and> rem = 0 then show_nat mins @ lit ''m'' else show_nat s @ lit ''s'')"

text \<open>The em dash of the messages is U+2014.\<close>

definition em_dash :: str where
  "em_dash = lit '' '' @ [0x2014] @ lit '' ''"

definition expiry_verdict :: "expiry \<Rightarrow> duration \<Rightarrow> verdict" where
  "expiry_verdict e limit =
     verdict_errored (expiry_reason e)
       (expiry_as_str e @ lit '' exceeded '' @ human limit @ em_dash @ lit ''no verdict produced'')"

section \<open>The sweep\<close>

definition step_deadline :: "step \<Rightarrow> timeouts \<Rightarrow> (instant \<times> expiry) option" where
  "step_deadline s t =
     (case s_state s of
        SPending \<Rightarrow> map_option (\<lambda>at. (at + t_queue_wait t, ExQueueWait)) (s_ready_at s)
      | SReady \<Rightarrow> map_option (\<lambda>at. (at + t_queue_wait t, ExQueueWait)) (s_ready_at s)
      | SLeased \<Rightarrow> map_option (\<lambda>at. (at + step_timeout t (sp_timeout (s_spec s)), ExStep)) (s_started_at s)
      | SRunning \<Rightarrow> map_option (\<lambda>at. (at + step_timeout t (sp_timeout (s_spec s)), ExStep)) (s_started_at s)
      | _ \<Rightarrow> None)"

text \<open>One iteration of the loop: the step as it leaves it, and the expiry it pushed, if any.\<close>

definition sweep_step :: "timeouts \<Rightarrow> instant \<Rightarrow> step \<Rightarrow> step \<times> (step_id \<times> expiry) option" where
  "sweep_step t now s =
     (case step_deadline s t of
        None \<Rightarrow> (s, None)
      | Some (deadline, e) \<Rightarrow>
          if now < deadline then (s, None)
          else case step_transition s SErrored of
              Inl _ \<Rightarrow> (s, None)
            | Inr s' \<Rightarrow>
                (s'\<lparr>s_error_reason := Some (expiry_reason e), s_finished_at := Some now,
                    s_detail := expiry_as_str e @ lit '' exceeded '' @
                      human (if e = ExQueueWait then t_queue_wait t
                             else step_timeout t (sp_timeout (s_spec s)))\<rparr>,
                 Some (s_id s, e)))"

definition sweep :: "step list \<Rightarrow> timeouts \<Rightarrow> instant \<Rightarrow> step list \<times> (step_id \<times> expiry) list" where
  "sweep steps t now =
     (map (\<lambda>s. fst (sweep_step t now s)) steps,
      List.map_filter (\<lambda>s. snd (sweep_step t now s)) steps)"

definition next_step_deadline :: "step list \<Rightarrow> timeouts \<Rightarrow> instant option" where
  "next_step_deadline steps t =
     (case List.map_filter (\<lambda>s. map_option fst (step_deadline s t)) steps of
        [] \<Rightarrow> None
      | d # ds \<Rightarrow> Some (fold min ds d))"

section \<open>Lemmas\<close>

definition overdue :: "timeouts \<Rightarrow> instant \<Rightarrow> step \<Rightarrow> bool" where
  "overdue t now s = (case step_deadline s t of None \<Rightarrow> False | Some (d, _) \<Rightarrow> d \<le> now)"

lemma deadline_can_error:
  "step_deadline s t = Some p \<Longrightarrow> step_can_transition_to (s_state s) SErrored"
  by (auto simp: step_deadline_def step_can_transition_to_def split: step_state.splits)

lemma sweep_step_not_overdue: "\<not> overdue t now s \<Longrightarrow> sweep_step t now s = (s, None)"
  by (auto simp: overdue_def sweep_step_def split: option.splits)

lemma sweep_step_overdue:
  assumes "overdue t now s"
  obtains d e s' where "step_deadline s t = Some (d, e)" and "sweep_step t now s = (s', Some (s_id s, e))"
    and "s_state s' = SErrored" and "s_error_reason s' = Some (expiry_reason e)"
    and "s_id s' = s_id s" and "s_spec s' = s_spec s" and "s_finished_at s' = Some now"
    and "s_node_id s' = s_node_id s"
proof -
  from assms obtain d e where d: "step_deadline s t = Some (d, e)" "\<not> now < d"
    by (auto simp: overdue_def split: option.splits)
  then show ?thesis
    using that deadline_can_error [OF d(1)] by (simp add: sweep_step_def step_transition_def)
qed

lemma step_deadline_errored: "s_state s = SErrored \<Longrightarrow> step_deadline s t = None"
  by (simp add: step_deadline_def)

lemma sweep_step_deadline_future:
  "step_deadline (fst (sweep_step t now s)) t = Some (d, e) \<Longrightarrow> now < d"
proof (cases "overdue t now s")
  case True
  assume a: "step_deadline (fst (sweep_step t now s)) t = Some (d, e)"
  from True obtain d' e' s' where "sweep_step t now s = (s', Some (s_id s, e'))" "s_state s' = SErrored"
    by (rule sweep_step_overdue) auto
  with a show ?thesis by (simp add: step_deadline_errored)
next
  case False
  assume "step_deadline (fst (sweep_step t now s)) t = Some (d, e)"
  with False show ?thesis by (auto simp: sweep_step_not_overdue overdue_def)
qed

lemma fold_min_gt: "now < d \<Longrightarrow> list_all (\<lambda>x. now < x) ds \<Longrightarrow> now < fold min ds (d::nat)"
  by (induction ds arbitrary: d) auto

lemma sweep_step_frame [simp]:
  "s_id (fst (sweep_step t now s)) = s_id s" "s_spec (fst (sweep_step t now s)) = s_spec s"
  by (auto simp: sweep_step_def step_transition_def split: option.splits prod.splits sum.splits if_splits)

lemma sweep_step_run: "step_run (s_state s) (s_state (fst (sweep_step t now s)))"
proof (cases "overdue t now s")
  case True
  then obtain d e s' where "step_deadline s t = Some (d, e)" "sweep_step t now s = (s', Some (s_id s, e))"
    "s_state s' = SErrored" by (rule sweep_step_overdue)
  then show ?thesis by (auto intro: step_run.intros deadline_can_error)
qed (simp add: sweep_step_not_overdue step_run.here)

section \<open>Properties\<close>

text \<open>A sweep errors exactly the overdue steps, in order, each with the reason of the clock it was
  under (queue wait: capacity, step wall clock: timeout) and never as a failure of the code; every
  other step is left untouched. Afterwards every armed deadline lies strictly in the future, so a
  driver that sleeps until \<open>next_step_deadline\<close> cannot spin.\<close>

theorem sweep_exact:
  "map fst (snd (sweep steps t now)) = map s_id (filter (overdue t now) steps) \<and>
   list_all2 (\<lambda>s s'.
       if overdue t now s
       then s_state s' = SErrored \<and> s_id s' = s_id s \<and> s_spec s' = s_spec s \<and>
            s_error_reason s' = Some (if s_state s \<in> {SPending, SReady} then Capacity else Timeout)
       else s' = s) steps (fst (sweep steps t now)) \<and>
   (case next_step_deadline (fst (sweep steps t now)) t of None \<Rightarrow> True | Some d \<Rightarrow> now < d)"
proof (intro conjI)
  have ov: "\<exists>e. snd (sweep_step t now s) = Some (s_id s, e)" if "overdue t now s" for s
    using that by (rule sweep_step_overdue) auto
  have "map fst (List.map_filter (\<lambda>s. snd (sweep_step t now s)) steps) =
      map s_id (filter (overdue t now) steps)"
  proof (induction steps)
    case (Cons s steps)
    then show ?case
      using ov [of s] by (cases "overdue t now s") (auto simp: map_filter_simps sweep_step_not_overdue)
  qed (simp add: map_filter_simps)
  then show "map fst (snd (sweep steps t now)) = map s_id (filter (overdue t now) steps)"
    by (simp add: sweep_def)
next
  have "if overdue t now s
       then s_state (fst (sweep_step t now s)) = SErrored \<and> s_id (fst (sweep_step t now s)) = s_id s \<and>
            s_spec (fst (sweep_step t now s)) = s_spec s \<and> s_error_reason (fst (sweep_step t now s)) =
            Some (if s_state s \<in> {SPending, SReady} then Capacity else Timeout)
       else fst (sweep_step t now s) = s" for s
  proof (cases "overdue t now s")
    case True
    then obtain d e s' where e: "step_deadline s t = Some (d, e)" "sweep_step t now s = (s', Some (s_id s, e))"
      "s_state s' = SErrored" "s_error_reason s' = Some (expiry_reason e)" "s_id s' = s_id s" "s_spec s' = s_spec s"
      by (rule sweep_step_overdue)
    then have "expiry_reason e = (if s_state s \<in> {SPending, SReady} then Capacity else Timeout)"
      by (auto simp: step_deadline_def split: step_state.splits)
    with True e show ?thesis by simp
  qed (simp add: sweep_step_not_overdue)
  then show "list_all2 (\<lambda>s s'. if overdue t now s
       then s_state s' = SErrored \<and> s_id s' = s_id s \<and> s_spec s' = s_spec s \<and>
            s_error_reason s' = Some (if s_state s \<in> {SPending, SReady} then Capacity else Timeout)
       else s' = s) steps (fst (sweep steps t now))"
    by (simp add: sweep_def list_all2_conv_all_nth)
next
  let ?ds = "List.map_filter (\<lambda>s. map_option fst (step_deadline s t)) (fst (sweep steps t now))"
  have "list_all (\<lambda>d. now < d) ?ds"
    using sweep_step_deadline_future [of t now]
    by (auto simp: List.map_filter_def sweep_def list_all_iff)
  then show "case next_step_deadline (fst (sweep steps t now)) t of None \<Rightarrow> True | Some d \<Rightarrow> now < d"
    unfolding next_step_deadline_def by (cases ?ds) (simp_all add: fold_min_gt)
qed

end
