(* ===== verification/Ci_Graph.thy ===== *)
theory Ci_Graph
  imports Ci_Timeouts
begin

text \<open>
  The dependency graph (\<open>src/crates/hull-ci-control/src/graph.rs\<close>). \<open>advance\<close> runs to a fixpoint: each
  pass decides every pending step against one snapshot, then moves the steps. The loop is a
  recursive function whose termination is the source's own argument, that a pass which continues
  has moved a step out of \<open>pending\<close>. The properties are that a promoted step has all its needs
  satisfied, that no step is left waiting when nothing can wake it, and that the result is a
  fixpoint.
\<close>

section \<open>Gates\<close>

datatype advance_kind = AReady | ASkipped | ABroken

datatype gate = GReady | GSkip | GWait | GUndeclared str

datatype dep_status = DSatisfied | DBlocked | DWaiting | DUnknown

type_synonym snapshot = "(str \<times> step_state \<times> bool) list"

definition NEEDS_NAME_CAP :: nat where
  "NEEDS_NAME_CAP = 64"

definition dep_status :: "str \<Rightarrow> snapshot \<Rightarrow> dep_status" where
  "dep_status name snapshot =
     (case find (\<lambda>(n, _, _). n = name) snapshot of
        None \<Rightarrow> DUnknown
      | Some (_, st, continue_on_error) \<Rightarrow>
          (case st of
             SPassed \<Rightarrow> DSatisfied
           | SCached \<Rightarrow> DSatisfied
           | SFailed \<Rightarrow> if continue_on_error then DSatisfied else DBlocked
           | SErrored \<Rightarrow> DBlocked
           | SSkipped \<Rightarrow> DBlocked
           | _ \<Rightarrow> DWaiting))"

fun gate_loop :: "str list \<Rightarrow> snapshot \<Rightarrow> bool \<Rightarrow> bool \<Rightarrow> gate" where
  "gate_loop [] snapshot blocked waiting =
     (if blocked then GSkip else if waiting then GWait else GReady)"
| "gate_loop (name # rest) snapshot blocked waiting =
     (case dep_status name snapshot of
        DUnknown \<Rightarrow> GUndeclared name
      | DBlocked \<Rightarrow> gate_loop rest snapshot True waiting
      | DWaiting \<Rightarrow> gate_loop rest snapshot blocked True
      | DSatisfied \<Rightarrow> gate_loop rest snapshot blocked waiting)"

definition gate_of :: "str list \<Rightarrow> snapshot \<Rightarrow> gate" where
  "gate_of needs snapshot = gate_loop needs snapshot False False"

definition replace_char :: "nat \<Rightarrow> nat \<Rightarrow> str \<Rightarrow> str" where
  "replace_char a b s = map (\<lambda>c. if c = a then b else c) s"

definition graph_quoted :: "str \<Rightarrow> str" where
  "graph_quoted raw =
     lit ''`'' @ replace_char 0x60 0x27 (sanitize_summary raw NEEDS_NAME_CAP) @ lit ''`''"

definition error_infra :: "step \<Rightarrow> instant \<Rightarrow> str \<Rightarrow> step option" where
  "error_infra s now detail =
     (case step_transition s SErrored of
        Inl _ \<Rightarrow> None
      | Inr s' \<Rightarrow> Some (s'\<lparr>s_error_reason := Some Infra, s_detail := detail, s_finished_at := Some now\<rparr>))"

section \<open>One pass\<close>

definition snapshot_of :: "step list \<Rightarrow> snapshot" where
  "snapshot_of steps = map (\<lambda>s. (sp_name (s_spec s), s_state s, sp_continue_on_error (s_spec s))) steps"

definition decision_for :: "snapshot \<Rightarrow> step \<Rightarrow> gate" where
  "decision_for snapshot s =
     (if s_state s = SPending then gate_of (sp_needs (s_spec s)) snapshot else GWait)"

text \<open>The body of the mutation loop for one step: the step as it leaves it, and the move it pushed.\<close>

definition apply_gate :: "instant \<Rightarrow> gate \<Rightarrow> step \<Rightarrow> step \<times> advance_kind option" where
  "apply_gate now g s =
     (case g of
        GWait \<Rightarrow> (s, None)
      | GReady \<Rightarrow>
          (case step_transition s SReady of
             Inl _ \<Rightarrow> (s, None)
           | Inr s' \<Rightarrow> (s'\<lparr>s_ready_at := Some now\<rparr>, Some AReady))
      | GSkip \<Rightarrow>
          (case step_transition s SSkipped of
             Inl _ \<Rightarrow> (s, None)
           | Inr s' \<Rightarrow> (s'\<lparr>s_finished_at := Some now\<rparr>, Some ASkipped))
      | GUndeclared name \<Rightarrow>
          (case error_infra s now
                  (lit ''needs '' @ graph_quoted name @ lit '', which the plan does not declare'') of
             None \<Rightarrow> (s, None)
           | Some s' \<Rightarrow> (s', Some ABroken)))"

definition advance_step :: "instant \<Rightarrow> snapshot \<Rightarrow> step \<Rightarrow> step \<times> advance_kind option" where
  "advance_step now snapshot s = apply_gate now (decision_for snapshot s) s"

definition advance_pass :: "instant \<Rightarrow> step list \<Rightarrow> step list \<times> (step_id \<times> advance_kind) list" where
  "advance_pass now steps =
     (let snapshot = snapshot_of steps in
      (map (\<lambda>s. fst (advance_step now snapshot s)) steps,
       List.map_filter (\<lambda>s. map_option (Pair (s_id s)) (snd (advance_step now snapshot s))) steps))"

definition pending_count :: "step list \<Rightarrow> nat" where
  "pending_count steps = length (filter (\<lambda>s. s_state s = SPending) steps)"

lemma advance_step_cases:
  "(advance_step now sn s = (s, None) \<and> (s_state s = SPending \<longrightarrow> decision_for sn s = GWait)) \<or>
   (s_state s = SPending \<and> (\<exists>k. snd (advance_step now sn s) = Some k) \<and>
    ((decision_for sn s = GReady \<and> s_state (fst (advance_step now sn s)) = SReady) \<or>
     (decision_for sn s = GSkip \<and> s_state (fst (advance_step now sn s)) = SSkipped) \<or>
     (\<exists>n. decision_for sn s = GUndeclared n \<and> s_state (fst (advance_step now sn s)) = SErrored)) \<and>
    s_id (fst (advance_step now sn s)) = s_id s \<and> s_spec (fst (advance_step now sn s)) = s_spec s)"
proof (cases "s_state s = SPending")
  case True
  then show ?thesis
    by (cases "decision_for sn s")
       (simp_all add: advance_step_def apply_gate_def error_infra_def step_transition_def
         step_can_transition_to_def)
next
  case False
  then show ?thesis by (simp add: advance_step_def apply_gate_def decision_for_def)
qed

lemma pending_count_map_less:
  assumes "\<And>s. s_state (f s) = SPending \<Longrightarrow> s_state s = SPending"
    and "s \<in> set steps" and "s_state s = SPending" and "s_state (f s) \<noteq> SPending"
  shows "pending_count (map f steps) < pending_count steps"
  using assms(2)
proof (induction steps)
  case (Cons a steps)
  have le: "pending_count (map f xs) \<le> pending_count xs" for xs
    using assms(1) by (induction xs) (auto simp: pending_count_def)
  show ?case
  proof (cases "s = a")
    case True
    with assms(3,4) le [of steps] show ?thesis by (auto simp: pending_count_def)
  next
    case False
    with Cons assms(1) [of a] show ?thesis by (auto simp: pending_count_def)
  qed
qed simp

lemma advance_pass_decreases:
  assumes "snd (advance_pass now steps) \<noteq> []"
  shows "pending_count (fst (advance_pass now steps)) < pending_count steps"
proof -
  let ?f = "\<lambda>s. fst (advance_step now (snapshot_of steps) s)"
  from assms obtain s k where s: "s \<in> set steps" "snd (advance_step now (snapshot_of steps) s) = Some k"
    by (auto simp: advance_pass_def Let_def List.map_filter_def filter_empty_conv)
  then have "s_state s = SPending" "s_state (?f s) \<noteq> SPending"
    using advance_step_cases [of now "snapshot_of steps" s] by auto
  moreover have "s_state (?f u) = SPending \<Longrightarrow> s_state u = SPending" for u
    using advance_step_cases [of now "snapshot_of steps" u] by auto
  ultimately show ?thesis
    using pending_count_map_less [of ?f s steps] s(1) by (simp add: advance_pass_def Let_def)
qed

section \<open>The fixpoint loop and the cycle rule\<close>

function advance_loop :: "instant \<Rightarrow> step list \<Rightarrow> step list \<times> (step_id \<times> advance_kind) list" where
  "advance_loop now steps =
     (let (steps', moved) = advance_pass now steps in
      if moved = [] then (steps', [])
      else let (final, later) = advance_loop now steps' in (final, moved @ later))"
  by pat_completeness auto
termination
proof (relation "measure (\<lambda>(now, steps). pending_count steps)")
  fix now steps x steps' moved
  assume "x = advance_pass now steps" "(steps', moved) = x" "moved \<noteq> []"
  then show "((now, steps'), now, steps) \<in> measure (\<lambda>(now, steps). pending_count steps)"
    using advance_pass_decreases [of now steps] by (metis case_prod_conv fst_conv in_measure snd_conv)
qed simp

declare advance_loop.simps [simp del]

definition live :: "step \<Rightarrow> bool" where
  "live s \<longleftrightarrow> s_state s \<in> {SReady, SLeased, SRunning}"

definition cycle_detail :: str where
  "cycle_detail =
     lit ''waiting on a dependency that can never start (cycle in the plan's needs edges)''"

definition break_cycle :: "instant \<Rightarrow> step \<Rightarrow> step \<times> advance_kind option" where
  "break_cycle now s =
     (if s_state s = SPending
      then case error_infra s now cycle_detail of None \<Rightarrow> (s, None) | Some s' \<Rightarrow> (s', Some ABroken)
      else (s, None))"

definition advance :: "step list \<Rightarrow> instant \<Rightarrow> step list \<times> (step_id \<times> advance_kind) list" where
  "advance steps now =
     (let (steps1, moved) = advance_loop now steps in
      if \<not> list_ex live steps1
      then (map (\<lambda>s. fst (break_cycle now s)) steps1,
            moved @ List.map_filter (\<lambda>s. map_option (Pair (s_id s)) (snd (break_cycle now s))) steps1)
      else (steps1, moved))"

section \<open>What a gate says\<close>

lemma gate_loop_ready:
  "gate_loop needs sn b w = GReady \<longleftrightarrow> \<not> b \<and> \<not> w \<and> (\<forall>n\<in>set needs. dep_status n sn = DSatisfied)"
  by (induction needs arbitrary: b w) (auto split: dep_status.splits)

lemma gate_loop_skip:
  "gate_loop needs sn b w = GSkip \<Longrightarrow> b \<or> (\<exists>n\<in>set needs. dep_status n sn = DBlocked)"
  by (induction needs arbitrary: b w) (auto split: dep_status.splits if_splits)

lemma gate_loop_wait:
  "gate_loop needs sn b w = GWait \<longleftrightarrow>
     \<not> b \<and> (\<forall>n\<in>set needs. dep_status n sn \<in> {DSatisfied, DWaiting}) \<and>
     (w \<or> (\<exists>n\<in>set needs. dep_status n sn = DWaiting))"
  by (induction needs arbitrary: b w) (auto split: dep_status.splits)

lemma gate_loop_undeclared:
  "gate_loop needs sn b w = GUndeclared n \<Longrightarrow> n \<in> set needs \<and> dep_status n sn = DUnknown"
  by (induction needs arbitrary: b w) (auto split: dep_status.splits if_splits)

section \<open>How steps evolve\<close>

definition evolved :: "step \<Rightarrow> step \<Rightarrow> bool" where
  "evolved s s' \<longleftrightarrow> s_id s' = s_id s \<and> s_spec s' = s_spec s \<and>
     (s' = s \<or> (s_state s = SPending \<and> s_state s' \<noteq> SPending))"

lemma evolved_trans: "evolved a b \<Longrightarrow> evolved b c \<Longrightarrow> evolved a c"
  by (auto simp: evolved_def)

lemma evolved_list_trans:
  "list_all2 evolved a b \<Longrightarrow> list_all2 evolved b c \<Longrightarrow> list_all2 evolved a c"
  by (rule list_all2_trans) (auto intro: evolved_trans)

lemma evolved_list_refl: "list_all2 evolved a a"
  by (simp add: list_all2_conv_all_nth evolved_def)

lemma find_snapshot:
  "find (\<lambda>(n, _, _). n = name) (snapshot_of steps) =
     map_option (\<lambda>s. (sp_name (s_spec s), s_state s, sp_continue_on_error (s_spec s)))
       (find (\<lambda>s. sp_name (s_spec s) = name) steps)"
  by (induction steps) (auto simp: snapshot_of_def)

lemma find_evolved:
  assumes "list_all2 evolved steps steps'"
  shows "rel_option evolved (find (\<lambda>s. sp_name (s_spec s) = name) steps)
           (find (\<lambda>s. sp_name (s_spec s) = name) steps')"
  using assms by (induction rule: list_all2_induct) (auto simp: evolved_def)

text \<open>A dependency whose status is not \<open>waiting\<close> keeps it: only pending steps move.\<close>

lemma dep_status_stable:
  assumes "list_all2 evolved steps steps'" and "dep_status name (snapshot_of steps) \<noteq> DWaiting"
  shows "dep_status name (snapshot_of steps') = dep_status name (snapshot_of steps)"
  using find_evolved [OF assms(1), of name] assms(2)
  by (cases "find (\<lambda>s. sp_name (s_spec s) = name) steps")
     (auto simp: dep_status_def find_snapshot evolved_def option_rel_Some1)

section \<open>One pass\<close>

definition justified :: "instant \<Rightarrow> step list \<Rightarrow> step \<Rightarrow> step \<Rightarrow> bool" where
  "justified now final s s' \<longleftrightarrow> evolved s s' \<and>
     (s' = s \<or>
      (s_state s' = SReady \<and> s_ready_at s' = Some now \<and>
        list_all (\<lambda>n. dep_status n (snapshot_of final) = DSatisfied) (sp_needs (s_spec s))) \<or>
      (s_state s' = SSkipped \<and>
        list_ex (\<lambda>n. dep_status n (snapshot_of final) = DBlocked) (sp_needs (s_spec s))) \<or>
      (s_state s' = SErrored \<and> s_error_reason s' = Some Infra \<and>
        (list_ex (\<lambda>n. dep_status n (snapshot_of final) = DUnknown) (sp_needs (s_spec s)) \<or>
         \<not> list_ex live final)))"

lemma justified_evolved: "justified now final s s' \<Longrightarrow> evolved s s'"
  by (simp add: justified_def)

lemma advance_step_evolved: "evolved s (fst (advance_step now sn s))"
  using advance_step_cases [of now sn s] by (auto simp: evolved_def)

lemma advance_step_justified:
  assumes "list_all2 evolved steps final"
  shows "justified now final s (fst (advance_step now (snapshot_of steps) s))"
proof (cases "s_state s = SPending")
  case False
  then show ?thesis
    using advance_step_cases [of now "snapshot_of steps" s] by (auto simp: justified_def evolved_def)
next
  case True
  let ?sn = "snapshot_of steps" and ?needs = "sp_needs (s_spec s)"
  have ev: "evolved s (fst (advance_step now ?sn s))" by (rule advance_step_evolved)
  have dec: "decision_for ?sn s = gate_loop ?needs ?sn False False"
    using True by (simp add: decision_for_def gate_of_def)
  note st = dep_status_stable [OF assms]
  show ?thesis
  proof (cases "decision_for ?sn s")
    case GReady
    then have "list_all (\<lambda>n. dep_status n (snapshot_of final) = DSatisfied) ?needs"
      using dec st by (auto simp: gate_loop_ready list_all_iff)
    with GReady True ev show ?thesis
      by (simp add: justified_def advance_step_def apply_gate_def step_transition_def
          step_can_transition_to_def)
  next
    case GSkip
    then obtain n where "n \<in> set ?needs" "dep_status n ?sn = DBlocked"
      using dec gate_loop_skip by metis
    then have "list_ex (\<lambda>n. dep_status n (snapshot_of final) = DBlocked) ?needs"
      using st [of n] by (auto simp: list_ex_iff)
    with GSkip True ev show ?thesis
      by (simp add: justified_def advance_step_def apply_gate_def step_transition_def
          step_can_transition_to_def)
  next
    case GWait
    then show ?thesis by (simp add: justified_def advance_step_def apply_gate_def evolved_def)
  next
    case (GUndeclared n)
    then have "n \<in> set ?needs" "dep_status n ?sn = DUnknown"
      using dec gate_loop_undeclared by metis+
    then have "list_ex (\<lambda>n. dep_status n (snapshot_of final) = DUnknown) ?needs"
      using st [of n] by (auto simp: list_ex_iff)
    with GUndeclared True ev show ?thesis
      by (simp add: justified_def advance_step_def apply_gate_def error_infra_def step_transition_def
          step_can_transition_to_def)
  qed
qed

lemma justified_trans:
  assumes "justified now final a b" and "justified now final b c"
  shows "justified now final a c"
proof (cases "c = b \<or> b = a")
  case True
  with assms show ?thesis by auto
next
  case False
  with assms have "s_state b = SPending" "s_state a = SPending" "s_state b \<noteq> SPending"
    by (auto simp: justified_def evolved_def)
  then show ?thesis by simp
qed

lemma justified_list_trans:
  "list_all2 (justified now final) a b \<Longrightarrow> list_all2 (justified now final) b c \<Longrightarrow>
   list_all2 (justified now final) a c"
  by (rule list_all2_trans) (auto intro: justified_trans)

lemma advance_pass_fst [simp]:
  "fst (advance_pass now steps) = map (\<lambda>s. fst (advance_step now (snapshot_of steps) s)) steps"
  by (simp add: advance_pass_def Let_def)

lemma advance_pass_evolved: "list_all2 evolved steps (fst (advance_pass now steps))"
  by (simp add: list_all2_conv_all_nth advance_step_evolved)

lemma advance_pass_stop:
  assumes "snd (advance_pass now steps) = []"
  shows "fst (advance_pass now steps) = steps"
    and "\<And>s. s \<in> set steps \<Longrightarrow> s_state s = SPending \<Longrightarrow> decision_for (snapshot_of steps) s = GWait"
proof -
  have none: "advance_step now (snapshot_of steps) s = (s, None) \<and>
      (s_state s = SPending \<longrightarrow> decision_for (snapshot_of steps) s = GWait)" if "s \<in> set steps" for s
    using that assms advance_step_cases [of now "snapshot_of steps" s]
    by (auto simp: advance_pass_def Let_def List.map_filter_def filter_empty_conv)
  then show "fst (advance_pass now steps) = steps" by (simp add: map_idI)
  show "\<And>s. s \<in> set steps \<Longrightarrow> s_state s = SPending \<Longrightarrow> decision_for (snapshot_of steps) s = GWait"
    using none by blast
qed

lemma advance_pass_count:
  "pending_count (fst (advance_pass now steps)) + length (snd (advance_pass now steps)) =
   pending_count steps"
proof -
  let ?sn = "snapshot_of steps"
  have "pending_count (map (\<lambda>s. fst (advance_step now ?sn s)) xs) +
      length (List.map_filter (\<lambda>s. map_option (Pair (s_id s)) (snd (advance_step now ?sn s))) xs) =
      pending_count xs" for xs
  proof (induction xs)
    case (Cons s xs)
    then show ?case
      using advance_step_cases [of now ?sn s]
      by (auto simp: pending_count_def map_filter_simps split: option.splits)
  qed (simp add: pending_count_def map_filter_simps)
  then show ?thesis by (simp add: advance_pass_def Let_def)
qed

section \<open>The loop\<close>

text \<open>What the loop establishes: the list it ends with is stable under a pass, and the moves are one
  per step that left \<open>pending\<close>.\<close>

lemma advance_loop_result:
  "list_all2 evolved steps (fst (advance_loop now steps)) \<and>
   advance_pass now (fst (advance_loop now steps)) = (fst (advance_loop now steps), []) \<and>
   pending_count (fst (advance_loop now steps)) + length (snd (advance_loop now steps)) =
     pending_count steps"
proof (induction now steps rule: advance_loop.induct)
  case (1 now steps)
  obtain st mv where p: "advance_pass now steps = (st, mv)" by (cases "advance_pass now steps")
  show ?case
  proof (cases "mv = []")
    case True
    with p advance_pass_stop(1) [of now steps] have "st = steps" by simp
    with p True show ?thesis
      by (simp add: advance_loop.simps [of now steps] evolved_list_refl)
  next
    case False
    note IH = "1" [OF p [symmetric] refl False]
    have eq: "advance_loop now steps = (fst (advance_loop now st), mv @ snd (advance_loop now st))"
      using p False by (simp add: advance_loop.simps [of now steps] split: prod.splits)
    have "list_all2 evolved steps st" using advance_pass_evolved [of steps now] p by simp
    with IH eq show ?thesis
      using advance_pass_count [of now steps] p by (auto intro: evolved_list_trans)
  qed
qed

lemma advance_loop_justified:
  assumes "list_all2 evolved (fst (advance_loop now steps)) final"
  shows "list_all2 (justified now final) steps (fst (advance_loop now steps))"
  using assms
proof (induction now steps rule: advance_loop.induct)
  case (1 now steps)
  obtain st mv where p: "advance_pass now steps = (st, mv)" by (cases "advance_pass now steps")
  show ?case
  proof (cases "mv = []")
    case True
    with p advance_pass_stop(1) [of now steps] have "st = steps" by simp
    with p True show ?thesis
      by (simp add: advance_loop.simps [of now steps] list_all2_conv_all_nth justified_def evolved_def)
  next
    case False
    have eq: "fst (advance_loop now steps) = fst (advance_loop now st)"
      using p False by (simp add: advance_loop.simps [of now steps] split: prod.splits)
    have "list_all2 (justified now final) st (fst (advance_loop now st))"
      using "1.IH" [OF p [symmetric] refl False] "1.prems" eq by simp
    moreover have "list_all2 evolved steps final"
      using advance_loop_result [of steps now] "1.prems" by (blast intro: evolved_list_trans)
    then have "list_all2 (justified now final) steps st"
      using p advance_pass_fst [of now steps]
      by (auto simp: list_all2_conv_all_nth advance_step_justified)
    ultimately show ?thesis
      unfolding eq by (blast intro: justified_list_trans)
  qed
qed

section \<open>The cycle rule\<close>

lemma break_cycle_cases:
  "if s_state s = SPending
   then s_state (fst (break_cycle now s)) = SErrored \<and> snd (break_cycle now s) = Some ABroken \<and>
        s_error_reason (fst (break_cycle now s)) = Some Infra \<and>
        s_id (fst (break_cycle now s)) = s_id s \<and> s_spec (fst (break_cycle now s)) = s_spec s
   else break_cycle now s = (s, None)"
  by (simp add: break_cycle_def error_infra_def step_transition_def step_can_transition_to_def)

lemma not_live_pending_terminal: "\<not> live s \<Longrightarrow> s_state s \<noteq> SPending \<Longrightarrow> is_terminal (s_state s)"
  by (cases "s_state s") (auto simp: live_def is_terminal_def)

lemma break_cycle_terminal: "\<not> live s \<Longrightarrow> is_terminal (s_state (fst (break_cycle now s)))"
  using break_cycle_cases [of s now] not_live_pending_terminal [of s]
  by (auto simp: is_terminal_def split: if_splits)

lemma terminal_not_live: "is_terminal (s_state s) \<Longrightarrow> \<not> live s"
  by (cases "s_state s") (auto simp: live_def is_terminal_def)

lemma advance_pass_terminal:
  assumes "list_all (\<lambda>s. is_terminal (s_state s)) steps"
  shows "advance_pass now steps = (steps, [])"
proof -
  have "advance_step now (snapshot_of steps) s = (s, None)" if "s \<in> set steps" for s
    using that assms by (auto simp: advance_step_def apply_gate_def decision_for_def list_all_iff is_terminal_def)
  then show ?thesis
    by (auto simp: advance_pass_def Let_def List.map_filter_def filter_empty_conv intro: map_idI)
qed

lemma advance_fixed:
  assumes "advance_pass now steps = (steps, [])"
    and "list_ex live steps \<or> list_all (\<lambda>s. is_terminal (s_state s)) steps"
  shows "advance steps now = (steps, [])"
proof -
  have l: "advance_loop now steps = (steps, [])"
    using assms(1) by (simp add: advance_loop.simps [of now steps])
  show ?thesis
  proof (cases "list_ex live steps")
    case True
    with l show ?thesis by (simp add: advance_def)
  next
    case False
    with assms(2) have "s_state s \<noteq> SPending" if "s \<in> set steps" for s
      using that by (auto simp: list_all_iff is_terminal_def)
    then have "break_cycle now s = (s, None)" if "s \<in> set steps" for s
      using that by (simp add: break_cycle_def)
    with l False show ?thesis
      by (auto simp: advance_def List.map_filter_def filter_empty_conv intro: map_idI)
  qed
qed

lemma break_cycle_count:
  "pending_count (map (\<lambda>s. fst (break_cycle now s)) xs) +
   length (List.map_filter (\<lambda>s. map_option (Pair (s_id s)) (snd (break_cycle now s))) xs) = pending_count xs"
proof (induction xs)
  case (Cons s xs)
  then show ?case
    using break_cycle_cases [of s now]
    by (auto simp: pending_count_def map_filter_simps split: if_splits)
qed (simp add: pending_count_def map_filter_simps)

lemma advance_outcome:
  fixes steps now
  defines "final \<equiv> fst (advance steps now)"
  shows "advance_pass now final = (final, []) \<and>
    (list_ex live final \<or> list_all (\<lambda>s. is_terminal (s_state s)) final) \<and>
    list_all2 (justified now final) steps final \<and>
    pending_count final + length (snd (advance steps now)) = pending_count steps"
proof -
  let ?f = "fst (advance_loop now steps)"
  note res = advance_loop_result [of steps now]
  show ?thesis
  proof (cases "list_ex live ?f")
    case True
    then have "advance steps now = advance_loop now steps"
      by (auto simp: advance_def split: prod.splits)
    with True res advance_loop_justified [OF evolved_list_refl] show ?thesis
      by (simp add: final_def)
  next
    case False
    then have adv: "final = map (\<lambda>s. fst (break_cycle now s)) ?f"
      "snd (advance steps now) = snd (advance_loop now steps) @
        List.map_filter (\<lambda>s. map_option (Pair (s_id s)) (snd (break_cycle now s))) ?f"
      by (auto simp: advance_def final_def split: prod.splits)
    from False have trm: "list_all (\<lambda>s. is_terminal (s_state s)) final"
      by (auto simp: adv list_all_iff list_ex_iff break_cycle_terminal)
    then have nl: "\<not> list_ex live final" by (auto simp: list_all_iff list_ex_iff terminal_not_live)
    have j1: "justified now final s (fst (break_cycle now s))" for s
      using break_cycle_cases [of s now] nl by (auto simp: justified_def evolved_def split: if_splits)
    then have l2: "list_all2 (justified now final) ?f final"
      by (simp add: adv list_all2_conv_all_nth)
    then have "list_all2 evolved ?f final"
      by (rule list_all2_mono) (auto dest: justified_evolved)
    then have "list_all2 (justified now final) steps ?f" by (rule advance_loop_justified)
    with l2 have "list_all2 (justified now final) steps final"
      by (blast intro: justified_list_trans)
    with trm res break_cycle_count [of now ?f] adv advance_pass_terminal [OF trm] show ?thesis by auto
  qed
qed

section \<open>Properties\<close>

text \<open>C25. \<open>advance\<close> never leaves a job waiting for nothing: afterwards either some step is ready, leased
  or running, or every step is terminal (so the job folds to a verdict). Every step still pending
  waits on a declared dependency that has not finished and on none that blocks it, the number of
  reported moves is the number of steps that left \<open>pending\<close>, and a second call changes nothing.\<close>

theorem advance_progress:
  "(list_ex live (fst (advance steps now)) \<or>
    list_all (\<lambda>s. is_terminal (s_state s)) (fst (advance steps now))) \<and>
   list_all (\<lambda>s. gate_of (sp_needs (s_spec s)) (snapshot_of (fst (advance steps now))) = GWait)
     (filter (\<lambda>s. s_state s = SPending) (fst (advance steps now))) \<and>
   length (snd (advance steps now)) = pending_count steps - pending_count (fst (advance steps now)) \<and>
   advance (fst (advance steps now)) now = (fst (advance steps now), [])"
proof -
  let ?final = "fst (advance steps now)"
  note out = advance_outcome [of now steps]
  then have "snd (advance_pass now ?final) = []" by simp
  note wait = advance_pass_stop(2) [OF this]
  have "list_all (\<lambda>s. gate_of (sp_needs (s_spec s)) (snapshot_of ?final) = GWait)
     (filter (\<lambda>s. s_state s = SPending) ?final)"
    using wait by (auto simp: list_all_iff decision_for_def)
  with out advance_fixed [of now ?final] show ?thesis by auto
qed

text \<open>Every move \<open>advance\<close> makes is justified by the graph as it stands afterwards, and it only moves
  pending steps, never their identity or specification: a promoted step has every need passed,
  cached or failed under \<open>continue_on_error\<close>, with its queue clock started now; a skipped step has a
  need that failed, errored or was skipped; a step is errored (always as infrastructure, never as a
  failure of the code) only for a need the plan does not declare, or when nothing is left that
  could ever finish.\<close>

theorem advance_justified:
  "list_all2 (justified now (fst (advance steps now))) steps (fst (advance steps now))"
  using advance_outcome [of now steps] by simp

end
