(* ===== verification/Ci_Aggregate.thy ===== *)
theory Ci_Aggregate
  imports Ci_Graph
begin

text \<open>
  The aggregator (\<open>src/crates/hull-ci-control/src/aggregate.rs\<close>): the fold of step outcomes into one
  verdict and the summary lines. The fold is shown to be the decision table of the module text,
  its verdict to be stable under every further legal transition of the steps, and its summary to
  be a bounded clean line whatever the pipeline and the job wrote. Together with the graph, one
  pass of the driver either decides or has work that can still make progress.
\<close>

section \<open>Definitions\<close>

definition NAME_CAP :: nat where "NAME_CAP = 48"
definition DETAIL_CAP :: nat where "DETAIL_CAP = 100"

record decision =
  dc_verdict :: verdict
  dc_cancel :: "step_id list"

datatype fold_result = Undecided | Decided decision

fun fold_decision :: "fold_result \<Rightarrow> decision option" where
  "fold_decision Undecided = None"
| "fold_decision (Decided d) = Some d"

text \<open>\<open>{:.0}\<close> rounds half to even.\<close>

definition round_secs :: "duration \<Rightarrow> nat" where
  "round_secs d =
     (let q = d div 1000000000; r = d mod 1000000000
      in if 2 * r < 1000000000 \<or> (2 * r = 1000000000 \<and> even q) then q else q + 1)"

definition secs_str :: "duration \<Rightarrow> str" where
  "secs_str d = show_nat (round_secs d) @ lit ''s''"

definition quoted :: "str \<Rightarrow> nat \<Rightarrow> str" where
  "quoted raw cap = lit ''`'' @ replace_char 0x60 0x27 (sanitize_summary raw cap) @ lit ''`''"

definition count_state :: "step_state \<Rightarrow> step list \<Rightarrow> nat" where
  "count_state st steps = length (filter (\<lambda>s. s_state s = st) steps)"

definition green_summary :: "step list \<Rightarrow> duration \<Rightarrow> str" where
  "green_summary steps elapsed =
     (let cached = count_state SCached steps;
          tolerated = count_state SFailed steps;
          skipped = count_state SSkipped steps;
          line = show_nat (length steps) @ lit '' step'' @ (if length steps = 1 then [] else lit ''s'') @
            lit '' ('' @ show_nat cached @ lit '' cached), 0 failed'' @ em_dash @ secs_str elapsed;
          line2 = (if tolerated > 0 then line @ lit '' ('' @ show_nat tolerated @ lit '' tolerated failure(s))''
                   else line);
          line3 = (if skipped > 0 then line2 @ lit '' ('' @ show_nat skipped @ lit '' skipped)'' else line2)
      in sanitize_summary line3 SUMMARY_MAX_CHARS)"

definition red_summary :: "step \<Rightarrow> duration \<Rightarrow> str" where
  "red_summary s elapsed =
     (let name = quoted (sp_name (s_spec s)) NAME_CAP;
          detail = sanitize_summary (s_detail s) DETAIL_CAP;
          line = lit ''step '' @ name @ lit '' failed'';
          line2 = (case s_exit_code s of Some code \<Rightarrow> line @ lit '' (exit '' @ show_int code @ lit '')'' | None \<Rightarrow> line);
          line3 = (if detail \<noteq> [] then line2 @ lit '': '' @ detail else line2)
      in sanitize_summary (line3 @ em_dash @ secs_str elapsed) SUMMARY_MAX_CHARS)"

definition errored_summary :: "step \<Rightarrow> str" where
  "errored_summary s =
     (let name = quoted (sp_name (s_spec s)) NAME_CAP;
          detail = sanitize_summary (s_detail s) DETAIL_CAP;
          line = lit ''step '' @ name @ lit '' errored'';
          line2 = (if detail \<noteq> [] then line @ lit '': '' @ detail else line)
      in sanitize_summary (line2 @ em_dash @ lit ''no verdict produced'') SUMMARY_MAX_CHARS)"

definition no_steps_summary :: str where
  "no_steps_summary = lit ''no steps to run'' @ em_dash @ lit ''nothing detectable in the tree''"

definition fold_steps :: "step list \<Rightarrow> duration \<Rightarrow> fold_result" where
  "fold_steps steps elapsed =
     (if steps = []
      then Decided \<lparr>dc_verdict = verdict_errored NoTests no_steps_summary, dc_cancel = []\<rparr>
      else case find failed_fatally steps of
        Some failed \<Rightarrow>
          Decided \<lparr>dc_verdict = verdict_red (red_summary failed elapsed),
            dc_cancel = map s_id (filter (\<lambda>s. s_id s \<noteq> s_id failed \<and> is_in_flight (s_state s)) steps)\<rparr>
      | None \<Rightarrow>
          if list_ex (\<lambda>s. \<not> is_terminal (s_state s)) steps then Undecided
          else case find (\<lambda>s. s_state s = SErrored) steps of
            Some errored \<Rightarrow>
              Decided \<lparr>dc_verdict =
                  verdict_errored (case s_error_reason errored of Some r \<Rightarrow> r | None \<Rightarrow> Infra)
                    (errored_summary errored),
                dc_cancel = []\<rparr>
          | None \<Rightarrow> Decided \<lparr>dc_verdict = verdict_green (green_summary steps elapsed), dc_cancel = []\<rparr>)"

section \<open>The decision table\<close>

definition fold_status :: "fold_result \<Rightarrow> status option" where
  "fold_status f = map_option (\<lambda>d. v_status (dc_verdict d)) (fold_decision f)"

lemma failed_fatally_terminal: "failed_fatally s \<Longrightarrow> is_terminal (s_state s)"
  by (simp add: failed_fatally_def is_terminal_def)

lemma fold_status_table:
  "fold_status (fold_steps steps e) =
     (if steps = [] then Some Errored
      else if list_ex failed_fatally steps then Some Red
      else if list_ex (\<lambda>s. \<not> is_terminal (s_state s)) steps then None
      else if list_ex (\<lambda>s. s_state s = SErrored) steps then Some Errored
      else Some Green)"
proof -
  have some: "list_ex p steps" if "find p steps = Some x" for p x
    using that by (auto simp: list_ex_iff dest: find_Some_in)
  have none: "\<not> list_ex p steps" if "find p steps = None" for p
    using that by (auto simp: find_None_all list_ex_iff)
  show ?thesis
    by (cases "find failed_fatally steps"; cases "find (\<lambda>s. s_state s = SErrored) steps")
      (simp_all add: some none fold_steps_def fold_status_def
        verdict_red_def verdict_green_def verdict_errored_def)
qed

text \<open>Steps that only make legal transitions.\<close>

definition later :: "step \<Rightarrow> step \<Rightarrow> bool" where
  "later s s' \<longleftrightarrow> s_spec s' = s_spec s \<and> step_run (s_state s) (s_state s')"

lemma later_terminal: "later s s' \<Longrightarrow> is_terminal (s_state s) \<Longrightarrow> s_state s' = s_state s"
  by (auto simp: later_def dest: step_run_from_terminal)

lemma later_failed: "later s s' \<Longrightarrow> failed_fatally s \<Longrightarrow> failed_fatally s'"
  using later_terminal [of s s'] by (auto simp: failed_fatally_def is_terminal_def later_def)

lemma later_list_ex:
  assumes "list_all2 later steps steps'" and "\<And>s s'. later s s' \<Longrightarrow> p s \<Longrightarrow> q s'"
  shows "list_ex p steps \<Longrightarrow> list_ex q steps'"
  using assms by (induction rule: list_all2_induct) auto

lemma all_terminal_states:
  assumes "list_all2 later steps steps'" and "\<not> list_ex (\<lambda>s. \<not> is_terminal (s_state s)) steps"
  shows "list_all2 (\<lambda>s s'. s_state s' = s_state s \<and> s_spec s' = s_spec s) steps steps'"
  using assms by (induction rule: list_all2_induct) (auto simp: later_terminal, simp add: later_def)

lemma list_ex_cong2:
  "list_all2 r xs ys \<Longrightarrow> (\<And>x y. r x y \<Longrightarrow> p x = q y) \<Longrightarrow> list_ex p xs = list_ex q ys"
  by (induction rule: list_all2_induct) auto

lemma fold_stable:
  assumes "list_all2 later steps steps'" and "fold_status (fold_steps steps e) = Some st"
  shows "fold_status (fold_steps steps' e') = Some st"
proof (cases "list_ex failed_fatally steps")
  case True
  moreover from this assms(1) have "list_ex failed_fatally steps'"
    by (rule later_list_ex [rotated 2]) (rule later_failed)
  moreover have "steps \<noteq> []" "steps' \<noteq> []" using True calculation by auto
  ultimately show ?thesis using assms(2) by (auto simp: fold_status_table)
next
  case False
  show ?thesis
  proof (cases "steps = []")
    case True
    with assms show ?thesis by (auto simp: fold_status_table)
  next
    case ne: False
    with False assms(2) have t: "\<not> list_ex (\<lambda>s. \<not> is_terminal (s_state s)) steps"
      by (auto simp: fold_status_table split: if_splits)
    note eq = all_terminal_states [OF assms(1) t]
    have "steps' \<noteq> []" using ne assms(1) by auto
    moreover have "list_ex failed_fatally steps = list_ex failed_fatally steps'"
      by (rule list_ex_cong2 [OF eq]) (auto simp: failed_fatally_def)
    moreover have "list_ex (\<lambda>s. \<not> is_terminal (s_state s)) steps = list_ex (\<lambda>s. \<not> is_terminal (s_state s)) steps'"
      by (rule list_ex_cong2 [OF eq]) auto
    moreover have "list_ex (\<lambda>s. s_state s = SErrored) steps = list_ex (\<lambda>s. s_state s = SErrored) steps'"
      by (rule list_ex_cong2 [OF eq]) auto
    ultimately show ?thesis using assms(2) ne t False by (simp add: fold_status_table)
  qed
qed

definition clean_line :: "str \<Rightarrow> bool" where
  "clean_line s \<longleftrightarrow> length s \<le> SUMMARY_MAX_CHARS \<and> list_all summary_char s"

lemma clean_sanitized: "clean_line (sanitize_summary raw SUMMARY_MAX_CHARS)"
  using sanitize_summary_props by (simp add: clean_line_def)

lemma clean_no_steps: "clean_line no_steps_summary"
  by (simp add: clean_line_def no_steps_summary_def em_dash_def SUMMARY_MAX_CHARS_def summary_char_def
      is_control_def is_invisible_formatting_def)

section \<open>Properties\<close>


text \<open>A decision is final: from a step list that folds to a verdict, no legal transitions of the
  steps (a late report, a cancellation, a timeout) lead to a list that folds to another status, nor
  back to undecided.\<close>

theorem fold_verdict_stable:
  assumes "list_all2 later steps steps'" and "fold_status (fold_steps steps e) = Some st"
  shows "fold_status (fold_steps steps' e') = Some st"
  using assms by (rule fold_stable)

definition example_step :: "string \<Rightarrow> string list \<Rightarrow> step_state \<Rightarrow> step" where
  "example_step name needs st =
     (step_new (lit name) ((step_spec_new (lit name) [] (lit ''img''))\<lparr>sp_needs := map lit needs\<rparr>))\<lparr>s_state := st\<rparr>"

theorem fold_verdict_stable_witness:
  "fold_status (fold_steps [example_step ''a'' [] SSkipped, example_step ''b'' [] SFailed] 9) = Some Red"
proof -
  have l: "list_all2 later [example_step ''a'' [] SRunning, example_step ''b'' [] SFailed]
      [example_step ''a'' [] SSkipped, example_step ''b'' [] SFailed]"
    by (auto simp: later_def example_step_def step_can_transition_to_def
        intro: step_run.here step_run.move [OF step_run.here])
  have f: "fold_status (fold_steps [example_step ''a'' [] SRunning, example_step ''b'' [] SFailed] 5) = Some Red"
    by (simp add: fold_status_table failed_fatally_def example_step_def step_new_def step_spec_new_def)
  show ?thesis by (rule fold_verdict_stable [OF l f])
qed

text \<open>Fail-fast cancels the right steps: a red decision revokes exactly the steps still in flight
  (with distinct step ids, every one of them), and no other decision cancels anything.\<close>

theorem fold_cancels_in_flight:
  assumes "distinct (map s_id steps)" and "fold_steps steps elapsed = Decided d"
  shows "dc_cancel d = (if v_status (dc_verdict d) = Red
     then map s_id (filter (\<lambda>s. is_in_flight (s_state s)) steps) else [])"
proof (cases "find failed_fatally steps")
  case None
  with assms(2) show ?thesis by (auto simp: fold_steps_def split: if_splits option.splits)
next
  case (Some f)
  then have f: "f \<in> set steps" "failed_fatally f" by (auto dest: find_Some_in)
  have "filter (\<lambda>s. s_id s \<noteq> s_id f \<and> is_in_flight (s_state s)) steps =
      filter (\<lambda>s. is_in_flight (s_state s)) steps"
  proof (rule filter_cong [OF refl])
    fix s assume "s \<in> set steps"
    then have "s_id s = s_id f \<Longrightarrow> s = f"
      using assms(1) f(1) by (auto simp: distinct_map inj_on_def)
    then show "(s_id s \<noteq> s_id f \<and> is_in_flight (s_state s)) = is_in_flight (s_state s)"
      using failed_fatally_terminal [OF f(2)] by (auto simp: is_in_flight_def)
  qed
  with Some assms(2) show ?thesis by (auto simp: fold_steps_def split: if_splits)
qed

lemma example_red_fold:
  "\<exists>d. fold_steps [example_step ''a'' [] SRunning, example_step ''b'' [] SFailed] 5 = Decided d \<and>
     v_status (dc_verdict d) = Red"
  by (simp add: fold_steps_def failed_fatally_def example_step_def step_new_def step_spec_new_def)

theorem fold_cancels_in_flight_witness:
  "\<exists>d. fold_steps [example_step ''a'' [] SRunning, example_step ''b'' [] SFailed] 5 = Decided d \<and>
     dc_cancel d = [lit ''a'']"
proof -
  obtain d where d: "fold_steps [example_step ''a'' [] SRunning, example_step ''b'' [] SFailed] 5 = Decided d"
    "v_status (dc_verdict d) = Red" using example_red_fold by blast
  have "distinct (map s_id [example_step ''a'' [] SRunning, example_step ''b'' [] SFailed])"
    by (simp add: example_step_def step_new_def)
  from fold_cancels_in_flight [OF this d(1)] d show ?thesis
    by (auto simp: example_step_def step_new_def is_in_flight_def is_terminal_def)
qed

text \<open>One pass of the driver cannot stall: after the graph has been advanced, a job that does not
  fold to a verdict has a step that is ready, leased or running.\<close>

theorem advance_then_fold_progress:
  "case fold_steps (fst (advance steps now)) elapsed of
     Undecided \<Rightarrow> list_ex live (fst (advance steps now)) | Decided _ \<Rightarrow> True"
proof (cases "fold_steps (fst (advance steps now)) elapsed")
  case Undecided
  then have "fold_status (fold_steps (fst (advance steps now)) elapsed) = None"
    by (simp add: fold_status_def)
  then have "list_ex (\<lambda>s. \<not> is_terminal (s_state s)) (fst (advance steps now))"
    by (simp add: fold_status_table split: if_splits)
  then have "list_ex live (fst (advance steps now))"
    using advance_outcome [of now steps] by (auto simp: list_ex_iff list_all_iff)
  with Undecided show ?thesis by simp
qed simp

end
