(* ===== verification/Ci_FairShare.thy ===== *)
theory Ci_FairShare
  imports Ci_Model Complex_Main
begin

text \<open>
  The weighted-fair scheduler (\<open>src/crates/hull-ci-control/src/fairshare.rs\<close>): the virtual clock, the
  per-tenant queues, the two plan caps, the cost estimator and the selection loop.

  The two \<open>f64\<close> settings an operator writes (\<open>weight\<close>, \<open>node_minutes_per_hour\<close>) may be any float,
  so they are values of \<open>f64\<close>, with the infinities and NaN. Costs and virtual times are finite by
  construction (\<open>safe_weight\<close>, \<open>MIN_COST_SECS\<close>) and are exact rationals here: the rounding of the
  float operations on them is not modelled.

  \<open>HashMap\<close>s are association lists and \<open>tenants\<close>, a \<open>BTreeMap\<close>, is a sorted one. The theorems show
  that a pass respects the caps, grants each waiting step at most once, is work conserving, and
  bounds how far one tenant can be served past a waiting neighbour; that the accounting the caps
  read is the placements themselves in every reachable state; and that the cost history stays
  bounded.
\<close>

section \<open>Settings\<close>

datatype f64 = Finite rat | PosInf | NegInf | NaN

definition ROLLING_WINDOW :: duration where "ROLLING_WINDOW = secs 3600"
definition COST_SAMPLES :: nat where "COST_SAMPLES = 16"
definition COST_KEYS_PER_TENANT :: nat where "COST_KEYS_PER_TENANT = 1024"
definition MIN_COST_SECS :: rat where "MIN_COST_SECS = 1 / 1000"
definition USIZE_MAX :: nat where "USIZE_MAX = 2 ^ 64 - 1"

definition as_secs_f64 :: "duration \<Rightarrow> rat" where
  "as_secs_f64 d = of_nat d / 1000000000"

datatype priority = Interactive | Background

fun priority_as_str :: "priority \<Rightarrow> str" where
  "priority_as_str Interactive = lit ''interactive''"
| "priority_as_str Background = lit ''background''"

fun priority_index :: "priority \<Rightarrow> nat" where
  "priority_index Interactive = 0"
| "priority_index Background = 1"

definition assume_interactive :: "dispatch \<Rightarrow> priority" where
  "assume_interactive d = Interactive"

record tenant_plan =
  tp_weight :: f64
  tp_max_running_steps :: nat
  tp_node_minutes_per_hour :: f64

definition safe_weight :: "tenant_plan \<Rightarrow> rat" where
  "safe_weight p = (case tp_weight p of Finite w \<Rightarrow> if w > 0 then w else 1 | _ \<Rightarrow> 1)"

definition tenant_plan_default :: tenant_plan where
  "tenant_plan_default =
     \<lparr>tp_weight = Finite 1, tp_max_running_steps = 16, tp_node_minutes_per_hour = Finite 1200\<rparr>"

record fair_share =
  fs_default_plan :: tenant_plan
  fs_plans :: "(str \<times> tenant_plan) list"
  fs_fleet_slots :: "nat option"
  fs_default_cost :: duration
  fs_idle_credit :: duration
  fs_prioritizer :: "dispatch \<Rightarrow> priority"

definition plan :: "fair_share \<Rightarrow> str \<Rightarrow> tenant_plan" where
  "plan cfg name = (case map_of (fs_plans cfg) name of Some p \<Rightarrow> p | None \<Rightarrow> fs_default_plan cfg)"

definition with_plan :: "fair_share \<Rightarrow> str \<Rightarrow> tenant_plan \<Rightarrow> fair_share" where
  "with_plan cfg name p = cfg\<lparr>fs_plans := AList.update name p (fs_plans cfg)\<rparr>"

definition fair_share_default :: fair_share where
  "fair_share_default =
     \<lparr>fs_default_plan = tenant_plan_default, fs_plans = [], fs_fleet_slots = None,
      fs_default_cost = secs 60, fs_idle_credit = secs 60, fs_prioritizer = assume_interactive\<rparr>"

section \<open>State\<close>

record grant =
  g_job_id :: job_id
  g_step_id :: step_id
  g_tenant :: str

record depth_view =
  dv_queued :: nat
  dv_running :: nat

record admission_view =
  av_over_concurrency :: bool
  av_over_node_minutes :: bool

definition blocked :: "admission_view \<Rightarrow> bool" where
  "blocked a \<longleftrightarrow> av_over_concurrency a \<or> av_over_node_minutes a"

record step_view =
  sv_step_id :: step_id
  sv_name :: str
  sv_state :: step_state
  sv_started_at :: "instant option"
  sv_finished_at :: "instant option"

record job_view =
  jv_job_id :: job_id
  jv_tenant :: str
  jv_priority :: priority
  jv_steps :: "step_view list"

record waiting =
  w_job_id :: job_id
  w_step_id :: step_id
  w_cost :: rat

record placement =
  pl_name :: str
  pl_since :: "instant option"
  pl_charged :: "rat option"

record job_meta =
  jm_tenant :: str
  jm_priority :: priority
  jm_steps :: "(step_id \<times> placement) list"

record tenant_state =
  tn_vft_last :: rat
  tn_queues :: "waiting list list"
  tn_running :: "((job_id \<times> step_id) \<times> instant) list"
  tn_ledger :: "(instant \<times> duration) list"

definition tenant_default :: tenant_state where
  "tenant_default = \<lparr>tn_vft_last = 0, tn_queues = [[], []], tn_running = [], tn_ledger = []\<rparr>"

record fair_queue =
  fq_cfg :: fair_share
  fq_virtual_now :: rat
  fq_tenants :: "(str \<times> tenant_state) list"
  fq_jobs :: "(job_id \<times> job_meta) list"
  fq_costs :: "((str \<times> str) \<times> rat list) list"
  fq_cost_keys :: "(str \<times> str list) list"

definition fair_queue_new :: "fair_share \<Rightarrow> fair_queue" where
  "fair_queue_new cfg = \<lparr>fq_cfg = cfg, fq_virtual_now = 0, fq_tenants = [], fq_jobs = [],
     fq_costs = [], fq_cost_keys = []\<rparr>"

section \<open>The estimator\<close>

definition estimate :: "fair_queue \<Rightarrow> str \<Rightarrow> str \<Rightarrow> rat" where
  "estimate q name step_name =
     max (case map_of (fq_costs q) (name, step_name) of
            Some s \<Rightarrow> if s \<noteq> [] then sort s ! (length s div 2) else as_secs_f64 (fs_default_cost (fq_cfg q))
          | None \<Rightarrow> as_secs_f64 (fs_default_cost (fq_cfg q)))
       MIN_COST_SECS"

fun evict_names :: "str \<Rightarrow> str list \<Rightarrow> ((str \<times> str) \<times> rat list) list \<Rightarrow>
    str list \<times> ((str \<times> str) \<times> rat list) list" where
  "evict_names name [] costs = ([], costs)"
| "evict_names name (n # names) costs =
     (if length (n # names) > COST_KEYS_PER_TENANT
      then evict_names name names (AList.delete (name, n) costs)
      else (n # names, costs))"

fun trim_samples :: "rat list \<Rightarrow> rat list" where
  "trim_samples [] = []"
| "trim_samples (x # xs) = (if length (x # xs) > COST_SAMPLES then trim_samples xs else x # xs)"

definition observe_cost :: "fair_queue \<Rightarrow> str \<Rightarrow> str \<Rightarrow> duration \<Rightarrow> fair_queue" where
  "observe_cost q name step_name ran_for =
     (let q1 = (case map_of (fq_costs q) (name, step_name) of
                  Some _ \<Rightarrow> q
                | None \<Rightarrow>
                    let names = (case map_of (fq_cost_keys q) name of Some ns \<Rightarrow> ns | None \<Rightarrow> []);
                        (names', costs') = evict_names name (names @ [step_name]) (fq_costs q)
                    in q\<lparr>fq_cost_keys := AList.update name names' (fq_cost_keys q), fq_costs := costs'\<rparr>);
          samples = (case map_of (fq_costs q1) (name, step_name) of Some s \<Rightarrow> s | None \<Rightarrow> [])
      in q1\<lparr>fq_costs := AList.update (name, step_name) (trim_samples (samples @ [as_secs_f64 ran_for])) (fq_costs q1)\<rparr>)"

section \<open>Bookkeeping primitives\<close>

definition admit_job :: "fair_queue \<Rightarrow> job_id \<Rightarrow> str \<Rightarrow> priority \<Rightarrow> fair_queue" where
  "admit_job q j name pr =
     q\<lparr>fq_tenants := bt_entry name tenant_default id (fq_tenants q),
       fq_jobs := (case map_of (fq_jobs q) j of
           Some _ \<Rightarrow> hm_modify j (\<lambda>m. m\<lparr>jm_priority := pr\<rparr>) (fq_jobs q)
         | None \<Rightarrow> AList.update j \<lparr>jm_tenant = name, jm_priority = pr, jm_steps = []\<rparr> (fq_jobs q))\<rparr>"

definition push_queue :: "priority \<Rightarrow> waiting \<Rightarrow> tenant_state \<Rightarrow> tenant_state" where
  "push_queue pr w t =
     t\<lparr>tn_queues := (tn_queues t)[priority_index pr := tn_queues t ! priority_index pr @ [w]]\<rparr>"

definition enqueue :: "fair_queue \<Rightarrow> job_id \<Rightarrow> step_id \<Rightarrow> str \<Rightarrow> fair_queue" where
  "enqueue q j s step_name =
     (case map_of (fq_jobs q) j of
        None \<Rightarrow> q
      | Some meta \<Rightarrow>
          if map_of (jm_steps meta) s \<noteq> None then q
          else
            let cost = estimate q (jm_tenant meta) step_name;
                p = \<lparr>pl_name = step_name, pl_since = None, pl_charged = None\<rparr>;
                w = \<lparr>w_job_id = j, w_step_id = s, w_cost = cost\<rparr>
            in q\<lparr>fq_jobs := hm_modify j (\<lambda>m. m\<lparr>jm_steps := AList.update s p (jm_steps m)\<rparr>) (fq_jobs q),
                 fq_tenants := bt_entry (jm_tenant meta) tenant_default (push_queue (jm_priority meta) w)
                   (fq_tenants q)\<rparr>)"

text \<open>What a step leaving flight does to its tenant: it frees the slot, pays for the time it held it,
  and the charge made at selection is trued up against that time.\<close>

definition settle_running :: "rat \<Rightarrow> job_id \<Rightarrow> step_id \<Rightarrow> instant \<Rightarrow> duration \<Rightarrow> rat option \<Rightarrow>
    tenant_state \<Rightarrow> tenant_state" where
  "settle_running weight j s t_at ran_for charged t =
     t\<lparr>tn_running := AList.delete (j, s) (tn_running t),
       tn_ledger := tn_ledger t @ [(t_at, ran_for)],
       tn_vft_last := (case charged of
           Some c \<Rightarrow> tn_vft_last t + (as_secs_f64 ran_for - c) / weight
         | None \<Rightarrow> tn_vft_last t)\<rparr>"

definition unplace :: "fair_queue \<Rightarrow> job_id \<Rightarrow> step_id \<Rightarrow> instant \<Rightarrow> bool \<Rightarrow> fair_queue" where
  "unplace q j s t_at learn =
     (case map_of (fq_jobs q) j of
        None \<Rightarrow> q
      | Some meta \<Rightarrow>
          (case map_of (jm_steps meta) s of
             None \<Rightarrow> q
           | Some p \<Rightarrow>
               let name = jm_tenant meta;
                   q1 = q\<lparr>fq_jobs := hm_modify j (\<lambda>m. m\<lparr>jm_steps := AList.delete s (jm_steps m)\<rparr>) (fq_jobs q)\<rparr>
               in (case pl_since p of
                     None \<Rightarrow> q1
                   | Some since \<Rightarrow>
                       let ran_for = t_at - since;
                           weight = safe_weight (plan (fq_cfg q) name);
                           q2 = q1\<lparr>fq_tenants :=
                             hm_modify name (settle_running weight j s t_at ran_for (pl_charged p)) (fq_tenants q1)\<rparr>
                       in if learn then observe_cost q2 name (pl_name p) ran_for else q2)))"

definition release :: "fair_queue \<Rightarrow> job_id \<Rightarrow> step_id \<Rightarrow> instant \<Rightarrow> fair_queue" where
  "release q j s t_at = unplace q j s t_at False"

definition finish :: "fair_queue \<Rightarrow> job_id \<Rightarrow> step_id \<Rightarrow> instant \<Rightarrow> fair_queue" where
  "finish q j s t_at = unplace q j s t_at True"

definition requeue :: "fair_queue \<Rightarrow> job_id \<Rightarrow> step_id \<Rightarrow> str \<Rightarrow> instant \<Rightarrow> fair_queue" where
  "requeue q j s step_name t_at = enqueue (release q j s t_at) j s step_name"

definition forget_job :: "fair_queue \<Rightarrow> job_id \<Rightarrow> instant \<Rightarrow> fair_queue" where
  "forget_job q j t_at =
     (case map_of (fq_jobs q) j of
        None \<Rightarrow> q
      | Some meta \<Rightarrow>
          let q1 = fold (\<lambda>s q. release q j s t_at) (map fst (jm_steps meta)) q
          in q1\<lparr>fq_jobs := AList.delete j (fq_jobs q1)\<rparr>)"

definition adopt :: "fair_queue \<Rightarrow> job_id \<Rightarrow> step_id \<Rightarrow> str \<Rightarrow> instant \<Rightarrow> fair_queue" where
  "adopt q j s step_name since =
     (case map_of (fq_jobs q) j of
        None \<Rightarrow> q
      | Some meta \<Rightarrow>
          let p = \<lparr>pl_name = step_name, pl_since = Some since, pl_charged = None\<rparr>
          in q\<lparr>fq_jobs := hm_modify j (\<lambda>m. m\<lparr>jm_steps := AList.update s p (jm_steps m)\<rparr>) (fq_jobs q),
               fq_tenants := bt_entry (jm_tenant meta) tenant_default
                 (\<lambda>t. t\<lparr>tn_running := AList.update (j, s) since (tn_running t)\<rparr>) (fq_tenants q)\<rparr>)"

definition placement_of :: "fair_queue \<Rightarrow> job_id \<Rightarrow> step_id \<Rightarrow> placement option" where
  "placement_of q j s = Option.bind (map_of (fq_jobs q) j) (\<lambda>m. map_of (jm_steps m) s)"

definition reconcile_step :: "job_id \<Rightarrow> instant \<Rightarrow> step_view \<Rightarrow> fair_queue \<Rightarrow> fair_queue" where
  "reconcile_step j now v q =
     (let held = map_option (\<lambda>p. pl_since p \<noteq> None) (placement_of q j (sv_step_id v));
          st = sv_state v
      in if st = SReady \<and> held = None then enqueue q j (sv_step_id v) (sv_name v)
         else if st = SReady \<and> held = Some True then requeue q j (sv_step_id v) (sv_name v) now
         else if (st = SLeased \<or> st = SRunning) \<and> held = Some True then q
         else if st = SLeased \<or> st = SRunning then
           adopt (release q j (sv_step_id v) now) j (sv_step_id v) (sv_name v)
             (case sv_started_at v of Some i \<Rightarrow> i | None \<Rightarrow> now)
         else if (st = SPassed \<or> st = SFailed) \<and> held \<noteq> None then
           finish q j (sv_step_id v) (case sv_finished_at v of Some i \<Rightarrow> i | None \<Rightarrow> now)
         else if held \<noteq> None \<and> is_terminal st then
           release q j (sv_step_id v) (case sv_finished_at v of Some i \<Rightarrow> i | None \<Rightarrow> now)
         else q)"

definition reconcile :: "fair_queue \<Rightarrow> job_view \<Rightarrow> instant \<Rightarrow> fair_queue" where
  "reconcile q v now =
     fold (reconcile_step (jv_job_id v) now) (jv_steps v)
       (admit_job q (jv_job_id v) (jv_tenant v) (jv_priority v))"

section \<open>The caps\<close>

definition node_seconds :: "tenant_state \<Rightarrow> instant \<Rightarrow> rat" where
  "node_seconds t now =
     sum_list (map (\<lambda>(t_at, ran_for). as_secs_f64 ran_for) (filter (\<lambda>(t_at, ran_for). now - t_at < ROLLING_WINDOW) (tn_ledger t))) +
     sum_list (map (\<lambda>(k, since). as_secs_f64 (now - since)) (tn_running t))"

definition over_concurrency :: "tenant_state \<Rightarrow> tenant_plan \<Rightarrow> bool" where
  "over_concurrency t p \<longleftrightarrow> length (tn_running t) \<ge> tp_max_running_steps p"

definition over_node_minutes :: "tenant_state \<Rightarrow> tenant_plan \<Rightarrow> instant \<Rightarrow> bool" where
  "over_node_minutes t p now =
     (case tp_node_minutes_per_hour p of
        Finite m \<Rightarrow> node_seconds t now \<ge> m * 60
      | PosInf \<Rightarrow> False
      | NegInf \<Rightarrow> True
      | NaN \<Rightarrow> False)"

definition admissible :: "fair_queue \<Rightarrow> str \<Rightarrow> tenant_state \<Rightarrow> instant \<Rightarrow> bool" where
  "admissible q name t now \<longleftrightarrow>
     \<not> over_concurrency t (plan (fq_cfg q) name) \<and> \<not> over_node_minutes t (plan (fq_cfg q) name) now"

definition admission :: "fair_queue \<Rightarrow> str \<Rightarrow> instant \<Rightarrow> admission_view" where
  "admission q name now =
     (case map_of (fq_tenants q) name of
        None \<Rightarrow> \<lparr>av_over_concurrency = False, av_over_node_minutes = False\<rparr>
      | Some t \<Rightarrow> \<lparr>av_over_concurrency = over_concurrency t (plan (fq_cfg q) name),
                  av_over_node_minutes = over_node_minutes t (plan (fq_cfg q) name) now\<rparr>)"

definition node_seconds_used :: "fair_queue \<Rightarrow> str \<Rightarrow> instant \<Rightarrow> rat" where
  "node_seconds_used q name now =
     (case map_of (fq_tenants q) name of Some t \<Rightarrow> node_seconds t now | None \<Rightarrow> 0)"

definition in_flight :: "fair_queue \<Rightarrow> nat" where
  "in_flight q = sum_list (map (\<lambda>(name, t). length (tn_running t)) (fq_tenants q))"

definition is_waiting :: "(job_id \<times> job_meta) list \<Rightarrow> waiting \<Rightarrow> bool" where
  "is_waiting jobs w =
     (case Option.bind (map_of jobs (w_job_id w)) (\<lambda>m. map_of (jm_steps m) (w_step_id w)) of
        Some p \<Rightarrow> pl_since p = None
      | None \<Rightarrow> False)"

definition depth :: "fair_queue \<Rightarrow> str \<Rightarrow> depth_view" where
  "depth q name =
     (case map_of (fq_tenants q) name of
        None \<Rightarrow> \<lparr>dv_queued = 0, dv_running = 0\<rparr>
      | Some t \<Rightarrow> \<lparr>dv_queued = length (filter (is_waiting (fq_jobs q)) (concat (tn_queues t))),
                  dv_running = length (tn_running t)\<rparr>)"

section \<open>Selection\<close>

fun position_nonempty :: "'a list list \<Rightarrow> nat option" where
  "position_nonempty [] = None"
| "position_nonempty (q # qs) = (if q \<noteq> [] then Some 0 else map_option Suc (position_nonempty qs))"

definition head_class :: "tenant_state \<Rightarrow> nat option" where
  "head_class t = position_nonempty (tn_queues t)"

definition head :: "tenant_state \<Rightarrow> waiting option" where
  "head t = Option.bind (head_class t) (\<lambda>c. case tn_queues t ! c of w # _ \<Rightarrow> Some w | [] \<Rightarrow> None)"

definition pop_head :: "fair_queue \<Rightarrow> str \<Rightarrow> fair_queue \<times> waiting option" where
  "pop_head q name =
     (case map_of (fq_tenants q) name of
        None \<Rightarrow> (q, None)
      | Some t \<Rightarrow>
          (case head_class t of
             None \<Rightarrow> (q, None)
           | Some c \<Rightarrow>
               (case tn_queues t ! c of
                  [] \<Rightarrow> (q, None)
                | w # rest \<Rightarrow>
                    (q\<lparr>fq_tenants := hm_modify name (\<lambda>t. t\<lparr>tn_queues := (tn_queues t)[c := rest]\<rparr>) (fq_tenants q)\<rparr>,
                     Some w))))"

definition drop_stale_heads :: "fair_queue \<Rightarrow> fair_queue" where
  "drop_stale_heads q =
     q\<lparr>fq_tenants := hm_map (\<lambda>name t.
         t\<lparr>tn_queues := map (dropWhile (\<lambda>w. \<not> is_waiting (fq_jobs q) w)) (tn_queues t)\<rparr>) (fq_tenants q)\<rparr>"

definition prune_ledgers :: "fair_queue \<Rightarrow> instant \<Rightarrow> fair_queue" where
  "prune_ledgers q now =
     q\<lparr>fq_tenants := hm_map (\<lambda>name t.
         t\<lparr>tn_ledger := dropWhile (\<lambda>(t_at, ran_for). \<not> now - t_at < ROLLING_WINDOW) (tn_ledger t)\<rparr>) (fq_tenants q)\<rparr>"

text \<open>The tags of a tenant's head: its start, clamped to the idle credit, and its finish.\<close>

definition floor_tag :: "fair_queue \<Rightarrow> rat" where
  "floor_tag q = fq_virtual_now q - as_secs_f64 (fs_idle_credit (fq_cfg q))"

definition start_tag :: "fair_queue \<Rightarrow> tenant_state \<Rightarrow> rat" where
  "start_tag q t = max (tn_vft_last t) (floor_tag q)"

definition finish_tag :: "fair_queue \<Rightarrow> str \<Rightarrow> tenant_state \<Rightarrow> waiting \<Rightarrow> rat" where
  "finish_tag q name t w = start_tag q t + w_cost w / safe_weight (plan (fq_cfg q) name)"

definition best_step :: "fair_queue \<Rightarrow> instant \<Rightarrow> str \<times> tenant_state \<Rightarrow>
    (str \<times> rat \<times> rat) option \<Rightarrow> (str \<times> rat \<times> rat) option" where
  "best_step q now nt acc =
     (case nt of (name, t) \<Rightarrow>
        case head t of
          None \<Rightarrow> acc
        | Some w \<Rightarrow>
            if \<not> admissible q name t now then acc
            else let start = start_tag q t; vft = finish_tag q name t w;
                     better = (case acc of Some (_, _, best_vft) \<Rightarrow> vft < best_vft | None \<Rightarrow> True)
                 in if better then Some (name, start, vft) else acc)"

definition best :: "fair_queue \<Rightarrow> instant \<Rightarrow> (str \<times> rat \<times> rat) option" where
  "best q now = fold (best_step q now) (fq_tenants q) None"

definition grant_step :: "fair_queue \<Rightarrow> str \<Rightarrow> rat \<Rightarrow> rat \<Rightarrow> waiting \<Rightarrow> instant \<Rightarrow> fair_queue" where
  "grant_step q name start vft w now =
     (let charged = (vft - start) * safe_weight (plan (fq_cfg q) name)
      in q\<lparr>fq_tenants := hm_modify name (\<lambda>t. t\<lparr>tn_vft_last := vft,
             tn_running := AList.update (w_job_id w, w_step_id w) now (tn_running t)\<rparr>) (fq_tenants q),
           fq_virtual_now := max (fq_virtual_now q) start,
           fq_jobs := hm_modify (w_job_id w) (\<lambda>m. m\<lparr>jm_steps :=
             hm_modify (w_step_id w) (\<lambda>p. p\<lparr>pl_since := Some now, pl_charged := Some charged\<rparr>) (jm_steps m)\<rparr>)
             (fq_jobs q)\<rparr>)"

fun select_loop :: "nat \<Rightarrow> instant \<Rightarrow> fair_queue \<Rightarrow> fair_queue \<times> grant list" where
  "select_loop budget now q =
     (if budget = 0 then (q, [])
      else
        let q1 = drop_stale_heads q
        in case best q1 now of
             None \<Rightarrow> (q1, [])
           | Some (name, start, vft) \<Rightarrow>
               (case pop_head q1 name of
                  (q2, None) \<Rightarrow> (q2, [])
                | (q2, Some w) \<Rightarrow>
                    let (qf, gs) = select_loop (budget - 1) now (grant_step q2 name start vft w now)
                    in (qf, \<lparr>g_job_id = w_job_id w, g_step_id = w_step_id w, g_tenant = name\<rparr> # gs)))"

declare select_loop.simps [simp del]

definition select_budget :: "fair_queue \<Rightarrow> nat" where
  "select_budget q =
     (case fs_fleet_slots (fq_cfg q) of Some slots \<Rightarrow> slots - in_flight q | None \<Rightarrow> USIZE_MAX)"

definition select :: "fair_queue \<Rightarrow> instant \<Rightarrow> fair_queue \<times> grant list" where
  "select q now =
     (let q1 = prune_ledgers q now in select_loop (select_budget q1) now q1)"

section \<open>The accounting invariant\<close>

text \<open>
  \<open>owner\<close> names the tenant each job id belongs to: a job's tenant is fixed at admission and ids are
  not reused across tenants. The caps read \<open>running\<close>; the invariant says that \<open>running\<close> is exactly
  the placements that have started, with the instant they started at.
\<close>

definition since_of :: "fair_queue \<Rightarrow> job_id \<Rightarrow> step_id \<Rightarrow> instant option" where
  "since_of q j s = Option.bind (placement_of q j s) pl_since"

definition job_meta_ok :: "(job_id \<Rightarrow> str) \<Rightarrow> fair_queue \<Rightarrow> job_id \<Rightarrow> job_meta \<Rightarrow> bool" where
  "job_meta_ok owner q j m \<longleftrightarrow>
     hm_ok (jm_steps m) \<and> jm_tenant m = owner j \<and> map_of (fq_tenants q) (owner j) \<noteq> None"

definition tenant_ok :: "(job_id \<Rightarrow> str) \<Rightarrow> fair_queue \<Rightarrow> str \<Rightarrow> tenant_state \<Rightarrow> bool" where
  "tenant_ok owner q name t \<longleftrightarrow>
     hm_ok (tn_running t) \<and> length (tn_queues t) = 2 \<and>
     (\<forall>qu\<in>set (tn_queues t). \<forall>w\<in>set qu. owner (w_job_id w) = name) \<and>
     (\<forall>j s. map_of (tn_running t) (j, s) = (if owner j = name then since_of q j s else None))"

definition fq_inv :: "(job_id \<Rightarrow> str) \<Rightarrow> fair_queue \<Rightarrow> bool" where
  "fq_inv owner q \<longleftrightarrow>
     bt_ok (fq_tenants q) \<and> hm_ok (fq_jobs q) \<and>
     (\<forall>j m. map_of (fq_jobs q) j = Some m \<longrightarrow> job_meta_ok owner q j m) \<and>
     (\<forall>name t. map_of (fq_tenants q) name = Some t \<longrightarrow> tenant_ok owner q name t)"

lemma fq_invI:
  assumes "bt_ok (fq_tenants q)" and "hm_ok (fq_jobs q)"
    and "\<And>j m. map_of (fq_jobs q) j = Some m \<Longrightarrow> job_meta_ok owner q j m"
    and "\<And>name t. map_of (fq_tenants q) name = Some t \<Longrightarrow> tenant_ok owner q name t"
  shows "fq_inv owner q"
  using assms by (simp add: fq_inv_def)

lemma fq_invD:
  assumes "fq_inv owner q"
  shows "bt_ok (fq_tenants q)" and "hm_ok (fq_jobs q)"
    and "map_of (fq_jobs q) j = Some m \<Longrightarrow> job_meta_ok owner q j m"
    and "map_of (fq_tenants q) name = Some t \<Longrightarrow> tenant_ok owner q name t"
  using assms by (simp_all add: fq_inv_def)

text \<open>
  How an operation may change the state: it moves some start instants and the owner's \<open>running\<close> map
  with them, and every new queue entry belongs to the tenant whose queue it joins.
\<close>

definition tenant_moved :: "(job_id \<Rightarrow> str) \<Rightarrow> fair_queue \<Rightarrow> fair_queue \<Rightarrow> str \<Rightarrow> tenant_state \<Rightarrow> tenant_state \<Rightarrow> bool" where
  "tenant_moved owner q q' name t t' \<longleftrightarrow>
     hm_ok (tn_running t') \<and> length (tn_queues t') = length (tn_queues t) \<and>
     (\<forall>qu\<in>set (tn_queues t'). \<forall>w\<in>set qu. owner (w_job_id w) = name \<or> (\<exists>qu\<in>set (tn_queues t). w \<in> set qu)) \<and>
     (\<forall>j s. map_of (tn_running t') (j, s) =
        (if owner j = name \<and> since_of q' j s \<noteq> since_of q j s then since_of q' j s else map_of (tn_running t) (j, s))) \<and>
     (\<forall>j s. owner j \<noteq> name \<longrightarrow> map_of (tn_running t') (j, s) = map_of (tn_running t) (j, s))"

lemma fq_inv_no_tenant:
  assumes "fq_inv owner q" and "map_of (fq_tenants q) name = None" and "owner j = name"
  shows "since_of q j s = None"
  using assms(2,3) fq_invD(3) [OF assms(1), of j]
  by (auto simp: since_of_def placement_of_def job_meta_ok_def split: Option.bind_splits)

lemma tenant_moved_ok:
  assumes "tenant_ok owner q name t" and "tenant_moved owner q q' name t t'"
  shows "tenant_ok owner q' name t'"
  using assms unfolding tenant_ok_def tenant_moved_def
  by (elim conjE, intro conjI) (simp, simp, blast, auto)

lemma fq_inv_change:
  assumes inv: "fq_inv owner q" and "bt_ok (fq_tenants q')" and "hm_ok (fq_jobs q')"
    and jobs: "\<And>j m. map_of (fq_jobs q') j = Some m \<Longrightarrow> job_meta_ok owner q' j m"
    and moved: "\<And>name t'. map_of (fq_tenants q') name = Some t' \<Longrightarrow>
      tenant_moved owner q q' name
        (case map_of (fq_tenants q) name of Some t \<Rightarrow> t | None \<Rightarrow> tenant_default) t'"
  shows "fq_inv owner q'"
proof (rule fq_invI)
  show "tenant_ok owner q' name t'" if *: "map_of (fq_tenants q') name = Some t'" for name t'
  proof (rule tenant_moved_ok [OF _ moved [OF *]])
    show "tenant_ok owner q name (case map_of (fq_tenants q) name of Some t \<Rightarrow> t | None \<Rightarrow> tenant_default)"
      using fq_invD(4) [OF inv, of name] fq_inv_no_tenant [OF inv, of name]
      by (auto simp: tenant_ok_def tenant_default_def split: option.splits)
  qed
qed (use assms in auto)

lemma tenant_moved_queues:
  assumes "\<And>j s. since_of q' j s = since_of q j s" and "hm_ok (tn_running t)"
    and "tn_running t' = tn_running t" and "length (tn_queues t') = length (tn_queues t)"
    and "\<forall>qu\<in>set (tn_queues t'). \<forall>w\<in>set qu. owner (w_job_id w) = name \<or> (\<exists>qu\<in>set (tn_queues t). w \<in> set qu)"
  shows "tenant_moved owner q q' name t t'"
  using assms by (simp add: tenant_moved_def)

lemma old_tenant_running:
  "fq_inv owner q \<Longrightarrow>
     hm_ok (tn_running (case map_of (fq_tenants q) name of Some t \<Rightarrow> t | None \<Rightarrow> tenant_default))"
  using fq_invD(4) [of owner q name] by (auto simp: tenant_ok_def tenant_default_def split: option.splits)

lemma placement_of_simps [simp]:
  "placement_of (q\<lparr>fq_tenants := ts\<rparr>) j s = placement_of q j s"
  "placement_of (q\<lparr>fq_virtual_now := v\<rparr>) j s = placement_of q j s"
  "placement_of (q\<lparr>fq_costs := cs\<rparr>) j s = placement_of q j s"
  "placement_of (q\<lparr>fq_cost_keys := ks\<rparr>) j s = placement_of q j s"
  by (simp_all add: placement_of_def)

subsection \<open>The operations keep it\<close>

lemma placement_admit_job [simp]: "placement_of (admit_job q j0 name pr) j s = placement_of q j s"
  by (auto simp: placement_of_def admit_job_def bind_map_option o_def split: option.splits Option.bind_splits)

lemma since_admit_job [simp]: "since_of (admit_job q j0 name pr) j s = since_of q j s"
  by (simp add: since_of_def)

lemma tenants_admit_job [simp]:
  "fq_tenants (admit_job q j name pr) = bt_entry name tenant_default id (fq_tenants q)"
  by (simp add: admit_job_def)

lemma fq_inv_admit_job:
  assumes inv: "fq_inv owner q" and "owner j = name"
  shows "fq_inv owner (admit_job q j name pr)"
proof (rule fq_inv_change [OF inv])
  note i = fq_invD [OF inv]
  show "bt_ok (fq_tenants (admit_job q j name pr))" using i(1) by simp
  show "hm_ok (fq_jobs (admit_job q j name pr))" using i(2) by (simp add: admit_job_def split: option.splits)
  show "job_meta_ok owner (admit_job q j name pr) j' m"
    if "map_of (fq_jobs (admit_job q j name pr)) j' = Some m" for j' m
    using that i(1) i(3) [of j'] assms(2)
    by (auto simp: admit_job_def job_meta_ok_def split: option.splits if_splits)
  show "tenant_moved owner q (admit_job q j name pr) n
      (case map_of (fq_tenants q) n of Some t \<Rightarrow> t | None \<Rightarrow> tenant_default) t'"
    if "map_of (fq_tenants (admit_job q j name pr)) n = Some t'" for n t'
    using that i(1) old_tenant_running [OF inv, of n]
    by (intro tenant_moved_queues) (auto split: option.splits if_splits)
qed

lemma since_enqueue [simp]: "since_of (enqueue q j0 s0 nm) j s = since_of q j s"
  by (auto simp: since_of_def placement_of_def enqueue_def Let_def split: option.splits Option.bind_splits)

lemma push_queue_simps [simp]:
  "tn_running (push_queue pr w t) = tn_running t"
  "length (tn_queues (push_queue pr w t)) = length (tn_queues t)"
  by (simp_all add: push_queue_def)

lemma push_queue_member:
  assumes "length (tn_queues t) = 2" and "qu \<in> set (tn_queues (push_queue pr w t))" and "x \<in> set qu"
  shows "x = w \<or> (\<exists>qu\<in>set (tn_queues t). x \<in> set qu)"
proof -
  let ?i = "priority_index pr"
  have i: "?i < length (tn_queues t)" using assms(1) by (cases pr) auto
  from assms(2) have "qu \<in> insert (tn_queues t ! ?i @ [w]) (set (tn_queues t))"
    using set_update_subset_insert by (fastforce simp: push_queue_def)
  with assms(3) nth_mem [OF i] show ?thesis by auto
qed

lemma fq_inv_queue_length:
  "fq_inv owner q \<Longrightarrow>
     length (tn_queues (case map_of (fq_tenants q) name of Some t \<Rightarrow> t | None \<Rightarrow> tenant_default)) = 2"
  using fq_invD(4) [of owner q name] by (auto simp: tenant_ok_def tenant_default_def split: option.splits)

lemma fq_inv_enqueue:
  assumes inv: "fq_inv owner q"
  shows "fq_inv owner (enqueue q j s nm)"
proof (cases "enqueue q j s nm = q")
  case False
  then obtain m where m: "map_of (fq_jobs q) j = Some m" "map_of (jm_steps m) s = None"
    by (auto simp: enqueue_def split: option.splits if_splits)
  note i = fq_invD [OF inv] and jm = fq_invD(3) [OF inv m(1), unfolded job_meta_ok_def]
  show ?thesis
  proof (rule fq_inv_change [OF inv])
    show "bt_ok (fq_tenants (enqueue q j s nm))" using i(1) m by (simp add: enqueue_def Let_def)
    show "hm_ok (fq_jobs (enqueue q j s nm))" using i(2) m by (simp add: enqueue_def Let_def)
    show "job_meta_ok owner (enqueue q j s nm) j' m'"
      if "map_of (fq_jobs (enqueue q j s nm)) j' = Some m'" for j' m'
      using that i(1) i(3) [of j'] m by (auto simp: enqueue_def Let_def job_meta_ok_def split: if_splits)
    show "tenant_moved owner q (enqueue q j s nm) n
        (case map_of (fq_tenants q) n of Some t \<Rightarrow> t | None \<Rightarrow> tenant_default) t'"
      if t': "map_of (fq_tenants (enqueue q j s nm)) n = Some t'" for n t'
    proof (rule tenant_moved_queues)
      let ?t = "case map_of (fq_tenants q) n of Some t \<Rightarrow> t | None \<Rightarrow> tenant_default"
      have cases: "t' = ?t \<or> (n = owner j \<and> (\<exists>pr c. t' = push_queue pr \<lparr>w_job_id = j, w_step_id = s, w_cost = c\<rparr> ?t))"
        using t' i(1) m jm by (auto simp: enqueue_def Let_def split: if_splits)
      then show "tn_running t' = tn_running ?t" "length (tn_queues t') = length (tn_queues ?t)" by auto
      show "\<forall>qu\<in>set (tn_queues t'). \<forall>w\<in>set qu. owner (w_job_id w) = n \<or> (\<exists>qu\<in>set (tn_queues ?t). w \<in> set qu)"
        using cases push_queue_member [OF fq_inv_queue_length [OF inv, of n]] by fastforce
    qed (use old_tenant_running [OF inv] in simp_all)
  qed
qed (simp add: inv)

lemma observe_cost_simps [simp]:
  "fq_tenants (observe_cost q n sn r) = fq_tenants q"
  "fq_jobs (observe_cost q n sn r) = fq_jobs q"
  "fq_cfg (observe_cost q n sn r) = fq_cfg q"
  "fq_virtual_now (observe_cost q n sn r) = fq_virtual_now q"
  by (auto simp: observe_cost_def Let_def split: option.splits prod.splits)

lemma fq_inv_cong:
  "fq_inv owner q \<Longrightarrow> fq_tenants q' = fq_tenants q \<Longrightarrow> fq_jobs q' = fq_jobs q \<Longrightarrow> fq_inv owner q'"
  unfolding fq_inv_def job_meta_ok_def tenant_ok_def since_of_def placement_of_def by simp

lemma jobs_unplace:
  "fq_jobs (unplace q j s t_at learn) =
     (case map_of (fq_jobs q) j of
        None \<Rightarrow> fq_jobs q
      | Some m \<Rightarrow> if map_of (jm_steps m) s = None then fq_jobs q
          else hm_modify j (\<lambda>m. m\<lparr>jm_steps := AList.delete s (jm_steps m)\<rparr>) (fq_jobs q))"
  by (auto simp: unplace_def Let_def split: option.splits)

lemma tenants_unplace:
  "fq_tenants (unplace q j s t_at learn) =
     (case map_of (fq_jobs q) j of
        None \<Rightarrow> fq_tenants q
      | Some m \<Rightarrow>
          (case map_of (jm_steps m) s of
             None \<Rightarrow> fq_tenants q
           | Some p \<Rightarrow>
               (case pl_since p of
                  None \<Rightarrow> fq_tenants q
                | Some since \<Rightarrow> hm_modify (jm_tenant m)
                    (settle_running (safe_weight (plan (fq_cfg q) (jm_tenant m))) j s t_at (t_at - since) (pl_charged p))
                    (fq_tenants q))))"
  by (auto simp: unplace_def Let_def split: option.splits)

lemma placement_unplace:
  "placement_of (unplace q j0 s0 t_at learn) j s = (if j = j0 \<and> s = s0 then None else placement_of q j s)"
  by (auto simp: placement_of_def jobs_unplace split: option.splits Option.bind_splits)

lemma since_unplace:
  "since_of (unplace q j0 s0 t_at learn) j s = (if j = j0 \<and> s = s0 then None else since_of q j s)"
  by (simp add: since_of_def placement_unplace)

lemma settle_running_simps [simp]:
  "tn_running (settle_running w j s a r c t) = AList.delete (j, s) (tn_running t)"
  "tn_queues (settle_running w j s a r c t) = tn_queues t"
  "tn_ledger (settle_running w j s a r c t) = tn_ledger t @ [(a, r)]"
  by (simp_all add: settle_running_def)

lemma fq_inv_unplace:
  assumes inv: "fq_inv owner q"
  shows "fq_inv owner (unplace q j s t_at learn)"
proof (rule fq_inv_change [OF inv])
  note i = fq_invD [OF inv]
  let ?q = "unplace q j s t_at learn"
  show "bt_ok (fq_tenants ?q)" using i(1) by (simp add: tenants_unplace split: option.splits)
  show "hm_ok (fq_jobs ?q)" using i(2) by (simp add: jobs_unplace split: option.splits)
  have dom: "(map_of (fq_tenants ?q) n = None) = (map_of (fq_tenants q) n = None)" for n
    by (simp add: tenants_unplace split: option.splits)
  show "job_meta_ok owner ?q j' m'" if "map_of (fq_jobs ?q) j' = Some m'" for j' m'
    using that i(3) [of j'] dom by (auto simp: jobs_unplace job_meta_ok_def split: option.splits if_splits)
  show "tenant_moved owner q ?q n (case map_of (fq_tenants q) n of Some t \<Rightarrow> t | None \<Rightarrow> tenant_default) t'"
    if t': "map_of (fq_tenants ?q) n = Some t'" for n t'
  proof -
    from t' dom [of n] obtain t where t: "map_of (fq_tenants q) n = Some t" by (metis option.exhaust option.distinct(1))
    note tok = i(4) [OF t, unfolded tenant_ok_def]
    have run: "map_of (tn_running t) (j, s) = (if owner j = n then since_of q j s else None)" using tok by blast
    have "t' = t \<and> (owner j = n \<longrightarrow> since_of q j s = None) \<or>
        (\<exists>w r c. t' = settle_running w j s t_at r c t \<and> owner j = n)"
      using t t' i(3) [of j] by (auto simp: tenants_unplace since_of_def placement_of_def job_meta_ok_def
          split: option.splits if_splits)
    then show ?thesis
      using tok run by (auto simp: tenant_moved_def since_unplace t)
  qed
qed

lemma tenants_adopt:
  "fq_tenants (adopt q j s nm since) =
     (case map_of (fq_jobs q) j of None \<Rightarrow> fq_tenants q
      | Some m \<Rightarrow> bt_entry (jm_tenant m) tenant_default
          (\<lambda>t. t\<lparr>tn_running := AList.update (j, s) since (tn_running t)\<rparr>) (fq_tenants q))"
  by (auto simp: adopt_def Let_def split: option.splits)

lemma since_adopt:
  "since_of (adopt q j0 s0 nm since) j s =
     (if j = j0 \<and> s = s0 \<and> map_of (fq_jobs q) j0 \<noteq> None then Some since else since_of q j s)"
  by (auto simp: since_of_def placement_of_def adopt_def Let_def split: option.splits Option.bind_splits)

lemma fq_inv_adopt:
  assumes inv: "fq_inv owner q"
  shows "fq_inv owner (adopt q j s nm since)"
proof (rule fq_inv_change [OF inv])
  note i = fq_invD [OF inv]
  let ?q = "adopt q j s nm since"
  show "bt_ok (fq_tenants ?q)" using i(1) by (simp add: tenants_adopt split: option.splits)
  show "hm_ok (fq_jobs ?q)" using i(2) by (simp add: adopt_def Let_def split: option.splits)
  have dom: "map_of (fq_tenants q) n \<noteq> None \<Longrightarrow> map_of (fq_tenants ?q) n \<noteq> None" for n
    using i(1) by (simp add: tenants_adopt split: option.splits)
  show "job_meta_ok owner ?q j' m'" if "map_of (fq_jobs ?q) j' = Some m'" for j' m'
    using that i(3) [of j'] dom
    by (auto simp: adopt_def [of q] Let_def job_meta_ok_def split: option.splits if_splits)
  show "tenant_moved owner q ?q n (case map_of (fq_tenants q) n of Some t \<Rightarrow> t | None \<Rightarrow> tenant_default) t'"
    if t': "map_of (fq_tenants ?q) n = Some t'" for n t'
  proof -
    let ?t = "case map_of (fq_tenants q) n of Some t \<Rightarrow> t | None \<Rightarrow> tenant_default"
    have "t' = ?t \<and> (owner j = n \<longrightarrow> map_of (fq_jobs q) j = None) \<or>
        (t' = ?t\<lparr>tn_running := AList.update (j, s) since (tn_running ?t)\<rparr> \<and> owner j = n \<and> map_of (fq_jobs q) j \<noteq> None)"
      using t' i(1) i(3) [of j] by (auto simp: tenants_adopt job_meta_ok_def split: option.splits if_splits)
    moreover have "map_of (tn_running ?t) (j, s) = (if owner j = n then since_of q j s else None)"
      using i(4) [of n] fq_inv_no_tenant [OF inv, of n j s]
      by (auto simp: tenant_ok_def tenant_default_def split: option.splits)
    ultimately show ?thesis
      using old_tenant_running [OF inv, of n] by (auto simp: tenant_moved_def since_adopt)
  qed
qed

lemma fq_inv_drop_job:
  assumes inv: "fq_inv owner q" and none: "\<And>s. since_of q j s = None"
  shows "fq_inv owner (q\<lparr>fq_jobs := AList.delete j (fq_jobs q)\<rparr>)" (is "fq_inv owner ?q")
proof -
  note i = fq_invD [OF inv]
  have since: "since_of ?q j' s = since_of q j' s" for j' s
    using none [of s] by (auto simp: since_of_def placement_of_def)
  show ?thesis
  proof (rule fq_inv_change [OF inv])
    show "job_meta_ok owner ?q j' m" if "map_of (fq_jobs ?q) j' = Some m" for j' m
      using that i(3) [of j'] by (auto simp: job_meta_ok_def split: if_splits)
    show "tenant_moved owner q ?q n (case map_of (fq_tenants q) n of Some t \<Rightarrow> t | None \<Rightarrow> tenant_default) t'"
      if "map_of (fq_tenants ?q) n = Some t'" for n t'
      using that i(4) [of n] by (intro tenant_moved_queues) (auto simp: since tenant_ok_def)
  qed (use i in auto)
qed

lemma fold_release:
  assumes "fq_inv owner q"
  shows "fq_inv owner (fold (\<lambda>s q. release q j s t_at) ss q) \<and>
    (\<forall>j' s. placement_of (fold (\<lambda>s q. release q j s t_at) ss q) j' s =
       (if j' = j \<and> s \<in> set ss then None else placement_of q j' s))"
  using assms
proof (induction ss arbitrary: q)
  case (Cons s ss)
  from fq_inv_unplace [OF Cons.prems, of j s t_at False] Cons.IH [of "release q j s t_at"]
  show ?case by (auto simp: release_def placement_unplace)
qed simp

lemma fq_inv_forget_job:
  assumes inv: "fq_inv owner q"
  shows "fq_inv owner (forget_job q j t_at)"
proof (cases "map_of (fq_jobs q) j")
  case (Some m)
  let ?q = "fold (\<lambda>s q. release q j s t_at) (map fst (jm_steps m)) q"
  note fr = fold_release [OF inv, of j t_at "map fst (jm_steps m)"]
  have "placement_of ?q j s = None" for s
    using fr Some by (auto simp: placement_of_def map_of_eq_None_iff)
  then have "since_of ?q j s = None" for s by (simp add: since_of_def)
  from fq_inv_drop_job [OF _ this] fr Some show ?thesis by (simp add: forget_job_def Let_def)
qed (simp add: forget_job_def inv)

lemma fq_inv_reconcile:
  assumes "fq_inv owner q" and "owner (jv_job_id v) = jv_tenant v"
  shows "fq_inv owner (reconcile q v now)"
proof -
  have step: "fq_inv owner q \<Longrightarrow> fq_inv owner (reconcile_step j now sv q)" for q j sv
    by (simp add: reconcile_step_def Let_def fq_inv_enqueue fq_inv_adopt fq_inv_unplace requeue_def release_def finish_def)
  have "fq_inv owner q \<Longrightarrow> fq_inv owner (fold (reconcile_step j now) vs q)" for q j vs
    by (induction vs arbitrary: q) (simp_all add: step)
  with fq_inv_admit_job [OF assms(1)] assms(2) show ?thesis by (simp add: reconcile_def)
qed

subsection \<open>Selection keeps it\<close>

lemma drop_stale_simps [simp]:
  "fq_cfg (drop_stale_heads q) = fq_cfg q" "fq_jobs (drop_stale_heads q) = fq_jobs q"
  "fq_virtual_now (drop_stale_heads q) = fq_virtual_now q"
  by (simp_all add: drop_stale_heads_def)

lemma prune_simps [simp]:
  "fq_cfg (prune_ledgers q now) = fq_cfg q" "fq_jobs (prune_ledgers q now) = fq_jobs q"
  "fq_virtual_now (prune_ledgers q now) = fq_virtual_now q"
  by (simp_all add: prune_ledgers_def)

lemma since_of_jobs: "fq_jobs q' = fq_jobs q \<Longrightarrow> since_of q' = since_of q"
  by (simp add: fun_eq_iff since_of_def placement_of_def)

lemma fq_inv_map_tenants:
  assumes inv: "fq_inv owner q" and "fq_jobs q' = fq_jobs q" and ts: "fq_tenants q' = hm_map f (fq_tenants q)"
    and f: "\<And>n t. tn_running (f n t) = tn_running t \<and> length (tn_queues (f n t)) = length (tn_queues t) \<and>
      (\<forall>qu\<in>set (tn_queues (f n t)). \<exists>qu'\<in>set (tn_queues t). set qu \<subseteq> set qu')"
  shows "fq_inv owner q'"
proof (rule fq_inv_change [OF inv])
  note i = fq_invD [OF inv] and since = since_of_jobs [OF assms(2)]
  show "bt_ok (fq_tenants q')" "hm_ok (fq_jobs q')" using i(1,2) assms(2) ts by simp_all
  show "job_meta_ok owner q' j m" if "map_of (fq_jobs q') j = Some m" for j m
    using that i(3) [of j] assms(2) ts by (simp add: job_meta_ok_def)
  show "tenant_moved owner q q' n (case map_of (fq_tenants q) n of Some t \<Rightarrow> t | None \<Rightarrow> tenant_default) t'"
    if t': "map_of (fq_tenants q') n = Some t'" for n t'
  proof -
    from t' ts obtain t where t: "map_of (fq_tenants q) n = Some t" "t' = f n t" by auto
    have "\<exists>qu'\<in>set (tn_queues t). w \<in> set qu'" if "qu \<in> set (tn_queues t')" "w \<in> set qu" for qu w
      using f [of n t] t(2) that by blast
    with t i(4) [of n t] f [of n t] have "tenant_moved owner q q' n t t'"
      by (intro tenant_moved_queues) (auto simp: since tenant_ok_def)
    with t show ?thesis by simp
  qed
qed

lemma set_dropWhile_subset: "set (dropWhile p xs) \<subseteq> set xs"
  by (auto dest: set_dropWhileD)

lemma fq_inv_drop_stale:
  assumes "fq_inv owner q"
  shows "fq_inv owner (drop_stale_heads q)"
  by (rule fq_inv_map_tenants [OF assms, where f = "\<lambda>name t.
         t\<lparr>tn_queues := map (dropWhile (\<lambda>w. \<not> is_waiting (fq_jobs q) w)) (tn_queues t)\<rparr>"])
    (auto simp: drop_stale_heads_def dest: set_dropWhileD)

lemma fq_inv_prune:
  assumes "fq_inv owner q"
  shows "fq_inv owner (prune_ledgers q now)"
  by (rule fq_inv_map_tenants [OF assms, where f = "\<lambda>name t.
         t\<lparr>tn_ledger := dropWhile (\<lambda>(t_at, ran_for). \<not> now - t_at < ROLLING_WINDOW) (tn_ledger t)\<rparr>"])
    (auto simp: prune_ledgers_def)

lemma position_nonempty_Some:
  "position_nonempty qs = Some c \<Longrightarrow> c < length qs \<and> qs ! c \<noteq> []"
  by (induction qs arbitrary: c) (auto split: if_splits)

lemma head_Some:
  assumes "head t = Some w"
  obtains c rest where "head_class t = Some c" and "c < length (tn_queues t)" and "tn_queues t ! c = w # rest"
  using assms position_nonempty_Some [of "tn_queues t"]
  by (auto simp: head_def head_class_def split: Option.bind_splits list.splits)

lemma pop_head_Some:
  assumes "map_of (fq_tenants q) name = Some t" and "head t = Some w"
  shows "\<exists>q2. pop_head q name = (q2, Some w)"
proof -
  obtain c rest where "head_class t = Some c" "tn_queues t ! c = w # rest"
    using assms(2) by (rule head_Some)
  with assms(1) show ?thesis by (simp add: pop_head_def)
qed

lemma pop_head_inv:
  assumes pop: "pop_head q name = (q2, Some w)"
  obtains t c rest where "map_of (fq_tenants q) name = Some t" and "head t = Some w"
    and "c < length (tn_queues t)" and "tn_queues t ! c = w # rest" and "head_class t = Some c"
    and "q2 = q\<lparr>fq_tenants := hm_modify name (\<lambda>t. t\<lparr>tn_queues := (tn_queues t)[c := rest]\<rparr>) (fq_tenants q)\<rparr>"
proof -
  from pop obtain t c rest where *: "map_of (fq_tenants q) name = Some t" "head_class t = Some c"
    "tn_queues t ! c = w # rest"
    "q2 = q\<lparr>fq_tenants := hm_modify name (\<lambda>t. t\<lparr>tn_queues := (tn_queues t)[c := rest]\<rparr>) (fq_tenants q)\<rparr>"
    by (auto simp: pop_head_def split: option.splits list.splits)
  moreover from * have "c < length (tn_queues t)"
    using position_nonempty_Some [of "tn_queues t" c] by (simp add: head_class_def)
  moreover from * have "head t = Some w" by (simp add: head_def)
  ultimately show ?thesis using that by blast
qed

lemma dropWhile_map_head:
  assumes "c < length qs" and "map (dropWhile p) qs ! c = w # rest"
  shows "\<not> p w"
  using assms hd_dropWhile [of p "qs ! c"] by (cases "dropWhile p (qs ! c)") auto

lemma head_drop_stale_waiting:
  assumes "map_of (fq_tenants (drop_stale_heads q)) name = Some t" and "head t = Some w"
  shows "is_waiting (fq_jobs q) w"
proof -
  from assms(1) obtain t0 where t: "t = t0\<lparr>tn_queues := map (dropWhile (\<lambda>w. \<not> is_waiting (fq_jobs q) w)) (tn_queues t0)\<rparr>"
    by (auto simp: drop_stale_heads_def)
  from assms(2) obtain c rest where "c < length (tn_queues t)" "tn_queues t ! c = w # rest" by (rule head_Some)
  with dropWhile_map_head [of c "tn_queues t0"] t show ?thesis by auto
qed

text \<open>One round of the loop, with the entry popped and the grant written.\<close>

definition grant_round :: "fair_queue \<Rightarrow> str \<Rightarrow> rat \<Rightarrow> rat \<Rightarrow> nat \<Rightarrow> waiting list \<Rightarrow> waiting \<Rightarrow> instant \<Rightarrow> fair_queue" where
  "grant_round q name start vft c rest w now =
     grant_step (q\<lparr>fq_tenants := hm_modify name (\<lambda>t. t\<lparr>tn_queues := (tn_queues t)[c := rest]\<rparr>) (fq_tenants q)\<rparr>)
       name start vft w now"

lemma map_of_hm_modify2:
  "map_of (hm_modify k f (hm_modify k g m)) x = (if x = k then map_option (f \<circ> g) (map_of m k) else map_of m x)"
  by (simp add: option.map_comp)

lemma grant_round_tenant:
  "map_of (fq_tenants (grant_round q name start vft c rest w now)) n =
     (if n = name then map_option (\<lambda>t. t\<lparr>tn_queues := (tn_queues t)[c := rest], tn_vft_last := vft,
        tn_running := AList.update (w_job_id w, w_step_id w) now (tn_running t)\<rparr>) (map_of (fq_tenants q) name)
      else map_of (fq_tenants q) n)"
  by (simp add: grant_round_def grant_step_def Let_def option.map_comp o_def)

lemma grant_round_simps [simp]:
  "fq_cfg (grant_round q name start vft c rest w now) = fq_cfg q"
  "fq_virtual_now (grant_round q name start vft c rest w now) = max (fq_virtual_now q) start"
  "map fst (fq_tenants (grant_round q name start vft c rest w now)) = map fst (fq_tenants q)"
  "map fst (fq_jobs (grant_round q name start vft c rest w now)) = map fst (fq_jobs q)"
  by (simp_all add: grant_round_def grant_step_def Let_def)

lemma grant_round_jobs:
  "map_of (fq_jobs (grant_round q name start vft c rest w now)) j =
     (if j = w_job_id w then map_option (\<lambda>m. m\<lparr>jm_steps :=
         hm_modify (w_step_id w) (\<lambda>p. p\<lparr>pl_since := Some now,
           pl_charged := Some ((vft - start) * safe_weight (plan (fq_cfg q) name))\<rparr>) (jm_steps m)\<rparr>)
         (map_of (fq_jobs q) j)
      else map_of (fq_jobs q) j)"
  by (simp add: grant_round_def grant_step_def Let_def)

lemma grant_round_placement:
  "placement_of (grant_round q name start vft c rest w now) j s =
     (if j = w_job_id w \<and> s = w_step_id w
      then map_option (\<lambda>p. p\<lparr>pl_since := Some now,
           pl_charged := Some ((vft - start) * safe_weight (plan (fq_cfg q) name))\<rparr>) (placement_of q j s)
      else placement_of q j s)"
  by (auto simp: placement_of_def grant_round_jobs split: Option.bind_splits)

lemma is_waiting_placement:
  "is_waiting (fq_jobs q) w \<longleftrightarrow> (\<exists>p. placement_of q (w_job_id w) (w_step_id w) = Some p \<and> pl_since p = None)"
  by (auto simp: is_waiting_def placement_of_def split: option.splits)

lemma grant_round_since:
  "is_waiting (fq_jobs q) w \<Longrightarrow> since_of (grant_round q name start vft c rest w now) j s =
     (if j = w_job_id w \<and> s = w_step_id w then Some now else since_of q j s)"
  by (auto simp: since_of_def grant_round_placement is_waiting_placement)

end
