(* ===== verification/Ci_Select.thy ===== *)
theory Ci_Select
  imports Ci_FairShare
begin

text \<open>
  What one pass of the weighted-fair scheduler (\<open>FairQueue::select\<close>) guarantees: the choice of \<open>best\<close>,
  the loop as a run of grants, and the properties of the scheduler as a whole: caps, work
  conservation, bounded bypass, the accounting invariant over every reachable state and the bounded
  cost history.
\<close>

section \<open>The choice\<close>

text \<open>A tenant that may be served now, with the step it would be served.\<close>

definition candidate :: "fair_queue \<Rightarrow> instant \<Rightarrow> str \<Rightarrow> tenant_state \<Rightarrow> waiting \<Rightarrow> bool" where
  "candidate q now name t w \<longleftrightarrow>
     map_of (fq_tenants q) name = Some t \<and> head t = Some w \<and> admissible q name t now"

definition best_of :: "fair_queue \<Rightarrow> instant \<Rightarrow> (str \<times> tenant_state) list \<Rightarrow> (str \<times> rat \<times> rat) option \<Rightarrow> bool" where
  "best_of q now ts acc =
     (case acc of
        None \<Rightarrow> \<forall>n t w. (n, t) \<in> set ts \<longrightarrow> head t = Some w \<longrightarrow> \<not> admissible q n t now
      | Some (name, start, vft) \<Rightarrow>
          (\<exists>t w. (name, t) \<in> set ts \<and> head t = Some w \<and> admissible q name t now \<and>
             start = start_tag q t \<and> vft = finish_tag q name t w) \<and>
          (\<forall>n t w. (n, t) \<in> set ts \<and> head t = Some w \<and> admissible q n t now \<longrightarrow>
             vft < finish_tag q n t w \<or> vft = finish_tag q n t w \<and> name \<le> n))"

lemma best_step_best_of:
  assumes "best_of q now ts acc" and "\<forall>x\<in>fst ` set ts. x < name"
  shows "best_of q now (ts @ [(name, t)]) (best_step q now (name, t) acc)"
proof (cases "\<exists>w. head t = Some w \<and> admissible q name t now")
  case False
  with assms(1) show ?thesis by (auto simp: best_of_def best_step_def Let_def split: option.splits)
next
  case True
  then obtain w where w: "head t = Some w" "admissible q name t now" by blast
  show ?thesis
  proof (cases acc)
    case None
    with assms(1) w show ?thesis by (auto simp: best_of_def best_step_def Let_def)
  next
    case (Some a)
    obtain n0 s0 v0 where a: "a = (n0, s0, v0)" by (cases a)
    with Some assms(1) have old: "\<exists>t w. (n0, t) \<in> set ts \<and> head t = Some w \<and> admissible q n0 t now \<and>
        s0 = start_tag q t \<and> v0 = finish_tag q n0 t w"
      and le: "\<And>n t w. (n, t) \<in> set ts \<Longrightarrow> head t = Some w \<Longrightarrow> admissible q n t now \<Longrightarrow>
        v0 < finish_tag q n t w \<or> v0 = finish_tag q n t w \<and> n0 \<le> n"
      by (auto simp: best_of_def)
    from old assms(2) have lt: "n0 < name" by force
    show ?thesis
    proof (cases "finish_tag q name t w < v0")
      case True
      then have step: "best_step q now (name, t) acc = Some (name, start_tag q t, finish_tag q name t w)"
        using w by (simp add: best_step_def Some a Let_def)
      have "finish_tag q name t w < finish_tag q n u x"
        if "(n, u) \<in> set ts" "head u = Some x" "admissible q n u now" for n u x
        using le [OF that] True by auto
      then show ?thesis unfolding step best_of_def using w by auto
    next
      case False
      then have "best_step q now (name, t) acc = Some (n0, s0, v0)"
        using w by (simp add: best_step_def Some a Let_def)
      moreover have "v0 < finish_tag q name t w \<or> v0 = finish_tag q name t w \<and> n0 \<le> name"
        using False lt by auto
      ultimately show ?thesis unfolding best_of_def using old le w by auto
    qed
  qed
qed

lemma best_of_fold:
  "sorted_wrt (<) (map fst ts) \<Longrightarrow> best_of q now ts (fold (best_step q now) ts None)"
proof (induction ts rule: rev_induct)
  case Nil
  then show ?case by (simp add: best_of_def)
next
  case (snoc x ts)
  then have "best_of q now ts (fold (best_step q now) ts None)" "\<forall>y\<in>fst ` set ts. y < fst x"
    by (auto simp: sorted_wrt_append)
  with best_step_best_of [of q now ts _ "fst x" "snd x"] show ?case by simp
qed

lemma best_Some:
  assumes "bt_ok (fq_tenants q)" and "best q now = Some (name, start, vft)"
  obtains t w where "candidate q now name t w" and "start = start_tag q t" and "vft = finish_tag q name t w"
    and "\<And>n t' w'. candidate q now n t' w' \<Longrightarrow>
      vft < finish_tag q n t' w' \<or> vft = finish_tag q n t' w' \<and> name \<le> n"
proof -
  have "best_of q now (fq_tenants q) (Some (name, start, vft))"
    using best_of_fold [of "fq_tenants q" q now] assms by (simp add: best_def bt_ok_def)
  then show ?thesis
    using that hm_mem_iff [OF bt_ok_distinct [OF assms(1)]]
    unfolding best_of_def candidate_def by simp metis
qed

lemma best_None:
  assumes "bt_ok (fq_tenants q)" and "best q now = None"
  shows "\<not> candidate q now name t w"
proof -
  have "best_of q now (fq_tenants q) None"
    using best_of_fold [of "fq_tenants q" q now] assms by (simp add: best_def bt_ok_def)
  then show ?thesis
    using map_of_SomeD [of "fq_tenants q" name t] by (auto simp: best_of_def candidate_def)
qed

section \<open>The loop as a run of grants\<close>

text \<open>A grant round: the best candidate of a state without stale heads is served.\<close>

definition granted :: "fair_queue \<Rightarrow> instant \<Rightarrow> str \<Rightarrow> waiting \<Rightarrow> fair_queue \<Rightarrow> bool" where
  "granted q now name w q' \<longleftrightarrow>
     (\<exists>t c rest. candidate q now name t w \<and> is_waiting (fq_jobs q) w \<and>
        (\<forall>n t' w'. candidate q now n t' w' \<longrightarrow>
           finish_tag q name t w < finish_tag q n t' w' \<or>
           finish_tag q name t w = finish_tag q n t' w' \<and> name \<le> n) \<and>
        head_class t = Some c \<and> c < length (tn_queues t) \<and> tn_queues t ! c = w # rest \<and>
        q' = grant_round q name (start_tag q t) (finish_tag q name t w) c rest w now)"

inductive select_run :: "instant \<Rightarrow> nat \<Rightarrow> fair_queue \<Rightarrow> grant list \<Rightarrow> fair_queue \<Rightarrow> bool" for now where
  spent: "select_run now 0 q [] q"
| idle: "(\<And>n t w. \<not> candidate (drop_stale_heads q) now n t w) \<Longrightarrow> select_run now b q [] (drop_stale_heads q)"
| serve: "granted (drop_stale_heads q) now name w q' \<Longrightarrow> select_run now b q' gs qf \<Longrightarrow>
    select_run now (Suc b) q (\<lparr>g_job_id = w_job_id w, g_step_id = w_step_id w, g_tenant = name\<rparr> # gs) qf"

lemma bt_ok_drop_stale [simp]: "bt_ok (fq_tenants (drop_stale_heads q)) = bt_ok (fq_tenants q)"
  by (simp add: drop_stale_heads_def)

lemma bt_ok_grant_round [simp]:
  "bt_ok (fq_tenants (grant_round q name start vft c rest w now)) = bt_ok (fq_tenants q)"
  by (simp add: bt_ok_def)

lemma select_loop_run:
  "bt_ok (fq_tenants q) \<Longrightarrow> select_run now b q (snd (select_loop b now q)) (fst (select_loop b now q))"
proof (induction b arbitrary: q)
  case 0
  then show ?case by (simp add: select_loop.simps select_run.spent)
next
  case (Suc b)
  let ?d = "drop_stale_heads q"
  have ok: "bt_ok (fq_tenants ?d)" using Suc.prems by simp
  show ?case
  proof (cases "best ?d now")
    case None
    with best_None [OF ok None] show ?thesis
      by (simp add: select_loop.simps [of "Suc b"] Let_def select_run.idle)
  next
    case (Some r)
    obtain name start vft where r: "r = (name, start, vft)" by (cases r)
    from best_Some [OF ok Some [unfolded r]] obtain t w where
      best: "candidate ?d now name t w" "start = start_tag ?d t" "vft = finish_tag ?d name t w"
      "\<And>n t' w'. candidate ?d now n t' w' \<Longrightarrow>
        vft < finish_tag ?d n t' w' \<or> vft = finish_tag ?d n t' w' \<and> name \<le> n" by blast
    from best(1) have t: "map_of (fq_tenants ?d) name = Some t" "head t = Some w" by (auto simp: candidate_def)
    from pop_head_Some [OF t] obtain q2 where pop: "pop_head ?d name = (q2, Some w)" by blast
    from pop obtain u c rest where u: "map_of (fq_tenants ?d) name = Some u"
      and c': "c < length (tn_queues u)" "tn_queues u ! c = w # rest" "head_class u = Some c"
      "q2 = ?d\<lparr>fq_tenants := hm_modify name (\<lambda>t. t\<lparr>tn_queues := (tn_queues t)[c := rest]\<rparr>) (fq_tenants ?d)\<rparr>"
      by (rule pop_head_inv)
    from u t have "u = t" by simp
    note c = c' [unfolded this]
    let ?q' = "grant_round ?d name start vft c rest w now"
    have g: "granted ?d now name w ?q'"
      unfolding granted_def using best c head_drop_stale_waiting [OF t] by auto
    have "select_run now b ?q' (snd (select_loop b now ?q')) (fst (select_loop b now ?q'))"
      by (rule Suc.IH) (use ok in simp)
    from select_run.serve [OF g this] show ?thesis
      by (simp add: select_loop.simps [of "Suc b"] Let_def Some r pop c(4) grant_round_def [symmetric] case_prod_unfold)
  qed
qed

section \<open>What a grant changes\<close>

lemma grantedE:
  assumes "granted q now name w q'"
  obtains t c rest where "candidate q now name t w" and "is_waiting (fq_jobs q) w"
    and "tn_queues t ! c = w # rest" and "c < length (tn_queues t)" and "head_class t = Some c"
    and "q' = grant_round q name (start_tag q t) (finish_tag q name t w) c rest w now"
  using assms unfolding granted_def by blast

lemma head_in_queues: "head t = Some w \<Longrightarrow> \<exists>qu\<in>set (tn_queues t). w \<in> set qu"
  by (erule head_Some) (metis list.set_intros(1) nth_mem)

lemma fq_inv_granted:
  assumes inv: "fq_inv owner q" and g: "granted q now name w q'"
  shows "fq_inv owner q'"
proof -
  note i = fq_invD [OF inv]
  from g obtain t c rest where t: "candidate q now name t w" and wait: "is_waiting (fq_jobs q) w"
    and qu: "tn_queues t ! c = w # rest" "c < length (tn_queues t)"
    and q': "q' = grant_round q name (start_tag q t) (finish_tag q name t w) c rest w now"
    by (rule grantedE)
  from t have tn: "map_of (fq_tenants q) name = Some t" "head t = Some w" by (auto simp: candidate_def)
  note tok = i(4) [OF tn(1), unfolded tenant_ok_def]
  have own: "owner (w_job_id w) = name" using head_in_queues [OF tn(2)] tok by auto
  have since: "since_of q' j s = (if j = w_job_id w \<and> s = w_step_id w then Some now else since_of q j s)" for j s
    unfolding q' by (rule grant_round_since [OF wait])
  have free: "since_of q (w_job_id w) (w_step_id w) = None"
    using wait by (auto simp: is_waiting_placement since_of_def)
  show ?thesis
  proof (rule fq_inv_change [OF inv])
    show "bt_ok (fq_tenants q')" "hm_ok (fq_jobs q')" using i(1,2) by (simp_all add: q')
    show "job_meta_ok owner q' j m" if "map_of (fq_jobs q') j = Some m" for j m
      using that i(3) [of j] by (auto simp: q' grant_round_jobs grant_round_tenant job_meta_ok_def split: if_splits)
    show "tenant_moved owner q q' n (case map_of (fq_tenants q) n of Some t \<Rightarrow> t | None \<Rightarrow> tenant_default) t'"
      if t': "map_of (fq_tenants q') n = Some t'" for n t'
    proof (cases "n = name")
      case False
      with t' have "map_of (fq_tenants q) n = Some t'" by (simp add: q' grant_round_tenant)
      with i(4) [of n t'] False own show ?thesis by (auto simp: tenant_moved_def tenant_ok_def since)
    next
      case True
      with t' tn have t'eq: "t' = t\<lparr>tn_queues := (tn_queues t)[c := rest], tn_vft_last := finish_tag q name t w,
          tn_running := AList.update (w_job_id w, w_step_id w) now (tn_running t)\<rparr>"
        by (simp add: q' grant_round_tenant)
      have "\<exists>qu\<in>set (tn_queues t). x \<in> set qu" if "y \<in> set ((tn_queues t)[c := rest])" "x \<in> set y" for x y
      proof -
        have "w # rest \<in> set (tn_queues t)" using nth_mem [OF qu(2)] qu(1) by simp
        moreover have "y = rest \<or> y \<in> set (tn_queues t)"
          using that(1) set_update_subset_insert [of "tn_queues t" c rest] by blast
        ultimately show ?thesis using that(2) by (metis list.set_intros(2))
      qed
      with True own tok free show ?thesis by (auto simp: tenant_moved_def t'eq tn since)
    qed
  qed
qed

lemma select_run_inv: "select_run now b q gs qf \<Longrightarrow> fq_inv owner q \<Longrightarrow> fq_inv owner qf"
proof (induction rule: select_run.induct)
  case (serve q name w q' b gs qf)
  then show ?case using fq_inv_granted [OF fq_inv_drop_stale] by blast
qed (auto intro: fq_inv_drop_stale)

section \<open>Reachable states\<close>

text \<open>
  Every state of the scheduler behind its own operations, for a fixed assignment of jobs to
  tenants. \<open>reconcile\<close> and \<open>requeue\<close> are compositions of the others and are listed as the driver calls
  them.
\<close>

inductive fq_reach :: "(job_id \<Rightarrow> str) \<Rightarrow> fair_queue \<Rightarrow> bool" for owner where
  new: "fq_reach owner (fair_queue_new cfg)"
| admit: "fq_reach owner q \<Longrightarrow> owner j = name \<Longrightarrow> fq_reach owner (admit_job q j name pr)"
| enqueue: "fq_reach owner q \<Longrightarrow> fq_reach owner (enqueue q j s nm)"
| release: "fq_reach owner q \<Longrightarrow> fq_reach owner (release q j s t_at)"
| finish: "fq_reach owner q \<Longrightarrow> fq_reach owner (finish q j s t_at)"
| requeue: "fq_reach owner q \<Longrightarrow> fq_reach owner (requeue q j s nm t_at)"
| forget: "fq_reach owner q \<Longrightarrow> fq_reach owner (forget_job q j t_at)"
| reconcile: "fq_reach owner q \<Longrightarrow> owner (jv_job_id v) = jv_tenant v \<Longrightarrow> fq_reach owner (reconcile q v now)"
| select: "fq_reach owner q \<Longrightarrow> fq_reach owner (fst (select q now))"

lemma select_select_run:
  assumes "bt_ok (fq_tenants q)"
  shows "select_run now (select_budget (prune_ledgers q now)) (prune_ledgers q now)
    (snd (select q now)) (fst (select q now))"
  using select_loop_run [of "prune_ledgers q now" now] assms by (simp add: select_def Let_def prune_ledgers_def)

lemma fq_reach_inv: "fq_reach owner q \<Longrightarrow> fq_inv owner q"
proof (induction rule: fq_reach.induct)
  case (new cfg)
  then show ?case by (simp add: fq_inv_def fair_queue_new_def bt_ok_def)
next
  case (select q now)
  then show ?case
    using select_run_inv [OF select_select_run fq_inv_prune] fq_invD(1) by blast
qed (auto simp: release_def finish_def requeue_def
    intro: fq_inv_admit_job fq_inv_enqueue fq_inv_unplace fq_inv_forget_job fq_inv_reconcile)

section \<open>What a pass does to placements and caps\<close>

definition running_count :: "fair_queue \<Rightarrow> str \<Rightarrow> nat" where
  "running_count q name = (case map_of (fq_tenants q) name of Some t \<Rightarrow> length (tn_running t) | None \<Rightarrow> 0)"

lemma running_count_drop [simp]: "running_count (drop_stale_heads q) name = running_count q name"
  by (auto simp: running_count_def drop_stale_heads_def split: option.splits)

lemma running_count_prune [simp]: "running_count (prune_ledgers q now) name = running_count q name"
  by (auto simp: running_count_def prune_ledgers_def split: option.splits)

lemma in_flight_map:
  "(\<And>n t. tn_running (f n t) = tn_running t) \<Longrightarrow> in_flight (q\<lparr>fq_tenants := hm_map f (fq_tenants q)\<rparr>) = in_flight q"
  by (simp add: in_flight_def hm_map_def case_prod_unfold o_def)

lemma in_flight_drop [simp]: "in_flight (drop_stale_heads q) = in_flight q"
  unfolding drop_stale_heads_def by (rule in_flight_map) simp

lemma in_flight_prune [simp]: "in_flight (prune_ledgers q now) = in_flight q"
  unfolding prune_ledgers_def by (rule in_flight_map) simp

lemma sum_list_hm_modify:
  assumes "hm_ok m" and "map_of m k = Some v" and "g (f v) = Suc (g v)"
  shows "sum_list (map (\<lambda>(k, v). g v) (hm_modify k f m)) = Suc (sum_list (map (\<lambda>(k, v). g v) m))"
  using assms
proof (induction m)
  case (Cons p m)
  show ?case
  proof (cases "fst p = k")
    case True
    then have "hm_modify k f m = m"
      using Cons.prems(1) unfolding hm_modify_def hm_map_def
      by (intro map_idI) (auto, metis fst_conv image_eqI)
    with True Cons.prems show ?thesis by (cases p) (simp add: hm_modify_def hm_map_def)
  next
    case False
    with Cons show ?thesis by (cases p) (simp add: hm_modify_def hm_map_def)
  qed
qed simp

lemma length_update_new: "map_of m k = None \<Longrightarrow> length (AList.update k v m) = Suc (length m)"
  by (induction m) auto

lemma granted_counts:
  assumes inv: "fq_inv owner q" and g: "granted q now name w q'"
  shows "running_count q' n = (if n = name then Suc (running_count q n) else running_count q n)"
    and "running_count q name < tp_max_running_steps (plan (fq_cfg q) name)"
    and "in_flight q' = Suc (in_flight q)"
proof -
  note i = fq_invD [OF inv]
  from g obtain t c rest where t: "candidate q now name t w" and wait: "is_waiting (fq_jobs q) w"
    and q': "q' = grant_round q name (start_tag q t) (finish_tag q name t w) c rest w now"
    by (rule grantedE)
  from t have tn: "map_of (fq_tenants q) name = Some t" "head t = Some w" "admissible q name t now"
    by (auto simp: candidate_def)
  have "map_of (tn_running t) (w_job_id w, w_step_id w) = None"
    using i(4) [OF tn(1)] wait by (auto simp: tenant_ok_def is_waiting_placement since_of_def)
  note new = length_update_new [OF this]
  show "running_count q' n = (if n = name then Suc (running_count q n) else running_count q n)"
    by (simp add: running_count_def q' grant_round_tenant tn new)
  show "running_count q name < tp_max_running_steps (plan (fq_cfg q) name)"
    using tn by (simp add: running_count_def admissible_def over_concurrency_def)
  have mm: "hm_modify name f (hm_modify name g m) = hm_modify name (f \<circ> g) m" for f g and m :: "(str \<times> tenant_state) list"
    by (simp add: hm_modify_def hm_map_def case_prod_unfold o_def)
  show "in_flight q' = Suc (in_flight q)"
    unfolding in_flight_def q' grant_round_def grant_step_def Let_def
    by (simp add: mm, rule sum_list_hm_modify [OF bt_ok_distinct [OF i(1)] tn(1)]) (simp add: new)
qed

lemma select_run_caps:
  "select_run now b q gs qf \<Longrightarrow> fq_inv owner q \<Longrightarrow>
     fq_cfg qf = fq_cfg q \<and> length gs \<le> b \<and> in_flight qf = in_flight q + length gs \<and>
     running_count q name \<le> running_count qf name \<and>
     running_count qf name = running_count q name + length (filter (\<lambda>g. g_tenant g = name) gs) \<and>
     (running_count qf name = running_count q name \<or>
      running_count qf name \<le> tp_max_running_steps (plan (fq_cfg q) name))"
proof (induction rule: select_run.induct)
  case (serve q n w q' b gs qf)
  note inv = fq_inv_drop_stale [OF serve.prems]
  note gc = granted_counts [OF inv serve.hyps(1)]
  have "fq_cfg q' = fq_cfg q" using serve.hyps(1) by (auto elim: grantedE)
  with serve.IH [OF fq_inv_granted [OF inv serve.hyps(1)]] gc(1) [of name] gc(2,3) show ?case by auto
qed auto

lemma granted_placement:
  assumes "granted q now name w q'"
  shows "is_waiting (fq_jobs q) w"
    and "(j, s) \<noteq> (w_job_id w, w_step_id w) \<Longrightarrow> placement_of q' j s = placement_of q j s"
    and "\<exists>p. placement_of q' (w_job_id w) (w_step_id w) = Some p \<and> pl_since p = Some now"
  using assms by (auto simp: grant_round_placement is_waiting_placement elim!: grantedE)

text \<open>The steps a list of grants names.\<close>

abbreviation granted_steps :: "grant list \<Rightarrow> (job_id \<times> step_id) list" where
  "granted_steps gs \<equiv> map (\<lambda>g. (g_job_id g, g_step_id g)) gs"

lemma select_run_placements:
  assumes "select_run now b q gs qf"
  shows "distinct (granted_steps gs) \<and>
     (\<forall>j s. (j, s) \<in> set (granted_steps gs) \<longrightarrow>
        (\<exists>p. placement_of q j s = Some p \<and> pl_since p = None) \<and> since_of qf j s = Some now) \<and>
     (\<forall>j s. (j, s) \<notin> set (granted_steps gs) \<longrightarrow> placement_of qf j s = placement_of q j s)"
  using assms
proof (induction rule: select_run.induct)
  case (serve q n w q' b gs qf)
  have w: "\<exists>p. placement_of q (w_job_id w) (w_step_id w) = Some p \<and> pl_since p = None"
    using granted_placement(1) [OF serve.hyps(1)] by (simp add: is_waiting_placement placement_of_def)
  have d: "placement_of (drop_stale_heads q) j s = placement_of q j s" for j s
    by (simp add: placement_of_def)
  have p': "placement_of q' j s = placement_of q j s" if "(j, s) \<noteq> (w_job_id w, w_step_id w)" for j s
    using granted_placement(2) [OF serve.hyps(1) that] by (simp add: d)
  note now' = granted_placement(3) [OF serve.hyps(1)]
  have notin: "(w_job_id w, w_step_id w) \<notin> set (granted_steps gs)"
    using serve.IH now' by fastforce
  have "(\<exists>p. placement_of q j s = Some p \<and> pl_since p = None) \<and> since_of qf j s = Some now"
    if "(j, s) \<in> insert (w_job_id w, w_step_id w) (set (granted_steps gs))" for j s
  proof (cases "(j, s) = (w_job_id w, w_step_id w)")
    case True
    with notin serve.IH w now' show ?thesis by (auto simp: since_of_def)
  next
    case False
    with that have "(j, s) \<in> set (granted_steps gs)" by blast
    with serve.IH have "(\<exists>p. placement_of q' j s = Some p \<and> pl_since p = None) \<and> since_of qf j s = Some now"
      by blast
    with p' [OF False] show ?thesis by simp
  qed
  with notin serve.IH p' show ?case by auto
qed (auto simp: placement_of_def)

section \<open>No waiting step is lost\<close>

definition has_entry :: "tenant_state \<Rightarrow> job_id \<Rightarrow> step_id \<Rightarrow> bool" where
  "has_entry t j s \<longleftrightarrow> (\<exists>qu\<in>set (tn_queues t). \<exists>w\<in>set qu. w_job_id w = j \<and> w_step_id w = s)"

definition waits :: "fair_queue \<Rightarrow> job_id \<Rightarrow> step_id \<Rightarrow> bool" where
  "waits q j s \<longleftrightarrow> (\<exists>p. placement_of q j s = Some p \<and> pl_since p = None)"

definition queued_ok :: "(job_id \<Rightarrow> str) \<Rightarrow> fair_queue \<Rightarrow> bool" where
  "queued_ok owner q \<longleftrightarrow>
     (\<forall>j s. waits q j s \<longrightarrow> (\<exists>t. map_of (fq_tenants q) (owner j) = Some t \<and> has_entry t j s))"

lemma queued_change:
  assumes "queued_ok owner q"
    and "\<And>j s. waits q' j s \<Longrightarrow>
      (\<exists>t. map_of (fq_tenants q') (owner j) = Some t \<and> has_entry t j s) \<or>
      waits q j s \<and> (\<forall>t. map_of (fq_tenants q) (owner j) = Some t \<longrightarrow> has_entry t j s \<longrightarrow>
        (\<exists>t'. map_of (fq_tenants q') (owner j) = Some t' \<and> has_entry t' j s))"
  shows "queued_ok owner q'"
  using assms unfolding queued_ok_def by blast

lemma waits_admit [simp]: "waits (admit_job q j0 name pr) j s = waits q j s"
  by (simp add: waits_def)

lemma waits_unplace: "waits (unplace q j0 s0 a l) j s \<longleftrightarrow> (j, s) \<noteq> (j0, s0) \<and> waits q j s"
  by (auto simp: waits_def placement_unplace)

lemma waits_jobs: "fq_jobs q' = fq_jobs q \<Longrightarrow> waits q' = waits q"
  by (simp add: fun_eq_iff waits_def placement_of_def)

lemma waits_enqueue: "waits (enqueue q j0 s0 nm) j s \<Longrightarrow> waits q j s \<or> (j, s) = (j0, s0) \<and> enqueue q j0 s0 nm \<noteq> q"
  by (cases "enqueue q j0 s0 nm = q")
    (auto simp: waits_def placement_of_def enqueue_def Let_def split: option.splits if_splits Option.bind_splits)

lemma waits_adopt: "waits (adopt q j0 s0 nm i) j s \<Longrightarrow> waits q j s"
  by (auto simp: waits_def placement_of_def adopt_def Let_def split: option.splits if_splits Option.bind_splits)

lemma queued_admit:
  assumes "fq_inv owner q" and "queued_ok owner q"
  shows "queued_ok owner (admit_job q j name pr)"
  using assms(2)
proof (rule queued_change)
qed (use fq_invD(1) [OF assms(1)] in auto)

lemma queued_unplace:
  assumes "queued_ok owner q"
  shows "queued_ok owner (unplace q j0 s0 a l)"
  using assms
proof (rule queued_change)
qed (auto simp: waits_unplace tenants_unplace has_entry_def split: option.splits)

lemma has_entryI: "qu \<in> set (tn_queues t) \<Longrightarrow> w \<in> set qu \<Longrightarrow> has_entry t (w_job_id w) (w_step_id w)"
  by (auto simp: has_entry_def)

lemma has_entry_push:
  assumes "length (tn_queues t) = 2"
  shows "has_entry (push_queue pr w t) (w_job_id w) (w_step_id w)"
    and "has_entry t j s \<Longrightarrow> has_entry (push_queue pr w t) j s"
proof -
  let ?i = "priority_index pr"
  have i: "?i < length (tn_queues t)" using assms by (cases pr) auto
  have new: "tn_queues t ! ?i @ [w] \<in> set (tn_queues (push_queue pr w t))"
    using set_update_memI [OF i] by (simp add: push_queue_def)
  then show "has_entry (push_queue pr w t) (w_job_id w) (w_step_id w)" by (rule has_entryI) simp
  assume "has_entry t j s"
  then obtain k x where k: "k < length (tn_queues t)" "x \<in> set (tn_queues t ! k)" "w_job_id x = j" "w_step_id x = s"
    unfolding has_entry_def by (metis in_set_conv_nth)
  then show "has_entry (push_queue pr w t) j s"
  proof (cases "k = ?i")
    case True
    with k(2) has_entryI [OF new, of x] k(3,4) show ?thesis by simp
  next
    case False
    with k(1) have "tn_queues t ! k \<in> set (tn_queues (push_queue pr w t))"
      by (simp add: push_queue_def in_set_conv_nth) (metis length_list_update nth_list_update_neq)
    with k show ?thesis unfolding has_entry_def by blast
  qed
qed

lemma queued_enqueue:
  assumes inv: "fq_inv owner q" and "queued_ok owner q"
  shows "queued_ok owner (enqueue q j0 s0 nm)"
proof (cases "enqueue q j0 s0 nm = q")
  case False
  then obtain m where m: "map_of (fq_jobs q) j0 = Some m" "map_of (jm_steps m) s0 = None"
    by (auto simp: enqueue_def split: option.splits if_splits)
  note i = fq_invD(1) [OF inv] and jm = fq_invD(3) [OF inv m(1), unfolded job_meta_ok_def]
  let ?w = "\<lparr>w_job_id = j0, w_step_id = s0, w_cost = estimate q (jm_tenant m) nm\<rparr>"
  let ?old = "\<lambda>n. case map_of (fq_tenants q) n of Some t \<Rightarrow> t | None \<Rightarrow> tenant_default"
  have ts: "map_of (fq_tenants (enqueue q j0 s0 nm)) n =
      (if n = owner j0 then Some (push_queue (jm_priority m) ?w (?old n)) else map_of (fq_tenants q) n)" for n
    using m i jm by (simp add: enqueue_def Let_def)
  note push = has_entry_push [OF fq_inv_queue_length [OF inv]]
  show ?thesis
    using assms(2)
  proof (rule queued_change)
    fix j s assume w: "waits (enqueue q j0 s0 nm) j s"
    show "(\<exists>t. map_of (fq_tenants (enqueue q j0 s0 nm)) (owner j) = Some t \<and> has_entry t j s) \<or>
      waits q j s \<and> (\<forall>t. map_of (fq_tenants q) (owner j) = Some t \<longrightarrow> has_entry t j s \<longrightarrow>
        (\<exists>t'. map_of (fq_tenants (enqueue q j0 s0 nm)) (owner j) = Some t' \<and> has_entry t' j s))"
      using waits_enqueue [OF w] push(1) [of "jm_priority m" ?w "owner j0"] push(2) [of "owner j0" j s "jm_priority m" ?w]
      by (auto simp: ts)
  qed
qed (simp add: assms(2))

lemma queued_adopt:
  assumes "fq_inv owner q" and "queued_ok owner q"
  shows "queued_ok owner (adopt q j0 s0 nm i)"
  using assms(2)
proof (rule queued_change)
qed (use fq_invD(1) [OF assms(1)] in
  \<open>auto simp: tenants_adopt has_entry_def dest!: waits_adopt split: option.splits\<close>)

lemma queued_tenants_map:
  assumes "queued_ok owner q" and jobs: "fq_jobs q' = fq_jobs q" and ts: "fq_tenants q' = hm_map f (fq_tenants q)"
    and keep: "\<And>n t j s. has_entry t j s \<Longrightarrow> waits q j s \<Longrightarrow> has_entry (f n t) j s"
  shows "queued_ok owner q'"
  using assms(1) by (rule queued_change) (use waits_jobs [OF jobs] keep in \<open>auto simp: ts\<close>)

lemma in_set_dropWhile_keep: "x \<in> set xs \<Longrightarrow> \<not> p x \<Longrightarrow> x \<in> set (dropWhile p xs)"
  by (induction xs) auto

lemma queued_drop_stale:
  assumes "queued_ok owner q"
  shows "queued_ok owner (drop_stale_heads q)"
proof (rule queued_tenants_map [OF assms, where f = "\<lambda>name t.
         t\<lparr>tn_queues := map (dropWhile (\<lambda>w. \<not> is_waiting (fq_jobs q) w)) (tn_queues t)\<rparr>"])
  fix n t j s assume "has_entry t j s" and "waits q j s"
  then obtain qu w where qu: "qu \<in> set (tn_queues t)" "w \<in> set qu" "w_job_id w = j" "w_step_id w = s"
    and "is_waiting (fq_jobs q) w"
    by (auto simp: has_entry_def waits_def is_waiting_placement)
  then have "w \<in> set (dropWhile (\<lambda>w. \<not> is_waiting (fq_jobs q) w) qu)" by (intro in_set_dropWhile_keep) auto
  with qu show "has_entry (t\<lparr>tn_queues := map (dropWhile (\<lambda>w. \<not> is_waiting (fq_jobs q) w)) (tn_queues t)\<rparr>) j s"
    unfolding has_entry_def by auto
qed (simp_all add: drop_stale_heads_def)

lemma queued_prune:
  assumes "queued_ok owner q"
  shows "queued_ok owner (prune_ledgers q now)"
  by (rule queued_tenants_map [OF assms, where f = "\<lambda>name t.
         t\<lparr>tn_ledger := dropWhile (\<lambda>(t_at, ran_for). \<not> now - t_at < ROLLING_WINDOW) (tn_ledger t)\<rparr>"])
    (simp_all add: prune_ledgers_def has_entry_def)

lemma has_entry_pop:
  assumes "has_entry t j s" and "tn_queues t ! c = w # rest" and "(j, s) \<noteq> (w_job_id w, w_step_id w)"
    and "tn_queues t' = (tn_queues t)[c := rest]"
  shows "has_entry t' j s"
proof -
  from assms(1) obtain k x where k: "k < length (tn_queues t)" "x \<in> set (tn_queues t ! k)"
    "w_job_id x = j" "w_step_id x = s"
    unfolding has_entry_def by (metis in_set_conv_nth)
  have "x \<in> set ((tn_queues t)[c := rest] ! k)"
    using k assms(2,3) by (cases "k = c") auto
  moreover have "(tn_queues t)[c := rest] ! k \<in> set (tn_queues t')"
    using k(1) assms(4) by simp
  ultimately show ?thesis using k has_entryI by blast
qed

lemma queued_granted:
  assumes "queued_ok owner q" and g: "granted q now name w q'"
  shows "queued_ok owner q'"
  using assms(1)
proof (rule queued_change)
  fix j s assume w': "waits q' j s"
  from g obtain t c rest where t: "candidate q now name t w" and qu: "tn_queues t ! c = w # rest"
    and q': "q' = grant_round q name (start_tag q t) (finish_tag q name t w) c rest w now"
    by (rule grantedE)
  from t have tn: "map_of (fq_tenants q) name = Some t" by (auto simp: candidate_def)
  from w' granted_placement(3) [OF g] have ne: "(j, s) \<noteq> (w_job_id w, w_step_id w)"
    by (auto simp: waits_def)
  have "waits q j s" using w' granted_placement(2) [OF g ne] by (simp add: waits_def)
  moreover have "\<exists>t'. map_of (fq_tenants q') (owner j) = Some t' \<and> has_entry t' j s"
    if "map_of (fq_tenants q) (owner j) = Some u" "has_entry u j s" for u
    using that tn has_entry_pop [OF _ qu ne] by (auto simp: q' grant_round_tenant)
  ultimately show "(\<exists>t. map_of (fq_tenants q') (owner j) = Some t \<and> has_entry t j s) \<or>
      waits q j s \<and> (\<forall>t. map_of (fq_tenants q) (owner j) = Some t \<longrightarrow> has_entry t j s \<longrightarrow>
        (\<exists>t'. map_of (fq_tenants q') (owner j) = Some t' \<and> has_entry t' j s))" by blast
qed

lemma select_run_queued: "select_run now b q gs qf \<Longrightarrow> queued_ok owner q \<Longrightarrow> queued_ok owner qf"
proof (induction rule: select_run.induct)
  case (serve q name w q' b gs qf)
  then show ?case using queued_granted [OF queued_drop_stale] by blast
qed (auto intro: queued_drop_stale)

lemma queued_fold_release: "queued_ok owner q \<Longrightarrow> queued_ok owner (fold (\<lambda>s q. release q j s t_at) ss q)"
  by (induction ss arbitrary: q) (simp_all add: release_def queued_unplace)

lemma queued_forget:
  assumes "queued_ok owner q"
  shows "queued_ok owner (forget_job q j t_at)"
proof (cases "map_of (fq_jobs q) j")
  case (Some m)
  let ?q = "fold (\<lambda>s q. release q j s t_at) (map fst (jm_steps m)) q"
  have "queued_ok owner (?q\<lparr>fq_jobs := AList.delete j (fq_jobs ?q)\<rparr>)"
    by (rule queued_change [OF queued_fold_release [OF assms]])
      (auto simp: waits_def placement_of_def split: if_splits)
  with Some show ?thesis by (simp add: forget_job_def Let_def)
qed (simp add: forget_job_def assms)

lemma queued_reconcile:
  assumes "fq_inv owner q" and "queued_ok owner q" and "owner (jv_job_id v) = jv_tenant v"
  shows "queued_ok owner (reconcile q v now)"
proof -
  have step: "fq_inv owner (reconcile_step j now sv q) \<and> queued_ok owner (reconcile_step j now sv q)"
    if "fq_inv owner q" "queued_ok owner q" for q j sv
    using that by (auto simp: reconcile_step_def Let_def requeue_def release_def finish_def
        intro: fq_inv_enqueue fq_inv_adopt fq_inv_unplace queued_enqueue queued_adopt queued_unplace)
  have "fq_inv owner q \<Longrightarrow> queued_ok owner q \<Longrightarrow> queued_ok owner (fold (reconcile_step j now) vs q)" for q j vs
    by (induction vs arbitrary: q) (simp_all add: step)
  with fq_inv_admit_job [OF assms(1)] queued_admit [OF assms(1,2)] assms(3) show ?thesis by (simp add: reconcile_def)
qed

lemma fq_reach_queued: "fq_reach owner q \<Longrightarrow> queued_ok owner q"
proof (induction rule: fq_reach.induct)
  case (new cfg)
  then show ?case by (simp add: queued_ok_def waits_def placement_of_def fair_queue_new_def)
next
  case (select q now)
  then show ?case
    using select_run_queued [OF select_select_run queued_prune] fq_invD(1) [OF fq_reach_inv] by blast
qed (auto simp: release_def finish_def requeue_def dest: fq_reach_inv
    intro: queued_admit queued_enqueue queued_unplace queued_forget queued_reconcile fq_inv_unplace)

section \<open>Work conservation\<close>

lemma position_nonempty_exists: "qu \<in> set qs \<Longrightarrow> qu \<noteq> [] \<Longrightarrow> \<exists>c. position_nonempty qs = Some c"
  by (induction qs) auto

lemma has_entry_head:
  assumes "has_entry t j s"
  shows "\<exists>w. head t = Some w"
proof -
  from assms obtain qu where "qu \<in> set (tn_queues t)" "qu \<noteq> []"
    unfolding has_entry_def by (metis empty_iff list.set(1))
  then obtain c where c: "position_nonempty (tn_queues t) = Some c"
    using position_nonempty_exists by blast
  with position_nonempty_Some [OF c] show ?thesis
    by (cases "tn_queues t ! c") (auto simp: head_def head_class_def)
qed

definition at_cap :: "fair_queue \<Rightarrow> str \<Rightarrow> instant \<Rightarrow> bool" where
  "at_cap q name now \<longleftrightarrow> blocked (admission q name now)"

lemma not_admissible_at_cap:
  "map_of (fq_tenants q) name = Some t \<Longrightarrow> at_cap q name now \<longleftrightarrow> \<not> admissible q name t now"
  by (auto simp: at_cap_def blocked_def admission_def admissible_def)

lemma select_run_conserving:
  "select_run now b q gs qf \<Longrightarrow> queued_ok owner q \<Longrightarrow>
     length gs = b \<or> (\<forall>j s. waits qf j s \<longrightarrow> at_cap qf (owner j) now)"
proof (induction rule: select_run.induct)
  case (idle q b)
  note ok = queued_drop_stale [OF idle.prems]
  have "at_cap (drop_stale_heads q) (owner j) now" if w: "waits (drop_stale_heads q) j s" for j s
  proof -
    from ok w obtain t where t: "map_of (fq_tenants (drop_stale_heads q)) (owner j) = Some t" "has_entry t j s"
      unfolding queued_ok_def by blast
    from has_entry_head [OF t(2)] obtain w where "head t = Some w" by blast
    with t(1) idle.hyps [of "owner j" t w] have "\<not> admissible (drop_stale_heads q) (owner j) t now"
      by (simp add: candidate_def)
    with t show ?thesis by (simp add: not_admissible_at_cap)
  qed
  then show ?case by blast
next
  case (serve q name w q' b gs qf)
  then show ?case using queued_granted [OF queued_drop_stale] by auto
qed simp

section \<open>Bounded bypass\<close>

lemma dropWhile_again:
  "(\<And>x. x \<in> set qu \<Longrightarrow> p' x = p x) \<Longrightarrow> dropWhile p' (dropWhile p qu) = dropWhile p qu"
  by (induction qu) (auto intro!: dropWhile_cong)

text \<open>A tenant that is not served keeps its queue heads: they wait as long as they are not granted.\<close>

lemma unserved_tenant_unchanged:
  assumes inv: "fq_inv owner q" and g: "granted (drop_stale_heads q) now name w q'" and "n \<noteq> name"
  shows "map_of (fq_tenants (drop_stale_heads q')) n = map_of (fq_tenants (drop_stale_heads q)) n"
proof -
  from g obtain t c rest where t: "candidate (drop_stale_heads q) now name t w"
    and q': "q' = grant_round (drop_stale_heads q) name (start_tag (drop_stale_heads q) t)
      (finish_tag (drop_stale_heads q) name t w) c rest w now"
    by (rule grantedE)
  have same: "map_of (fq_tenants q') n = map_of (fq_tenants (drop_stale_heads q)) n"
    using assms(3) by (simp add: q' grant_round_tenant)
  show ?thesis
  proof (cases "map_of (fq_tenants q) n")
    case None
    with same show ?thesis by (simp add: drop_stale_heads_def)
  next
    case (Some u)
    let ?p = "\<lambda>w. \<not> is_waiting (fq_jobs q) w" and ?p' = "\<lambda>w. \<not> is_waiting (fq_jobs q') w"
    from t have "owner (w_job_id w) = name"
      using fq_invD(4) [OF fq_inv_drop_stale [OF inv], of name t] head_in_queues
      by (fastforce simp: candidate_def tenant_ok_def)
    moreover have "owner (w_job_id x) = n" if "qu \<in> set (tn_queues u)" "x \<in> set qu" for qu x
      using fq_invD(4) [OF inv Some] that by (auto simp: tenant_ok_def)
    ultimately have "?p' x = ?p x" if "qu \<in> set (tn_queues u)" "x \<in> set qu" for qu x
      using that assms(3) granted_placement(2) [OF g, of "w_job_id x" "w_step_id x"]
      by (fastforce simp: is_waiting_placement placement_of_def)
    then have "map (dropWhile ?p') (map (dropWhile ?p) (tn_queues u)) = map (dropWhile ?p) (tn_queues u)"
      by (auto intro: dropWhile_again)
    with same Some show ?thesis by (simp add: drop_stale_heads_def)
  qed
qed

definition vft_last :: "fair_queue \<Rightarrow> str \<Rightarrow> rat" where
  "vft_last q name = (case map_of (fq_tenants q) name of Some t \<Rightarrow> tn_vft_last t | None \<Rightarrow> 0)"

text \<open>What a pass charged a tenant, read off the placements it made.\<close>

definition charge_of :: "fair_queue \<Rightarrow> grant \<Rightarrow> rat" where
  "charge_of q g =
     (case Option.bind (placement_of q (g_job_id g) (g_step_id g)) pl_charged of Some c \<Rightarrow> c | None \<Rightarrow> 0)"

definition charged_to :: "fair_queue \<Rightarrow> grant list \<Rightarrow> str \<Rightarrow> rat" where
  "charged_to q gs name = sum_list (map (charge_of q) (filter (\<lambda>g. g_tenant g = name) gs))"

lemma safe_weight_pos: "safe_weight p > 0"
  by (simp add: safe_weight_def split: f64.splits)

lemma vft_last_drop [simp]: "vft_last (drop_stale_heads q) n = vft_last q n"
  by (auto simp: vft_last_def drop_stale_heads_def split: option.splits)

lemma vft_last_prune [simp]: "vft_last (prune_ledgers q now) n = vft_last q n"
  by (auto simp: vft_last_def prune_ledgers_def split: option.splits)

lemma granted_vft:
  assumes "granted q now name w q'"
  obtains t where "candidate q now name t w" and "fq_cfg q' = fq_cfg q"
    and "vft_last q' name = finish_tag q name t w"
    and "\<And>n. n \<noteq> name \<Longrightarrow> vft_last q' n = vft_last q n"
    and "fq_virtual_now q' = max (fq_virtual_now q) (start_tag q t)"
    and "\<And>n t' w'. candidate q now n t' w' \<Longrightarrow> finish_tag q name t w \<le> finish_tag q n t' w'"
    and "charge_of q' \<lparr>g_job_id = w_job_id w, g_step_id = w_step_id w, g_tenant = name\<rparr> = w_cost w"
proof -
  from assms obtain t c rest where t: "candidate q now name t w" "is_waiting (fq_jobs q) w"
    and min: "\<forall>n t' w'. candidate q now n t' w' \<longrightarrow>
           finish_tag q name t w < finish_tag q n t' w' \<or>
           finish_tag q name t w = finish_tag q n t' w' \<and> name \<le> n"
    and q': "q' = grant_round q name (start_tag q t) (finish_tag q name t w) c rest w now"
    unfolding granted_def by blast
  note wp = safe_weight_pos [of "plan (fq_cfg q) name"]
  show ?thesis
  proof (rule that [OF t(1)])
    show "vft_last q' name = finish_tag q name t w"
      using t(1) by (simp add: vft_last_def q' grant_round_tenant candidate_def)
    show "finish_tag q name t w \<le> finish_tag q n t' w'" if "candidate q now n t' w'" for n t' w'
      using min that by fastforce
    show "charge_of q' \<lparr>g_job_id = w_job_id w, g_step_id = w_step_id w, g_tenant = name\<rparr> = w_cost w"
      using t(2) wp by (auto simp: charge_of_def q' grant_round_placement is_waiting_placement finish_tag_def)
  qed (simp_all add: vft_last_def q' grant_round_tenant)
qed

lemma virtual_now_mono: "select_run now b q gs qf \<Longrightarrow> fq_virtual_now q \<le> fq_virtual_now qf \<and> fq_cfg qf = fq_cfg q"
proof (induction rule: select_run.induct)
  case (serve q name w q' b gs qf)
  from serve.hyps(1) obtain t where "fq_cfg q' = fq_cfg (drop_stale_heads q)"
    "fq_virtual_now q' = max (fq_virtual_now (drop_stale_heads q)) (start_tag (drop_stale_heads q) t)"
    by (rule granted_vft)
  with serve.IH show ?case by simp
qed auto

lemma charged_to_Cons:
  "charged_to q (g # gs) n = (if g_tenant g = n then charge_of q g else 0) + charged_to q gs n"
  by (simp add: charged_to_def)

lemma select_run_charge_kept:
  assumes "select_run now b q' gs qf" and "(g_job_id g, g_step_id g) \<notin> set (granted_steps gs)"
  shows "charge_of qf g = charge_of q' g"
  using select_run_placements [OF assms(1)] assms(2) unfolding charge_of_def by auto

text \<open>Every tenant's clock pays at least what it was charged, and one that was not served stands still.\<close>

lemma select_run_paid:
  "select_run now b q gs qf \<Longrightarrow>
     vft_last q f + charged_to qf gs f / safe_weight (plan (fq_cfg q) f) \<le> vft_last qf f \<and>
     (f \<notin> g_tenant ` set gs \<longrightarrow> vft_last qf f = vft_last q f)"
proof (induction rule: select_run.induct)
  case (serve q name w q' b gs qf)
  let ?g = "\<lparr>g_job_id = w_job_id w, g_step_id = w_step_id w, g_tenant = name\<rparr>"
  from serve.hyps(1) obtain t where t: "candidate (drop_stale_heads q) now name t w"
    "fq_cfg q' = fq_cfg (drop_stale_heads q)" "vft_last q' name = finish_tag (drop_stale_heads q) name t w"
    "\<And>n. n \<noteq> name \<Longrightarrow> vft_last q' n = vft_last (drop_stale_heads q) n" "charge_of q' ?g = w_cost w"
    by (rule granted_vft) blast
  have fresh: "(w_job_id w, w_step_id w) \<notin> set (granted_steps gs)"
    using select_run_placements [OF serve.hyps(2)] granted_placement(3) [OF serve.hyps(1)] by fastforce
  have "charge_of qf ?g = w_cost w"
    using select_run_charge_kept [OF serve.hyps(2), of ?g] fresh t(5) by simp
  moreover have "vft_last q name + w_cost w / safe_weight (plan (fq_cfg q) name) \<le> vft_last q' name"
    using t(1,3) vft_last_drop [of q name, unfolded vft_last_def [of "drop_stale_heads q"]]
    by (simp add: candidate_def finish_tag_def start_tag_def)
  ultimately show ?case
    using serve.IH t(2) t(4) [of f] by (cases "f = name") (auto simp: charged_to_Cons add_divide_distrib)
qed (auto simp: charged_to_def)

text \<open>While a candidate waits unserved, nobody is served past its finish tag.\<close>

lemma select_run_bypass:
  "select_run now b q gs qf \<Longrightarrow> fq_inv owner q \<Longrightarrow> candidate (drop_stale_heads q) now g t w \<Longrightarrow>
     g \<notin> g_tenant ` set gs \<Longrightarrow> f \<in> g_tenant ` set gs \<Longrightarrow> vft_last qf f \<le> finish_tag qf g t w"
proof (induction rule: select_run.induct)
  case (serve q name x q' b gs qf)
  let ?d = "drop_stale_heads q"
  from serve.hyps(1) obtain u where u: "candidate ?d now name u x"
    "fq_cfg q' = fq_cfg ?d" "vft_last q' name = finish_tag ?d name u x"
    "fq_virtual_now q' = max (fq_virtual_now ?d) (start_tag ?d u)"
    "finish_tag ?d name u x \<le> finish_tag ?d g t w"
    by (rule granted_vft) (use serve.prems(2) in blast)
  have gn: "g \<noteq> name" using serve.prems(3) by simp
  have inv': "fq_inv owner q'" by (rule fq_inv_granted [OF fq_inv_drop_stale [OF serve.prems(1)] serve.hyps(1)])
  have cand: "candidate (drop_stale_heads q') now g t w"
    using serve.prems(2) unserved_tenant_unchanged [OF serve.prems(1) serve.hyps(1) gn] u(2)
    by (simp add: candidate_def admissible_def)
  note mono = virtual_now_mono [OF serve.hyps(2)]
  have later: "finish_tag ?d g t w \<le> finish_tag qf g t w"
    using mono u(2,4) by (auto simp: finish_tag_def start_tag_def floor_tag_def)
  show ?case
  proof (cases "f \<in> g_tenant ` set gs")
    case True
    with serve.IH [OF inv' cand] serve.prems(3) show ?thesis by simp
  next
    case False
    with serve.prems(4) have "f = name" by auto
    with False select_run_paid [OF serve.hyps(2), of f] u(3,5) later show ?thesis by simp
  qed
qed auto

section \<open>The cost history\<close>

definition cost_names :: "fair_queue \<Rightarrow> str \<Rightarrow> str list" where
  "cost_names q name = (case map_of (fq_cost_keys q) name of Some ns \<Rightarrow> ns | None \<Rightarrow> [])"

definition costs_ok :: "fair_queue \<Rightarrow> bool" where
  "costs_ok q \<longleftrightarrow>
     (\<forall>name. distinct (cost_names q name) \<and> length (cost_names q name) \<le> COST_KEYS_PER_TENANT \<and>
        set (cost_names q name) = {n. map_of (fq_costs q) (name, n) \<noteq> None}) \<and>
     (\<forall>k v. map_of (fq_costs q) k = Some v \<longrightarrow> 0 < length v \<and> length v \<le> COST_SAMPLES)"

lemma length_trim_samples: "length (trim_samples xs) = min (length xs) COST_SAMPLES"
  by (induction xs) (auto simp: min_def)

lemma evict_names_result:
  "evict_names name names costs = (names', costs') \<Longrightarrow>
     names' = drop (length names - COST_KEYS_PER_TENANT) names \<and>
     map_of costs' = (\<lambda>k. if k \<in> Pair name ` set (take (length names - COST_KEYS_PER_TENANT) names) then None
        else map_of costs k)"
proof (induction name names costs rule: evict_names.induct)
  case (2 name n names costs)
  show ?case
  proof (cases "length (n # names) > COST_KEYS_PER_TENANT")
    case True
    then have "length (n # names) - COST_KEYS_PER_TENANT = Suc (length names - COST_KEYS_PER_TENANT)" by simp
    with 2 True show ?thesis by (auto simp: fun_eq_iff)
  next
    case False
    with "2.prems" show ?thesis by (auto simp: fun_eq_iff)
  qed
qed (auto simp: fun_eq_iff)

lemma costs_ok_observe:
  assumes ok: "costs_ok q"
  shows "costs_ok (observe_cost q name sn r)"
proof (cases "map_of (fq_costs q) (name, sn)")
  case (Some v)
  have "0 < length (trim_samples (v @ [x]))" "length (trim_samples (v @ [x])) \<le> COST_SAMPLES" for x
    by (simp_all add: length_trim_samples COST_SAMPLES_def)
  with Some show ?thesis
    using ok by (auto simp: costs_ok_def observe_cost_def cost_names_def Let_def)
next
  case None
  let ?names = "cost_names q name @ [sn]"
  obtain names' costs' where ev: "evict_names name ?names (fq_costs q) = (names', costs')" by (cases "evict_names name ?names (fq_costs q)")
  let ?k = "length ?names - COST_KEYS_PER_TENANT"
  from evict_names_result [OF ev] have n': "names' = drop ?k ?names"
    and c': "map_of costs' = (\<lambda>k. if k \<in> Pair name ` set (take ?k ?names) then None else map_of (fq_costs q) k)" by auto
  have obs: "observe_cost q name sn r = q\<lparr>fq_cost_keys := AList.update name names' (fq_cost_keys q),
      fq_costs := AList.update (name, sn) [as_secs_f64 r] costs'\<rparr>"
    using None ev c' by (simp add: observe_cost_def Let_def cost_names_def COST_SAMPLES_def)
  from ok have d: "distinct (cost_names q name)" "length (cost_names q name) \<le> COST_KEYS_PER_TENANT"
    and dom: "set (cost_names q name) = {n. map_of (fq_costs q) (name, n) \<noteq> None}" by (auto simp: costs_ok_def)
  with None have dist: "distinct ?names" by auto
  have "?k \<le> 1" using d(2) by simp
  then have take: "take ?k ?names = take ?k (cost_names q name)"
    using d(2) by (cases "cost_names q name = []") (auto simp: COST_KEYS_PER_TENANT_def Suc_le_eq)
  have split: "set (take ?k ?names) \<inter> set (drop ?k ?names) = {}"
    using dist set_take_disj_set_drop_if_distinct [of ?names ?k ?k] by simp
  have un: "set (take ?k ?names) \<union> set (drop ?k ?names) = insert sn (set (cost_names q name))"
    by (metis append_take_drop_id list.simps(15) set_append Un_insert_right sup_bot_right empty_set)
  have sn: "sn \<notin> set (take ?k ?names)" using None dom take set_take_subset [of ?k "cost_names q name"] by auto
  have names: "set names' = insert sn {n. map_of costs' (name, n) \<noteq> None}"
    using un split sn dom unfolding n' c' by auto
  have "length names' \<le> COST_KEYS_PER_TENANT" by (simp add: n')
  moreover have "distinct names'" unfolding n' by (rule distinct_drop [OF dist])
  ultimately have "distinct (cost_names (observe_cost q name sn r) n) \<and>
      length (cost_names (observe_cost q name sn r) n) \<le> COST_KEYS_PER_TENANT \<and>
      set (cost_names (observe_cost q name sn r) n) = {m. map_of (fq_costs (observe_cost q name sn r)) (n, m) \<noteq> None}" for n
    using ok names by (cases "n = name") (auto simp: obs cost_names_def costs_ok_def c')
  moreover have "0 < length v \<and> length v \<le> COST_SAMPLES" if "map_of (fq_costs (observe_cost q name sn r)) k = Some v" for k v
    using that ok by (cases k) (auto simp: obs c' costs_ok_def COST_SAMPLES_def split: if_splits)
  ultimately show ?thesis unfolding costs_ok_def by blast
qed

lemma costs_ok_cong: "fq_costs q' = fq_costs q \<Longrightarrow> fq_cost_keys q' = fq_cost_keys q \<Longrightarrow> costs_ok q' = costs_ok q"
  by (simp add: costs_ok_def cost_names_def)

lemma costs_frame [simp]:
  "fq_costs (admit_job q j n pr) = fq_costs q" "fq_cost_keys (admit_job q j n pr) = fq_cost_keys q"
  "fq_costs (enqueue q j s nm) = fq_costs q" "fq_cost_keys (enqueue q j s nm) = fq_cost_keys q"
  "fq_costs (adopt q j s nm i) = fq_costs q" "fq_cost_keys (adopt q j s nm i) = fq_cost_keys q"
  "fq_costs (drop_stale_heads q) = fq_costs q" "fq_cost_keys (drop_stale_heads q) = fq_cost_keys q"
  "fq_costs (prune_ledgers q now) = fq_costs q" "fq_cost_keys (prune_ledgers q now) = fq_cost_keys q"
  "fq_costs (grant_round q name st v c rest w now) = fq_costs q"
  "fq_cost_keys (grant_round q name st v c rest w now) = fq_cost_keys q"
  by (simp_all add: admit_job_def enqueue_def adopt_def drop_stale_heads_def prune_ledgers_def
      grant_round_def grant_step_def Let_def split: option.splits)

lemma costs_ok_frame [simp]:
  "costs_ok (admit_job q j n pr) = costs_ok q" "costs_ok (enqueue q j s nm) = costs_ok q"
  "costs_ok (adopt q j s nm i) = costs_ok q" "costs_ok (drop_stale_heads q) = costs_ok q"
  "costs_ok (prune_ledgers q now) = costs_ok q"
  by (simp_all cong: costs_ok_cong add: costs_ok_cong [of "admit_job q j n pr" q] costs_ok_cong [of "enqueue q j s nm" q]
      costs_ok_cong [of "adopt q j s nm i" q] costs_ok_cong [of "drop_stale_heads q" q]
      costs_ok_cong [of "prune_ledgers q now" q])

lemma costs_ok_update [simp]:
  "costs_ok (q\<lparr>fq_jobs := js\<rparr>) = costs_ok q" "costs_ok (q\<lparr>fq_tenants := ts\<rparr>) = costs_ok q"
  by (simp_all add: costs_ok_def cost_names_def)

lemma costs_ok_unplace: "costs_ok q \<Longrightarrow> costs_ok (unplace q j s a learn)"
  by (simp add: unplace_def Let_def costs_ok_observe split: option.splits)

lemma costs_ok_forget: "costs_ok q \<Longrightarrow> costs_ok (forget_job q j a)"
proof -
  assume ok: "costs_ok q"
  have "costs_ok q \<Longrightarrow> costs_ok (fold (\<lambda>s q. release q j s a) ss q)" for ss q
    by (induction ss arbitrary: q) (simp_all add: release_def costs_ok_unplace)
  from this [OF ok] show ?thesis
    using ok by (simp add: forget_job_def Let_def split: option.splits)
qed

lemma costs_ok_reconcile: "costs_ok q \<Longrightarrow> costs_ok (reconcile q v now)"
proof -
  have step: "costs_ok q \<Longrightarrow> costs_ok (reconcile_step j now sv q)" for q j sv
    by (simp add: reconcile_step_def Let_def requeue_def release_def finish_def costs_ok_unplace)
  have "costs_ok q \<Longrightarrow> costs_ok (fold (reconcile_step j now) vs q)" for q j vs
    by (induction vs arbitrary: q) (simp_all add: step)
  then show "costs_ok q \<Longrightarrow> costs_ok (reconcile q v now)" by (simp add: reconcile_def)
qed

lemma select_run_costs: "select_run now b q gs qf \<Longrightarrow> fq_costs qf = fq_costs q \<and> fq_cost_keys qf = fq_cost_keys q"
proof (induction rule: select_run.induct)
  case (serve q name w q' b gs qf)
  from serve.hyps(1) show ?case by (rule grantedE) (use serve.IH in simp)
qed simp_all

lemma fq_reach_costs: "fq_reach owner q \<Longrightarrow> costs_ok q"
proof (induction rule: fq_reach.induct)
  case (new cfg)
  then show ?case by (simp add: costs_ok_def cost_names_def fair_queue_new_def)
next
  case (select q now)
  have "bt_ok (fq_tenants q)" using fq_invD(1) [OF fq_reach_inv [OF select.hyps]] .
  from select_run_costs [OF select_select_run [OF this]] select.IH show ?case
    by (simp add: costs_ok_def cost_names_def)
qed (simp_all add: release_def finish_def requeue_def costs_ok_unplace costs_ok_forget costs_ok_reconcile)

section \<open>A small fleet\<close>

text \<open>One slot and two tenants with one step each; the first tenant by name wins the tie.\<close>

definition example_owner :: "job_id \<Rightarrow> str" where
  "example_owner j = (if j = [1] then [97] else [98])"

definition example_cfg :: fair_share where
  "example_cfg = fair_share_default\<lparr>fs_fleet_slots := Some 1\<rparr>"

definition example_fill :: "fair_share \<Rightarrow> fair_queue" where
  "example_fill cfg =
     enqueue (enqueue (admit_job (admit_job (fair_queue_new cfg) [1] [97] Interactive) [2] [98] Background)
       [1] [10] [20]) [2] [11] [21]"

definition example_queue :: fair_queue where
  "example_queue = example_fill example_cfg"

lemma example_fill_reach: "fq_reach example_owner (example_fill cfg)"
  unfolding example_fill_def
  by (intro fq_reach.enqueue fq_reach.admit fq_reach.new) (simp_all add: example_owner_def)

lemma example_reach: "fq_reach example_owner example_queue"
  unfolding example_queue_def by (rule example_fill_reach)

lemma example_queue_eq:
  "example_queue = \<lparr>fq_cfg = example_cfg, fq_virtual_now = 0,
     fq_tenants = [([97], \<lparr>tn_vft_last = 0,
         tn_queues = [[\<lparr>w_job_id = [1], w_step_id = [10], w_cost = 60\<rparr>], []], tn_running = [], tn_ledger = []\<rparr>),
       ([98], \<lparr>tn_vft_last = 0,
         tn_queues = [[], [\<lparr>w_job_id = [2], w_step_id = [11], w_cost = 60\<rparr>]], tn_running = [], tn_ledger = []\<rparr>)],
     fq_jobs = [([1], \<lparr>jm_tenant = [97], jm_priority = Interactive,
         jm_steps = [([10], \<lparr>pl_name = [20], pl_since = None, pl_charged = None\<rparr>)]\<rparr>),
       ([2], \<lparr>jm_tenant = [98], jm_priority = Background,
         jm_steps = [([11], \<lparr>pl_name = [21], pl_since = None, pl_charged = None\<rparr>)]\<rparr>)],
     fq_costs = [], fq_cost_keys = []\<rparr>"
  by (simp add: example_queue_def example_fill_def fair_queue_new_def admit_job_def enqueue_def estimate_def bt_entry_def
      hm_modify_def hm_map_def push_queue_def tenant_default_def example_cfg_def fair_share_default_def
      as_secs_f64_def secs_def MIN_COST_SECS_def)

lemmas example_eval = select_def prune_ledgers_def select_budget_def in_flight_def example_queue_eq example_cfg_def
  fair_share_default_def tenant_plan_default_def plan_def hm_map_def hm_modify_def
  select_loop.simps [of "Suc 0"] select_loop.simps [of 0] drop_stale_heads_def is_waiting_def
  best_def best_step_def head_def head_class_def admissible_def over_concurrency_def over_node_minutes_def
  node_seconds_def start_tag_def finish_tag_def floor_tag_def safe_weight_def as_secs_f64_def secs_def
  pop_head_def grant_step_def
  placement_of_def vft_last_def Let_def

lemma example_select:
  "snd (select example_queue 7) = [\<lparr>g_job_id = [1], g_step_id = [10], g_tenant = [97]\<rparr>]"
  "placement_of (fst (select example_queue 7)) [1] [10] = Some \<lparr>pl_name = [20], pl_since = Some 7, pl_charged = Some 60\<rparr>"
  "vft_last (fst (select example_queue 7)) [97] = 60"
  by (simp_all add: example_eval)

section \<open>Properties\<close>

text \<open>C28. In every state the scheduler can reach, what the caps read is the truth: a tenant's \<open>running\<close>
  map holds exactly its steps that have started, each with the instant it started at (so its size is
  their number), and every step that waits has an entry in its tenant's queues: none is lost.\<close>

theorem scheduler_accounting:
  assumes "fq_reach owner q" and "map_of (fq_tenants q) name = Some t"
  shows "length (tn_running t) = card {(j, s). owner j = name \<and> since_of q j s \<noteq> None} \<and>
    (\<forall>j s. map_of (tn_running t) (j, s) = (if owner j = name then since_of q j s else None)) \<and>
    (\<forall>j s. owner j = name \<and> waits q j s \<longrightarrow> has_entry t j s)"
proof -
  have t: "tenant_ok owner q name t" using fq_invD(4) [OF fq_reach_inv [OF assms(1)] assms(2)] .
  then have run: "\<forall>j s. map_of (tn_running t) (j, s) = (if owner j = name then since_of q j s else None)"
    and ok: "hm_ok (tn_running t)" by (auto simp: tenant_ok_def)
  have "{(j, s). owner j = name \<and> since_of q j s \<noteq> None} = dom (map_of (tn_running t))"
    by (auto simp: dom_def run [rule_format] split: if_splits)
  then have "length (tn_running t) = card {(j, s). owner j = name \<and> since_of q j s \<noteq> None}"
    using distinct_card [OF ok] by (simp add: dom_map_of_conv_image_fst)
  moreover have "has_entry t j s" if "owner j = name" "waits q j s" for j s
    using fq_reach_queued [OF assms(1)] assms(2) that unfolding queued_ok_def by force
  ultimately show ?thesis using run by blast
qed

theorem scheduler_accounting_witness:
  "\<exists>t. map_of (fq_tenants example_queue) [97] = Some t \<and> has_entry t [1] [10] \<and>
     card {(j, s). example_owner j = [97] \<and> since_of example_queue j s \<noteq> None} = 0"
proof -
  obtain t where t: "map_of (fq_tenants example_queue) [97] = Some t" "tn_running t = []"
    by (simp add: example_queue_eq)
  have "waits example_queue [1] [10]" "example_owner [1] = [97]"
    by (simp_all add: waits_def placement_of_def example_queue_eq example_owner_def)
  with scheduler_accounting [OF example_reach t(1)] t show ?thesis by auto
qed

text \<open>A pass respects both limits on concurrency: it never grants more than the free fleet slots
  (the fleet is not pushed past \<open>fleet_slots\<close> unless it already was), it takes no tenant past
  \<open>max_running_steps\<close>, and the slots in flight afterwards are those before plus one per grant.\<close>

theorem select_respects_caps:
  assumes "fq_reach owner q"
  shows "in_flight (fst (select q now)) = in_flight q + length (snd (select q now)) \<and>
    pred_option (\<lambda>slots. in_flight (fst (select q now)) \<le> max slots (in_flight q)) (fs_fleet_slots (fq_cfg q)) \<and>
    running_count (fst (select q now)) name =
      running_count q name + length (filter (\<lambda>g. g_tenant g = name) (snd (select q now))) \<and>
    running_count (fst (select q now)) name
      \<le> max (running_count q name) (tp_max_running_steps (plan (fq_cfg q) name))"
proof -
  note inv = fq_reach_inv [OF assms]
  from select_run_caps [OF select_select_run [OF fq_invD(1) [OF inv]] fq_inv_prune [OF inv], of now name]
  show ?thesis by (auto simp: select_budget_def split: option.splits)
qed

theorem select_respects_caps_witness:
  "in_flight (fst (select example_queue 7)) = 1"
proof -
  have "in_flight example_queue = 0" by (simp add: in_flight_def example_queue_eq)
  with select_respects_caps [OF example_reach, of 7 "[97]"] show ?thesis by (simp add: example_select)
qed

text \<open>A pass grants each step at most once and only a step that was waiting; the granted steps run
  from \<open>now\<close>, and every other placement is untouched.\<close>

theorem select_grants_waiting_once:
  assumes "fq_reach owner q"
  shows "distinct (granted_steps (snd (select q now))) \<and>
    list_all (\<lambda>g. waits q (g_job_id g) (g_step_id g) \<and>
      since_of (fst (select q now)) (g_job_id g) (g_step_id g) = Some now) (snd (select q now)) \<and>
    (\<forall>j s. (j, s) \<notin> set (granted_steps (snd (select q now))) \<longrightarrow>
      placement_of (fst (select q now)) j s = placement_of q j s)"
proof -
  have p: "placement_of (prune_ledgers q now) j s = placement_of q j s" for j s by (simp add: placement_of_def)
  from select_run_placements [OF select_select_run [OF fq_invD(1) [OF fq_reach_inv [OF assms]]], of now]
  show ?thesis by (auto simp: list_all_iff waits_def p)
qed

theorem select_grants_waiting_once_witness:
  "since_of (fst (select example_queue 7)) [1] [10] = Some 7 \<and>
     placement_of (fst (select example_queue 7)) [2] [11] = placement_of example_queue [2] [11]"
  using select_grants_waiting_once [OF example_reach, of 7] by (simp add: example_select)

text \<open>The scheduler is work conserving: when a pass ends with fleet slots to spare, every step still
  waiting belongs to a tenant that is at one of its plan caps.\<close>

theorem select_work_conserving:
  assumes "fq_reach owner q" and "length (snd (select q now)) \<noteq> select_budget q"
    and "waits (fst (select q now)) j s"
  shows "at_cap (fst (select q now)) (owner j) now"
proof -
  have "select_budget (prune_ledgers q now) = select_budget q"
    by (simp add: select_budget_def split: option.splits)
  with select_run_conserving [OF select_select_run [OF fq_invD(1) [OF fq_reach_inv [OF assms(1)]]]
      queued_prune [OF fq_reach_queued [OF assms(1)]], of now] assms show ?thesis by auto
qed

definition example_closed_cfg :: fair_share where
  "example_closed_cfg =
     fair_share_default\<lparr>fs_fleet_slots := Some 1, fs_default_plan := tenant_plan_default\<lparr>tp_max_running_steps := 0\<rparr>\<rparr>"

lemma example_closed_select:
  "snd (select (example_fill example_closed_cfg) 7) = []"
  "waits (fst (select (example_fill example_closed_cfg) 7)) [1] [10]"
  "select_budget (example_fill example_closed_cfg) = 1"
  by (simp_all add: example_eval waits_def example_closed_cfg_def example_fill_def fair_queue_new_def admit_job_def
      enqueue_def estimate_def bt_entry_def push_queue_def tenant_default_def)

theorem select_work_conserving_witness:
  "at_cap (fst (select (example_fill example_closed_cfg) 7)) [97] 7"
  using select_work_conserving [OF example_fill_reach _ example_closed_select(2)]
  by (simp add: example_closed_select(1,3) example_owner_def)



text \<open>A refund on hand-back: when the fleet refuses a granted step at the instant it was granted,
  \<open>requeue\<close> gives its tenant back the whole charge of the selection. (The comment on \<open>requeue\<close> says that
  the tenant keeps the charge; the true-up of \<open>unplace\<close> returns it.)\<close>

theorem requeue_refunds_charge:
  assumes "fq_reach owner q"
    and "placement_of q j s = Some \<lparr>pl_name = nm, pl_since = Some now, pl_charged = Some c\<rparr>"
  shows "vft_last (requeue q j s nm now) (owner j) =
    vft_last q (owner j) - c / safe_weight (plan (fq_cfg q) (owner j)) \<and>
    waits (requeue q j s nm now) j s"
proof -
  note inv = fq_reach_inv [OF assms(1)]
  from assms(2) obtain m where m: "map_of (fq_jobs q) j = Some m"
    "map_of (jm_steps m) s = Some \<lparr>pl_name = nm, pl_since = Some now, pl_charged = Some c\<rparr>"
    by (auto simp: placement_of_def split: Option.bind_splits)
  from fq_invD(3) [OF inv m(1)] obtain t where t: "jm_tenant m = owner j" "map_of (fq_tenants q) (owner j) = Some t"
    by (auto simp: job_meta_ok_def)
  let ?q = "release q j s now"
  have "map_of (fq_tenants ?q) (owner j) = Some (settle_running (safe_weight (plan (fq_cfg q) (owner j))) j s now 0 (Some c) t)"
    by (simp add: release_def tenants_unplace m t)
  moreover have "map_of (fq_jobs ?q) j = Some (m\<lparr>jm_steps := AList.delete s (jm_steps m)\<rparr>)"
    by (simp add: release_def jobs_unplace m)
  moreover have "bt_ok (fq_tenants ?q)" using fq_invD(1) [OF fq_inv_unplace [OF inv]] by (simp add: release_def)
  ultimately show ?thesis
    using t by (simp add: requeue_def enqueue_def Let_def vft_last_def waits_def placement_of_def push_queue_def
        settle_running_def as_secs_f64_def)
qed

theorem requeue_refunds_charge_witness:
  "vft_last (requeue (fst (select example_queue 7)) [1] [10] [20] 7) [97] = 0"
proof -
  have r: "fq_reach example_owner (fst (select example_queue 7))"
    by (rule fq_reach.select [OF example_reach])
  have w: "safe_weight (plan (fq_cfg (fst (select example_queue 7))) [97]) = 1" by (simp add: example_eval)
  from requeue_refunds_charge [OF r example_select(2)] w show ?thesis
    by (simp add: example_owner_def example_select)
qed

text \<open>The estimator's memory is bounded whatever names a tenant's pipelines use: at most
  \<open>COST_KEYS_PER_TENANT\<close> step names per tenant and between one and \<open>COST_SAMPLES\<close> samples each.\<close>

theorem cost_history_bounded:
  assumes "fq_reach owner q"
  shows "card {n. map_of (fq_costs q) (name, n) \<noteq> None} \<le> COST_KEYS_PER_TENANT \<and>
    pred_option (\<lambda>samples. 0 < length samples \<and> length samples \<le> COST_SAMPLES) (map_of (fq_costs q) (name, n))"
proof -
  have ok: "costs_ok q" by (rule fq_reach_costs [OF assms])
  then have "card {n. map_of (fq_costs q) (name, n) \<noteq> None} = length (cost_names q name)"
    by (metis (mono_tags, lifting) costs_ok_def distinct_card)
  with ok show ?thesis by (auto simp: costs_ok_def option.pred_set dest: sym split: option.splits)
qed

theorem cost_history_bounded_witness:
  "card {n. map_of (fq_costs (finish (fst (select example_queue 7)) [1] [10] 9)) ([97], n) \<noteq> None}
     \<le> COST_KEYS_PER_TENANT"
  using cost_history_bounded [OF fq_reach.finish [OF fq_reach.select [OF example_reach]]] by blast

end
