(* ===== verification/Ci_Store.thy ===== *)
theory Ci_Store
  imports Ci_Model
begin

text \<open>
  Job records and their retention (\<open>src/crates/hull-ci-control/src/store.rs\<close>). \<open>evict\<close> subtracts two
  \<open>usize\<close> values; \<open>usize_sub\<close> is that subtraction, which panics when the build checks overflow
  (\<open>checks\<close>) and wraps otherwise. A panicking \<open>evict\<close> leaves the store as it was at that point (the
  lock on it recovers from poisoning) and returns nothing.
\<close>

section \<open>Definitions\<close>

record job_store =
  by_id :: "(job_id \<times> job) list"

definition job_store_new :: job_store where
  "job_store_new = \<lparr>by_id = []\<rparr>"

definition store_insert :: "job_store \<Rightarrow> job_id \<Rightarrow> dispatch \<Rightarrow> author_class \<Rightarrow> instant \<Rightarrow> duration \<Rightarrow> job_store" where
  "store_insert st j d ac now job_timeout =
     (case map_of (by_id st) j of
        Some _ \<Rightarrow> st
      | None \<Rightarrow> st\<lparr>by_id := AList.update j (job_new j d ac now job_timeout) (by_id st)\<rparr>)"

definition store_get :: "job_store \<Rightarrow> job_id \<Rightarrow> job option" where
  "store_get st j = map_of (by_id st) j"

definition store_get_mut :: "job_store \<Rightarrow> job_id \<Rightarrow> (job \<Rightarrow> job) \<Rightarrow> job_store" where
  "store_get_mut st j f = st\<lparr>by_id := hm_modify j f (by_id st)\<rparr>"

definition store_len :: "job_store \<Rightarrow> nat" where
  "store_len st = length (by_id st)"

definition store_remove :: "job_store \<Rightarrow> job_id \<Rightarrow> job_store" where
  "store_remove st j = st\<lparr>by_id := AList.delete j (by_id st)\<rparr>"

definition settled_oldest_first :: "job_store \<Rightarrow> bool \<Rightarrow> (instant \<times> job_id) list" where
  "settled_oldest_first st owing =
     sort_key fst (List.map_filter (\<lambda>(k, j). map_option (\<lambda>t. (t, j_id j)) (j_settled_at j))
       (filter (\<lambda>(k, j). owes_a_verdict (j_state j) = owing) (by_id st)))"

definition usize_sub :: "bool \<Rightarrow> nat \<Rightarrow> nat \<Rightarrow> nat option" where
  "usize_sub checks a b =
     (if b \<le> a then Some (a - b) else if checks then None else Some (2 ^ 64 + a - b))"

fun evict_paid :: "bool \<Rightarrow> instant \<Rightarrow> duration \<Rightarrow> nat \<Rightarrow> (instant \<times> job_id) list \<Rightarrow> job_store \<Rightarrow> job_id list \<Rightarrow>
    job_store \<times> job_id list option" where
  "evict_paid checks now retention max_jobs [] st evicted = (st, Some evicted)"
| "evict_paid checks now retention max_jobs ((settled_at, j) # paid) st evicted =
     (let too_old = (now - settled_at \<ge> retention)
      in case usize_sub checks (store_len st) (length evicted) of
           None \<Rightarrow> (st, None)
         | Some n \<Rightarrow>
             let over_cap = (n > max_jobs)
             in if \<not> too_old \<and> \<not> over_cap then (st, Some evicted)
                else evict_paid checks now retention max_jobs paid (store_remove st j) (evicted @ [j]))"

fun evict_owed :: "bool \<Rightarrow> nat \<Rightarrow> (instant \<times> job_id) list \<Rightarrow> job_store \<Rightarrow> job_id list \<Rightarrow>
    job_store \<times> job_id list option" where
  "evict_owed checks max_jobs [] st evicted = (st, Some evicted)"
| "evict_owed checks max_jobs ((settled_at, j) # owed) st evicted =
     (case usize_sub checks (store_len st) (length evicted) of
        None \<Rightarrow> (st, None)
      | Some n \<Rightarrow>
          if n \<le> max_jobs then (st, Some evicted)
          else evict_owed checks max_jobs owed (store_remove st j) (evicted @ [j]))"

definition evict :: "bool \<Rightarrow> job_store \<Rightarrow> instant \<Rightarrow> duration \<Rightarrow> nat \<Rightarrow> job_store \<times> job_id list option" where
  "evict checks st now retention max_jobs =
     (let paid = settled_oldest_first st False;
          owed = settled_oldest_first st True
      in case evict_paid checks now retention max_jobs paid st [] of
           (st1, None) \<Rightarrow> (st1, None)
         | (st1, Some evicted) \<Rightarrow> evict_owed checks max_jobs owed st1 evicted)"

section \<open>What eviction removes\<close>

definition store_ok :: "job_store \<Rightarrow> bool" where
  "store_ok st \<longleftrightarrow> hm_ok (by_id st) \<and> (\<forall>j b. map_of (by_id st) j = Some b \<longrightarrow> j_id b = j)"

text \<open>A settled job whose verdict Hull has, and one whose verdict it never received.\<close>

definition is_paid :: "job_store \<Rightarrow> job_id \<Rightarrow> bool" where
  "is_paid st j \<longleftrightarrow> (\<exists>b. map_of (by_id st) j = Some b \<and> j_settled_at b \<noteq> None \<and> \<not> owes_a_verdict (j_state b))"

definition is_owed :: "job_store \<Rightarrow> job_id \<Rightarrow> bool" where
  "is_owed st j \<longleftrightarrow> (\<exists>b. map_of (by_id st) j = Some b \<and> j_settled_at b \<noteq> None \<and> owes_a_verdict (j_state b))"

lemma store_ok_insert: "store_ok st \<Longrightarrow> store_ok (store_insert st j d ac now t)"
  by (auto simp: store_ok_def store_insert_def job_new_def split: option.splits)

lemma store_ok_remove: "store_ok st \<Longrightarrow> store_ok (store_remove st j)"
  by (auto simp: store_ok_def store_remove_def)

lemma map_of_fold_remove:
  "map_of (by_id (fold (\<lambda>j st. store_remove st j) js st)) x = (if x \<in> set js then None else map_of (by_id st) x)"
  by (induction js arbitrary: st) (auto simp: store_remove_def)

lemma store_ok_mem:
  assumes "store_ok st"
  shows "(k, b) \<in> set (by_id st) \<longleftrightarrow> map_of (by_id st) k = Some b" and "map_of (by_id st) k = Some b \<Longrightarrow> j_id b = k"
  using assms map_of_eq_Some_iff [of "by_id st" k b] unfolding store_ok_def by blast+

lemma set_settled:
  assumes "store_ok st"
  shows "(t, j) \<in> set (settled_oldest_first st owing) \<longleftrightarrow>
    (\<exists>b. map_of (by_id st) j = Some b \<and> j_settled_at b = Some t \<and> owes_a_verdict (j_state b) = owing)"
proof -
  have "(t, j) \<in> set (settled_oldest_first st owing) \<longleftrightarrow>
      (\<exists>k b. (k, b) \<in> set (by_id st) \<and> j_id b = j \<and> j_settled_at b = Some t \<and> owes_a_verdict (j_state b) = owing)"
    by (auto simp: settled_oldest_first_def in_set_map_filter)
  also have "\<dots> \<longleftrightarrow> (\<exists>b. map_of (by_id st) j = Some b \<and> j_settled_at b = Some t \<and> owes_a_verdict (j_state b) = owing)"
    (is "?lhs = ?rhs")
  proof
    assume ?lhs
    then obtain k b where "(k, b) \<in> set (by_id st)" "j_id b = j" "j_settled_at b = Some t"
      "owes_a_verdict (j_state b) = owing" by blast
    moreover from this(1) have "map_of (by_id st) k = Some b" "j_id b = k"
      using store_ok_mem [OF assms] by blast+
    ultimately show ?rhs by blast
  next
    assume ?rhs
    then obtain b where "map_of (by_id st) j = Some b" "j_settled_at b = Some t" "owes_a_verdict (j_state b) = owing"
      by blast
    moreover from this(1) have "(j, b) \<in> set (by_id st)" "j_id b = j"
      using store_ok_mem [OF assms] by blast+
    ultimately show ?lhs by blast
  qed
  finally show ?thesis .
qed

lemma distinct_settled:
  assumes "store_ok st"
  shows "distinct (map snd (settled_oldest_first st owing))"
proof -
  let ?f = "\<lambda>(k, j). map_option (\<lambda>t. (t, j_id j)) (j_settled_at j)"
  have "inj_on (\<lambda>(k, b). j_id b) (set (by_id st))"
    by (rule inj_onI) (use store_ok_mem [OF assms] in \<open>auto split: prod.splits\<close>)
  moreover have "distinct (by_id st)" using assms by (auto simp: store_ok_def distinct_map)
  ultimately have d: "distinct (map (\<lambda>(k, b). j_id b) (by_id st))" by (simp add: distinct_map)
  have "distinct (map snd (List.map_filter ?f (filter (\<lambda>(k, j). p j) xs))) \<and>
      set (map snd (List.map_filter ?f (filter (\<lambda>(k, j). p j) xs))) \<subseteq> set (map (\<lambda>(k, b). j_id b) xs)"
    if "distinct (map (\<lambda>(k, b). j_id b) xs)" for xs :: "(job_id \<times> job) list" and p
    using that
  proof (induction xs)
    case (Cons x xs)
    obtain k b where "x = (k, b)" by (cases x)
    with Cons show ?case by (cases "p b"; cases "j_settled_at b") auto
  qed simp
  with d have "distinct (map snd (List.map_filter ?f (filter (\<lambda>(k, j). owes_a_verdict (j_state j) = owing) (by_id st))))"
    by blast
  moreover have "mset (map snd (sort_key fst ys)) = mset (map snd ys)" for ys :: "(instant \<times> job_id) list" by simp
  note mset_eq_imp_distinct_iff [OF this]
  ultimately show ?thesis unfolding settled_oldest_first_def by blast
qed

text \<open>Both loops remove a prefix of their list; the removed ids are the ones they report.\<close>

abbreviation remove_all :: "job_id list \<Rightarrow> job_store \<Rightarrow> job_store" where
  "remove_all js st \<equiv> fold (\<lambda>j st. store_remove st j) js st"

lemma evict_paid_prefix:
  "\<exists>k. fst (evict_paid c now r m paid st ev) = remove_all (map snd (take k paid)) st \<and>
     pred_option (\<lambda>ev'. ev' = ev @ map snd (take k paid)) (snd (evict_paid c now r m paid st ev))"
proof (induction c now r m paid st ev rule: evict_paid.induct)
  case (2 c now r m t j paid st ev)
  show ?case
  proof (cases "\<exists>n. usize_sub c (store_len st) (length ev) = Some n \<and> (now - t \<ge> r \<or> n > m)")
    case True
    then obtain n where n: "usize_sub c (store_len st) (length ev) = Some n" "now - t \<ge> r \<or> n > m" by blast
    from 2 [OF refl n(1) refl] n obtain k where
      "fst (evict_paid c now r m paid (store_remove st j) (ev @ [j])) = remove_all (map snd (take k paid)) (store_remove st j)"
      "pred_option (\<lambda>ev'. ev' = (ev @ [j]) @ map snd (take k paid)) (snd (evict_paid c now r m paid (store_remove st j) (ev @ [j])))"
      by auto
    with n show ?thesis by (intro exI [of _ "Suc k"]) auto
  next
    case False
    then show ?thesis by (intro exI [of _ 0]) (auto split: option.splits)
  qed
qed simp

lemma evict_owed_prefix:
  "\<exists>k. fst (evict_owed c m owed st ev) = remove_all (map snd (take k owed)) st \<and>
     pred_option (\<lambda>ev'. ev' = ev @ map snd (take k owed)) (snd (evict_owed c m owed st ev))"
proof (induction c m owed st ev rule: evict_owed.induct)
  case (2 c m t j owed st ev)
  show ?case
  proof (cases "\<exists>n. usize_sub c (store_len st) (length ev) = Some n \<and> n > m")
    case True
    then obtain n where n: "usize_sub c (store_len st) (length ev) = Some n" "n > m" by blast
    from 2 [OF n(1)] n obtain k where
      "fst (evict_owed c m owed (store_remove st j) (ev @ [j])) = remove_all (map snd (take k owed)) (store_remove st j)"
      "pred_option (\<lambda>ev'. ev' = (ev @ [j]) @ map snd (take k owed)) (snd (evict_owed c m owed (store_remove st j) (ev @ [j])))"
      by auto
    with n show ?thesis by (intro exI [of _ "Suc k"]) auto
  next
    case False
    then show ?thesis by (intro exI [of _ 0]) (auto split: option.splits)
  qed
qed simp

text \<open>When the first loop stops early without a panic, the store is within its cap as the code counts
  it, so the second loop stops at once; and it stopped at a job inside its retention.\<close>

lemma evict_paid_stop:
  assumes "snd (evict_paid c now r m paid st ev) = Some ev'"
  shows "ev' = ev @ map snd paid \<or>
    (\<exists>n. usize_sub c (store_len (fst (evict_paid c now r m paid st ev))) (length ev') = Some n \<and> n \<le> m)"
  using assms
  by (induction c now r m paid st ev rule: evict_paid.induct) (auto simp: Let_def not_less split: option.splits if_splits)

lemma evict_paid_old:
  assumes "snd (evict_paid c now r m paid st ev) = Some ev'" and "sorted (map fst paid)"
    and "(t, j) \<in> set paid" and "now - t \<ge> r"
  shows "j \<in> set ev'"
  using assms
proof (induction c now r m paid st ev rule: evict_paid.induct)
  case (2 c now r m t' j' paid st ev)
  obtain n where n: "usize_sub c (store_len st) (length ev) = Some n"
    using "2.prems"(1) by (auto simp: Let_def split: option.splits)
  have old: "now - t' \<ge> r" using "2.prems"(2-4) by auto
  then have step: "evict_paid c now r m ((t', j') # paid) st ev = evict_paid c now r m paid (store_remove st j') (ev @ [j'])"
    using n by simp
  show ?case
  proof (cases "(t, j) = (t', j')")
    case True
    obtain k where "pred_option (\<lambda>e. e = (ev @ [j']) @ map snd (take k paid)) (Some ev')"
      using evict_paid_prefix [of c now r m paid "store_remove st j'" "ev @ [j']"] "2.prems"(1) step by auto
    with True show ?thesis by auto
  next
    case False
    with "2.prems" step n old show ?thesis by (intro "2.IH" [OF refl n refl]) auto
  qed
qed simp

lemma usize_sub_le: "usize_sub c a b = Some n \<Longrightarrow> n \<le> m \<Longrightarrow> evict_owed c m owed st ev = (st, Some ev)"
  if "a = store_len st" "b = length ev"
  using that by (cases owed) auto

lemma evict_split:
  assumes ok: "store_ok st" and ev: "evict c st now r m = (st', res)"
  obtains k l where "st' = remove_all (map snd (take k (settled_oldest_first st False)) @
      map snd (take l (settled_oldest_first st True))) st"
    and "pred_option (\<lambda>ids. ids = map snd (take k (settled_oldest_first st False)) @
      map snd (take l (settled_oldest_first st True))) res"
    and "l = 0 \<or> length (settled_oldest_first st False) \<le> k"
proof -
  let ?paid = "settled_oldest_first st False" and ?owed = "settled_oldest_first st True"
  obtain st1 res1 where p: "evict_paid c now r m ?paid st [] = (st1, res1)" by (cases "evict_paid c now r m ?paid st []")
  from evict_paid_prefix [of c now r m ?paid st "[]"] p obtain k where
    k: "st1 = remove_all (map snd (take k ?paid)) st" "pred_option (\<lambda>e. e = map snd (take k ?paid)) res1" by auto
  show ?thesis
  proof (cases res1)
    case None
    with ev p k show ?thesis by (intro that [of k 0]) (auto simp: evict_def)
  next
    case (Some e1)
    with ev p have o: "evict_owed c m ?owed st1 e1 = (st', res)" by (simp add: evict_def)
    from k Some have e1: "e1 = map snd (take k ?paid)" by simp
    have "e1 = map snd ?paid \<or> (\<exists>n. usize_sub c (store_len st1) (length e1) = Some n \<and> n \<le> m)"
      using evict_paid_stop [of c now r m ?paid st "[]" e1] p Some by simp
    then consider "e1 = map snd ?paid" | "st' = st1" "res = Some e1"
      using usize_sub_le [OF refl refl] o by (metis prod.inject)
    then show ?thesis
    proof cases
      case 1
      then have "length ?paid \<le> k" using e1 by (metis length_map length_take min.absorb_iff1 min.commute)
      moreover from evict_owed_prefix [of c m ?owed st1 e1] o obtain l where
        "st' = remove_all (map snd (take l ?owed)) st1" "pred_option (\<lambda>e. e = e1 @ map snd (take l ?owed)) res" by auto
      ultimately show ?thesis using k e1 by (intro that [of k l]) auto
    next
      case 2
      with k e1 show ?thesis by (intro that [of k 0]) auto
    qed
  qed
qed

lemma settled_mem:
  assumes "store_ok st"
  shows "j \<in> snd ` set (settled_oldest_first st False) \<longleftrightarrow> is_paid st j"
    and "j \<in> snd ` set (settled_oldest_first st True) \<longleftrightarrow> is_owed st j"
proof -
  have "j \<in> snd ` set (settled_oldest_first st owing) \<longleftrightarrow> (\<exists>t. (t, j) \<in> set (settled_oldest_first st owing))" for owing
    by force
  then show "j \<in> snd ` set (settled_oldest_first st False) \<longleftrightarrow> is_paid st j"
    and "j \<in> snd ` set (settled_oldest_first st True) \<longleftrightarrow> is_owed st j"
    by (auto simp: set_settled [OF assms] is_paid_def is_owed_def)
qed

lemma sorted_settled: "sorted (map fst (settled_oldest_first st owing))"
  by (simp add: settled_oldest_first_def)

lemma evict_effect:
  assumes "store_ok st" and "evict checks st now retention max_jobs = (st', res)"
  shows "(\<forall>j. map_of (by_id st') j = map_of (by_id st) j \<or>
      map_of (by_id st') j = None \<and> (is_paid st j \<or> is_owed st j)) \<and>
    pred_option (\<lambda>ids. distinct ids \<and> set ids = {j. map_of (by_id st) j \<noteq> None \<and> map_of (by_id st') j = None}) res \<and>
    (\<forall>j. is_owed st j \<and> map_of (by_id st') j = None \<longrightarrow> \<not> (\<exists>p. is_paid st' p))"
proof -
  let ?paid = "settled_oldest_first st False" and ?owed = "settled_oldest_first st True"
  from assms obtain k l where st': "st' = remove_all (map snd (take k ?paid) @ map snd (take l ?owed)) st"
    and res: "pred_option (\<lambda>ids. ids = map snd (take k ?paid) @ map snd (take l ?owed)) res"
    and last: "l = 0 \<or> length ?paid \<le> k"
    by (rule evict_split)
  let ?gone = "set (map snd (take k ?paid) @ map snd (take l ?owed))"
  have after: "map_of (by_id st') j = (if j \<in> ?gone then None else map_of (by_id st) j)" for j
    unfolding st' by (rule map_of_fold_remove)
  have k_paid: "j \<in> snd ` set (take k ?paid) \<Longrightarrow> is_paid st j" for j
    using settled_mem(1) [OF assms(1), of j] set_take_subset [of k ?paid] by blast
  have l_owed: "j \<in> snd ` set (take l ?owed) \<Longrightarrow> is_owed st j" for j
    using settled_mem(2) [OF assms(1), of j] set_take_subset [of l ?owed] by blast
  have gone: "is_paid st j \<or> is_owed st j" if "j \<in> ?gone" for j
    using that k_paid [of j] l_owed [of j] by auto
  then have settled: "map_of (by_id st) j \<noteq> None" if "j \<in> ?gone" for j
    using that by (fastforce simp: is_paid_def is_owed_def)
  have excl: "\<not> (is_paid st j \<and> is_owed st j)" for j by (auto simp: is_paid_def is_owed_def)
  have "distinct (map snd (take k ?paid) @ map snd (take l ?owed))"
  proof -
    have "snd ` set (take k ?paid) \<inter> snd ` set (take l ?owed) = {}" using excl k_paid l_owed by blast
    moreover have "distinct (map snd (take k ?paid))" "distinct (map snd (take l ?owed))"
      using distinct_settled [OF assms(1)] by (simp_all flip: take_map)
    ultimately show ?thesis by simp
  qed
  moreover have "\<not> is_paid st' p" if "is_owed st j" "map_of (by_id st') j = None" for j p
  proof -
    have "j \<in> ?gone" using that after [of j] by (auto simp: is_owed_def split: if_splits)
    then have "l \<noteq> 0" using that(1) excl k_paid [of j] by (cases l) auto
    with last have "take k ?paid = ?paid" by simp
    then show ?thesis
      using settled_mem(1) [OF assms(1), of p] after [of p] by (auto simp: is_paid_def split: if_splits)
  qed
  moreover have "{j. map_of (by_id st) j \<noteq> None \<and> map_of (by_id st') j = None} = ?gone"
    using after settled by auto
  moreover have "map_of (by_id st') j = map_of (by_id st) j \<or>
      map_of (by_id st') j = None \<and> (is_paid st j \<or> is_owed st j)" for j
    using after [of j] gone [of j] by presburger
  ultimately show ?thesis using res by (cases res) (simp, blast, simp, blast)
qed

section \<open>Example stores\<close>

definition example_settled :: "nat \<Rightarrow> job_state \<Rightarrow> instant \<Rightarrow> job" where
  "example_settled i state t =
     (job_new [i] example_dispatch Member 0 0)\<lparr>j_state := state, j_settled_at := Some t\<rparr>"

definition example_store :: "instant \<Rightarrow> job_state \<Rightarrow> job_store" where
  "example_store t3 state3 =
     \<lparr>by_id = [([1], example_settled 1 JReported 0), ([2], example_settled 2 JReported t3),
       ([3], example_settled 3 state3 5)]\<rparr>"

definition example_left :: "job_state \<Rightarrow> job_store" where
  "example_left state3 = \<lparr>by_id = [([2], example_settled 2 JReported 5), ([3], example_settled 3 state3 5)]\<rparr>"

lemma example_store_ok: "store_ok (example_store t state)"
  by (auto simp: store_ok_def example_store_def example_settled_def job_new_def split: if_splits)

lemmas evict_eval = evict_def example_store_def example_left_def example_settled_def settled_oldest_first_def job_new_def
  owes_a_verdict_def has_verdict_def is_finished_def store_len_def usize_sub_def store_remove_def

lemma example_evict: "evict checks (example_store 5 JReportFailed) 10 7 100 = (example_left JReportFailed, Some [[1]])"
  by (simp add: evict_eval)

section \<open>Properties\<close>

text \<open>Eviction, at any pressure and even when its arithmetic overflows: a job that has not settled is
  never touched; what disappears is exactly the ids reported, each once, so their claims can be
  released; and a job whose verdict Hull never received goes only when no settled job with a
  delivered verdict is left.\<close>

theorem evict_safe:
  assumes "store_ok st" and "evict checks st now retention max_jobs = (st', res)"
  shows "(\<forall>j. map_of (by_id st') j = map_of (by_id st) j \<or>
      map_of (by_id st') j = None \<and> (is_paid st j \<or> is_owed st j)) \<and>
    pred_option (\<lambda>ids. distinct ids \<and> set ids = {j. map_of (by_id st) j \<noteq> None \<and> map_of (by_id st') j = None}) res \<and>
    (\<forall>j. is_owed st j \<and> map_of (by_id st') j = None \<longrightarrow> \<not> (\<exists>p. is_paid st' p))"
  using assms by (rule evict_effect)

theorem evict_safe_witness:
  "is_owed (example_store 5 JReportFailed) [3] \<and> map_of (by_id (example_left JReportFailed)) [3] \<noteq> None"
proof -
  have paid: "is_paid (example_left JReportFailed) [2]" and owed: "is_owed (example_store 5 JReportFailed) [3]"
    by (simp_all add: is_paid_def is_owed_def evict_eval)
  from evict_safe [OF example_store_ok example_evict]
  have "is_owed (example_store 5 JReportFailed) [3] \<and> map_of (by_id (example_left JReportFailed)) [3] = None \<longrightarrow>
      \<not> (\<exists>p. is_paid (example_left JReportFailed) p)" by (elim conjE allE)
  with paid owed show ?thesis by (intro conjI notI) simp_all
qed

text \<open>The retention clock: an eviction that returns has removed every job with a delivered verdict
  that settled at least \<open>retention\<close> ago.\<close>

theorem evict_retention:
  assumes "store_ok st" and "evict checks st now retention max_jobs = (st', Some ids)"
    and "map_of (by_id st) j = Some b" and "\<not> owes_a_verdict (j_state b)"
    and "j_settled_at b = Some t" and "now - t \<ge> retention"
  shows "j \<in> set ids \<and> map_of (by_id st') j = None"
proof -
  let ?paid = "settled_oldest_first st False"
  obtain st1 e1 where p: "evict_paid checks now retention max_jobs ?paid st [] = (st1, Some e1)"
    and o: "evict_owed checks max_jobs (settled_oldest_first st True) st1 e1 = (st', Some ids)"
    using assms(2) by (auto simp: evict_def split: prod.splits option.splits)
  have "(t, j) \<in> set ?paid" using set_settled [OF assms(1)] assms(3-5) by auto
  then have "j \<in> set e1" using evict_paid_old [of checks now retention max_jobs ?paid st "[]" e1 t j] p sorted_settled assms(6) by simp
  moreover have "\<exists>k. ids = e1 @ map snd (take k (settled_oldest_first st True))"
    using evict_owed_prefix [of checks max_jobs "settled_oldest_first st True" st1 e1] o by auto
  ultimately have "j \<in> set ids" by auto
  moreover have "set ids = {j. map_of (by_id st) j \<noteq> None \<and> map_of (by_id st') j = None}"
    using evict_effect [OF assms(1,2)] by simp
  ultimately show ?thesis by auto
qed

theorem evict_retention_witness:
  "([1] :: job_id) \<in> set [[1]] \<and> map_of (by_id (example_left JReportFailed)) [1] = None"
  by (rule evict_retention [OF example_store_ok example_evict, where b = "example_settled 1 JReported 0" and t = 0])
    (simp_all add: evict_eval)


end
