(* ===== verification/Ci_Claims.thy ===== *)
theory Ci_Claims
  imports Ci_Model
begin

text \<open>
  Who drives a tree (\<open>src/crates/hull-ci-control/src/claims.rs\<close>): the claim operations a replica calls,
  the process-local implementation \<open>LocalClaims\<close>, and the contract of the \<open>JobClaims\<close> trait as a locale
  over any implementation. Inside the locale: along any sequence of calls, a tree that has a driver
  keeps it and every dispatcher that attached is answered, and a step that was granted is not granted
  again. \<open>LocalClaims\<close> is shown to meet the contract.

  Times are \<open>i64\<close> milliseconds (\<open>int\<close>, with \<open>saturating_sub\<close> written out).
\<close>

section \<open>The vocabulary of the trait\<close>

type_synonym tree_key = "str \<times> str"

record drive_lease =
  dl_job_id :: job_id
  dl_owner :: str
  dl_fence :: nat

datatype admitted =
    Created drive_lease
  | Attached job_id str "verdict option"

fun admitted_job_id :: "admitted \<Rightarrow> job_id" where
  "admitted_job_id (Created l) = dl_job_id l"
| "admitted_job_id (Attached j _ _) = j"

fun is_duplicate :: "admitted \<Rightarrow> bool" where
  "is_duplicate (Created _) = False"
| "is_duplicate (Attached _ _ _) = True"

datatype step_claim = Granted | Taken str | Fenced str

datatype claim_error = Unavailable str

definition sat_sub_i64 :: "int \<Rightarrow> int \<Rightarrow> int" where
  "sat_sub_i64 a b = max (- (2 ^ 63)) (min (2 ^ 63 - 1) (a - b))"

definition renew_every :: "duration \<Rightarrow> duration" where
  "renew_every lease = max (lease div 3) (secs 1)"

text \<open>The calls and their answers.\<close>

datatype claim_op =
    Admit tree_key job_id str int int int
  | Renew drive_lease int int
  | ClaimStep drive_lease step_id int
  | ReleaseStep drive_lease step_id
  | Settle drive_lease verdict int
  | Destinations job_id
  | Forget job_id

datatype claim_out =
    OutAdmit "claim_error + admitted"
  | OutRenew "claim_error + bool"
  | OutStep "claim_error + step_claim"
  | OutUnit "claim_error + unit"
  | OutUrls "claim_error + str list"

section \<open>LocalClaims\<close>

record local_claim =
  lc_key :: tree_key
  lc_callback_urls :: "str list"
  lc_verdict :: "verdict option"
  lc_settled_at_ms :: "int option"
  lc_steps :: "step_id list"

record local_state =
  ls_by_key :: "(tree_key \<times> job_id) list"
  ls_claims :: "(job_id \<times> local_claim) list"

definition local_new :: local_state where
  "local_new = \<lparr>ls_by_key = [], ls_claims = []\<rparr>"

definition LOCAL_OWNER :: str where "LOCAL_OWNER = lit ''local''"
definition NO_CLAIM :: str where "NO_CLAIM = lit ''(no claim)''"

definition local_stale :: "local_state \<Rightarrow> tree_key \<Rightarrow> int \<Rightarrow> int \<Rightarrow> bool" where
  "local_stale st key now_ms settled_retention_ms =
     (case Option.bind (Option.bind (map_of (ls_by_key st) key) (map_of (ls_claims st))) lc_settled_at_ms of
        Some t \<Rightarrow> sat_sub_i64 now_ms t \<ge> settled_retention_ms
      | None \<Rightarrow> False)"

definition local_drop_stale :: "local_state \<Rightarrow> tree_key \<Rightarrow> int \<Rightarrow> int \<Rightarrow> local_state" where
  "local_drop_stale st key now_ms settled_retention_ms =
     (if local_stale st key now_ms settled_retention_ms
      then (case map_of (ls_by_key st) key of
          Some j \<Rightarrow> st\<lparr>ls_by_key := AList.delete key (ls_by_key st), ls_claims := AList.delete j (ls_claims st)\<rparr>
        | None \<Rightarrow> st)
      else st)"

definition push_url :: "str \<Rightarrow> local_claim \<Rightarrow> local_claim" where
  "push_url url c =
     (if url \<in> set (lc_callback_urls c) then c
      else c\<lparr>lc_callback_urls := lc_callback_urls c @ [url]\<rparr>)"

definition local_insert :: "local_state \<Rightarrow> tree_key \<Rightarrow> job_id \<Rightarrow> str \<Rightarrow> local_state \<times> admitted" where
  "local_insert st key proposed_job_id callback_url =
     (st\<lparr>ls_by_key := AList.update key proposed_job_id (ls_by_key st),
         ls_claims := AList.update proposed_job_id
           \<lparr>lc_key = key, lc_callback_urls = [callback_url], lc_verdict = None, lc_settled_at_ms = None,
            lc_steps = []\<rparr> (ls_claims st)\<rparr>,
      Created \<lparr>dl_job_id = proposed_job_id, dl_owner = LOCAL_OWNER, dl_fence = 0\<rparr>)"

definition local_admit :: "local_state \<Rightarrow> tree_key \<Rightarrow> job_id \<Rightarrow> str \<Rightarrow> int \<Rightarrow> int \<Rightarrow> int \<Rightarrow>
    local_state \<times> (claim_error + admitted)" where
  "local_admit st key proposed_job_id callback_url now_ms lease_ms settled_retention_ms =
     (let st1 = local_drop_stale st key now_ms settled_retention_ms
      in case map_of (ls_by_key st1) key of
           Some existing \<Rightarrow>
             (case map_of (ls_claims st1) existing of
                Some claim \<Rightarrow>
                  (st1\<lparr>ls_claims := hm_modify existing (push_url callback_url) (ls_claims st1)\<rparr>,
                   Inr (Attached existing LOCAL_OWNER (lc_verdict claim)))
              | None \<Rightarrow>
                  let (st2, a) = local_insert (st1\<lparr>ls_by_key := AList.delete key (ls_by_key st1)\<rparr>) key proposed_job_id callback_url
                  in (st2, Inr a))
         | None \<Rightarrow> let (st2, a) = local_insert st1 key proposed_job_id callback_url in (st2, Inr a))"

definition local_renew :: "local_state \<Rightarrow> drive_lease \<Rightarrow> int \<Rightarrow> int \<Rightarrow> claim_error + bool" where
  "local_renew st lease now_ms lease_ms = Inr (map_of (ls_claims st) (dl_job_id lease) \<noteq> None)"

definition local_claim_step :: "local_state \<Rightarrow> drive_lease \<Rightarrow> step_id \<Rightarrow> int \<Rightarrow>
    local_state \<times> (claim_error + step_claim)" where
  "local_claim_step st lease step_id now_ms =
     (case map_of (ls_claims st) (dl_job_id lease) of
        None \<Rightarrow> (st, Inr (Fenced NO_CLAIM))
      | Some claim \<Rightarrow>
          if step_id \<in> set (lc_steps claim) then (st, Inr (Taken LOCAL_OWNER))
          else (st\<lparr>ls_claims := hm_modify (dl_job_id lease) (\<lambda>c. c\<lparr>lc_steps := step_id # lc_steps c\<rparr>) (ls_claims st)\<rparr>,
                Inr Granted))"

definition local_release_step :: "local_state \<Rightarrow> drive_lease \<Rightarrow> step_id \<Rightarrow> local_state" where
  "local_release_step st lease step_id =
     st\<lparr>ls_claims := hm_modify (dl_job_id lease)
       (\<lambda>c. c\<lparr>lc_steps := filter (\<lambda>s. s \<noteq> step_id) (lc_steps c)\<rparr>) (ls_claims st)\<rparr>"

definition local_settle :: "local_state \<Rightarrow> drive_lease \<Rightarrow> verdict \<Rightarrow> int \<Rightarrow> local_state" where
  "local_settle st lease v now_ms =
     st\<lparr>ls_claims := hm_modify (dl_job_id lease)
       (\<lambda>c. c\<lparr>lc_verdict := Some v, lc_settled_at_ms := Some now_ms\<rparr>) (ls_claims st)\<rparr>"

definition local_destinations :: "local_state \<Rightarrow> job_id \<Rightarrow> claim_error + str list" where
  "local_destinations st j =
     Inr (case map_of (ls_claims st) j of Some c \<Rightarrow> lc_callback_urls c | None \<Rightarrow> [])"

definition local_forget :: "local_state \<Rightarrow> job_id \<Rightarrow> local_state" where
  "local_forget st j =
     (case map_of (ls_claims st) j of
        None \<Rightarrow> st
      | Some claim \<Rightarrow>
          let st1 = st\<lparr>ls_claims := AList.delete j (ls_claims st)\<rparr>
          in if map_of (ls_by_key st1) (lc_key claim) = Some j
             then st1\<lparr>ls_by_key := AList.delete (lc_key claim) (ls_by_key st1)\<rparr>
             else st1)"

fun local_apply :: "claim_op \<Rightarrow> local_state \<Rightarrow> local_state \<times> claim_out" where
  "local_apply (Admit key j url now_ms lease_ms ret) st =
     (let (st', r) = local_admit st key j url now_ms lease_ms ret in (st', OutAdmit r))"
| "local_apply (Renew l now_ms lease_ms) st = (st, OutRenew (local_renew st l now_ms lease_ms))"
| "local_apply (ClaimStep l s now_ms) st = (let (st', r) = local_claim_step st l s now_ms in (st', OutStep r))"
| "local_apply (ReleaseStep l s) st = (local_release_step st l s, OutUnit (Inr ()))"
| "local_apply (Settle l v now_ms) st = (local_settle st l v now_ms, OutUnit (Inr ()))"
| "local_apply (Destinations j) st = (st, OutUrls (local_destinations st j))"
| "local_apply (Forget j) st = (local_forget st j, OutUnit (Inr ()))"

section \<open>The contract\<close>

text \<open>Calls that end a job's claim or a step's: after them the guarantees below no longer speak of it.\<close>

fun ends_claim :: "job_id \<Rightarrow> claim_op \<Rightarrow> bool" where
  "ends_claim j (Settle l _ _) \<longleftrightarrow> dl_job_id l = j"
| "ends_claim j (Forget j') \<longleftrightarrow> j' = j"
| "ends_claim j (Admit _ j' _ _ _ _) \<longleftrightarrow> j' = j"
| "ends_claim j _ \<longleftrightarrow> False"

fun releases :: "job_id \<Rightarrow> step_id \<Rightarrow> claim_op \<Rightarrow> bool" where
  "releases j s (ReleaseStep l s') \<longleftrightarrow> dl_job_id l = j \<and> s' = s"
| "releases j s _ \<longleftrightarrow> False"

text \<open>What a call answered about the tree \<open>k\<close> driven by \<open>j\<close>, and about the step \<open>s\<close> of \<open>j\<close>.\<close>

fun attaches :: "tree_key \<Rightarrow> job_id \<Rightarrow> claim_op \<Rightarrow> claim_out \<Rightarrow> bool" where
  "attaches k j (Admit k' _ _ _ _ _) out \<longleftrightarrow>
     k' \<noteq> k \<or> (case out of OutAdmit (Inr a) \<Rightarrow> is_duplicate a \<and> admitted_job_id a = j | OutAdmit (Inl _) \<Rightarrow> True | _ \<Rightarrow> False)"
| "attaches k j _ out \<longleftrightarrow> True"

fun not_granted :: "job_id \<Rightarrow> step_id \<Rightarrow> claim_op \<Rightarrow> claim_out \<Rightarrow> bool" where
  "not_granted j s (ClaimStep l s' _) out \<longleftrightarrow> \<not> (dl_job_id l = j \<and> s' = s \<and> out = OutStep (Inr Granted))"
| "not_granted j s _ out \<longleftrightarrow> True"

fun url_of :: "tree_key \<Rightarrow> claim_op \<Rightarrow> claim_out \<Rightarrow> str set" where
  "url_of k (Admit k' _ url _ _ _) (OutAdmit (Inr a)) = (if k' = k then {url} else {})"
| "url_of k _ _ = {}"

lemma url_of_other: "k' \<noteq> k \<Longrightarrow> url_of k (Admit k' j url n l r) out = {}"
  by (cases "(k, Admit k' j url n l r, out)" rule: url_of.cases) auto

locale job_claims =
  fixes app :: "claim_op \<Rightarrow> 's \<Rightarrow> 's \<times> claim_out"
    and drives :: "'s \<Rightarrow> tree_key \<Rightarrow> job_id \<Rightarrow> bool"
    and taken :: "'s \<Rightarrow> job_id \<Rightarrow> step_id \<Rightarrow> bool"
    and urls :: "'s \<Rightarrow> job_id \<Rightarrow> str set"
  assumes created: "app (Admit k j url n l r) s = (s', OutAdmit (Inr (Created d))) \<Longrightarrow>
      dl_job_id d = j \<and> drives s' k j \<and> url \<in> urls s' j"
    and granted: "app (ClaimStep d st n) s = (s', OutStep (Inr Granted)) \<Longrightarrow> taken s' (dl_job_id d) st"
    and drives_kept: "drives s k j \<Longrightarrow> \<not> ends_claim j op \<Longrightarrow> app op s = (s', out) \<Longrightarrow>
      drives s' k j \<and> urls s j \<union> url_of k op out \<subseteq> urls s' j"
    and taken_kept: "drives s k j \<Longrightarrow> taken s j st \<Longrightarrow> \<not> ends_claim j op \<Longrightarrow> \<not> releases j st op \<Longrightarrow>
      app op s = (s', out) \<Longrightarrow> taken s' j st"
    and admit_driven: "drives s k j \<Longrightarrow> \<not> ends_claim j op \<Longrightarrow> app op s = (s', out) \<Longrightarrow> attaches k j op out"
    and claim_taken: "taken s j st \<Longrightarrow> app op s = (s', out) \<Longrightarrow> not_granted j st op out"
begin

lemma drives_run:
  "drives s k j \<Longrightarrow> \<forall>op\<in>set ops. \<not> ends_claim j op \<Longrightarrow>
     drives (fst (run app ops s)) k j \<and> urls s j \<subseteq> urls (fst (run app ops s)) j"
proof (induction ops arbitrary: s)
  case (Cons op ops)
  obtain s1 out where a: "app op s = (s1, out)" by (cases "app op s")
  from drives_kept [OF Cons.prems(1) _ a] Cons.prems(2) Cons.IH [of s1] a show ?case
    by (auto simp: Let_def split: prod.splits)
qed simp

lemma single_driver:
  assumes "drives s k j" and "\<forall>op\<in>set ops. \<not> ends_claim j op"
  shows "list_all2 (attaches k j) ops (snd (run app ops s))"
proof (rule run_answers [where P = "\<lambda>s. drives s k j"])
  fix op s assume "op \<in> set ops" and d: "drives s k j"
  then have ne: "\<not> ends_claim j op" using assms(2) by blast
  obtain s1 out where a: "app op s = (s1, out)" by (cases "app op s")
  from drives_kept [OF d ne a] admit_driven [OF d ne a] a
  show "drives (fst (app op s)) k j \<and> attaches k j op (snd (app op s))" by simp
qed fact

lemma attached_urls_kept:
  "drives s k j \<Longrightarrow> \<forall>op\<in>set ops. \<not> ends_claim j op \<Longrightarrow>
     (\<Union>(op, out)\<in>set (zip ops (snd (run app ops s))). url_of k op out) \<subseteq> urls (fst (run app ops s)) j"
proof (induction ops arbitrary: s)
  case (Cons op ops)
  obtain s1 out where a: "app op s = (s1, out)" by (cases "app op s")
  obtain s2 outs where r: "run app ops s1 = (s2, outs)" by (cases "run app ops s1")
  from Cons.prems have ne: "\<not> ends_claim j op" "\<forall>op\<in>set ops. \<not> ends_claim j op" by auto
  note k = drives_kept [OF Cons.prems(1) ne(1) a]
  from k Cons.IH [of s1] drives_run [of s1 k j ops] ne(2) r
  have "url_of k op out \<subseteq> urls s2 j" "(\<Union>(op, out)\<in>set (zip ops outs). url_of k op out) \<subseteq> urls s2 j" by auto
  with a r show ?case by auto
qed simp

lemma granted_once:
  assumes "drives s k j" and "taken s j st"
    and "\<forall>op\<in>set ops. \<not> ends_claim j op \<and> \<not> releases j st op"
  shows "list_all2 (not_granted j st) ops (snd (run app ops s))"
proof (rule run_answers [where P = "\<lambda>s. drives s k j \<and> taken s j st"])
  fix op s assume "op \<in> set ops" and d: "drives s k j \<and> taken s j st"
  then have ne: "\<not> ends_claim j op" "\<not> releases j st op" using assms(3) by auto
  obtain s1 out where a: "app op s = (s1, out)" by (cases "app op s")
  from d have dk: "drives s k j" and tk: "taken s j st" by auto
  from drives_kept [OF dk ne(1) a] taken_kept [OF dk tk ne a] claim_taken [OF tk a] a
  show "(drives (fst (app op s)) k j \<and> taken (fst (app op s)) j st) \<and> not_granted j st op (snd (app op s))" by simp
qed (use assms in simp)

end

section \<open>LocalClaims meets it\<close>

definition local_drives :: "local_state \<Rightarrow> tree_key \<Rightarrow> job_id \<Rightarrow> bool" where
  "local_drives st k j \<longleftrightarrow>
     map_of (ls_by_key st) k = Some j \<and>
     (case map_of (ls_claims st) j of Some c \<Rightarrow> lc_settled_at_ms c = None | None \<Rightarrow> False)"

definition local_taken :: "local_state \<Rightarrow> job_id \<Rightarrow> step_id \<Rightarrow> bool" where
  "local_taken st j s \<longleftrightarrow> (case map_of (ls_claims st) j of Some c \<Rightarrow> s \<in> set (lc_steps c) | None \<Rightarrow> False)"

definition local_urls :: "local_state \<Rightarrow> job_id \<Rightarrow> str set" where
  "local_urls st j = (case map_of (ls_claims st) j of Some c \<Rightarrow> set (lc_callback_urls c) | None \<Rightarrow> {})"

lemmas local_views = local_drives_def local_taken_def local_urls_def

lemma push_url_simps [simp]:
  "set (lc_callback_urls (push_url u c)) = insert u (set (lc_callback_urls c))"
  "lc_steps (push_url u c) = lc_steps c" "lc_settled_at_ms (push_url u c) = lc_settled_at_ms c"
  "lc_verdict (push_url u c) = lc_verdict c"
  by (auto simp: push_url_def)

text \<open>Dropping a stale claim touches no claim that has not settled.\<close>

lemma local_drop_stale_keeps:
  assumes "local_drives st k j"
  shows "map_of (ls_by_key (local_drop_stale st k' n r)) k = Some j"
    and "map_of (ls_claims (local_drop_stale st k' n r)) j = map_of (ls_claims st) j"
proof -
  have "map_of (ls_by_key st) k' \<noteq> Some j" if "local_stale st k' n r"
    using assms that by (auto simp: local_drives_def local_stale_def split: option.splits Option.bind_splits)
  with assms show "map_of (ls_by_key (local_drop_stale st k' n r)) k = Some j"
    and "map_of (ls_claims (local_drop_stale st k' n r)) j = map_of (ls_claims st) j"
    by (auto simp: local_drop_stale_def local_drives_def split: option.splits)
qed

lemma local_admit_same:
  assumes "local_drives st k j" and "local_admit st k p url n l r = (st', out)"
  shows "map_of (ls_by_key st') k = Some j"
    and "\<exists>c c'. map_of (ls_claims st) j = Some c \<and> map_of (ls_claims st') j = Some c' \<and>
      lc_settled_at_ms c' = None \<and> lc_steps c' = lc_steps c \<and>
      set (lc_callback_urls c') = insert url (set (lc_callback_urls c)) \<and>
      out = Inr (Attached j LOCAL_OWNER (lc_verdict c))"
proof -
  from assms(1) obtain c where c: "map_of (ls_claims st) j = Some c" "lc_settled_at_ms c = None"
    by (auto simp: local_drives_def split: option.splits)
  note k = local_drop_stale_keeps [OF assms(1), of k n r]
  have "local_admit st k p url n l r =
      ((local_drop_stale st k n r)\<lparr>ls_claims := hm_modify j (push_url url) (ls_claims (local_drop_stale st k n r))\<rparr>,
       Inr (Attached j LOCAL_OWNER (lc_verdict c)))"
    using k c by (simp add: local_admit_def Let_def)
  with assms(2) k c show "map_of (ls_by_key st') k = Some j"
    and "\<exists>c c'. map_of (ls_claims st) j = Some c \<and> map_of (ls_claims st') j = Some c' \<and>
      lc_settled_at_ms c' = None \<and> lc_steps c' = lc_steps c \<and>
      set (lc_callback_urls c') = insert url (set (lc_callback_urls c)) \<and>
      out = Inr (Attached j LOCAL_OWNER (lc_verdict c))" by auto
qed

lemma local_admit_other:
  assumes "local_drives st k j" and "k' \<noteq> k" and "p \<noteq> j" and "local_admit st k' p url n l r = (st', out)"
  shows "map_of (ls_by_key st') k = Some j"
    and "\<exists>c c'. map_of (ls_claims st) j = Some c \<and> map_of (ls_claims st') j = Some c' \<and>
      lc_settled_at_ms c' = None \<and> lc_steps c' = lc_steps c \<and> set (lc_callback_urls c) \<subseteq> set (lc_callback_urls c')"
  using assms(2-4) local_drop_stale_keeps [OF assms(1), of k' n r] assms(1)
  by (auto simp: local_admit_def local_insert_def local_drives_def Let_def split: option.splits if_splits prod.splits)

interpretation lc: job_claims local_apply local_drives local_taken local_urls
proof
  show "dl_job_id d = j \<and> local_drives s' k j \<and> url \<in> local_urls s' j"
    if "local_apply (Admit k j url n l r) s = (s', OutAdmit (Inr (Created d)))" for k j url n l r s s' d
    using that by (auto simp: local_admit_def local_insert_def local_views Let_def split: option.splits prod.splits)
  show "local_taken s' (dl_job_id d) st"
    if "local_apply (ClaimStep d st n) s = (s', OutStep (Inr Granted))" for d st n s s'
    using that by (auto simp: local_claim_step_def local_views split: option.splits if_splits)
  show "local_drives s' k j \<and> local_urls s j \<union> url_of k op out \<subseteq> local_urls s' j"
    if d: "local_drives s k j" and ne: "\<not> ends_claim j op" and app: "local_apply op s = (s', out)" for s k j op s' out
  proof (cases op)
    case (Admit k' p url n l r)
    show ?thesis
    proof (cases "k' = k")
      case True
      from local_admit_same [OF d, of p url n l r] app Admit True
      show ?thesis by (auto simp: local_views split: prod.splits)
    next
      case False
      from local_admit_other [OF d False, of p url n l r] app ne Admit False
      show ?thesis by (auto simp: local_views url_of_other split: prod.splits)
    qed
  qed (use d ne app in \<open>auto simp: local_views local_claim_step_def local_release_step_def local_settle_def
      local_forget_def Let_def split: option.splits if_splits prod.splits\<close>)
  show "local_taken s' j st"
    if d: "local_drives s k j" and t: "local_taken s j st" and ne: "\<not> ends_claim j op" "\<not> releases j st op"
      and app: "local_apply op s = (s', out)" for s k j st op s' out
  proof (cases op)
    case (Admit k' p url n l r)
    show ?thesis
    proof (cases "k' = k")
      case True
      from local_admit_same [OF d, of p url n l r] app Admit True t
      show ?thesis by (auto simp: local_views split: prod.splits)
    next
      case False
      from local_admit_other [OF d False, of p url n l r] app ne Admit False t
      show ?thesis by (auto simp: local_views split: prod.splits)
    qed
  qed (use d t ne app in \<open>auto simp: local_views local_claim_step_def local_release_step_def local_settle_def
      local_forget_def Let_def split: option.splits if_splits prod.splits\<close>)
  show "attaches k j op out"
    if d: "local_drives s k j" and "\<not> ends_claim j op" and app: "local_apply op s = (s', out)" for s k j op s' out
  proof (cases op)
    case (Admit k' p url n l r)
    with local_admit_same [OF d, of p url n l r] app show ?thesis by (auto split: prod.splits)
  qed auto
  show "not_granted j st op out" if "local_taken s j st" and "local_apply op s = (s', out)" for s j st op s' out
    using that by (cases op) (auto simp: local_claim_step_def local_views split: option.splits)
qed

section \<open>Properties\<close>

text \<open>C30. One tree, one driver, every dispatcher answered. Once a dispatch of \<open>(repo, tree_id)\<close> has been
  admitted as new work under the id \<open>j\<close>, then along every later sequence of claim calls, until \<open>j\<close>
  settles or is forgotten (and as long as its id is not proposed again), every further admission of
  the tree attaches to \<open>j\<close>, and the callback URL of each is among the destinations at the end.\<close>

theorem claims_single_driver:
  assumes "local_apply (Admit k j url n l r) s = (s', OutAdmit (Inr (Created d)))"
    and "\<forall>op\<in>set ops. \<not> ends_claim j op"
  shows "list_all2 (attaches k j) ops (snd (run local_apply ops s')) \<and>
    insert url (\<Union>(op, out)\<in>set (zip ops (snd (run local_apply ops s'))). url_of k op out)
      \<subseteq> local_urls (fst (run local_apply ops s')) j"
proof -
  from lc.created [OF assms(1)] have "local_drives s' k j" "url \<in> local_urls s' j" by auto
  with lc.single_driver [OF _ assms(2), of s' k] lc.attached_urls_kept [OF _ assms(2), of s' k]
    lc.drives_run [OF _ assms(2), of s' k] show ?thesis by blast
qed

definition example_key :: tree_key where "example_key = ([7], [8])"

lemma example_created:
  "local_apply (Admit example_key [3] [65] 0 60 1000) local_new =
     (\<lparr>ls_by_key = [(example_key, [3])], ls_claims = [([3], \<lparr>lc_key = example_key, lc_callback_urls = [[65]],
        lc_verdict = None, lc_settled_at_ms = None, lc_steps = []\<rparr>)]\<rparr>,
      OutAdmit (Inr (Created \<lparr>dl_job_id = [3], dl_owner = LOCAL_OWNER, dl_fence = 0\<rparr>)))"
  by (simp add: local_admit_def local_drop_stale_def local_stale_def local_insert_def local_new_def)

theorem claims_single_driver_witness:
  "{[65], [66]} \<subseteq> local_urls (fst (run local_apply [Admit example_key [2] [66] 5 60 1000]
     (fst (local_apply (Admit example_key [3] [65] 0 60 1000) local_new)))) [3]"
  using claims_single_driver [OF example_created, of "[Admit example_key [2] [66] 5 60 1000]"]
  unfolding example_created
  by (simp add: local_admit_def local_drop_stale_def local_stale_def)

text \<open>A step is handed to the fleet at most once. Once a driver has been granted a step, no later
  sequence of claim calls grants it again unless the step was released (the fleet had no room for it)
  or the claim itself ended.\<close>

theorem claims_step_granted_once:
  assumes "local_drives s k (dl_job_id d)"
    and "local_apply (ClaimStep d st n) s = (s', OutStep (Inr Granted))"
    and "\<forall>op\<in>set ops. \<not> ends_claim (dl_job_id d) op \<and> \<not> releases (dl_job_id d) st op"
  shows "list_all2 (not_granted (dl_job_id d) st) ops (snd (run local_apply ops s'))"
proof -
  have "local_drives s' k (dl_job_id d)" using lc.drives_kept [OF assms(1) _ assms(2)] by simp
  from lc.granted_once [OF this lc.granted [OF assms(2)] assms(3)] show ?thesis .
qed

theorem claims_step_granted_once_witness:
  "snd (run local_apply [ClaimStep \<lparr>dl_job_id = [3], dl_owner = LOCAL_OWNER, dl_fence = 0\<rparr> [9] 6]
     (fst (local_apply (ClaimStep \<lparr>dl_job_id = [3], dl_owner = LOCAL_OWNER, dl_fence = 0\<rparr> [9] 5)
       (fst (local_apply (Admit example_key [3] [65] 0 60 1000) local_new))))) \<noteq> [OutStep (Inr Granted)]"
proof -
  let ?l = "\<lparr>dl_job_id = [3], dl_owner = LOCAL_OWNER, dl_fence = 0\<rparr> :: drive_lease"
  let ?s = "fst (local_apply (Admit example_key [3] [65] 0 60 1000) local_new)"
  have d: "local_drives ?s example_key (dl_job_id ?l)" unfolding example_created by (simp add: local_drives_def)
  have g: "local_apply (ClaimStep ?l [9] 5) ?s = (fst (local_apply (ClaimStep ?l [9] 5) ?s), OutStep (Inr Granted))"
    unfolding example_created by (simp add: local_claim_step_def)
  from claims_step_granted_once [OF d g, of "[ClaimStep ?l [9] 6]"] show ?thesis by (auto simp: list_all2_Cons2)
qed

end
