(* ===== verification/Ci_Memo.thy ===== *)
theory Ci_Memo
  imports Ci_Model "HOL-Library.Product_Lexorder"
begin

text \<open>
  The step memo (\<open>src/crates/hull-ci-control/src/memo.rs\<close>): the derivation of a step's key, the
  in-process store with its expiry and eviction, and the contract of the \<open>StepMemo\<close> trait as a locale.

  The hash (the \<open>blake3\<close> crate) is a parameter, a function from bytes to bytes. The subtree digester is
  a seam of the code itself and is a field of \<open>memo_config\<close>. Bytes are numbers below 256; \<open>as_bytes\<close>
  is UTF-8, written out.
\<close>

declare map_of_eq_Some_iff [simp del] Some_eq_map_of_iff [simp del]

section \<open>The seam and the configuration\<close>

record verified_tree =
  vt_tree_id :: str
  vt_path :: str
  vt_cached :: bool

record input_digest =
  id_digest :: str
  id_selected :: nat

datatype digest_error = DigestUnwired | DigestFailed str str

definition digest_error_to_string :: "digest_error \<Rightarrow> str" where
  "digest_error_to_string e =
     (case e of
        DigestUnwired \<Rightarrow> lit ''no subtree digester is wired into this control plane''
      | DigestFailed glob detail \<Rightarrow>
          lit ''`'' @ glob @ lit ''` could not be resolved against the tree: '' @ detail)"

record memo_config =
  mc_digest :: "str \<Rightarrow> verified_tree \<Rightarrow> str \<Rightarrow> digest_error + input_digest"
  mc_available :: bool
  mc_pipeline_version :: str

definition no_digest :: "str \<Rightarrow> verified_tree \<Rightarrow> str \<Rightarrow> digest_error + input_digest" where
  "no_digest name tree glob = Inl DigestUnwired"

definition memo_config_default :: memo_config where
  "memo_config_default =
     \<lparr>mc_digest = no_digest, mc_available = False, mc_pipeline_version = lit ''hull-ci/0''\<rparr>"

definition memo_enabled :: "memo_config \<Rightarrow> bool" where
  "memo_enabled memo = mc_available memo"

section \<open>The store\<close>

datatype memo_outcome = MemoPassed | MemoFailed

fun memo_from_state :: "step_state \<Rightarrow> memo_outcome option" where
  "memo_from_state SPassed = Some MemoPassed"
| "memo_from_state SFailed = Some MemoFailed"
| "memo_from_state SErrored = None"
| "memo_from_state SCached = None"
| "memo_from_state SSkipped = None"
| "memo_from_state SPending = None"
| "memo_from_state SReady = None"
| "memo_from_state SLeased = None"
| "memo_from_state SRunning = None"

fun memo_outcome_as_str :: "memo_outcome \<Rightarrow> str" where
  "memo_outcome_as_str MemoPassed = lit ''passed''"
| "memo_outcome_as_str MemoFailed = lit ''failed''"

record memo_policy =
  mp_passed_ttl :: duration
  mp_failed_ttl :: duration
  mp_capacity :: nat

definition memo_policy_default :: memo_policy where
  "memo_policy_default = \<lparr>mp_passed_ttl = secs (7 * 24 * 60 * 60), mp_failed_ttl = secs (10 * 60), mp_capacity = 100000\<rparr>"

record memo_entry =
  me_outcome :: memo_outcome
  me_expires_at :: instant
  me_seq :: nat

type_synonym memo_key = "str \<times> step_key"

record step_memo_store =
  ms_policy :: memo_policy
  ms_entries :: "(memo_key \<times> memo_entry) list"
  ms_next_seq :: nat

definition memo_new :: "memo_policy \<Rightarrow> step_memo_store" where
  "memo_new policy = \<lparr>ms_policy = policy, ms_entries = [], ms_next_seq = 0\<rparr>"

definition memo_lookup :: "step_memo_store \<Rightarrow> str \<Rightarrow> step_key \<Rightarrow> instant \<Rightarrow> step_memo_store \<times> memo_outcome option" where
  "memo_lookup ms name key now =
     (case map_of (ms_entries ms) (name, key) of
        None \<Rightarrow> (ms, None)
      | Some entry \<Rightarrow>
          if now \<ge> me_expires_at entry
          then (ms\<lparr>ms_entries := AList.delete (name, key) (ms_entries ms)\<rparr>, None)
          else (ms, Some (me_outcome entry)))"

text \<open>How many entries each tenant holds, in the order the map is walked.\<close>

fun held_counts :: "(memo_key \<times> memo_entry) list \<Rightarrow> (str \<times> nat) list \<Rightarrow> (str \<times> nat) list" where
  "held_counts [] held = held"
| "held_counts (((name, k), e) # entries) held =
     held_counts entries
       (AList.update name (Suc (case map_of held name of Some n \<Rightarrow> n | None \<Rightarrow> 0)) held)"

text \<open>The comparison of \<open>max_by\<close>: more entries, then the writer, then the smaller name.\<close>

definition holder_less :: "str \<Rightarrow> str \<times> nat \<Rightarrow> str \<times> nat \<Rightarrow> bool" where
  "holder_less recording a b \<longleftrightarrow>
     snd a < snd b \<or>
     snd a = snd b \<and> ((fst a = recording) < (fst b = recording) \<or>
       (fst a = recording) = (fst b = recording) \<and> fst b < fst a)"

fun max_holder :: "str \<Rightarrow> (str \<times> nat) list \<Rightarrow> (str \<times> nat) option \<Rightarrow> (str \<times> nat) option" where
  "max_holder recording [] best = best"
| "max_holder recording (x # xs) best =
     max_holder recording xs
       (case best of None \<Rightarrow> Some x | Some b \<Rightarrow> if holder_less recording x b then Some b else Some x)"

fun min_seq :: "(memo_key \<times> memo_entry) list \<Rightarrow> (memo_key \<times> memo_entry) option \<Rightarrow> (memo_key \<times> memo_entry) option" where
  "min_seq [] best = best"
| "min_seq (x # xs) best =
     min_seq xs (case best of None \<Rightarrow> Some x | Some b \<Rightarrow> if me_seq (snd x) < me_seq (snd b) then Some x else Some b)"

definition evictee :: "(memo_key \<times> memo_entry) list \<Rightarrow> str \<Rightarrow> memo_key option" where
  "evictee entries recording =
     (case max_holder recording (held_counts entries []) None of
        None \<Rightarrow> None
      | Some (fullest, _) \<Rightarrow>
          map_option fst (min_seq (filter (\<lambda>((name, k), e). name = fullest) entries) None))"

definition memo_ttl :: "memo_policy \<Rightarrow> memo_outcome \<Rightarrow> duration" where
  "memo_ttl policy outcome =
     (case outcome of MemoPassed \<Rightarrow> mp_passed_ttl policy | MemoFailed \<Rightarrow> mp_failed_ttl policy)"

definition memo_record :: "step_memo_store \<Rightarrow> str \<Rightarrow> step_key \<Rightarrow> memo_outcome \<Rightarrow> instant \<Rightarrow> step_memo_store" where
  "memo_record ms name key outcome now =
     (let ttl = memo_ttl (ms_policy ms) outcome;
          seq_no = ms_next_seq ms;
          entries =
            (if length (ms_entries ms) \<ge> mp_capacity (ms_policy ms)
             then (case evictee (ms_entries ms) name of
                 Some victim \<Rightarrow> AList.delete victim (ms_entries ms)
               | None \<Rightarrow> ms_entries ms)
             else ms_entries ms)
      in ms\<lparr>ms_next_seq := (seq_no + 1) mod 2 ^ 64,
           ms_entries := AList.update (name, key)
             \<lparr>me_outcome = outcome, me_expires_at = now + ttl, me_seq = seq_no\<rparr> entries\<rparr>)"

section \<open>Keys\<close>

datatype not_cacheable =
    NoInputs
  | InputsSelectedNothing
  | DigestUnavailable str
  | DependencyNotCacheable str
  | UndeclaredDependency str

record job_key_context =
  kc_tenant :: str
  kc_tier :: isolation_tier
  kc_author_class :: author_class

type_synonym key_result = "not_cacheable + step_key"
type_synonym bytes = "nat list"

definition STEP_KEY_DOMAIN :: bytes where "STEP_KEY_DOMAIN = lit ''hull-ci/step-key/v1''"

definition utf8_char :: "nat \<Rightarrow> bytes" where
  "utf8_char c =
     (if c < 0x80 then [c]
      else if c < 0x800 then [0xC0 + c div 64, 0x80 + c mod 64]
      else if c < 0x10000 then [0xE0 + c div 4096, 0x80 + c div 64 mod 64, 0x80 + c mod 64]
      else [0xF0 + c div 262144, 0x80 + c div 4096 mod 64, 0x80 + c div 64 mod 64, 0x80 + c mod 64])"

definition utf8 :: "str \<Rightarrow> bytes" where
  "utf8 s = concat (map utf8_char s)"

definition le_bytes :: "nat \<Rightarrow> bytes" where
  "le_bytes n = map (\<lambda>i. n div 256 ^ i mod 256) [0..<8]"

definition lp :: "bytes \<Rightarrow> bytes" where
  "lp bs = le_bytes (length bs) @ bs"

definition field :: "nat \<Rightarrow> bytes \<Rightarrow> bytes" where
  "field tag bs = tag # lp bs"

definition seq_field :: "nat \<Rightarrow> bytes list \<Rightarrow> bytes" where
  "seq_field tag items = tag # le_bytes (length items) @ concat (map lp items)"

definition set_field :: "nat \<Rightarrow> str list \<Rightarrow> bytes" where
  "set_field tag items = seq_field tag (map utf8 (remdups_adj (sort items)))"

fun tier_tag :: "isolation_tier \<Rightarrow> nat" where
  "tier_tag MicroVm = 1"
| "tier_tag Container = 2"

fun author_tag :: "author_class \<Rightarrow> nat" where
  "author_tag Member = 1"
| "author_tag Outsider = 2"

definition hex_digit :: "nat \<Rightarrow> nat" where
  "hex_digit n = lit ''0123456789abcdef'' ! n"

definition hex :: "bytes \<Rightarrow> str" where
  "hex bs = concat (map (\<lambda>b. [hex_digit (b div 16), hex_digit (b mod 16)]) bs)"

definition pair_fields :: "nat \<Rightarrow> (str \<times> str) list \<Rightarrow> bytes" where
  "pair_fields tag ps = tag # le_bytes (length ps) @ concat (map (\<lambda>(a, b). lp (utf8 a) @ lp (utf8 b)) ps)"

definition timeout_code :: "duration option \<Rightarrow> nat" where
  "timeout_code t = (case t of None \<Rightarrow> 2 ^ 64 - 1 | Some d \<Rightarrow> as_secs d)"

definition key_preimage :: "memo_config \<Rightarrow> job_key_context \<Rightarrow> step_spec \<Rightarrow> (str \<times> str) list \<Rightarrow> step_key list \<Rightarrow> bytes" where
  "key_preimage memo ctx spec digests dependency_keys =
     STEP_KEY_DOMAIN @
     field 0x01 (utf8 (kc_tenant ctx)) @
     field 0x02 (utf8 (mc_pipeline_version memo)) @
     field 0x03 [tier_tag (kc_tier ctx)] @
     field 0x04 [author_tag (kc_author_class ctx)] @
     field 0x10 (utf8 (sp_name spec)) @
     field 0x11 (utf8 (sp_image spec)) @
     seq_field 0x12 (map utf8 (sp_argv spec)) @
     field 0x13 (le_bytes (timeout_code (sp_timeout spec))) @
     field 0x14 [if sp_continue_on_error spec then 1 else 0] @
     set_field 0x15 (sp_secrets spec) @
     pair_fields 0x20 digests @
     pair_fields 0x21 (remdups_adj (sort (sp_env_allowlist spec))) @
     set_field 0x30 dependency_keys"

fun resolve_globs :: "memo_config \<Rightarrow> str \<Rightarrow> verified_tree \<Rightarrow> str list \<Rightarrow> not_cacheable + (str \<times> str) list \<times> bool" where
  "resolve_globs memo name tree [] = Inr ([], False)"
| "resolve_globs memo name tree (glob # globs) =
     (case mc_digest memo name tree glob of
        Inl e \<Rightarrow> Inl (DigestUnavailable (digest_error_to_string e))
      | Inr d \<Rightarrow>
          (case resolve_globs memo name tree globs of
             Inl e \<Rightarrow> Inl e
           | Inr (ds, selected_any) \<Rightarrow> Inr ((glob, id_digest d) # ds, id_selected d > 0 \<or> selected_any)))"

definition canonical_globs :: "step_spec \<Rightarrow> str list" where
  "canonical_globs spec = remdups_adj (sort (map trim (sp_inputs spec)))"

definition compute_step_key :: "(bytes \<Rightarrow> bytes) \<Rightarrow> memo_config \<Rightarrow> job_key_context \<Rightarrow> verified_tree \<Rightarrow> step_spec \<Rightarrow>
    step_key list \<Rightarrow> key_result" where
  "compute_step_key blake3 memo ctx tree spec dependency_keys =
     (if sp_inputs spec = [] then Inl NoInputs
      else case resolve_globs memo (kc_tenant ctx) tree (canonical_globs spec) of
        Inl e \<Rightarrow> Inl e
      | Inr (digests, selected_any) \<Rightarrow>
          if \<not> selected_any then Inl InputsSelectedNothing
          else Inr (hex (blake3 (key_preimage memo ctx spec digests dependency_keys))))"

text \<open>\<open>specs.iter().position(..)\<close>, then the key computed so far at that position.\<close>

fun position :: "('a \<Rightarrow> bool) \<Rightarrow> 'a list \<Rightarrow> nat option" where
  "position p [] = None"
| "position p (x # xs) = (if p x then Some 0 else map_option Suc (position p xs))"

definition key_of_need :: "step_spec list \<Rightarrow> key_result list \<Rightarrow> str \<Rightarrow> key_result option" where
  "key_of_need specs keys need =
     Option.bind (position (\<lambda>s. sp_name s = need) specs) (\<lambda>i. if i < length keys then Some (keys ! i) else None)"

fun dependency_keys :: "step_spec list \<Rightarrow> key_result list \<Rightarrow> str list \<Rightarrow> not_cacheable + step_key list" where
  "dependency_keys specs keys [] = Inr []"
| "dependency_keys specs keys (need # needs) =
     (case key_of_need specs keys need of
        Some (Inr k) \<Rightarrow>
          (case dependency_keys specs keys needs of Inl r \<Rightarrow> Inl r | Inr ks \<Rightarrow> Inr (k # ks))
      | Some (Inl _) \<Rightarrow> Inl (DependencyNotCacheable need)
      | None \<Rightarrow> Inl (UndeclaredDependency need))"

definition spec_key :: "(bytes \<Rightarrow> bytes) \<Rightarrow> memo_config \<Rightarrow> job_key_context \<Rightarrow> verified_tree \<Rightarrow> step_spec list \<Rightarrow>
    key_result list \<Rightarrow> step_spec \<Rightarrow> key_result" where
  "spec_key blake3 memo ctx tree specs keys spec =
     (case dependency_keys specs keys (sp_needs spec) of
        Inl r \<Rightarrow> Inl r
      | Inr deps \<Rightarrow> compute_step_key blake3 memo ctx tree spec deps)"

fun plan_keys_loop :: "(bytes \<Rightarrow> bytes) \<Rightarrow> memo_config \<Rightarrow> job_key_context \<Rightarrow> verified_tree \<Rightarrow> step_spec list \<Rightarrow>
    step_spec list \<Rightarrow> key_result list \<Rightarrow> key_result list" where
  "plan_keys_loop blake3 memo ctx tree specs [] keys = keys"
| "plan_keys_loop blake3 memo ctx tree specs (spec # rest) keys =
     plan_keys_loop blake3 memo ctx tree specs rest
       (keys @ [spec_key blake3 memo ctx tree specs keys spec])"

definition plan_step_keys :: "(bytes \<Rightarrow> bytes) \<Rightarrow> memo_config \<Rightarrow> job_key_context \<Rightarrow> verified_tree \<Rightarrow> step_spec list \<Rightarrow>
    key_result list" where
  "plan_step_keys blake3 memo ctx tree specs = plan_keys_loop blake3 memo ctx tree specs specs []"

section \<open>The contract of a memo store\<close>

datatype memo_op =
    MLookup str step_key instant
  | MRecord str step_key memo_outcome instant

text \<open>Every hit repeats an outcome recorded before for the same tenant and key.\<close>

fun hits_recorded :: "(str \<times> step_key \<times> memo_outcome) set \<Rightarrow> memo_op list \<Rightarrow> memo_outcome option list \<Rightarrow> bool" where
  "hits_recorded seen (MRecord t k out now # ops) (_ # outs) \<longleftrightarrow> hits_recorded (insert (t, k, out) seen) ops outs"
| "hits_recorded seen (MLookup t k now # ops) (r # outs) \<longleftrightarrow>
     pred_option (\<lambda>out. (t, k, out) \<in> seen) r \<and> hits_recorded seen ops outs"
| "hits_recorded seen _ _ \<longleftrightarrow> True"

locale step_memo =
  fixes lookup :: "'s \<Rightarrow> str \<Rightarrow> step_key \<Rightarrow> instant \<Rightarrow> 's \<times> memo_outcome option"
    and memoize :: "'s \<Rightarrow> str \<Rightarrow> step_key \<Rightarrow> memo_outcome \<Rightarrow> instant \<Rightarrow> 's"
    and known :: "'s \<Rightarrow> (str \<times> step_key \<times> memo_outcome) set"
  assumes lookup_known: "lookup s t k now = (s', Some out) \<Longrightarrow> (t, k, out) \<in> known s"
    and lookup_forgets: "lookup s t k now = (s', r) \<Longrightarrow> known s' \<subseteq> known s"
    and memoize_adds: "known (memoize s t k out now) \<subseteq> insert (t, k, out) (known s)"
begin

fun memo_apply :: "memo_op \<Rightarrow> 's \<Rightarrow> 's \<times> memo_outcome option" where
  "memo_apply (MLookup t k now) s = lookup s t k now"
| "memo_apply (MRecord t k out now) s = (memoize s t k out now, None)"

lemma run_hits_recorded: "known s \<subseteq> seen \<Longrightarrow> hits_recorded seen ops (snd (run memo_apply ops s))"
proof (induction ops arbitrary: s seen)
  case (Cons op ops)
  show ?case
  proof (cases op)
    case (MLookup t k now)
    obtain s1 r where l: "lookup s t k now = (s1, r)" by (cases "lookup s t k now")
    from lookup_forgets [OF l] Cons.prems have "known s1 \<subseteq> seen" by blast
    from Cons.IH [OF this] lookup_known [of s t k now] l Cons.prems MLookup show ?thesis
      by (cases r) (auto simp: Let_def case_prod_unfold)
  next
    case (MRecord t k out now)
    have "known (memoize s t k out now) \<subseteq> insert (t, k, out) seen"
      using memoize_adds [of s t k out now] Cons.prems by blast
    from Cons.IH [OF this] MRecord show ?thesis by (simp add: Let_def case_prod_unfold)
  qed
qed simp

end

section \<open>The in-process store\<close>

definition memo_known :: "step_memo_store \<Rightarrow> (str \<times> step_key \<times> memo_outcome) set" where
  "memo_known ms = {(t, k, out). \<exists>e. map_of (ms_entries ms) (t, k) = Some e \<and> me_outcome e = out}"

text \<open>Which entries are left after making room.\<close>

definition after_eviction :: "step_memo_store \<Rightarrow> str \<Rightarrow> (memo_key \<times> memo_entry) list" where
  "after_eviction ms name =
     (if length (ms_entries ms) \<ge> mp_capacity (ms_policy ms)
      then (case evictee (ms_entries ms) name of
          Some victim \<Rightarrow> AList.delete victim (ms_entries ms)
        | None \<Rightarrow> ms_entries ms)
      else ms_entries ms)"

lemma memo_record_entries:
  "ms_entries (memo_record ms name key out now) =
     AList.update (name, key) \<lparr>me_outcome = out, me_expires_at = now + memo_ttl (ms_policy ms) out,
       me_seq = ms_next_seq ms\<rparr> (after_eviction ms name)"
  "ms_policy (memo_record ms name key out now) = ms_policy ms"
  by (simp_all add: memo_record_def after_eviction_def Let_def)

lemma after_eviction_sub: "map_of (after_eviction ms name) x = Some e \<Longrightarrow> map_of (ms_entries ms) x = Some e"
  by (auto simp: after_eviction_def split: option.splits if_splits)

interpretation mm: step_memo memo_lookup memo_record memo_known
proof
  show "(t, k, out) \<in> memo_known s" if "memo_lookup s t k now = (s', Some out)" for s t k now s' out
    using that by (auto simp: memo_lookup_def memo_known_def split: option.splits if_splits)
  show "memo_known s' \<subseteq> memo_known s" if "memo_lookup s t k now = (s', r)" for s t k now s' r
    using that by (auto simp: memo_lookup_def memo_known_def split: option.splits if_splits)
  show "memo_known (memo_record s t k out now) \<subseteq> insert (t, k, out) (memo_known s)" for s t k out now
  proof
    fix x assume "x \<in> memo_known (memo_record s t k out now)"
    then obtain t' k' e where x: "x = (t', k', me_outcome e)"
      and e: "map_of (ms_entries (memo_record s t k out now)) (t', k') = Some e"
      by (auto simp: memo_known_def)
    show "x \<in> insert (t, k, out) (memo_known s)"
    proof (cases "(t', k') = (t, k)")
      case True
      with e x show ?thesis by (auto simp: memo_record_entries)
    next
      case False
      with e have "map_of (after_eviction s t) (t', k') = Some e" by (auto simp: memo_record_entries)
      from after_eviction_sub [OF this] x show ?thesis by (auto simp: memo_known_def)
    qed
  qed
qed

section \<open>Eviction\<close>

definition held :: "(memo_key \<times> memo_entry) list \<Rightarrow> str \<Rightarrow> nat" where
  "held entries name = length (filter (\<lambda>((n, k), e). n = name) entries)"

lemma held_counts_result:
  "hm_ok h \<Longrightarrow> hm_ok (held_counts entries h) \<and>
     (\<forall>name. map_of (held_counts entries h) name =
       (if held entries name = 0 then map_of h name
        else Some (held entries name + (case map_of h name of Some n \<Rightarrow> n | None \<Rightarrow> 0))))"
proof (induction entries h rule: held_counts.induct)
  case (2 name k e entries h)
  then show ?case by (auto simp: held_def split: option.splits)
qed (simp add: held_def)

lemma held_counts_map: "map_of (held_counts entries []) name = (if held entries name = 0 then None else Some (held entries name))"
  using held_counts_result [of "[]" entries] by (auto split: if_splits)

lemma holder_less_linear: "a \<noteq> b \<Longrightarrow> \<not> holder_less r a b \<Longrightarrow> holder_less r b a"
  by (cases a; cases b) (auto simp: holder_less_def)

lemma holder_less_trans: "holder_less r a b \<Longrightarrow> holder_less r b c \<Longrightarrow> holder_less r a c"
  by (auto simp: holder_less_def)

lemma max_holder_result:
  assumes "max_holder r xs best = res"
  shows "(xs = [] \<and> best = None \<longrightarrow> res = None) \<and> (xs \<noteq> [] \<or> best \<noteq> None \<longrightarrow>
     (\<exists>m. res = Some m \<and> m \<in> set xs \<union> set_option best \<and>
       (\<forall>x\<in>set xs \<union> set_option best. x = m \<or> holder_less r x m)))"
  using assms
proof (induction r xs best arbitrary: res rule: max_holder.induct)
  case (1 r best)
  then show ?case by (cases best) auto
next
  case (2 r x xs best)
  let ?b = "case best of None \<Rightarrow> Some x | Some b \<Rightarrow> if holder_less r x b then Some b else Some x"
  have b: "?b \<noteq> None" by (auto split: option.splits)
  from "2.IH" [of res] "2.prems" b obtain m where m: "res = Some m" "m \<in> set xs \<union> set_option ?b"
    "\<forall>y\<in>set xs \<union> set_option ?b. y = m \<or> holder_less r y m" by auto
  have "y = m \<or> holder_less r y m" if "y = x \<or> y \<in> set_option best" for y
  proof -
    obtain z where z: "?b = Some z" using b by blast
    have "y = z \<or> holder_less r y z"
      using that z holder_less_linear [of x y r] by (auto split: option.splits if_splits)
    with m(3) z show ?thesis by (auto dest: holder_less_trans)
  qed
  with m show ?case by (auto split: option.splits if_splits)
qed

lemma min_seq_mem: "min_seq xs best = Some x \<Longrightarrow> x \<in> set xs \<or> best = Some x"
  by (induction xs best rule: min_seq.induct) (auto split: option.splits if_splits)

lemma min_seq_total: "min_seq xs best = None \<Longrightarrow> xs = [] \<and> best = None"
  by (induction xs best rule: min_seq.induct) (auto split: option.splits if_splits)

lemma held_pos: "held entries n > 0 \<longleftrightarrow> (\<exists>k e. ((n, k), e) \<in> set entries)"
  by (auto simp: held_def filter_empty_conv)

text \<open>The victim belongs to a tenant that holds the most, and to the writer if the writer is one.\<close>

lemma evictee_fullest:
  assumes "evictee entries r = Some (n, k)"
  shows "held entries t \<le> held entries n" and "held entries t = held entries n \<Longrightarrow> t = r \<Longrightarrow> n = r"
    and "\<exists>e. ((n, k), e) \<in> set entries"
proof -
  let ?h = "held_counts entries []"
  from assms obtain c where mh: "max_holder r ?h None = Some (n, c)"
    by (auto simp: evictee_def split: option.splits) (use min_seq_mem in fastforce)
  from assms mh obtain e where "min_seq (filter (\<lambda>((name, k), e). name = n) entries) None = Some ((n, k), e)"
    by (auto simp: evictee_def)
  from min_seq_mem [OF this] show "\<exists>e. ((n, k), e) \<in> set entries" by auto
  from max_holder_result [OF mh] have m: "(n, c) \<in> set ?h" "\<And>x. x \<in> set ?h \<Longrightarrow> x = (n, c) \<or> holder_less r x (n, c)"
    by (auto split: if_splits)
  have ok: "hm_ok ?h" using held_counts_result [of "[]" entries] by simp
  have c: "c = held entries n" "held entries n > 0"
    using m(1) held_counts_map [of entries n] by (simp_all add: hm_mem_iff [OF ok] split: if_splits)
  have "held entries t = 0 \<or> t = n \<or> holder_less r (t, held entries t) (n, held entries n)"
  proof (cases "held entries t = 0")
    case False
    then have "(t, held entries t) \<in> set ?h" using held_counts_map [of entries t] by (simp add: hm_mem_iff [OF ok])
    from m(2) [OF this] c show ?thesis by auto
  qed simp
  then show "held entries t \<le> held entries n" and "held entries t = held entries n \<Longrightarrow> t = r \<Longrightarrow> n = r"
    using c(2) by (auto simp: holder_less_def)
qed

lemma evictee_exists: "entries \<noteq> [] \<Longrightarrow> evictee entries r \<noteq> None"
proof -
  assume "entries \<noteq> []"
  then obtain n k e where "((n, k), e) \<in> set entries" by (cases entries) auto
  then have "held entries n > 0" by (auto simp: held_pos)
  then have ne: "held_counts entries [] \<noteq> []" using held_counts_map [of entries n] by auto
  obtain m c where mh: "max_holder r (held_counts entries []) None = Some (m, c)"
    using max_holder_result [of r "held_counts entries []" None] ne by auto
  have mc: "(m, c) \<in> set (held_counts entries [])"
    using max_holder_result [OF mh] ne by auto
  have ok: "hm_ok (held_counts entries [])" using held_counts_result [of "[]" entries] by simp
  have "map_of (held_counts entries []) m = Some c" using mc by (simp only: hm_mem_iff [OF ok])
  then have "held entries m > 0" using held_counts_map [of entries m] by (simp split: if_splits)
  then have "filter (\<lambda>((n, k), e). n = m) entries \<noteq> []" by (simp add: held_def)
  then show ?thesis using mh min_seq_total by (fastforce simp: evictee_def)
qed

lemma after_eviction_length:
  assumes "hm_ok (ms_entries ms)"
  shows "length (ms_entries ms) \<le> max 1 (mp_capacity (ms_policy ms)) \<Longrightarrow>
    length (after_eviction ms name) < max 1 (mp_capacity (ms_policy ms))"
proof -
  assume len: "length (ms_entries ms) \<le> max 1 (mp_capacity (ms_policy ms))"
  show ?thesis
  proof (cases "ms_entries ms = []")
    case True
    then show ?thesis by (simp add: after_eviction_def evictee_def split: option.splits)
  next
    case False
    from evictee_exists [OF False, of name] obtain n k where v: "evictee (ms_entries ms) name = Some (n, k)" by auto
    from evictee_fullest(3) [OF v] obtain e where "map_of (ms_entries ms) (n, k) = Some e"
      using hm_mem_iff [OF assms] by blast
    from length_hm_delete [OF assms this] v len show ?thesis by (auto simp: after_eviction_def)
  qed
qed

section \<open>The encoding loses nothing\<close>

text \<open>Every encoder below can be read back from the front of a longer sequence.\<close>

definition scalar :: "nat \<Rightarrow> bool" where "scalar c \<longleftrightarrow> c < 0x110000"

lemma div_mod_eq: "a div n = b div n \<Longrightarrow> a mod n = b mod n \<Longrightarrow> a = (b :: nat)"
  by (metis div_mult_mod_eq)

lemma utf8_char_lead:
  assumes "scalar c"
  shows "hd (utf8_char c) < 0x80 \<longleftrightarrow> c < 0x80"
    and "hd (utf8_char c) < 0xE0 \<longleftrightarrow> c < 0x800"
    and "hd (utf8_char c) < 0xF0 \<longleftrightarrow> c < 0x10000"
    and "utf8_char c \<noteq> []"
proof -
  have "c < 0x800 \<Longrightarrow> c div 64 < 0x20" "c < 0x10000 \<Longrightarrow> c div 4096 < 0x10"
    by (simp_all add: div_less_iff_less_mult)
  then show "hd (utf8_char c) < 0x80 \<longleftrightarrow> c < 0x80" "hd (utf8_char c) < 0xE0 \<longleftrightarrow> c < 0x800"
    "hd (utf8_char c) < 0xF0 \<longleftrightarrow> c < 0x10000" "utf8_char c \<noteq> []"
    by (auto simp: utf8_char_def)
qed

lemma utf8_char_inj:
  assumes "scalar c" and "scalar d" and eq: "utf8_char c @ xs = utf8_char d @ ys"
  shows "c = d \<and> xs = ys"
proof -
  have h: "hd (utf8_char c) = hd (utf8_char d)"
    using eq utf8_char_lead(4) [OF assms(1)] utf8_char_lead(4) [OF assms(2)] by (metis hd_append2)
  have same: "c < 0x80 \<longleftrightarrow> d < 0x80" "c < 0x800 \<longleftrightarrow> d < 0x800" "c < 0x10000 \<longleftrightarrow> d < 0x10000"
    using utf8_char_lead [OF assms(1)] utf8_char_lead [OF assms(2)] h by auto
  have d2: "c div 64 = d div 64" if "c div 4096 = d div 4096" "c div 64 mod 64 = d div 64 mod 64"
    using that div_mod_eq [of "c div 64" 64 "d div 64"] by (simp add: div_mult2_eq [symmetric])
  have d3: "c div 4096 = d div 4096" if "c div 262144 = d div 262144" "c div 4096 mod 64 = d div 4096 mod 64"
    using that div_mod_eq [of "c div 4096" 64 "d div 4096"] by (simp add: div_mult2_eq [symmetric])
  consider "c < 0x80" | "\<not> c < 0x80" "c < 0x800" | "\<not> c < 0x800" "c < 0x10000" | "\<not> c < 0x10000" by blast
  then show ?thesis
  proof cases
    case 1
    with same eq show ?thesis by (simp add: utf8_char_def)
  next
    case 2
    with same eq show ?thesis by (auto simp: utf8_char_def intro: div_mod_eq [of c 64 d])
  next
    case 3
    with same eq d2 show ?thesis by (auto simp: utf8_char_def intro: div_mod_eq [of c 64 d])
  next
    case 4
    with same eq d2 d3 show ?thesis by (auto simp: utf8_char_def intro: div_mod_eq [of c 64 d])
  qed
qed

lemma utf8_inj: "list_all scalar s \<Longrightarrow> list_all scalar t \<Longrightarrow> utf8 s = utf8 t \<Longrightarrow> s = t"
proof (induction s arbitrary: t)
  case Nil
  then show ?case using utf8_char_lead(4) by (cases t) (auto simp: utf8_def)
next
  case (Cons c s)
  then obtain d t' where t: "t = d # t'" using utf8_char_lead(4) [of c] by (cases t) (auto simp: utf8_def)
  with Cons.prems utf8_char_inj [of c d "utf8 s" "utf8 t'"] Cons.IH [of t'] show ?case by (auto simp: utf8_def)
qed

lemma length_le_bytes [simp]: "length (le_bytes n) = 8"
  by (simp add: le_bytes_def)

lemma le_bytes_inj:
  assumes "n < 2 ^ 64" and "m < 2 ^ 64" and "le_bytes n = le_bytes m"
  shows "n = m"
proof -
  have digit: "n div 256 ^ i mod 256 = m div 256 ^ i mod 256" if "i < 8" for i
    using assms(3) that by (simp add: le_bytes_def)
  have "n div 256 ^ (8 - k) = m div 256 ^ (8 - k)" if "k \<le> 8" for k
    using that
  proof (induction k)
    case 0
    show ?case using assms(1,2) by simp
  next
    case (Suc k)
    then have e: "8 - k = Suc (8 - Suc k)" by simp
    have "n div 256 ^ (8 - Suc k) div 256 = m div 256 ^ (8 - Suc k) div 256"
      using Suc unfolding e by (simp add: div_mult2_eq [symmetric] mult.commute)
    moreover have "n div 256 ^ (8 - Suc k) mod 256 = m div 256 ^ (8 - Suc k) mod 256"
      by (rule digit) (use Suc.prems in simp)
    ultimately show ?case by (rule div_mod_eq)
  qed
  from this [of 8] show ?thesis by simp
qed

definition fits :: "'a list \<Rightarrow> bool" where "fits xs \<longleftrightarrow> length xs < 2 ^ 64"

lemma le_bytes_front:
  assumes "n < 2 ^ 64" and "m < 2 ^ 64" and "le_bytes n @ xs = le_bytes m @ ys"
  shows "n = m \<and> xs = ys"
  using assms le_bytes_inj [of n m] by auto

lemma lp_front:
  assumes "fits a" and "fits b" and "lp a @ xs = lp b @ ys"
  shows "a = b \<and> xs = ys"
proof -
  have "le_bytes (length a) @ (a @ xs) = le_bytes (length b) @ (b @ ys)" using assms(3) by (simp add: lp_def)
  from le_bytes_front [OF assms(1,2) [unfolded fits_def] this] show ?thesis by (metis append_eq_append_conv)
qed

lemma field_front:
  assumes "fits a" and "fits b" and "field t a @ xs = field t b @ ys"
  shows "a = b \<and> xs = ys"
proof -
  have "lp a @ xs = lp b @ ys" using assms(3) by (simp add: field_def)
  from lp_front [OF assms(1,2) this] show ?thesis .
qed

lemma lps_front:
  "length as = length bs \<Longrightarrow> list_all fits as \<Longrightarrow> list_all fits bs \<Longrightarrow>
     concat (map lp as) @ xs = concat (map lp bs) @ ys \<Longrightarrow> as = bs \<and> xs = ys"
proof (induction as bs rule: list_induct2)
  case (Cons a as b bs)
  with lp_front [of a b "concat (map lp as) @ xs" "concat (map lp bs) @ ys"] show ?case by simp
qed simp

lemma seq_front:
  assumes "fits as" "list_all fits as" "fits bs" "list_all fits bs"
    and "seq_field t as @ xs = seq_field t bs @ ys"
  shows "as = bs \<and> xs = ys"
proof -
  have "le_bytes (length as) @ (concat (map lp as) @ xs) = le_bytes (length bs) @ (concat (map lp bs) @ ys)"
    using assms(5) by (simp add: seq_field_def)
  from le_bytes_front [OF assms(1,3) [unfolded fits_def] this] lps_front assms(2,4) show ?thesis by blast
qed

lemma pairs_front:
  assumes "fits ps" and "fits qs" and "pair_fields t ps @ xs = pair_fields t qs @ ys"
    and "list_all (\<lambda>(a, b). fits (utf8 a) \<and> fits (utf8 b) \<and> list_all scalar a \<and> list_all scalar b) ps"
    and "list_all (\<lambda>(a, b). fits (utf8 a) \<and> fits (utf8 b) \<and> list_all scalar a \<and> list_all scalar b) qs"
  shows "ps = qs \<and> xs = ys"
proof -
  let ?e = "\<lambda>(a, b). lp (utf8 a) @ lp (utf8 b)"
  have "le_bytes (length ps) @ (concat (map ?e ps) @ xs) = le_bytes (length qs) @ (concat (map ?e qs) @ ys)"
    using assms(3) by (simp add: pair_fields_def)
  from le_bytes_front [OF assms(1,2) [unfolded fits_def] this]
  have "length ps = length qs" "concat (map ?e ps) @ xs = concat (map ?e qs) @ ys" by auto
  then show ?thesis using assms(4,5)
  proof (induction ps qs rule: list_induct2)
    case (Cons p ps q qs)
    obtain a b a' b' where pq: "p = (a, b)" "q = (a', b')" by (cases p; cases q) blast
    let ?X = "concat (map ?e ps) @ xs" and ?Y = "concat (map ?e qs) @ ys"
    from Cons.prems(1) pq have "lp (utf8 a) @ (lp (utf8 b) @ ?X) = lp (utf8 a') @ (lp (utf8 b') @ ?Y)" by simp
    from lp_front [OF _ _ this] Cons.prems(2,3) pq have 1: "utf8 a = utf8 a'" "lp (utf8 b) @ ?X = lp (utf8 b') @ ?Y"
      by auto
    from lp_front [OF _ _ 1(2)] Cons.prems(2,3) pq have 2: "utf8 b = utf8 b'" "?X = ?Y" by auto
    from utf8_inj [OF _ _ 1(1)] utf8_inj [OF _ _ 2(1)] Cons.prems(2,3) pq have "p = q" by simp
    with Cons.IH [OF 2(2)] Cons.prems(2,3) show ?case by simp
  qed simp
qed

text \<open>The strings and lists of a key, as small as any Rust value is.\<close>

definition str_ok :: "str \<Rightarrow> bool" where
  "str_ok s \<longleftrightarrow> fits (utf8 s) \<and> list_all scalar s"

definition strs_ok :: "str list \<Rightarrow> bool" where
  "strs_ok ss \<longleftrightarrow> fits ss \<and> list_all str_ok ss"

definition pairs_ok :: "(str \<times> str) list \<Rightarrow> bool" where
  "pairs_ok ps \<longleftrightarrow> fits ps \<and> list_all (\<lambda>(a, b). str_ok a \<and> str_ok b) ps"

lemma str_front:
  "str_ok s \<Longrightarrow> str_ok t \<Longrightarrow> field tag (utf8 s) @ xs = field tag (utf8 t) @ ys \<Longrightarrow> s = t \<and> xs = ys"
  using field_front [of "utf8 s" "utf8 t" tag xs ys] utf8_inj [of s t] by (simp add: str_ok_def)

lemma map_utf8_inj: "list_all str_ok as \<Longrightarrow> list_all str_ok bs \<Longrightarrow> map utf8 as = map utf8 bs \<Longrightarrow> as = bs"
proof (induction as arbitrary: bs)
  case (Cons a as)
  then obtain b bs' where bs: "bs = b # bs'" by (cases bs) auto
  with Cons.prems have "utf8 a = utf8 b" "map utf8 as = map utf8 bs'" by simp_all
  moreover from bs Cons.prems have "list_all scalar a" "list_all scalar b" "list_all str_ok as" "list_all str_ok bs'"
    by (simp_all add: str_ok_def [of a] str_ok_def [of b])
  ultimately have "a = b" "as = bs'" using utf8_inj Cons.IH by blast+
  with bs show ?case by blast
qed simp

lemma list_all_fits_utf8: "list_all str_ok as \<Longrightarrow> list_all fits (map utf8 as)"
  by (induction as) (auto simp: str_ok_def)

lemma strs_front:
  assumes "strs_ok as" and "strs_ok bs" and "seq_field tag (map utf8 as) @ xs = seq_field tag (map utf8 bs) @ ys"
  shows "as = bs \<and> xs = ys"
proof -
  have "fits (map utf8 as)" "fits (map utf8 bs)" using assms(1,2) by (simp_all add: strs_ok_def fits_def)
  moreover have "list_all fits (map utf8 as)" "list_all fits (map utf8 bs)"
    using assms(1,2) by (simp_all add: strs_ok_def list_all_fits_utf8)
  ultimately have eq: "map utf8 as = map utf8 bs" "xs = ys" using seq_front assms(3) by blast+
  have "list_all str_ok as" "list_all str_ok bs" using assms(1,2) by (simp_all add: strs_ok_def)
  from map_utf8_inj [OF this eq(1)] eq(2) show ?thesis by blast
qed

lemma fits_shorter: "fits xs \<Longrightarrow> length ys \<le> length xs \<Longrightarrow> fits ys"
  unfolding fits_def by (rule le_less_trans)

lemma fits_canonical: "fits xs \<Longrightarrow> fits (remdups_adj (sort xs))"
  by (erule fits_shorter) (use remdups_adj_length [of "sort xs"] in simp)

lemma strs_ok_canonical: "strs_ok as \<Longrightarrow> strs_ok (remdups_adj (sort as))"
  by (simp add: strs_ok_def fits_canonical list_all_iff)

lemma set_front:
  assumes "strs_ok as" and "strs_ok bs" and "set_field tag as @ xs = set_field tag bs @ ys"
  shows "set as = set bs \<and> xs = ys"
proof -
  have "remdups_adj (sort as) = remdups_adj (sort bs) \<and> xs = ys"
    by (rule strs_front [OF strs_ok_canonical [OF assms(1)] strs_ok_canonical [OF assms(2)]
          assms(3) [unfolded set_field_def]])
  then show ?thesis by (metis remdups_adj_set set_sort)
qed

lemma pairs_ok_front:
  assumes "pairs_ok ps" and "pairs_ok qs" and "pair_fields t ps @ xs = pair_fields t qs @ ys"
  shows "ps = qs \<and> xs = ys"
  by (rule pairs_front [OF _ _ assms(3)]) (use assms(1,2) in \<open>auto simp: pairs_ok_def str_ok_def list_all_iff\<close>)

lemma pairs_ok_canonical: "pairs_ok ps \<Longrightarrow> pairs_ok (remdups_adj (sort ps))"
  by (simp add: pairs_ok_def fits_canonical list_all_iff)

definition key_ok :: "memo_config \<Rightarrow> job_key_context \<Rightarrow> step_spec \<Rightarrow> (str \<times> str) list \<Rightarrow> step_key list \<Rightarrow> bool" where
  "key_ok memo ctx spec digests deps \<longleftrightarrow>
     str_ok (kc_tenant ctx) \<and> str_ok (mc_pipeline_version memo) \<and> str_ok (sp_name spec) \<and> str_ok (sp_image spec) \<and>
     strs_ok (sp_argv spec) \<and> timeout_code (sp_timeout spec) < 2 ^ 64 \<and> strs_ok (sp_secrets spec) \<and>
     pairs_ok digests \<and> pairs_ok (sp_env_allowlist spec) \<and> strs_ok deps"

text \<open>Two steps that agree on everything a key accounts for.\<close>

definition same_work :: "memo_config \<Rightarrow> job_key_context \<Rightarrow> step_spec \<Rightarrow> (str \<times> str) list \<Rightarrow> step_key list \<Rightarrow>
    memo_config \<Rightarrow> job_key_context \<Rightarrow> step_spec \<Rightarrow> (str \<times> str) list \<Rightarrow> step_key list \<Rightarrow> bool" where
  "same_work memo ctx spec digests deps memo' ctx' spec' digests' deps' \<longleftrightarrow>
     kc_tenant ctx = kc_tenant ctx' \<and> mc_pipeline_version memo = mc_pipeline_version memo' \<and>
     kc_tier ctx = kc_tier ctx' \<and> kc_author_class ctx = kc_author_class ctx' \<and>
     sp_name spec = sp_name spec' \<and> sp_image spec = sp_image spec' \<and> sp_argv spec = sp_argv spec' \<and>
     timeout_code (sp_timeout spec) = timeout_code (sp_timeout spec') \<and>
     sp_continue_on_error spec = sp_continue_on_error spec' \<and> set (sp_secrets spec) = set (sp_secrets spec') \<and>
     digests = digests' \<and> set (sp_env_allowlist spec) = set (sp_env_allowlist spec') \<and> set deps = set deps'"

lemma fits_small [simp]: "fits [a]" "fits (le_bytes n)"
  by (simp_all add: fits_def)

lemma tags_inj: "tier_tag a = tier_tag b \<Longrightarrow> a = b" "author_tag c = author_tag d \<Longrightarrow> c = d"
  by (cases a; cases b; simp) (cases c; cases d; simp)

lemma set_canonical: "remdups_adj (sort ps) = remdups_adj (sort qs) \<Longrightarrow> set ps = set qs"
  by (metis remdups_adj_set set_sort)

lemma key_preimage_inj:
  assumes ok: "key_ok memo ctx spec digests deps" and ok': "key_ok memo' ctx' spec' digests' deps'"
    and eq: "key_preimage memo ctx spec digests deps = key_preimage memo' ctx' spec' digests' deps'"
  shows "same_work memo ctx spec digests deps memo' ctx' spec' digests' deps'"
proof -
  from ok ok' have o: "str_ok (kc_tenant ctx)" "str_ok (kc_tenant ctx')"
    "str_ok (mc_pipeline_version memo)" "str_ok (mc_pipeline_version memo')"
    "str_ok (sp_name spec)" "str_ok (sp_name spec')" "str_ok (sp_image spec)" "str_ok (sp_image spec')"
    "strs_ok (sp_argv spec)" "strs_ok (sp_argv spec')" "strs_ok (sp_secrets spec)" "strs_ok (sp_secrets spec')"
    "pairs_ok digests" "pairs_ok digests'" "strs_ok deps" "strs_ok deps'"
    and env: "pairs_ok (sp_env_allowlist spec)" "pairs_ok (sp_env_allowlist spec')"
    and tm: "timeout_code (sp_timeout spec) < 2 ^ 64" "timeout_code (sp_timeout spec') < 2 ^ 64"
    by (simp_all only: key_ok_def)
  note c1 = str_front [OF o(1,2) eq [unfolded key_preimage_def same_append_eq]]
  note c2 = str_front [OF o(3,4) c1 [THEN conjunct2]]
  note c3 = field_front [OF fits_small(1) fits_small(1) c2 [THEN conjunct2]]
  note c4 = field_front [OF fits_small(1) fits_small(1) c3 [THEN conjunct2]]
  note c5 = str_front [OF o(5,6) c4 [THEN conjunct2]]
  note c6 = str_front [OF o(7,8) c5 [THEN conjunct2]]
  note c7 = strs_front [OF o(9,10) c6 [THEN conjunct2]]
  note c8 = field_front [OF fits_small(2) fits_small(2) c7 [THEN conjunct2]]
  note c9 = field_front [OF fits_small(1) fits_small(1) c8 [THEN conjunct2]]
  note c10 = set_front [OF o(11,12) c9 [THEN conjunct2]]
  note c11 = pairs_ok_front [OF o(13,14) c10 [THEN conjunct2]]
  note c12 = pairs_ok_front [OF pairs_ok_canonical [OF env(1)] pairs_ok_canonical [OF env(2)] c11 [THEN conjunct2]]
  have "set_field 0x30 deps @ [] = set_field 0x30 deps' @ []" using c12 [THEN conjunct2] by simp
  note c13 = set_front [OF o(15,16) this]
  have "kc_tier ctx = kc_tier ctx'" "kc_author_class ctx = kc_author_class ctx'"
    using c3 [THEN conjunct1] c4 [THEN conjunct1] by (auto intro: tags_inj)
  moreover have "timeout_code (sp_timeout spec) = timeout_code (sp_timeout spec')"
    by (rule le_bytes_inj [OF tm c8 [THEN conjunct1]])
  moreover have "sp_continue_on_error spec = sp_continue_on_error spec'"
    using c9 [THEN conjunct1] by (simp split: if_splits)
  moreover have "set (sp_env_allowlist spec) = set (sp_env_allowlist spec')"
    by (rule set_canonical [OF c12 [THEN conjunct1]])
  ultimately show ?thesis
    unfolding same_work_def
    using c1 [THEN conjunct1] c2 [THEN conjunct1] c5 [THEN conjunct1] c6 [THEN conjunct1] c7 [THEN conjunct1]
      c10 [THEN conjunct1] c11 [THEN conjunct1] c13 [THEN conjunct1] by blast
qed

lemma hex_digit_inj: "a < 16 \<Longrightarrow> b < 16 \<Longrightarrow> hex_digit a = hex_digit b \<Longrightarrow> a = b"
proof -
  have "distinct (lit ''0123456789abcdef'')" "length (lit ''0123456789abcdef'') = 16" by simp_all
  then show "a < 16 \<Longrightarrow> b < 16 \<Longrightarrow> hex_digit a = hex_digit b \<Longrightarrow> a = b"
    unfolding hex_digit_def by (metis nth_eq_iff_index_eq)
qed

lemma hex_inj: "list_all (\<lambda>b. b < 256) as \<Longrightarrow> list_all (\<lambda>b. b < 256) bs \<Longrightarrow> hex as = hex bs \<Longrightarrow> as = bs"
proof (induction as arbitrary: bs)
  case Nil
  then show ?case by (cases bs) (auto simp: hex_def)
next
  case (Cons a as)
  then obtain b bs' where bs: "bs = b # bs'" by (cases bs) (auto simp: hex_def)
  with Cons.prems have "hex as = hex bs'" and d: "hex_digit (a div 16) = hex_digit (b div 16)"
    "hex_digit (a mod 16) = hex_digit (b mod 16)" by (auto simp: hex_def)
  have "a div 16 < 16" "b div 16 < 16" using Cons.prems bs by auto
  then have "a = b" using hex_digit_inj [OF _ _ d(1)] hex_digit_inj [OF _ _ d(2)] by (intro div_mod_eq [of a 16 b]) auto
  moreover have "as = bs'" using Cons bs \<open>hex as = hex bs'\<close> by simp
  ultimately show ?case using bs by simp
qed

definition digests_of :: "memo_config \<Rightarrow> job_key_context \<Rightarrow> verified_tree \<Rightarrow> step_spec \<Rightarrow> (str \<times> str) list" where
  "digests_of memo ctx tree spec =
     (case resolve_globs memo (kc_tenant ctx) tree (canonical_globs spec) of Inr (ds, _) \<Rightarrow> ds | Inl _ \<Rightarrow> [])"

lemma compute_step_key_Inr:
  assumes "compute_step_key blake3 memo ctx tree spec deps = Inr k"
  shows "k = hex (blake3 (key_preimage memo ctx spec (digests_of memo ctx tree spec) deps))" and "sp_inputs spec \<noteq> []"
  using assms by (auto simp: compute_step_key_def digests_of_def split: if_splits sum.splits prod.splits)

lemma position_found: "position p xs = Some i \<Longrightarrow> i < length xs \<and> p (xs ! i)"
  by (induction xs arbitrary: i) (auto split: if_splits)

lemma dependency_keys_Inr:
  "dependency_keys specs keys needs = Inr deps \<Longrightarrow>
     list_all2 (\<lambda>need k. \<exists>i < length keys. i < length specs \<and> sp_name (specs ! i) = need \<and> keys ! i = Inr k) needs deps"
proof (induction specs keys needs arbitrary: deps rule: dependency_keys.induct)
  case (2 specs keys need needs)
  from "2.prems" obtain k ks where k: "key_of_need specs keys need = Some (Inr k)"
    and ks: "dependency_keys specs keys needs = Inr ks" "deps = k # ks"
    by (auto split: option.splits sum.splits)
  from k obtain i where "position (\<lambda>s. sp_name s = need) specs = Some i" "i < length keys" "keys ! i = Inr k"
    by (auto simp: key_of_need_def split: Option.bind_splits if_splits)
  with position_found [of _ specs i] have "\<exists>i < length keys. i < length specs \<and> sp_name (specs ! i) = need \<and> keys ! i = Inr k"
    by blast
  with "2.IH" [OF k] ks show ?case by simp
qed simp

text \<open>The keys computed so far are never revised, and each step's key comes from those before it.\<close>

lemma plan_keys_loop_result:
  "\<exists>new. plan_keys_loop blake3 memo ctx tree specs rest keys = keys @ new \<and> length new = length rest \<and>
    (\<forall>i < length rest. new ! i = spec_key blake3 memo ctx tree specs (keys @ take i new) (rest ! i))"
proof (induction rest arbitrary: keys)
  case (Cons spec rest)
  let ?k = "spec_key blake3 memo ctx tree specs keys spec"
  from Cons.IH [of "keys @ [?k]"] obtain new where
    new: "plan_keys_loop blake3 memo ctx tree specs rest (keys @ [?k]) = (keys @ [?k]) @ new" "length new = length rest"
    "\<forall>i < length rest. new ! i = spec_key blake3 memo ctx tree specs ((keys @ [?k]) @ take i new) (rest ! i)" by auto
  have "(?k # new) ! i = spec_key blake3 memo ctx tree specs (keys @ take i (?k # new)) ((spec # rest) ! i)"
    if "i < length (spec # rest)" for i
    using that new(3) by (cases i) auto
  with new show ?case by (intro exI [of _ "?k # new"]) auto
qed simp

lemma plan_step_keys_nth:
  "length (plan_step_keys blake3 memo ctx tree specs) = length specs"
  "i < length specs \<Longrightarrow> plan_step_keys blake3 memo ctx tree specs ! i =
     spec_key blake3 memo ctx tree specs (take i (plan_step_keys blake3 memo ctx tree specs)) (specs ! i)"
  using plan_keys_loop_result [of blake3 memo ctx tree specs specs "[]"] by (auto simp: plan_step_keys_def)

section \<open>Properties\<close>

text \<open>No cross-tenant and no invented hit: along any sequence of lookups and records on the in-process
  store, every hit for a tenant and key repeats an outcome recorded earlier for that same tenant
  and key.\<close>

theorem memo_hits_recorded:
  "hits_recorded {} ops (snd (run mm.memo_apply ops (memo_new policy)))"
  by (rule mm.run_hits_recorded) (simp add: memo_known_def memo_new_def)

text \<open>A recorded outcome is found until it expires and not after, for as long as its lifetime says.\<close>

theorem memo_record_lookup:
  "snd (memo_lookup (memo_record ms name key out now) name key later) =
     (if later < now + memo_ttl (ms_policy ms) out then Some out else None)"
  by (auto simp: memo_lookup_def memo_record_entries)

text \<open>Max-min fairness of the shared capacity: a write never removes or changes an entry of a
  tenant that holds fewer entries than some other tenant, nor one of a tenant that holds no more than
  the writer, unless it is the writer's own; and a store within its capacity stays within it.\<close>

theorem memo_eviction_fair:
  assumes "hm_ok (ms_entries ms)" and "length (ms_entries ms) \<le> max 1 (mp_capacity (ms_policy ms))"
  shows "length (ms_entries (memo_record ms writer key out now)) \<le> max 1 (mp_capacity (ms_policy ms)) \<and>
    hm_ok (ms_entries (memo_record ms writer key out now)) \<and>
    (t \<noteq> writer \<and> (held (ms_entries ms) t < held (ms_entries ms) u \<or> held (ms_entries ms) t \<le> held (ms_entries ms) writer)
      \<longrightarrow> map_of (ms_entries (memo_record ms writer key out now)) (t, k) = map_of (ms_entries ms) (t, k))"
proof (intro conjI impI)
  have ok: "hm_ok (after_eviction ms writer)"
    using assms(1) by (auto simp: after_eviction_def split: option.splits)
  then show "hm_ok (ms_entries (memo_record ms writer key out now))" by (simp add: memo_record_entries)
  have "length (after_eviction ms writer) < max 1 (mp_capacity (ms_policy ms))"
    using after_eviction_length [OF assms(1), of writer] assms(2) by simp
  then show "length (ms_entries (memo_record ms writer key out now)) \<le> max 1 (mp_capacity (ms_policy ms))"
    unfolding memo_record_entries by (meson Suc_leI le_trans length_update_le)
  assume t: "t \<noteq> writer \<and> (held (ms_entries ms) t < held (ms_entries ms) u \<or> held (ms_entries ms) t \<le> held (ms_entries ms) writer)"
  have "n \<noteq> t" if v: "evictee (ms_entries ms) writer = Some (n, k')" for n k'
    using evictee_fullest(1) [OF v, of u] evictee_fullest(1,2) [OF v, of writer] t by auto
  then have "map_of (after_eviction ms writer) (t, k) = map_of (ms_entries ms) (t, k)"
    by (auto simp: after_eviction_def split: option.splits)
  with t show "map_of (ms_entries (memo_record ms writer key out now)) (t, k) = map_of (ms_entries ms) (t, k)"
    by (simp add: memo_record_entries)
qed

definition example_memo :: step_memo_store where
  "example_memo = (memo_new memo_policy_default)\<lparr>ms_policy := \<lparr>mp_passed_ttl = 100, mp_failed_ttl = 10, mp_capacity = 2\<rparr>,
     ms_entries := [(([97], [1]), \<lparr>me_outcome = MemoPassed, me_expires_at = 100, me_seq = 0\<rparr>),
       (([98], [2]), \<lparr>me_outcome = MemoFailed, me_expires_at = 10, me_seq = 1\<rparr>)]\<rparr>"

theorem memo_eviction_fair_witness:
  "map_of (ms_entries (memo_record example_memo [97] [3] MemoPassed 5)) ([98], [2]) = map_of (ms_entries example_memo) ([98], [2])"
proof -
  have ok: "hm_ok (ms_entries example_memo)"
    "length (ms_entries example_memo) \<le> max 1 (mp_capacity (ms_policy example_memo))"
    by (simp_all add: example_memo_def)
  have "held (ms_entries example_memo) [98] \<le> held (ms_entries example_memo) [97]"
    by (simp add: held_def example_memo_def)
  with memo_eviction_fair [OF ok, of "[97]" "[3]" MemoPassed 5 "[98]" "[97]" "[2]"] show ?thesis by simp
qed

text \<open>C31. A key stands for the whole work: when two steps, of whatever jobs, trees and configurations, get
  the same key and the hash does not collide on their two encodings, they have the same tenant,
  pipeline version, tier, author class, name, image, argument vector, timeout in seconds, failure
  tolerance and input digests, and the same sets of secrets, environment entries and dependency keys.
  No cache hit can cross any of these.\<close>

theorem step_key_identifies_work:
  assumes "compute_step_key blake3 memo ctx tree spec deps = Inr k"
    and "compute_step_key blake3 memo' ctx' tree' spec' deps' = Inr k"
    and "key_ok memo ctx spec (digests_of memo ctx tree spec) deps"
    and "key_ok memo' ctx' spec' (digests_of memo' ctx' tree' spec') deps'"
    and "\<And>bs. list_all (\<lambda>b. b < 256) (blake3 bs)"
    and "inj_on blake3 {key_preimage memo ctx spec (digests_of memo ctx tree spec) deps,
      key_preimage memo' ctx' spec' (digests_of memo' ctx' tree' spec') deps'}"
  shows "same_work memo ctx spec (digests_of memo ctx tree spec) deps
    memo' ctx' spec' (digests_of memo' ctx' tree' spec') deps'"
proof (rule key_preimage_inj [OF assms(3,4)])
  have "blake3 (key_preimage memo ctx spec (digests_of memo ctx tree spec) deps) =
      blake3 (key_preimage memo' ctx' spec' (digests_of memo' ctx' tree' spec') deps')"
    using hex_inj [OF assms(5) assms(5)] compute_step_key_Inr(1) [OF assms(1)] compute_step_key_Inr(1) [OF assms(2)]
    by metis
  then show "key_preimage memo ctx spec (digests_of memo ctx tree spec) deps =
      key_preimage memo' ctx' spec' (digests_of memo' ctx' tree' spec') deps'"
    by (rule inj_onD [OF assms(6)]) simp_all
qed

definition example_memo_config :: memo_config where
  "example_memo_config = \<lparr>mc_digest = \<lambda>name tree glob. Inr \<lparr>id_digest = [100], id_selected = 1\<rparr>,
     mc_available = True, mc_pipeline_version = [118]\<rparr>"

definition example_key_context :: job_key_context where
  "example_key_context = \<lparr>kc_tenant = [97], kc_tier = MicroVm, kc_author_class = Member\<rparr>"

definition example_spec :: "str list \<Rightarrow> step_spec" where
  "example_spec secrets = (step_spec_new [98] [[99]] [105])\<lparr>sp_inputs := [[115]], sp_secrets := secrets\<rparr>"

definition example_tree :: verified_tree where
  "example_tree = \<lparr>vt_tree_id = [], vt_path = [], vt_cached = False\<rparr>"

definition example_hash :: "bytes \<Rightarrow> bytes" where
  "example_hash bs = map (\<lambda>b. b mod 256) bs"

lemma example_keys:
  "compute_step_key example_hash example_memo_config example_key_context tree (example_spec secrets) [] =
     Inr (hex (example_hash (key_preimage example_memo_config example_key_context (example_spec secrets)
       (digests_of example_memo_config example_key_context tree (example_spec secrets)) [])))"
  by (simp add: compute_step_key_def digests_of_def example_spec_def step_spec_new_def canonical_globs_def
      example_memo_config_def)

lemma example_key_ok:
  "key_ok example_memo_config example_key_context (example_spec secrets)
     (digests_of example_memo_config example_key_context tree (example_spec secrets)) []"
  if "secrets = [[65], [66]] \<or> secrets = [[66], [65]]"
  using that
  by (auto simp: key_ok_def digests_of_def example_spec_def step_spec_new_def canonical_globs_def example_key_context_def
      example_memo_config_def str_ok_def strs_ok_def pairs_ok_def fits_def utf8_def utf8_char_def scalar_def
      timeout_code_def trim_def is_whitespace_def)

lemma example_same_preimage:
  "key_preimage example_memo_config example_key_context (example_spec [[65], [66]])
     (digests_of example_memo_config example_key_context tree (example_spec [[65], [66]])) [] =
   key_preimage example_memo_config example_key_context (example_spec [[66], [65]])
     (digests_of example_memo_config example_key_context tree (example_spec [[66], [65]])) []"
  by (simp add: key_preimage_def digests_of_def example_spec_def canonical_globs_def set_field_def step_spec_new_def)

theorem step_key_identifies_work_witness:
  "same_work example_memo_config example_key_context (example_spec [[65], [66]])
     (digests_of example_memo_config example_key_context example_tree (example_spec [[65], [66]])) []
     example_memo_config example_key_context (example_spec [[66], [65]])
     (digests_of example_memo_config example_key_context example_tree (example_spec [[66], [65]])) []"
proof (rule step_key_identifies_work)
  show "compute_step_key example_hash example_memo_config example_key_context example_tree (example_spec [[65], [66]]) [] =
     Inr (hex (example_hash (key_preimage example_memo_config example_key_context (example_spec [[65], [66]])
       (digests_of example_memo_config example_key_context example_tree (example_spec [[65], [66]])) [])))"
    by (rule example_keys)
  show "compute_step_key example_hash example_memo_config example_key_context example_tree (example_spec [[66], [65]]) [] =
     Inr (hex (example_hash (key_preimage example_memo_config example_key_context (example_spec [[65], [66]])
       (digests_of example_memo_config example_key_context example_tree (example_spec [[65], [66]])) [])))"
    unfolding example_same_preimage by (rule example_keys)
qed (auto simp: example_key_ok example_same_preimage example_hash_def list_all_iff)

text \<open>A step gets a key only from declared inputs and from the keys of everything it needs: if the plan
  gives step \<open>i\<close> a key then it declares inputs, each of its needs names an earlier step that has a key,
  and its key is computed from exactly those keys.\<close>

theorem plan_keys_grounded:
  assumes "i < length specs" and "plan_step_keys blake3 memo ctx tree specs ! i = Inr k"
  shows "sp_inputs (specs ! i) \<noteq> [] \<and>
    (\<exists>deps. compute_step_key blake3 memo ctx tree (specs ! i) deps = Inr k \<and>
       list_all2 (\<lambda>need d. \<exists>p < i. sp_name (specs ! p) = need \<and> plan_step_keys blake3 memo ctx tree specs ! p = Inr d)
         (sp_needs (specs ! i)) deps)"
proof -
  let ?keys = "plan_step_keys blake3 memo ctx tree specs"
  from plan_step_keys_nth(2) [OF assms(1)] assms(2) obtain deps
    where deps: "dependency_keys specs (take i ?keys) (sp_needs (specs ! i)) = Inr deps"
      and k: "compute_step_key blake3 memo ctx tree (specs ! i) deps = Inr k"
    by (auto simp: spec_key_def split: sum.splits)
  have "list_all2 (\<lambda>need d. \<exists>p < i. sp_name (specs ! p) = need \<and> ?keys ! p = Inr d) (sp_needs (specs ! i)) deps"
    by (rule list_all2_mono [OF dependency_keys_Inr [OF deps]])
      (use assms(1) in \<open>auto simp: plan_step_keys_nth(1)\<close>)
  with k compute_step_key_Inr(2) [OF k] show ?thesis by blast
qed

lemma example_plan_keys:
  "plan_step_keys example_hash example_memo_config example_key_context example_tree [example_spec []] ! 0 =
     Inr (hex (example_hash (key_preimage example_memo_config example_key_context (example_spec [])
       (digests_of example_memo_config example_key_context example_tree (example_spec [])) [])))"
  using example_keys [of example_tree "[]"]
  by (simp add: plan_step_keys_def spec_key_def example_spec_def step_spec_new_def)

theorem plan_keys_grounded_witness:
  "sp_inputs ([example_spec []] ! 0) \<noteq> []"
  using plan_keys_grounded [OF _ example_plan_keys] by simp

end
