(* ===== verification/Ci_Control.thy ===== *)
theory Ci_Control
  imports Ci_Aggregate Ci_Select Ci_Store Ci_Claims Ci_Memo
begin

text \<open>
  The control plane (\<open>src/crates/hull-ci-control/src/control.rs\<close>): the state that \<open>Control\<close> owns and
  every method of it, composed the way the code composes them.

  The collaborators of \<open>Deps\<close> are fields of the record \<open>deps\<close>: functions on a state \<open>'w\<close> of the world
  outside (claim store, journal, fleet). The state behind the mutexes is the record \<open>control\<close>, and a
  method is a function on it. An \<open>async\<close> method is cut at its await points: a task is a job id and a
  \<open>position\<close>, \<open>task_step\<close> runs it to its next await point, and other tasks may change the state before it
  goes on. What lies between two await points runs without interruption. The clock readings, the
  fresh ids and the answers of the network are arguments; a spawned task is returned as its first
  position. Logging is left out.
\<close>

section \<open>The seams and the journal\<close>

record fetch_request =
  fr_tenant :: str
  fr_tree_id :: str
  fr_source_url :: str
  fr_fetch_token :: "str option"

datatype fetch_error = FetchUnwired | FetchFailed str | TreeMismatch

fun fetch_error_to_string :: "fetch_error \<Rightarrow> str" where
  "fetch_error_to_string FetchUnwired = lit ''no fetch broker is wired into this control plane''"
| "fetch_error_to_string (FetchFailed e) = lit ''fetch failed: '' @ e"
| "fetch_error_to_string TreeMismatch = lit ''archive did not verify against tree_id''"

datatype plan_error = PlanUnwired | PlanInvalid str

fun plan_error_to_string :: "plan_error \<Rightarrow> str" where
  "plan_error_to_string PlanUnwired = lit ''no planner is wired into this control plane''"
| "plan_error_to_string (PlanInvalid e) = lit ''pipeline is invalid: '' @ e"

datatype node_error = NodeUnwired | NoCapacity | Rejected str

fun node_error_to_string :: "node_error \<Rightarrow> str" where
  "node_error_to_string NodeUnwired = lit ''no node fleet is wired into this control plane''"
| "node_error_to_string NoCapacity = lit ''no capacity''"
| "node_error_to_string (Rejected e) = lit ''node rejected the assignment: '' @ e"

definition least_privilege :: "str \<Rightarrow> str \<Rightarrow> author_class" where
  "least_privilege repo author = Outsider"

record job_intent =
  ji_job_id :: job_id
  ji_repo :: str
  ji_tree_id :: str
  ji_callback_urls :: "str list"
  ji_accepted_at_unix :: nat
  ji_verdict :: "verdict option"

datatype journal_error = JournalWrite job_id str | JournalRead str

text \<open>\<open>NoJournal\<close>: every write succeeds and leaves no trace.\<close>

definition no_journal_record :: "job_intent \<Rightarrow> 'w \<Rightarrow> 'w \<times> (journal_error + unit)" where
  "no_journal_record intent w = (w, Inr ())"

definition no_journal_forget :: "job_id \<Rightarrow> 'w \<Rightarrow> 'w" where
  "no_journal_forget j w = w"

section \<open>Configuration and state\<close>

record control_config =
  cc_secret :: "str option"
  cc_timeouts :: timeouts
  cc_retry :: retry_policy
  cc_tier :: isolation_tier
  cc_lease_ttl :: duration
  cc_details_base_url :: "str option"
  cc_job_retention :: duration
  cc_max_jobs :: nat
  cc_redeliver_max_per_accept :: nat
  cc_redeliver_interval :: duration
  cc_fair_share :: fair_share
  cc_memo :: memo_config
  cc_claim_ttl :: duration

definition DEFAULT_LEASE :: duration where "DEFAULT_LEASE = secs 60"

definition control_config_default :: control_config where
  "control_config_default =
     \<lparr>cc_secret = None, cc_timeouts = timeouts_default, cc_retry = retry_policy_default,
      cc_tier = Container, cc_lease_ttl = secs 30, cc_details_base_url = None,
      cc_job_retention = secs (60 * 60), cc_max_jobs = 10000, cc_redeliver_max_per_accept = 2,
      cc_redeliver_interval = secs 60, cc_fair_share = fair_share_default,
      cc_memo = memo_config_default, cc_claim_ttl = DEFAULT_LEASE\<rparr>"

record 'w deps =
  dp_classify :: "str \<Rightarrow> str \<Rightarrow> author_class"
  dp_claims :: "claim_op \<Rightarrow> 'w \<Rightarrow> 'w \<times> claim_out"
  dp_needs_renewal :: bool
  dp_record :: "job_intent \<Rightarrow> 'w \<Rightarrow> 'w \<times> (journal_error + unit)"
  dp_forget :: "job_id \<Rightarrow> 'w \<Rightarrow> 'w"
  dp_assign :: "assignment \<Rightarrow> verified_tree \<Rightarrow> 'w \<Rightarrow> 'w \<times> (node_error + str)"
  dp_cancel :: "job_id \<Rightarrow> step_id \<Rightarrow> 'w \<Rightarrow> 'w"
  dp_blake3 :: "bytes \<Rightarrow> bytes"

text \<open>A \<open>Notify\<close> is the permit it stores.\<close>

record 'w control =
  c_config :: control_config
  c_jobs :: job_store
  c_queue :: fair_queue
  c_trees :: "(job_id \<times> verified_tree) list"
  c_wakers :: "(job_id \<times> bool) list"
  c_leases :: "(job_id \<times> drive_lease) list"
  c_memo :: step_memo_store
  c_world :: 'w

definition control_new :: "control_config \<Rightarrow> step_memo_store \<Rightarrow> 'w \<Rightarrow> 'w control" where
  "control_new config memo w =
     \<lparr>c_config = config, c_jobs = job_store_new, c_queue = fair_queue_new (cc_fair_share config),
      c_trees = [], c_wakers = [], c_leases = [], c_memo = memo, c_world = w\<rparr>"

record accepted =
  ac_job_id :: job_id
  ac_duplicate :: bool

datatype accept_error = NotClaimed claim_error | NotDurable journal_error

datatype report_rejected = UnknownJob | UnknownStep | NotLeaseHolder | NotInFlight | LeaseExpired

record memo_decision =
  md_key :: "step_key option"
  md_hit :: "memo_outcome option"

definition memo_decision_default :: memo_decision where
  "memo_decision_default = \<lparr>md_key = None, md_hit = None\<rparr>"

text \<open>The local variables of \<open>report\<close>, and the log of what it posted.\<close>

record report_acc =
  ra_attempted :: "str list"
  ra_attempts_total :: nat
  ra_any_delivered :: bool
  ra_sent :: "(callback_request \<times> delivery) list"

definition report_acc_init :: report_acc where
  "report_acc_init = \<lparr>ra_attempted = [], ra_attempts_total = 0, ra_any_delivered = False, ra_sent = []\<rparr>"

text \<open>Where a task is: the await points of \<open>drive\<close>, \<open>report\<close> and \<open>heartbeat\<close>, with the values they carry. In
  \<open>AtReport\<close> the list holds the requests of the current pass that are still to be sent, and the flag
  says that the report was called from the run of the job, whose driver retires the job after it.\<close>

datatype position =
    AtStart
  | AtFetch dispatch
  | AtPlan verified_tree
  | AtRun verified_tree "step_spec list"
  | AtLoop
  | AtReport report_acc "callback_request list" bool
  | AtBeat
  | AtEnd

type_synonym task = "job_id \<times> position"

definition report_start :: position where
  "report_start = AtReport report_acc_init [] False"

section \<open>Access to the state\<close>

definition with_job :: "'w control \<Rightarrow> job_id \<Rightarrow> (job \<Rightarrow> 'r) \<Rightarrow> 'r option" where
  "with_job c j f = map_option f (store_get (c_jobs c) j)"

definition with_job_mut :: "'w control \<Rightarrow> job_id \<Rightarrow> (job \<Rightarrow> job) \<Rightarrow> 'w control" where
  "with_job_mut c j f = c\<lparr>c_jobs := store_get_mut (c_jobs c) j f\<rparr>"

definition job_state_of :: "'w control \<Rightarrow> job_id \<Rightarrow> job_state option" where
  "job_state_of c j = with_job c j j_state"

definition verdict_of :: "'w control \<Rightarrow> job_id \<Rightarrow> verdict option" where
  "verdict_of c j = Option.bind (with_job c j j_verdict) id"

definition lease_of :: "'w control \<Rightarrow> job_id \<Rightarrow> drive_lease option" where
  "lease_of c j = map_of (c_leases c) j"

definition drop_lease :: "'w control \<Rightarrow> job_id \<Rightarrow> 'w control" where
  "drop_lease c j = c\<lparr>c_leases := AList.delete j (c_leases c)\<rparr>"

definition on_queue :: "(fair_queue \<Rightarrow> fair_queue) \<Rightarrow> 'w control \<Rightarrow> 'w control" where
  "on_queue f c = c\<lparr>c_queue := f (c_queue c)\<rparr>"

definition call_claims :: "'w deps \<Rightarrow> claim_op \<Rightarrow> 'w control \<Rightarrow> 'w control \<times> claim_out" where
  "call_claims D op c = (let (w, out) = dp_claims D op (c_world c) in (c\<lparr>c_world := w\<rparr>, out))"

text \<open>The answers of the trait's methods, read out of the sum of all answers. An answer of another
  method's shape is not possible; it reads as an unavailable store.\<close>

definition NO_ANSWER :: claim_error where "NO_ANSWER = Unavailable []"

fun as_admit :: "claim_out \<Rightarrow> claim_error + admitted" where
  "as_admit (OutAdmit r) = r" | "as_admit _ = Inl NO_ANSWER"

fun as_step :: "claim_out \<Rightarrow> claim_error + step_claim" where
  "as_step (OutStep r) = r" | "as_step _ = Inl NO_ANSWER"

fun as_renew :: "claim_out \<Rightarrow> claim_error + bool" where
  "as_renew (OutRenew r) = r" | "as_renew _ = Inl NO_ANSWER"

fun as_urls :: "claim_out \<Rightarrow> claim_error + str list" where
  "as_urls (OutUrls r) = r" | "as_urls _ = Inl NO_ANSWER"

definition waker :: "'w control \<Rightarrow> job_id \<Rightarrow> 'w control" where
  "waker c j =
     (case map_of (c_wakers c) j of
        Some _ \<Rightarrow> c
      | None \<Rightarrow> c\<lparr>c_wakers := AList.update j False (c_wakers c)\<rparr>)"

definition wake :: "'w control \<Rightarrow> job_id \<Rightarrow> 'w control" where
  "wake c j =
     (case map_of (c_wakers c) j of
        Some _ \<Rightarrow> c\<lparr>c_wakers := AList.update j True (c_wakers c)\<rparr>
      | None \<Rightarrow> c)"

definition set_state :: "'w control \<Rightarrow> job_id \<Rightarrow> job_state \<Rightarrow> instant \<Rightarrow> 'w control" where
  "set_state c j next now = with_job_mut c j (\<lambda>b. job_try b next now)"

definition job_view_of :: "job \<Rightarrow> fair_share \<Rightarrow> job_view" where
  "job_view_of b cfg =
     \<lparr>jv_job_id = j_id b, jv_tenant = tenant (j_dispatch b), jv_priority = fs_prioritizer cfg (j_dispatch b),
      jv_steps = map (\<lambda>s. \<lparr>sv_step_id = s_id s, sv_name = sp_name (s_spec s), sv_state = s_state s,
        sv_started_at = s_started_at s, sv_finished_at = s_finished_at s\<rparr>) (j_steps b)\<rparr>"

definition queue_depth :: "'w control \<Rightarrow> str \<Rightarrow> depth_view" where
  "queue_depth c name = depth (c_queue c) name"

definition queue_admission :: "'w control \<Rightarrow> str \<Rightarrow> instant \<Rightarrow> admission_view" where
  "queue_admission c name now = admission (c_queue c) name now"

definition queue_node_seconds :: "'w control \<Rightarrow> str \<Rightarrow> instant \<Rightarrow> rat" where
  "queue_node_seconds c name now = node_seconds_used (c_queue c) name now"

section \<open>The delivery claim and the journal entry\<close>

definition claim_delivery :: "'w control \<Rightarrow> job_id \<Rightarrow> instant \<Rightarrow> 'w control \<times> bool" where
  "claim_delivery c j now =
     (case store_get (c_jobs c) j of
        None \<Rightarrow> (c, False)
      | Some b \<Rightarrow>
          if j_delivering b then (c, False)
          else (with_job_mut c j (\<lambda>b. b\<lparr>j_delivering := True, j_last_delivery_at := Some now\<rparr>), True))"

definition claim_delivery_if_parked :: "'w control \<Rightarrow> job_id \<Rightarrow> instant \<Rightarrow> 'w control \<times> bool" where
  "claim_delivery_if_parked c j now =
     (case store_get (c_jobs c) j of
        None \<Rightarrow> (c, False)
      | Some b \<Rightarrow>
          if \<not> awaits_redelivery b now (cc_redeliver_interval (c_config c)) then (c, False)
          else (with_job_mut c j (\<lambda>b. b\<lparr>j_delivering := True, j_last_delivery_at := Some now\<rparr>), True))"

definition release_delivery :: "'w control \<Rightarrow> job_id \<Rightarrow> instant \<Rightarrow> 'w control" where
  "release_delivery c j now =
     with_job_mut c j (\<lambda>b. b\<lparr>j_delivering := False, j_last_delivery_at := Some now\<rparr>)"

definition intent_of :: "job \<Rightarrow> verdict option \<Rightarrow> nat \<Rightarrow> job_intent" where
  "intent_of b v unix =
     \<lparr>ji_job_id = j_id b, ji_repo = d_repo (j_dispatch b), ji_tree_id = d_tree_id (j_dispatch b),
      ji_callback_urls = j_callback_urls b, ji_accepted_at_unix = unix, ji_verdict = v\<rparr>"

definition journal_record :: "'w deps \<Rightarrow> 'w control \<Rightarrow> job_id \<Rightarrow> verdict option \<Rightarrow> nat \<Rightarrow>
    'w control \<times> (journal_error + unit)" where
  "journal_record D c j v unix =
     (case store_get (c_jobs c) j of
        None \<Rightarrow> (c, Inr ())
      | Some b \<Rightarrow>
          let (w, r) = dp_record D (intent_of b v unix) (c_world c) in (c\<lparr>c_world := w\<rparr>, r))"

definition journal_forget :: "'w deps \<Rightarrow> job_id \<Rightarrow> 'w control \<Rightarrow> 'w control" where
  "journal_forget D j c = c\<lparr>c_world := dp_forget D j (c_world c)\<rparr>"

section \<open>Reports from the nodes\<close>

definition accepted_log_key :: "str option \<Rightarrow> str \<Rightarrow> str option" where
  "accepted_log_key reported expected_prefix =
     (case reported of
        None \<Rightarrow> None
      | Some key \<Rightarrow>
          (case check_log_key key of
             Inl _ \<Rightarrow> None
           | Inr _ \<Rightarrow> if take (length expected_prefix) key = expected_prefix then Some key else None))"

definition log_prefix :: "job \<Rightarrow> str" where
  "log_prefix b = tenant (j_dispatch b) @ [slash] @ d_repo (j_dispatch b) @ [slash] @ d_tree_id (j_dispatch b) @ [slash]"

fun outcome_state :: "step_outcome \<Rightarrow> step_state" where
  "outcome_state OutPassed = SPassed"
| "outcome_state OutFailed = SFailed"
| "outcome_state OutErrored = SErrored"

text \<open>The checks \<open>record_step_report\<close> makes on the step, in its order.\<close>

definition report_check :: "step \<Rightarrow> step_report \<Rightarrow> str \<Rightarrow> instant \<Rightarrow> report_rejected + step" where
  "report_check s rep from_node now =
     (if s_state s \<notin> {SLeased, SRunning} then Inl NotInFlight
      else if s_node_id s \<noteq> Some from_node then Inl NotLeaseHolder
      else if (case s_lease_expires_at s of Some t \<Rightarrow> now > t | None \<Rightarrow> False) then Inl LeaseExpired
      else case step_transition s (outcome_state (r_outcome rep)) of
          Inl _ \<Rightarrow> Inl NotInFlight
        | Inr s' \<Rightarrow> Inr s')"

definition apply_report :: "step \<Rightarrow> step_report \<Rightarrow> str \<Rightarrow> instant \<Rightarrow> step" where
  "apply_report s' rep prefix now =
     s'\<lparr>s_exit_code := r_exit_code rep,
        s_log_key := accepted_log_key (r_log_key rep) prefix,
        s_detail := sanitize_summary (r_detail rep) SUMMARY_MAX_CHARS,
        s_finished_at := Some now,
        s_error_reason := (if outcome_state (r_outcome rep) = SErrored then Some Infra else s_error_reason s')\<rparr>"

definition record_step_report :: "'w control \<Rightarrow> step_report \<Rightarrow> str \<Rightarrow> instant \<Rightarrow>
    'w control \<times> (report_rejected + unit)" where
  "record_step_report c rep from_node now =
     (case store_get (c_jobs c) (r_job_id rep) of
        None \<Rightarrow> (c, Inl UnknownJob)
      | Some b \<Rightarrow>
          (case job_step b (r_step_id rep) of
             None \<Rightarrow> (c, Inl UnknownStep)
           | Some s \<Rightarrow>
               (case report_check s rep from_node now of
                  Inl e \<Rightarrow> (c, Inl e)
                | Inr s' \<Rightarrow>
                    let c1 = with_job_mut c (r_job_id rep) (\<lambda>b. job_step_mut b (r_step_id rep)
                              (\<lambda>_. apply_report s' rep (log_prefix b) now));
                        c2 = (case (s_memo_key s', memo_from_state (outcome_state (r_outcome rep))) of
                            (Some key, Some outcome) \<Rightarrow>
                              c1\<lparr>c_memo := memo_record (c_memo c1) (tenant (j_dispatch b)) key outcome now\<rparr>
                          | _ \<Rightarrow> c1)
                    in (wake c2 (r_job_id rep), Inr ()))))"

definition renew_lease :: "'w control \<Rightarrow> job_id \<Rightarrow> step_id \<Rightarrow> str \<Rightarrow> instant \<Rightarrow>
    'w control \<times> (report_rejected + unit)" where
  "renew_lease c j i from_node now =
     (case store_get (c_jobs c) j of
        None \<Rightarrow> (c, Inl UnknownJob)
      | Some b \<Rightarrow>
          (case job_step b i of
             None \<Rightarrow> (c, Inl UnknownStep)
           | Some s \<Rightarrow>
               if s_node_id s \<noteq> Some from_node then (c, Inl NotLeaseHolder)
               else if s_state s \<notin> {SLeased, SRunning} then (c, Inl NotInFlight)
               else (with_job_mut c j (\<lambda>b. job_step_mut b i (\<lambda>s.
                       let s1 = s\<lparr>s_lease_expires_at := Some (now + cc_lease_ttl (c_config c))\<rparr>
                       in if s_state s1 = SLeased then step_try s1 SRunning else s1)),
                     Inr ())))"

section \<open>Dispatching granted steps\<close>

definition assignment_of :: "control_config \<Rightarrow> job \<Rightarrow> step \<Rightarrow> assignment" where
  "assignment_of cfg b s =
     \<lparr>a_job_id = j_id b, a_step_id = s_id s, a_step_name = sp_name (s_spec s),
      a_tenant = tenant (j_dispatch b), a_repo = d_repo (j_dispatch b), a_tree_id = d_tree_id (j_dispatch b),
      a_argv = sp_argv (s_spec s), a_secrets = sp_secrets (s_spec s), a_image = sp_image (s_spec s),
      a_tier = cc_tier cfg, a_author_class = j_author_class b,
      a_timeout_secs = as_secs (step_timeout (cc_timeouts cfg) (sp_timeout (s_spec s))),
      a_lease_secs = as_secs (cc_lease_ttl cfg)\<rparr>"

definition assignment_for :: "'w control \<Rightarrow> grant \<Rightarrow> (assignment \<times> verified_tree) option" where
  "assignment_for c g =
     (case map_of (c_trees c) (g_job_id g) of
        None \<Rightarrow> None
      | Some tree \<Rightarrow>
          (case store_get (c_jobs c) (g_job_id g) of
             None \<Rightarrow> None
           | Some b \<Rightarrow>
               (case job_step b (g_step_id g) of
                  None \<Rightarrow> None
                | Some s \<Rightarrow> Some (assignment_of (c_config c) b s, tree))))"

text \<open>What the fleet's answer makes of the step: \<open>None\<close> when the step would not move.\<close>

definition assigned_step :: "control_config \<Rightarrow> instant \<Rightarrow> node_error + str \<Rightarrow> step \<Rightarrow> step option" where
  "assigned_step cfg now result s =
     (case result of
        Inr node_id \<Rightarrow>
          (case step_transition s SLeased of
             Inl _ \<Rightarrow> None
           | Inr s' \<Rightarrow>
               Some (s'\<lparr>s_node_id := Some node_id, s_attempt := s_attempt s' + 1, s_started_at := Some now,
                 s_lease_expires_at := Some (now + max (cc_lease_ttl cfg) (t_step (cc_timeouts cfg)))\<rparr>))
      | Inl e \<Rightarrow>
          (case step_transition s SErrored of
             Inl _ \<Rightarrow> None
           | Inr s' \<Rightarrow>
               Some (s'\<lparr>s_error_reason := Some Infra,
                 s_detail := sanitize_summary (node_error_to_string e) SUMMARY_MAX_CHARS,
                 s_finished_at := Some now\<rparr>)))"

definition settle_assignment :: "'w control \<Rightarrow> grant \<Rightarrow> assignment \<Rightarrow> node_error + str \<Rightarrow> instant \<Rightarrow>
    'w control \<times> bool" where
  "settle_assignment c g a result now =
     (if result = Inl NoCapacity
      then (on_queue (\<lambda>q. requeue q (g_job_id g) (g_step_id g) (a_step_name a) now) c, False)
      else
        case Option.bind (store_get (c_jobs c) (g_job_id g)) (\<lambda>b.
               Option.bind (job_step b (g_step_id g)) (assigned_step (c_config c) now result)) of
          Some s' \<Rightarrow>
            let c1 = with_job_mut c (g_job_id g) (\<lambda>b. job_step_mut b (g_step_id g) (\<lambda>_. s'))
            in (if (case result of Inl _ \<Rightarrow> True | Inr _ \<Rightarrow> False)
                then on_queue (\<lambda>q. release q (g_job_id g) (g_step_id g) now) c1 else c1, True)
        | None \<Rightarrow> (on_queue (\<lambda>q. release q (g_job_id g) (g_step_id g) now) c, False))"

text \<open>One grant of the loop of \<open>pump\<close>: claim the step, hand it to the fleet, settle the answer. The
  result says whether the step left \<open>ready\<close>.\<close>

definition pump_grant :: "'w deps \<Rightarrow> instant \<Rightarrow> int \<Rightarrow> grant \<Rightarrow> 'w control \<Rightarrow> 'w control \<times> bool" where
  "pump_grant D now now_ms g c =
     (let give_back = on_queue (\<lambda>q. release q (g_job_id g) (g_step_id g) now) in
      case assignment_for c g of
        None \<Rightarrow> (give_back c, False)
      | Some (a, tree) \<Rightarrow>
          (case lease_of c (g_job_id g) of
             None \<Rightarrow> (give_back c, False)
           | Some lease \<Rightarrow>
               (case call_claims D (ClaimStep lease (g_step_id g) now_ms) c of
                  (c1, out) \<Rightarrow>
                    (case as_step out of
                       Inl _ \<Rightarrow>
                         (on_queue (\<lambda>q. requeue q (g_job_id g) (g_step_id g) (a_step_name a) now) c1, False)
                     | Inr (Taken _) \<Rightarrow> (give_back c1, False)
                     | Inr (Fenced _) \<Rightarrow> (give_back (drop_lease c1 (g_job_id g)), False)
                     | Inr Granted \<Rightarrow>
                         (case dp_assign D a tree (c_world c1) of
                            (w, result) \<Rightarrow>
                              let c2 = c1\<lparr>c_world := w\<rparr>;
                                  c3 = (if result = Inl NoCapacity
                                        then fst (call_claims D (ReleaseStep lease (g_step_id g)) c2) else c2)
                              in settle_assignment c3 g a result now)))))"

fun pump_loop :: "'w deps \<Rightarrow> instant \<Rightarrow> int \<Rightarrow> job_id option \<Rightarrow> grant list \<Rightarrow> bool \<Rightarrow> job_id list \<Rightarrow>
    'w control \<Rightarrow> 'w control \<times> bool \<times> job_id list" where
  "pump_loop D now now_ms on_behalf_of [] moved_here woken c = (c, moved_here, woken)"
| "pump_loop D now now_ms on_behalf_of (g # gs) moved_here woken c =
     (case pump_grant D now now_ms g c of
        (c1, moved) \<Rightarrow>
          if \<not> moved then pump_loop D now now_ms on_behalf_of gs moved_here woken c1
          else if on_behalf_of = Some (g_job_id g) then pump_loop D now now_ms on_behalf_of gs True woken c1
          else pump_loop D now now_ms on_behalf_of gs moved_here
                 (if g_job_id g \<in> set woken then woken else woken @ [g_job_id g]) c1)"

definition pump :: "'w deps \<Rightarrow> instant \<Rightarrow> int \<Rightarrow> job_id option \<Rightarrow> 'w control \<Rightarrow> 'w control \<times> bool" where
  "pump D now now_ms on_behalf_of c =
     (let q1 = (case Option.bind on_behalf_of (store_get (c_jobs c)) of
            Some b \<Rightarrow> reconcile (c_queue c) (job_view_of b (cc_fair_share (c_config c))) now
          | None \<Rightarrow> c_queue c);
          (q2, grants) = select q1 now;
          (c2, moved_here, woken) =
            pump_loop D now now_ms on_behalf_of grants False [] (c\<lparr>c_queue := q2\<rparr>)
      in (fold (\<lambda>j c. wake c j) woken c2, moved_here))"

definition retire :: "'w deps \<Rightarrow> instant \<Rightarrow> int \<Rightarrow> job_id \<Rightarrow> 'w control \<Rightarrow> 'w control" where
  "retire D now now_ms j c =
     (let c1 = drop_lease (c\<lparr>c_trees := AList.delete j (c_trees c)\<rparr>) j
      in fst (pump D now now_ms None (on_queue (\<lambda>q. forget_job q j now) c1)))"

fun cancel_steps :: "'w deps \<Rightarrow> job_id \<Rightarrow> step_id list \<Rightarrow> 'w control \<Rightarrow> 'w control" where
  "cancel_steps D j [] c = c"
| "cancel_steps D j (i # is) c =
     (let running = (case Option.bind (store_get (c_jobs c) j) (\<lambda>b. job_step b i) of
            Some s \<Rightarrow> s_state s \<in> {SLeased, SRunning} | None \<Rightarrow> False);
          c1 = (if running then c\<lparr>c_world := dp_cancel D j i (c_world c)\<rparr> else c)
      in cancel_steps D j is (with_job_mut c1 j (\<lambda>b. job_step_mut b i (\<lambda>s. step_try s SSkipped))))"

section \<open>The callback sender\<close>

definition merge_urls :: "str list \<Rightarrow> job \<Rightarrow> job" where
  "merge_urls urls b = fold (\<lambda>u b. fst (add_callback_url b u)) urls b"

definition merge_destinations :: "'w deps \<Rightarrow> job_id \<Rightarrow> 'w control \<Rightarrow> 'w control" where
  "merge_destinations D j c =
     (case call_claims D (Destinations j) c of
        (c1, out) \<Rightarrow>
          (case as_urls out of
             Inr urls \<Rightarrow> with_job_mut c1 j (merge_urls urls)
           | Inl _ \<Rightarrow> c1))"

definition callback_requests :: "'w control \<Rightarrow> job_id \<Rightarrow> str list \<Rightarrow> callback_request list option" where
  "callback_requests c j attempted =
     Option.bind (store_get (c_jobs c) j) (\<lambda>b.
       map_option (\<lambda>v.
         map (\<lambda>url. \<lparr>cb_url = url, cb_secret = cc_secret (c_config c), cb_verdict = v, cb_job_id = j_id b\<rparr>)
           (filter (\<lambda>url. url \<notin> set attempted) (j_callback_urls b)))
       (j_verdict b))"

definition acc_push :: "callback_request \<Rightarrow> delivery \<Rightarrow> report_acc \<Rightarrow> report_acc" where
  "acc_push req outcome acc =
     acc\<lparr>ra_attempted := ra_attempted acc @ [cb_url req],
         ra_attempts_total := ra_attempts_total acc + attempts outcome,
         ra_any_delivered := (ra_any_delivered acc \<or> is_delivered outcome),
         ra_sent := ra_sent acc @ [(req, outcome)]\<rparr>"

type_synonym transport = "callback_request \<Rightarrow> nat \<Rightarrow> str + nat"

definition post_one :: "transport \<Rightarrow> job_id \<Rightarrow> callback_request \<Rightarrow> report_acc \<Rightarrow> 'w control \<Rightarrow>
    'w control \<times> report_acc" where
  "post_one post j req acc c =
     (case deliver_reporting (post req) (cc_retry (c_config c)) of
        (outcome, progress) \<Rightarrow>
          (fold (\<lambda>p c. with_job_mut c j (\<lambda>b. b\<lparr>j_delivery := Some p\<rparr>)) progress c,
           acc_push req outcome acc))"

definition report_settle :: "'w deps \<Rightarrow> job_id \<Rightarrow> instant \<Rightarrow> report_acc \<Rightarrow> 'w control \<Rightarrow> 'w control" where
  "report_settle D j now acc c =
     (if ra_attempted acc = [] then release_delivery c j now
      else
        let c1 = with_job_mut c j (\<lambda>b. b\<lparr>j_delivery := None\<rparr>);
            c2 = with_job_mut c1 j (\<lambda>b.
                   job_try (b\<lparr>j_report_attempts := j_report_attempts b + ra_attempts_total acc\<rparr>)
                     (if ra_any_delivered acc then JReported else JReportFailed) now);
            c3 = (if ra_any_delivered acc
                  then (journal_forget D j c2)\<lparr>c_wakers := AList.delete j (c_wakers c2)\<rparr>
                  else c2)
        in release_delivery c3 j now)"

section \<open>The verdict\<close>

definition details_url_of :: "control_config \<Rightarrow> job_id \<Rightarrow> str option" where
  "details_url_of cfg j =
     map_option (\<lambda>b. rev (dropWhile (\<lambda>ch. ch = slash) (rev b)) @ lit ''/jobs/'' @ j) (cc_details_base_url cfg)"

definition decide :: "control_config \<Rightarrow> job_id \<Rightarrow> verdict \<Rightarrow> verdict" where
  "decide cfg j v = (case details_url_of cfg j of Some url \<Rightarrow> with_details_url v url | None \<Rightarrow> v)"

text \<open>\<open>finish\<close> up to its call of \<open>report\<close>; the result says whether that call is made.\<close>

definition finish_record :: "'w deps \<Rightarrow> instant \<Rightarrow> int \<Rightarrow> nat \<Rightarrow> job_id \<Rightarrow> verdict \<Rightarrow> 'w control \<Rightarrow> 'w control \<times> bool" where
  "finish_record D now now_ms unix j verdict c =
     (case store_get (c_jobs c) j of
        None \<Rightarrow> (c, False)
      | Some b \<Rightarrow>
          if has_verdict (j_state b) then (c, False)
          else
            let v = decide (c_config c) j verdict;
                c1 = with_job_mut c j (\<lambda>b. (job_try b (from_status (v_status v)) now)\<lparr>j_verdict := Some v\<rparr>);
                decided = verdict_of c1 j;
                c2 = (case (lease_of c1 j, decided) of
                    (Some lease, Some v) \<Rightarrow> fst (call_claims D (Settle lease v now_ms) c1)
                  | _ \<Rightarrow> c1);
                c3 = fst (journal_record D c2 j decided unix)
            in claim_delivery (retire D now now_ms j c3) j now)"

text \<open>The clock readings between two await points: the monotonic clock, and the wall clock in
  milliseconds and in seconds.\<close>

record clock =
  ck_now :: instant
  ck_ms :: int
  ck_unix :: nat

section \<open>The phases of a job\<close>

definition fetch_request_of :: "dispatch \<Rightarrow> fetch_request" where
  "fetch_request_of d =
     \<lparr>fr_tenant = tenant d, fr_tree_id = d_tree_id d, fr_source_url = d_source_url d,
      fr_fetch_token = d_fetch_token d\<rparr>"

text \<open>\<open>fetch\<close> answers \<open>None\<close> when the timeout elapsed first.\<close>

definition phase_fetch :: "(fetch_request \<Rightarrow> (fetch_error + verified_tree) option) \<Rightarrow> instant \<Rightarrow> job_id \<Rightarrow> dispatch \<Rightarrow>
    'w control \<Rightarrow> 'w control \<times> (verdict + verified_tree)" where
  "phase_fetch fetch now j d c =
     (let c1 = set_state c j JFetching now;
          limit = t_fetch (cc_timeouts (c_config c))
      in (c1,
          case fetch (fetch_request_of d) of
            None \<Rightarrow> Inl (expiry_verdict ExFetch limit)
          | Some (Inl e) \<Rightarrow>
              Inl (verdict_errored Infra
                (sanitize_summary (lit ''could not fetch the source tree: '' @ fetch_error_to_string e) SUMMARY_MAX_CHARS))
          | Some (Inr tree) \<Rightarrow>
              if \<not> eq_ignore_ascii_case (vt_tree_id tree) (trim (d_tree_id d))
              then Inl (verdict_errored Infra
                (lit ''the fetch broker materialized a different tree than the one dispatched''))
              else Inr tree))"

definition phase_plan :: "(verified_tree \<Rightarrow> plan_error + step_spec list) \<Rightarrow> instant \<Rightarrow> job_id \<Rightarrow> verified_tree \<Rightarrow>
    'w control \<Rightarrow> 'w control \<times> (verdict + step_spec list)" where
  "phase_plan planner now j tree c =
     (set_state c j JPlanning now,
      case planner tree of
        Inr specs \<Rightarrow>
          if specs = [] then Inl (dc_verdict (the (fold_decision (fold_steps [] 0)))) else Inr specs
      | Inl e \<Rightarrow>
          Inl (verdict_errored Infra
            (sanitize_summary (lit ''could not plan the job: '' @ plan_error_to_string e) SUMMARY_MAX_CHARS)))"

fun memo_decisions :: "str \<Rightarrow> instant \<Rightarrow> step_spec list \<Rightarrow> key_result list \<Rightarrow> step_memo_store \<Rightarrow>
    step_memo_store \<times> memo_decision list" where
  "memo_decisions name now [] keys ms = (ms, [])"
| "memo_decisions name now (spec # specs) keys ms =
     (case (case keys of [] \<Rightarrow> Inl NoInputs | k # _ \<Rightarrow> k) of
        Inr key \<Rightarrow>
          (let (ms1, hit) = memo_lookup ms name key now;
               (ms2, ds) = memo_decisions name now specs (tl keys) ms1
           in (ms2, \<lparr>md_key = Some key, md_hit = hit\<rparr> # ds))
      | Inl why \<Rightarrow>
          (let (ms2, ds) = memo_decisions name now specs (tl keys) ms
           in (ms2, memo_decision_default # ds)))"

text \<open>\<open>joined\<close> says whether the task that derives the keys ended without a panic.\<close>

definition phase_memo :: "'w deps \<Rightarrow> bool \<Rightarrow> instant \<Rightarrow> job_key_context \<Rightarrow> verified_tree \<Rightarrow> step_spec list \<Rightarrow>
    'w control \<Rightarrow> 'w control \<times> memo_decision list" where
  "phase_memo D joined now ctx tree specs c =
     (if \<not> memo_enabled (cc_memo (c_config c)) then (c, replicate (length specs) memo_decision_default)
      else
        let keys = (if joined then plan_step_keys (dp_blake3 D) (cc_memo (c_config c)) ctx tree specs else []);
            (ms, ds) = memo_decisions (kc_tenant ctx) now specs keys (c_memo c)
        in (c\<lparr>c_memo := ms\<rparr>, ds))"

definition MEMO_FAILED_DETAIL :: str where
  "MEMO_FAILED_DETAIL = lit ''identical inputs failed recently (step memo)''"

definition planned_step :: "instant \<Rightarrow> step_id \<Rightarrow> step_spec \<Rightarrow> memo_decision \<Rightarrow> step" where
  "planned_step now i spec d =
     (let s = (step_new i spec)\<lparr>s_memo_key := md_key d\<rparr>
      in case md_hit d of
           Some MemoPassed \<Rightarrow> (step_try s SCached)\<lparr>s_finished_at := Some now\<rparr>
         | Some MemoFailed \<Rightarrow>
             (step_try s SFailed)\<lparr>s_detail := MEMO_FAILED_DETAIL, s_finished_at := Some now\<rparr>
         | None \<Rightarrow> s)"

definition planned_steps :: "instant \<Rightarrow> (nat \<Rightarrow> step_id) \<Rightarrow> step_spec list \<Rightarrow> memo_decision list \<Rightarrow> step list" where
  "planned_steps now ids specs ds =
     map (\<lambda>(i, spec, d). planned_step now (ids i) spec d) (zip [0..<length specs] (zip specs ds))"

text \<open>\<open>phase_run\<close> up to its loop; \<open>False\<close> when the job is gone.\<close>

definition phase_run_start :: "'w deps \<Rightarrow> bool \<Rightarrow> (nat \<Rightarrow> step_id) \<Rightarrow> instant \<Rightarrow> job_id \<Rightarrow> verified_tree \<Rightarrow>
    step_spec list \<Rightarrow> 'w control \<Rightarrow> 'w control \<times> bool" where
  "phase_run_start D joined ids now j tree specs c =
     (let c1 = c\<lparr>c_trees := AList.update j tree (c_trees c)\<rparr>
      in case store_get (c_jobs c1) j of
           None \<Rightarrow> (c1, False)
         | Some b \<Rightarrow>
             let ctx = \<lparr>kc_tenant = tenant (j_dispatch b), kc_tier = cc_tier (c_config c1),
                        kc_author_class = j_author_class b\<rparr>;
                 (c2, ds) = phase_memo D joined now ctx tree specs c1;
                 c3 = with_job_mut c2 j (\<lambda>b. let b1 = job_try b JRunning now
                        in b1\<lparr>j_steps := j_steps b1 @ planned_steps now ids specs ds\<rparr>)
             in (waker c3 j, True))"

datatype run_next = NextDecided decision | NextJobTimeout | NextWait instant

text \<open>The locked section of an iteration: sweep, advance, fold.\<close>

definition run_decide :: "control_config \<Rightarrow> instant \<Rightarrow> job \<Rightarrow> job \<times> run_next" where
  "run_decide cfg now b =
     (let steps = fst (advance (fst (sweep (j_steps b) (cc_timeouts cfg) now)) now);
          b1 = b\<lparr>j_steps := steps\<rparr>
      in (b1,
          if now \<ge> j_deadline_at b1 then NextJobTimeout
          else case fold_steps steps (now - j_created_at b1) of
              Decided d \<Rightarrow> NextDecided d
            | Undecided \<Rightarrow>
                NextWait (case next_step_deadline steps (cc_timeouts cfg) of
                    None \<Rightarrow> j_deadline_at b1
                  | Some t \<Rightarrow> min t (j_deadline_at b1))))"

datatype pass_out = PassGone | PassFinish verdict | PassAgain | PassSleep instant

definition run_pass :: "'w deps \<Rightarrow> instant \<Rightarrow> int \<Rightarrow> job_id \<Rightarrow> 'w control \<Rightarrow> 'w control \<times> pass_out" where
  "run_pass D now now_ms j c =
     (case store_get (c_jobs c) j of
        None \<Rightarrow> (c, PassGone)
      | Some b \<Rightarrow>
          (case run_decide (c_config c) now b of
             (b1, next) \<Rightarrow>
               let c1 = with_job_mut c j (\<lambda>_. b1)
               in case next of
                    NextDecided d \<Rightarrow> (cancel_steps D j (dc_cancel d) c1, PassFinish (dc_verdict d))
                  | NextJobTimeout \<Rightarrow>
                      (cancel_steps D j (map s_id (filter (\<lambda>s. is_in_flight (s_state s)) (j_steps b1))) c1,
                       PassFinish (expiry_verdict ExJob (t_job (cc_timeouts (c_config c)))))
                  | NextWait deadline \<Rightarrow>
                      (case pump D now now_ms (Some j) c1 of
                         (c2, moved) \<Rightarrow> (c2, if moved then PassAgain else PassSleep deadline))))"

section \<open>The heartbeat\<close>

definition as_millis_i64 :: "duration \<Rightarrow> int" where
  "as_millis_i64 d = (int (d div 1000000) + 2 ^ 63) mod 2 ^ 64 - 2 ^ 63"

text \<open>One beat, after the sleep; the result says whether the heartbeat goes on.\<close>

definition heartbeat :: "'w deps \<Rightarrow> int \<Rightarrow> job_id \<Rightarrow> 'w control \<Rightarrow> 'w control \<times> bool" where
  "heartbeat D now_ms j c =
     (case lease_of c j of
        None \<Rightarrow> (c, False)
      | Some lease \<Rightarrow>
          (case call_claims D (Renew lease now_ms (as_millis_i64 (cc_claim_ttl (c_config c)))) c of
             (c1, out) \<Rightarrow>
               (case as_renew out of
                  Inr True \<Rightarrow> (c1, True)
                | Inr False \<Rightarrow> (drop_lease c1 j, False)
                | Inl _ \<Rightarrow> (c1, True))))"

section \<open>Ingest\<close>

definition record_foreign_verdict :: "job_id \<Rightarrow> dispatch \<Rightarrow> author_class \<Rightarrow> instant \<Rightarrow> verdict \<Rightarrow> 'w control \<Rightarrow> 'w control" where
  "record_foreign_verdict j d ac now v c =
     with_job_mut (c\<lparr>c_jobs := store_insert (c_jobs c) j d ac now (t_job (cc_timeouts (c_config c)))\<rparr>) j
       (\<lambda>b. b\<lparr>j_state := from_status (v_status v), j_verdict := Some v, j_settled_at := Some now\<rparr>)"

definition due_for_redelivery :: "'w control \<Rightarrow> job_id \<Rightarrow> instant \<Rightarrow> job_id list" where
  "due_for_redelivery c just_admitted now =
     map snd (sort_key fst
       (map (\<lambda>(k, b). (case j_last_delivery_at b of Some t \<Rightarrow> t | None \<Rightarrow> j_created_at b, j_id b))
         (filter (\<lambda>(k, b). j_id b \<noteq> just_admitted \<and> awaits_redelivery b now (cc_redeliver_interval (c_config c)))
           (by_id (c_jobs c)))))"

fun drain_loop :: "instant \<Rightarrow> job_id list \<Rightarrow> 'w control \<Rightarrow> 'w control \<times> task list" where
  "drain_loop now [] c = (c, [])"
| "drain_loop now (j # js) c =
     (case claim_delivery_if_parked c j now of
        (c1, claimed) \<Rightarrow>
          (case drain_loop now js c1 of (c2, ts) \<Rightarrow> (c2, if claimed then (j, report_start) # ts else ts)))"

definition drain_undelivered :: "'w control \<Rightarrow> job_id \<Rightarrow> instant \<Rightarrow> 'w control \<times> task list" where
  "drain_undelivered c just_admitted now =
     drain_loop now (take (cc_redeliver_max_per_accept (c_config c)) (due_for_redelivery c just_admitted now)) c"

datatype accept_next = NextDrive | NextAttachedHere | NextAttachedElsewhere | NextReReport

definition accept_claimed :: "dispatch \<Rightarrow> author_class \<Rightarrow> instant \<Rightarrow> admitted \<Rightarrow> 'w control \<Rightarrow>
    'w control \<times> accept_next" where
  "accept_claimed d ac now adm c =
     (let j = admitted_job_id adm in
      case adm of
        Created lease \<Rightarrow>
          (c\<lparr>c_leases := AList.update j lease (c_leases c),
             c_jobs := store_insert (c_jobs c) j d ac now (t_job (cc_timeouts (c_config c)))\<rparr>, NextDrive)
      | Attached _ owner verdict \<Rightarrow>
          (case store_get (c_jobs c) j of
             Some b \<Rightarrow>
               (with_job_mut c j (\<lambda>b. fst (add_callback_url b (d_callback_url d))),
                if is_finished (j_state b) \<and> j_verdict b \<noteq> None then NextReReport else NextAttachedHere)
           | None \<Rightarrow>
               (case verdict of
                  Some v \<Rightarrow> (record_foreign_verdict j d ac now v c, NextReReport)
                | None \<Rightarrow> (c, NextAttachedElsewhere))))"

definition forget_claims :: "'w deps \<Rightarrow> job_id list \<Rightarrow> 'w control \<Rightarrow> 'w control" where
  "forget_claims D js c = fold (\<lambda>j c. fst (call_claims D (Forget j) c)) js c"

definition roll_back :: "'w deps \<Rightarrow> job_id \<Rightarrow> 'w control \<Rightarrow> 'w control" where
  "roll_back D j c =
     fst (call_claims D (Forget j) (drop_lease (c\<lparr>c_jobs := store_remove (c_jobs c) j\<rparr>) j))"

definition accept_start :: "job_id \<Rightarrow> instant \<Rightarrow> accept_next \<Rightarrow> 'w control \<Rightarrow> 'w control \<times> task list" where
  "accept_start j now next c =
     (case next of
        NextDrive \<Rightarrow> (c\<lparr>c_wakers := AList.update j False (c_wakers c)\<rparr>, [(j, AtStart)])
      | NextReReport \<Rightarrow>
          (case claim_delivery c j now of (c1, claimed) \<Rightarrow> (c1, if claimed then [(j, report_start)] else []))
      | _ \<Rightarrow> (c, []))"

text \<open>\<open>checks\<close> says whether the build panics on an overflowing subtraction (see \<open>evict\<close>); \<open>None\<close> is that
  panic. \<open>proposed\<close> is the id \<open>new_job_id\<close> minted.\<close>

definition accept_admitted :: "'w deps \<Rightarrow> dispatch \<Rightarrow> clock \<Rightarrow> admitted \<Rightarrow> 'w control \<Rightarrow>
    'w control \<times> (accept_error + accepted) option \<times> task list" where
  "accept_admitted D d ck adm c =
     (let j = admitted_job_id adm;
          (c1, next) = accept_claimed d (dp_classify D (d_repo d) (d_author d)) (ck_now ck) adm c;
          (c2, r) = (if next \<in> {NextDrive, NextAttachedHere} then journal_record D c1 j None (ck_unix ck)
                     else (c1, Inr ()))
      in case r of
           Inl e \<Rightarrow> (if next = NextDrive then roll_back D j c2 else c2, Some (Inl (NotDurable e)), [])
         | Inr _ \<Rightarrow>
             let (c3, ts) = accept_start j (ck_now ck) next c2;
                 (c4, ts') = drain_undelivered c3 j (ck_now ck)
             in (c4, Some (Inr \<lparr>ac_job_id = j, ac_duplicate = is_duplicate adm\<rparr>), ts @ ts'))"

definition admit_op :: "control_config \<Rightarrow> dispatch \<Rightarrow> clock \<Rightarrow> job_id \<Rightarrow> claim_op" where
  "admit_op cfg d ck proposed =
     Admit (d_repo d, d_tree_id d) proposed (d_callback_url d) (ck_ms ck)
       (as_millis_i64 (cc_claim_ttl cfg)) (as_millis_i64 (cc_job_retention cfg))"

definition accept :: "'w deps \<Rightarrow> bool \<Rightarrow> dispatch \<Rightarrow> clock \<Rightarrow> job_id \<Rightarrow> 'w control \<Rightarrow>
    'w control \<times> (accept_error + accepted) option \<times> task list" where
  "accept D checks d ck proposed c =
     (case evict checks (c_jobs c) (ck_now ck) (cc_job_retention (c_config c)) (cc_max_jobs (c_config c)) of
        (st, None) \<Rightarrow> (c\<lparr>c_jobs := st\<rparr>, None, [])
      | (st, Some evicted) \<Rightarrow>
          (case call_claims D (admit_op (c_config c) d ck proposed) (forget_claims D evicted (c\<lparr>c_jobs := st\<rparr>)) of
             (c1, out) \<Rightarrow>
               (case as_admit out of
                  Inl e \<Rightarrow> (c1, Some (Inl (NotClaimed e)), [])
                | Inr adm \<Rightarrow> accept_admitted D d ck adm c1)))"

section \<open>The tasks\<close>

text \<open>What the outside world answers a task between two await points.\<close>

record answers =
  an_clock :: clock
  an_fetch :: "fetch_request \<Rightarrow> (fetch_error + verified_tree) option"
  an_plan :: "verified_tree \<Rightarrow> plan_error + step_spec list"
  an_joined :: bool
  an_ids :: "nat \<Rightarrow> step_id"
  an_post :: transport

type_synonym 'w stepped = "'w control \<times> position \<times> task list"

definition done_with :: "'w deps \<Rightarrow> answers \<Rightarrow> job_id \<Rightarrow> bool \<Rightarrow> 'w control \<Rightarrow> 'w stepped" where
  "done_with D A j and_retire c =
     (if and_retire then retire D (ck_now (an_clock A)) (ck_ms (an_clock A)) j c else c, AtEnd, [])"

definition finish_job :: "'w deps \<Rightarrow> answers \<Rightarrow> job_id \<Rightarrow> bool \<Rightarrow> verdict \<Rightarrow> 'w control \<Rightarrow> 'w stepped" where
  "finish_job D A j and_retire v c =
     (case finish_record D (ck_now (an_clock A)) (ck_ms (an_clock A)) (ck_unix (an_clock A)) j v c of
        (c1, claimed) \<Rightarrow>
          if claimed then (c1, AtReport report_acc_init [] and_retire, []) else done_with D A j and_retire c1)"

text \<open>\<open>report\<close>: the next request of the pass, or the next pass, or the end.\<close>

definition report_step :: "'w deps \<Rightarrow> answers \<Rightarrow> job_id \<Rightarrow> report_acc \<Rightarrow> callback_request list \<Rightarrow> bool \<Rightarrow>
    'w control \<Rightarrow> 'w stepped" where
  "report_step D A j acc reqs and_retire c =
     (case reqs of
        req # rest \<Rightarrow>
          (case post_one (an_post A) j req acc c of (c1, acc1) \<Rightarrow> (c1, AtReport acc1 rest and_retire, []))
      | [] \<Rightarrow>
          let c1 = merge_destinations D j c in
          case callback_requests c1 j (ra_attempted acc) of
            Some (req # rest) \<Rightarrow> (c1, AtReport acc (req # rest) and_retire, [])
          | _ \<Rightarrow> done_with D A j and_retire (report_settle D j (ck_now (an_clock A)) acc c1))"

fun task_step :: "'w deps \<Rightarrow> answers \<Rightarrow> job_id \<Rightarrow> position \<Rightarrow> 'w control \<Rightarrow> 'w stepped" where
  "task_step D A j AtStart c =
     (case store_get (c_jobs c) j of
        None \<Rightarrow> (c, AtEnd, [])
      | Some b \<Rightarrow> (c, AtFetch (j_dispatch b), if dp_needs_renewal D then [(j, AtBeat)] else []))"
| "task_step D A j (AtFetch d) c =
     (case phase_fetch (an_fetch A) (ck_now (an_clock A)) j d c of
        (c1, Inr tree) \<Rightarrow> (c1, AtPlan tree, [])
      | (c1, Inl v) \<Rightarrow> finish_job D A j False v c1)"
| "task_step D A j (AtPlan tree) c =
     (case phase_plan (an_plan A) (ck_now (an_clock A)) j tree c of
        (c1, Inr specs) \<Rightarrow> (c1, AtRun tree specs, [])
      | (c1, Inl v) \<Rightarrow> finish_job D A j False v c1)"
| "task_step D A j (AtRun tree specs) c =
     (case phase_run_start D (an_joined A) (an_ids A) (ck_now (an_clock A)) j tree specs c of
        (c1, alive) \<Rightarrow> if alive then (c1, AtLoop, []) else done_with D A j True c1)"
| "task_step D A j AtLoop c =
     (case run_pass D (ck_now (an_clock A)) (ck_ms (an_clock A)) j c of
        (c1, out) \<Rightarrow>
          (case out of
             PassGone \<Rightarrow> done_with D A j True c1
           | PassFinish v \<Rightarrow> finish_job D A j True v c1
           | _ \<Rightarrow> (c1, AtLoop, [])))"
| "task_step D A j (AtReport acc reqs and_retire) c = report_step D A j acc reqs and_retire c"
| "task_step D A j AtBeat c =
     (case heartbeat D (ck_ms (an_clock A)) j c of (c1, on) \<Rightarrow> (c1, if on then AtBeat else AtEnd, []))"
| "task_step D A j AtEnd c = (c, AtEnd, [])"

end
