(* ===== verification/Ci_Plane.thy ===== *)
theory Ci_Plane
  imports Ci_Control
begin

text \<open>
  The control plane at work: its state together with the tasks it has spawned, moved by dispatches,
  node reports and the steps of its tasks in any order. The theory shows what the methods of
  \<open>Ci_Control\<close> do to the job records and proves the invariants of every reachable state: a job gets one
  verdict and Hull is only ever told that one, and a job has one sender at a time.
\<close>

declare map_of_eq_Some_iff [simp del] Some_eq_map_of_iff [simp del]

section \<open>What a method does to the records\<close>

definition jobs_rel :: "(job \<Rightarrow> job \<Rightarrow> bool) \<Rightarrow> 'w control \<Rightarrow> 'w control \<Rightarrow> bool" where
  "jobs_rel R c c' \<longleftrightarrow>
     (\<forall>j. rel_option R (store_get (c_jobs c) j) (store_get (c_jobs c') j)) \<and>
     map fst (by_id (c_jobs c')) = map fst (by_id (c_jobs c)) \<and> c_config c' = c_config c"

lemma store_get_mut_get: "store_get (store_get_mut st j f) k = (if k = j then map_option f (store_get st k) else store_get st k)"
  by (simp add: store_get_def store_get_mut_def)

lemma with_job_mut_simps [simp]:
  "store_get (c_jobs (with_job_mut c j f)) k =
     (if k = j then map_option f (store_get (c_jobs c) k) else store_get (c_jobs c) k)"
  "c_config (with_job_mut c j f) = c_config c" "c_leases (with_job_mut c j f) = c_leases c"
  "c_world (with_job_mut c j f) = c_world c" "c_queue (with_job_mut c j f) = c_queue c"
  "c_trees (with_job_mut c j f) = c_trees c" "c_memo (with_job_mut c j f) = c_memo c"
  "c_wakers (with_job_mut c j f) = c_wakers c"
  by (simp_all add: with_job_mut_def store_get_mut_get)

lemma with_job_mut_keys [simp]: "map fst (by_id (c_jobs (with_job_mut c j f))) = map fst (by_id (c_jobs c))"
  by (simp add: with_job_mut_def store_get_mut_def)

lemma jobs_rel_same: "reflp R \<Longrightarrow> c_jobs c' = c_jobs c \<Longrightarrow> c_config c' = c_config c \<Longrightarrow> jobs_rel R c c'"
  by (simp add: jobs_rel_def option.rel_refl reflpD)

lemma jobs_rel_trans: "transp R \<Longrightarrow> jobs_rel R c c1 \<Longrightarrow> jobs_rel R c1 c2 \<Longrightarrow> jobs_rel R c c2"
  unfolding jobs_rel_def by (metis option.rel_transp transpD)

lemma jobs_rel_mono: "jobs_rel R c c' \<Longrightarrow> (\<And>b b'. R b b' \<Longrightarrow> S b b') \<Longrightarrow> jobs_rel S c c'"
  by (auto simp: jobs_rel_def intro: option.rel_mono_strong)

lemma jobs_rel_with_job_mut:
  assumes "reflp R" and "\<And>b. store_get (c_jobs c) j = Some b \<Longrightarrow> R b (f b)"
  shows "jobs_rel R c (with_job_mut c j f)"
  using assms by (auto simp: jobs_rel_def option.rel_map option.rel_refl reflpD
      simp del: option.rel_refl intro!: option.rel_refl_strong split: option.split)

text \<open>The methods that only touch steps.\<close>

definition steps_only :: "job \<Rightarrow> job \<Rightarrow> bool" where
  "steps_only b b' \<longleftrightarrow> (\<exists>ss. b' = b\<lparr>j_steps := ss\<rparr>)"

abbreviation same_jobs :: "'w control \<Rightarrow> 'w control \<Rightarrow> bool" where
  "same_jobs c c' \<equiv> jobs_rel steps_only c c'"

lemma steps_only_refl: "reflp steps_only"
  unfolding reflp_def steps_only_def by (metis job.surjective job.update_convs(5))

lemma steps_only_trans: "transp steps_only"
  unfolding transp_def steps_only_def by auto

lemma steps_only_mut [simp]: "steps_only b (job_step_mut b i f)" "steps_only b (b\<lparr>j_steps := ss\<rparr>)"
  unfolding steps_only_def job_step_mut_def by auto

lemmas same_jobs_refl = jobs_rel_same [OF steps_only_refl]
lemmas same_jobs_trans = jobs_rel_trans [OF steps_only_trans]
lemmas same_jobs_mut = jobs_rel_with_job_mut [OF steps_only_refl]

lemma same_jobs_frame [simp]:
  "same_jobs c (on_queue f c)" "same_jobs c (drop_lease c j)" "same_jobs c (wake c j)" "same_jobs c (waker c j)"
  "same_jobs c (fst (call_claims D op c))" "same_jobs c (fst (journal_record D c j v n))"
  "same_jobs c (journal_forget D j c)" "same_jobs c (c\<lparr>c_world := w\<rparr>)" "same_jobs c c"
  by (auto intro!: same_jobs_refl simp: on_queue_def drop_lease_def wake_def waker_def call_claims_def
      journal_record_def journal_forget_def split: option.splits prod.splits)

text \<open>The same as rules that peel the last write off.\<close>

lemma same_jobs_push:
  "same_jobs c d \<Longrightarrow> same_jobs c (on_queue f d)" "same_jobs c d \<Longrightarrow> same_jobs c (drop_lease d j)"
  "same_jobs c d \<Longrightarrow> same_jobs c (wake d j)" "same_jobs c d \<Longrightarrow> same_jobs c (waker d j)"
  "same_jobs c d \<Longrightarrow> same_jobs c (d\<lparr>c_world := w\<rparr>)" "same_jobs c d \<Longrightarrow> same_jobs c (d\<lparr>c_memo := m\<rparr>)"
  "same_jobs c d \<Longrightarrow> same_jobs c (with_job_mut d k (\<lambda>b. job_step_mut b i (g b)))"
  by (erule same_jobs_trans, auto intro: same_jobs_mut same_jobs_refl)+

lemma same_jobs_call: "call_claims D op c = (c1, out) \<Longrightarrow> same_jobs c c1"
  using same_jobs_frame(5) [of c D op] by simp

lemma same_jobs_settle_assignment: "same_jobs c (fst (settle_assignment c g a r now))"
  unfolding settle_assignment_def Let_def
  by (auto split: option.split sum.split intro!: same_jobs_push)

lemma same_jobs_push_calls:
  "same_jobs c d \<Longrightarrow> same_jobs c (fst (settle_assignment d g a r now))"
  "same_jobs c d \<Longrightarrow> same_jobs c (fst (call_claims D op d))"
  by (erule same_jobs_trans, rule same_jobs_settle_assignment same_jobs_frame)+

lemma same_jobs_pump_grant: "same_jobs c (fst (pump_grant D now ms g c))"
  unfolding pump_grant_def Let_def
  by (auto split: option.split sum.split prod.split step_claim.split
      intro!: same_jobs_push same_jobs_push_calls dest: same_jobs_call)

lemma same_jobs_pump_loop: "same_jobs c (fst (pump_loop D now ms ob gs m w c))"
proof (induction gs arbitrary: m w c)
  case (Cons g gs)
  have "same_jobs c (fst (pump_grant D now ms g c))" by (rule same_jobs_pump_grant)
  with Cons.IH show ?case
    by (auto split: prod.split intro: same_jobs_trans)
qed simp

lemma same_jobs_wakes: "same_jobs c (fold (\<lambda>j c. wake c j) js c)"
  by (induction js arbitrary: c) (auto intro: same_jobs_trans [OF same_jobs_frame(3)])

lemma same_jobs_pump: "same_jobs c (fst (pump D now ms ob c))"
proof -
  have "same_jobs c (c\<lparr>c_queue := q\<rparr>)" for q by (rule same_jobs_refl) simp_all
  from same_jobs_trans [OF this same_jobs_pump_loop] show ?thesis
    unfolding pump_def Let_def
    by (auto split: prod.split intro: same_jobs_trans [OF _ same_jobs_wakes])
      (metis fst_conv same_jobs_trans same_jobs_wakes)
qed

lemma same_jobs_retire: "same_jobs c (retire D now ms j c)"
proof -
  have "same_jobs c (on_queue f (drop_lease (c\<lparr>c_trees := t\<rparr>) j))" for f t
    by (rule same_jobs_refl) (simp_all add: on_queue_def drop_lease_def)
  from same_jobs_trans [OF this same_jobs_pump] show ?thesis by (simp add: retire_def Let_def)
qed

lemma same_jobs_cancel: "same_jobs c (cancel_steps D j is c)"
proof (induction "is" arbitrary: c)
  case (Cons i js)
  let ?c1 = "if (case Option.bind (store_get (c_jobs c) j) (\<lambda>b. job_step b i) of
    Some s \<Rightarrow> s_state s \<in> {SLeased, SRunning} | None \<Rightarrow> False) then c\<lparr>c_world := dp_cancel D j i (c_world c)\<rparr> else c"
  have "same_jobs c ?c1" by simp
  from same_jobs_trans [OF this same_jobs_trans [OF same_jobs_mut Cons.IH]] show ?case
    by (simp add: Let_def)
qed simp

lemma same_jobs_run_pass: "same_jobs c (fst (run_pass D now ms j c))"
proof (cases "store_get (c_jobs c) j")
  case (Some b)
  obtain b1 nx where r: "run_decide (c_config c) now b = (b1, nx)" by (cases "run_decide (c_config c) now b")
  then have b1: "steps_only b b1" by (auto simp: run_decide_def Let_def)
  then have "same_jobs c (with_job_mut c j (\<lambda>_. b1))" using Some by (auto intro: same_jobs_mut)
  with Some r show ?thesis
    using same_jobs_pump [of "with_job_mut c j (\<lambda>_. b1)" D now ms "Some j"]
    by (cases nx) (auto simp: run_pass_def Let_def split: prod.split
        intro: same_jobs_trans [OF _ same_jobs_cancel] same_jobs_trans)
qed (simp add: run_pass_def)

lemma same_jobs_heartbeat: "same_jobs c (fst (heartbeat D ms j c))"
  unfolding heartbeat_def
  by (auto split: option.split prod.split sum.split bool.split
      intro: same_jobs_call same_jobs_trans [OF same_jobs_call])

lemma same_jobs_step_report: "same_jobs c (fst (record_step_report c rep node now))"
  unfolding record_step_report_def Let_def by (auto split: option.split sum.split intro!: same_jobs_push)

lemma same_jobs_renew: "same_jobs c (fst (renew_lease c j i node now))"
  unfolding renew_lease_def by (auto split: option.split intro: same_jobs_mut)

text \<open>What any method may do to a record: the verdict of a job that has one stays, its state moves
  forward, and its delivery flag is left alone.\<close>

definition state_rank :: "job_state \<Rightarrow> nat" where
  "state_rank s = (case s of JQueued \<Rightarrow> 0 | JFetching \<Rightarrow> 1 | JPlanning \<Rightarrow> 2 | JRunning \<Rightarrow> 3 | _ \<Rightarrow> 4)"

definition job_ok :: "job \<Rightarrow> bool" where
  "job_ok b \<longleftrightarrow> distinct (j_callback_urls b) \<and> (j_verdict b \<noteq> None \<longleftrightarrow> has_verdict (j_state b)) \<and> (j_settled_at b \<noteq> None \<longleftrightarrow> has_verdict (j_state b))"

definition moves :: "job \<Rightarrow> job \<Rightarrow> bool" where
  "moves b b' \<longleftrightarrow> j_id b' = j_id b \<and> j_dispatch b' = j_dispatch b \<and> state_rank (j_state b) \<le> state_rank (j_state b') \<and>
     set (j_callback_urls b) \<subseteq> set (j_callback_urls b') \<and>
     (job_ok b \<longrightarrow> job_ok b' \<and> pred_option (\<lambda>v. j_verdict b' = Some v) (j_verdict b))"

definition evolves :: "job \<Rightarrow> job \<Rightarrow> bool" where
  "evolves b b' \<longleftrightarrow> moves b b' \<and> j_delivering b' = j_delivering b"

lemma moves_refl: "reflp moves" and moves_trans: "transp moves"
  by (auto simp: moves_def reflp_def transp_def option.pred_set split: option.splits)

lemma evolves_refl: "reflp evolves" and evolves_trans: "transp evolves"
  using moves_refl moves_trans by (auto simp: evolves_def reflp_def transp_def)

lemma steps_only_evolves: "steps_only b b' \<Longrightarrow> evolves b b'"
  by (auto simp: steps_only_def evolves_def moves_def job_ok_def option.pred_set)

lemma same_jobs_evolves: "same_jobs c c' \<Longrightarrow> jobs_rel evolves c c'"
  by (erule jobs_rel_mono) (rule steps_only_evolves)

lemma has_verdict_rank: "has_verdict s \<longleftrightarrow> state_rank s = 4"
  by (cases s) (simp_all add: has_verdict_def state_rank_def)

lemma state_rank_le: "state_rank s \<le> 4"
  by (cases s) (simp_all add: state_rank_def)

lemma rank_forward: "job_can_transition_to s n \<Longrightarrow> state_rank s \<le> state_rank n"
  by (auto simp: job_can_transition_to_def state_rank_def)

text \<open>A state change that decides nothing, and one that follows a decision.\<close>

lemma job_try_evolves:
  assumes "has_verdict n \<Longrightarrow> has_verdict (j_state b)"
  shows "evolves b (job_try b n now)"
proof (cases "job_can_transition_to (j_state b) n")
  case True
  with rank_forward [OF True] assms show ?thesis
    by (auto simp: evolves_def moves_def job_ok_def job_try_def job_transition_at_def is_finished_def Let_def
        option.pred_set has_verdict_rank intro: le_antisym state_rank_le)
qed (use evolves_refl in \<open>simp add: job_try_def job_transition_at_def reflp_def\<close>)

lemma job_try_rank:
  assumes "state_rank (j_state b) \<ge> k" and "n \<in> {JFetching, JPlanning, JRunning}" and "state_rank n = Suc k"
  shows "state_rank (j_state (job_try b n now)) \<ge> Suc k"
  using assms
  by (cases "j_state b") (auto simp: job_try_def job_transition_at_def job_can_transition_to_def state_rank_def
      is_finished_def has_verdict_def Let_def)

text \<open>The decision itself.\<close>

lemma decide_evolves:
  assumes "\<not> has_verdict (j_state b)" and "v_status v = Errored \<or> state_rank (j_state b) = 3"
  shows "evolves b ((job_try b (from_status (v_status v)) now)\<lparr>j_verdict := Some v\<rparr>)"
    and "j_state (job_try b (from_status (v_status v)) now) = from_status (v_status v)"
proof -
  have "job_can_transition_to (j_state b) (from_status (v_status v))"
    using assms by (cases "j_state b"; cases "v_status v")
      (auto simp: has_verdict_def job_can_transition_to_def state_rank_def)
  moreover have "has_verdict (from_status (v_status v))" by (cases "v_status v") (simp_all add: has_verdict_def)
  ultimately show "evolves b ((job_try b (from_status (v_status v)) now)\<lparr>j_verdict := Some v\<rparr>)"
    and "j_state (job_try b (from_status (v_status v)) now) = from_status (v_status v)"
    using assms(1) rank_forward
    by (auto simp: evolves_def moves_def job_ok_def job_try_def job_transition_at_def is_finished_def Let_def
        option.pred_set)
qed

lemmas evolves_mut = jobs_rel_with_job_mut [OF evolves_refl]
lemmas evolves_then = jobs_rel_trans [OF evolves_trans]
lemmas evolves_same = same_jobs_evolves [THEN evolves_then]
lemmas evolves_frame = jobs_rel_same [OF evolves_refl]

lemma evolves_self [simp]: "jobs_rel evolves c c"
  by (rule evolves_frame) simp_all

lemma evolves_set_state:
  "\<not> has_verdict n \<Longrightarrow> jobs_rel evolves c (set_state c j n now)"
  unfolding set_state_def by (rule evolves_mut) (rule job_try_evolves, simp)

lemma merge_urls_simps [simp]:
  "j_id (merge_urls us b) = j_id b" "j_dispatch (merge_urls us b) = j_dispatch b"
  "j_state (merge_urls us b) = j_state b" "j_verdict (merge_urls us b) = j_verdict b"
  "j_settled_at (merge_urls us b) = j_settled_at b" "j_delivering (merge_urls us b) = j_delivering b"
  unfolding merge_urls_def by (induction us arbitrary: b) (simp_all add: add_callback_url_def)

lemma merge_urls_dests:
  "set (j_callback_urls (merge_urls us b)) = set (j_callback_urls b) \<union> set us"
  "distinct (j_callback_urls b) \<Longrightarrow> distinct (j_callback_urls (merge_urls us b))"
  unfolding merge_urls_def by (induction us arbitrary: b) (auto simp: add_callback_url_def)

lemma evolves_field:
  assumes "set (j_callback_urls b) \<subseteq> set (j_callback_urls b')" "distinct (j_callback_urls b) \<Longrightarrow> distinct (j_callback_urls b')"
    "j_id b' = j_id b" "j_dispatch b' = j_dispatch b" "j_state b' = j_state b" "j_verdict b' = j_verdict b"
    "j_settled_at b' = j_settled_at b" "j_delivering b' = j_delivering b"
  shows "evolves b b'"
  using assms by (auto simp: evolves_def moves_def job_ok_def option.pred_set)

lemma evolves_merge: "jobs_rel evolves c (merge_destinations D j c)"
proof -
  obtain c1 out where c1: "call_claims D (Destinations j) c = (c1, out)" by (cases "call_claims D (Destinations j) c")
  have "jobs_rel evolves c1 (with_job_mut c1 j (merge_urls us))" for us
    by (rule evolves_mut) (auto intro!: evolves_field simp: merge_urls_dests)
  with same_jobs_call [OF c1] show ?thesis
    by (auto simp: merge_destinations_def c1 split: sum.split intro: evolves_same same_jobs_evolves)
qed

lemma evolves_post: "jobs_rel evolves c (fst (post_one post j req acc c))"
proof -
  have "jobs_rel evolves c (fold (\<lambda>p c. with_job_mut c j (\<lambda>b. b\<lparr>j_delivery := Some p\<rparr>)) ps c)" for ps
  proof (induction ps arbitrary: c)
    case (Cons p ps)
    have "jobs_rel evolves c (with_job_mut c j (\<lambda>b. b\<lparr>j_delivery := Some p\<rparr>))"
      by (rule evolves_mut) (simp add: evolves_field)
    with Cons.IH show ?case by (auto intro: evolves_then)
  qed simp
  then show ?thesis by (simp add: post_one_def split: prod.split)
qed

lemma evolves_run_start: "jobs_rel evolves c (fst (phase_run_start D joined ids now j tree specs c))"
proof -
  have start: "jobs_rel evolves d (waker (with_job_mut d j (\<lambda>b. let b1 = job_try b JRunning now
      in b1\<lparr>j_steps := j_steps b1 @ ss\<rparr>)) j)" for d :: "'a control" and ss
  proof (rule evolves_then [OF _ same_jobs_evolves [OF same_jobs_frame(4)]], rule evolves_mut)
    fix b
    have "evolves b (job_try b JRunning now)" by (rule job_try_evolves) (simp add: has_verdict_def)
    moreover have "evolves (job_try b JRunning now) ((job_try b JRunning now)\<lparr>j_steps := ss'\<rparr>)" for ss'
      by (rule steps_only_evolves) simp
    ultimately show "evolves b (let b1 = job_try b JRunning now in b1\<lparr>j_steps := j_steps b1 @ ss\<rparr>)"
      unfolding Let_def using evolves_trans by (meson transpE)
  qed
  let ?c1 = "c\<lparr>c_trees := AList.update j tree (c_trees c)\<rparr>"
  show ?thesis
  proof (cases "store_get (c_jobs c) j")
    case (Some b)
    let ?ctx = "\<lparr>kc_tenant = tenant (j_dispatch b), kc_tier = cc_tier (c_config c), kc_author_class = j_author_class b\<rparr>"
    obtain c2 ds where c2: "phase_memo D joined now ?ctx tree specs ?c1 = (c2, ds)"
      by (cases "phase_memo D joined now ?ctx tree specs ?c1")
    have "jobs_rel evolves c c2"
      using c2 by (auto intro!: evolves_frame simp: phase_memo_def Let_def split: if_splits prod.splits)
    from evolves_then [OF this start] show ?thesis
      using Some c2 by (simp add: phase_run_start_def Let_def)
  qed (auto intro: evolves_frame simp: phase_run_start_def Let_def)
qed

text \<open>The claims on delivery.\<close>

lemma claim_delivery_simps:
  "claim_delivery c j now = (c', ok) \<Longrightarrow>
     (if ok then (\<exists>b. store_get (c_jobs c) j = Some b \<and> \<not> j_delivering b \<and>
        c' = with_job_mut c j (\<lambda>b. b\<lparr>j_delivering := True, j_last_delivery_at := Some now\<rparr>)) else c' = c)"
  "claim_delivery_if_parked c j now = (c', ok) \<Longrightarrow>
     (if ok then (\<exists>b. store_get (c_jobs c) j = Some b \<and> \<not> j_delivering b \<and> j_state b = JReportFailed \<and>
        c' = with_job_mut c j (\<lambda>b. b\<lparr>j_delivering := True, j_last_delivery_at := Some now\<rparr>)) else c' = c)"
  by (auto simp: claim_delivery_def claim_delivery_if_parked_def awaits_redelivery_def split: option.splits if_splits)

section \<open>The plane\<close>

text \<open>
  The state of the control plane, its live tasks, and what has happened: the ids that \<open>new_job_id\<close>
  minted, the ids of the records that retention evicted, and the callbacks that were sent.
\<close>

record 'w plane =
  p_control :: "'w control"
  p_tasks :: "task list"
  p_minted :: "job_id list"
  p_dropped :: "job_id list"
  p_sent :: "(callback_request \<times> delivery) list"

definition plane_new :: "control_config \<Rightarrow> step_memo_store \<Rightarrow> 'w \<Rightarrow> 'w plane" where
  "plane_new config memo w =
     \<lparr>p_control = control_new config memo w, p_tasks = [], p_minted = [], p_dropped = [], p_sent = []\<rparr>"

datatype event =
    EvAccept bool dispatch clock job_id
  | EvReport step_report str instant
  | EvRenew job_id step_id str instant
  | EvTask nat answers

definition dropped_by :: "bool \<Rightarrow> clock \<Rightarrow> 'w control \<Rightarrow> job_id list" where
  "dropped_by checks ck c =
     filter (\<lambda>j. store_get (fst (evict checks (c_jobs c) (ck_now ck) (cc_job_retention (c_config c))
       (cc_max_jobs (c_config c)))) j = None) (map fst (by_id (c_jobs c)))"

fun newly_sent :: "position \<Rightarrow> position \<Rightarrow> (callback_request \<times> delivery) list" where
  "newly_sent (AtReport acc _ _) (AtReport acc' _ _) = drop (length (ra_sent acc)) (ra_sent acc')"
| "newly_sent _ _ = []"

fun plane_apply :: "'w deps \<Rightarrow> event \<Rightarrow> 'w plane \<Rightarrow> 'w plane" where
  "plane_apply D (EvAccept checks d ck proposed) p =
     (case accept D checks d ck proposed (p_control p) of
        (c, _, ts) \<Rightarrow> p\<lparr>p_control := c, p_tasks := p_tasks p @ ts, p_minted := proposed # p_minted p,
          p_dropped := dropped_by checks ck (p_control p) @ p_dropped p\<rparr>)"
| "plane_apply D (EvReport rep node now) p = p\<lparr>p_control := fst (record_step_report (p_control p) rep node now)\<rparr>"
| "plane_apply D (EvRenew j i node now) p = p\<lparr>p_control := fst (renew_lease (p_control p) j i node now)\<rparr>"
| "plane_apply D (EvTask i A) p =
     (if i < length (p_tasks p)
      then (case p_tasks p ! i of
          (j, pos) \<Rightarrow>
            (case task_step D A j pos (p_control p) of
               (c, pos', ts) \<Rightarrow>
                 p\<lparr>p_control := c, p_tasks := take i (p_tasks p) @ (j, pos') # drop (Suc i) (p_tasks p) @ ts,
                   p_sent := p_sent p @ newly_sent pos pos'\<rparr>))
      else p)"

text \<open>A minted id is new: it was not minted before and names no record and no task.\<close>

fun fresh_event :: "'w plane \<Rightarrow> event \<Rightarrow> bool" where
  "fresh_event p (EvAccept checks d ck proposed) \<longleftrightarrow>
     proposed \<notin> set (p_minted p) \<and> store_get (c_jobs (p_control p)) proposed = None \<and>
     proposed \<notin> fst ` set (p_tasks p)"
| "fresh_event p _ \<longleftrightarrow> True"

inductive reachable :: "'w deps \<Rightarrow> 'w \<Rightarrow> 'w plane \<Rightarrow> bool" for D w0 where
  start: "reachable D w0 (plane_new config memo w0)"
| event: "reachable D w0 p \<Longrightarrow> fresh_event p ev \<Longrightarrow> reachable D w0 (plane_apply D ev p)"

text \<open>The claim store answers an admission that creates a job with a lease for the id it was offered.\<close>

definition honest :: "'w deps \<Rightarrow> bool" where
  "honest D \<longleftrightarrow> (\<forall>k p url n l r w w' d.
     dp_claims D (Admit k p url n l r) w = (w', OutAdmit (Inr (Created d))) \<longrightarrow> dl_job_id d = p)"

section \<open>Invariants\<close>

fun min_rank :: "position \<Rightarrow> nat" where
  "min_rank (AtPlan _) = 1"
| "min_rank (AtRun _ _) = 2"
| "min_rank AtLoop = 3"
| "min_rank (AtReport _ _ _) = 4"
| "min_rank _ = 0"

definition rank_ok :: "'w control \<Rightarrow> task \<Rightarrow> bool" where
  "rank_ok c t \<longleftrightarrow> pred_option (\<lambda>b. min_rank (snd t) \<le> state_rank (j_state b)) (store_get (c_jobs c) (fst t))"

fun pending_of :: "position \<Rightarrow> callback_request list" where
  "pending_of (AtReport acc reqs _) = reqs"
| "pending_of _ = []"

fun is_sender :: "position \<Rightarrow> bool" where
  "is_sender (AtReport _ _ _) = True"
| "is_sender _ = False"

definition sends :: "job_id \<Rightarrow> task \<Rightarrow> bool" where
  "sends j t \<longleftrightarrow> fst t = j \<and> is_sender (snd t)"

definition sender_ok :: "'w control \<Rightarrow> task list \<Rightarrow> job_id \<Rightarrow> bool" where
  "sender_ok c ts j \<longleftrightarrow> length (filter (sends j) ts) \<le> 1 \<and>
     (list_ex (sends j) ts \<longrightarrow> (\<exists>b. store_get (c_jobs c) j = Some b \<and> j_delivering b))"

definition told_ok :: "'w control \<Rightarrow> task list \<Rightarrow> (callback_request \<times> delivery) list \<Rightarrow> job_id \<Rightarrow> bool" where
  "told_ok c ts sent j \<longleftrightarrow>
     (\<forall>req\<in>(\<Union>t\<in>set ts. set (pending_of (snd t))) \<union> fst ` set sent.
        cb_job_id req = j \<longrightarrow> verdict_of c j = Some (cb_verdict req))"

definition jobs_ok :: "'w control \<Rightarrow> bool" where
  "jobs_ok c \<longleftrightarrow> store_ok (c_jobs c) \<and> (\<forall>j b. store_get (c_jobs c) j = Some b \<longrightarrow> job_ok b)"

text \<open>A report sends each URL once, remembers what came of it, and sends for its own job only.\<close>

definition acc_ok :: "(callback_request \<times> delivery) set \<Rightarrow> job_id \<Rightarrow> report_acc \<Rightarrow> callback_request list \<Rightarrow> bool" where
  "acc_ok S j acc reqs \<longleftrightarrow>
     distinct (ra_attempted acc @ map cb_url reqs) \<and> (\<forall>req\<in>set reqs. cb_job_id req = j) \<and>
     map (\<lambda>x. cb_url (fst x)) (ra_sent acc) = ra_attempted acc \<and>
     ra_any_delivered acc = list_ex (\<lambda>x. is_delivered (snd x)) (ra_sent acc) \<and>
     (\<forall>x\<in>set (ra_sent acc). x \<in> S \<and> cb_job_id (fst x) = j)"

fun pos_ok :: "(callback_request \<times> delivery) set \<Rightarrow> job_id \<Rightarrow> position \<Rightarrow> bool" where
  "pos_ok S j (AtReport acc reqs k) \<longleftrightarrow> acc_ok S j acc reqs"
| "pos_ok S j _ \<longleftrightarrow> True"

lemma pos_ok_not_sender: "\<not> is_sender pos \<Longrightarrow> pos_ok S j pos"
  by (cases pos) simp_all

lemma pos_ok_init: "pos_ok S j (AtReport report_acc_init [] k)"
  by (simp add: acc_ok_def report_acc_init_def)

lemma pos_ok_mono: "pos_ok S j pos \<Longrightarrow> S \<subseteq> S' \<Longrightarrow> pos_ok S' j pos"
  by (cases pos) (auto simp: acc_ok_def subset_iff)

definition parts_ok :: "'w control \<Rightarrow> task list \<Rightarrow> job_id list \<Rightarrow> (callback_request \<times> delivery) list \<Rightarrow> bool" where
  "parts_ok c ts dropped sent \<longleftrightarrow>
     jobs_ok c \<and>
     (\<forall>t\<in>set ts. rank_ok c t \<and> pos_ok (set sent) (fst t) (snd t)) \<and>
     (\<forall>j. j \<notin> set dropped \<longrightarrow> sender_ok c ts j \<and> told_ok c ts sent j)"

definition plane_inv :: "'w plane \<Rightarrow> bool" where
  "plane_inv p \<longleftrightarrow> parts_ok (p_control p) (p_tasks p) (p_dropped p) (p_sent p)"

lemmas plane_inv_parts = plane_inv_def parts_ok_def

text \<open>How the parts of the invariant survive a change of the records.\<close>

lemma jobs_rel_get:
  assumes "jobs_rel R c c'" and "store_get (c_jobs c) j = Some b"
  obtains b' where "store_get (c_jobs c') j = Some b'" and "R b b'"
  using assms unfolding jobs_rel_def by (metis option_rel_Some1)

lemma jobs_rel_get':
  assumes "jobs_rel R c c'" and "store_get (c_jobs c') j = Some b'"
  obtains b where "store_get (c_jobs c) j = Some b" and "R b b'"
  using assms unfolding jobs_rel_def by (metis option_rel_Some2)

lemma jobs_ok_moves:
  assumes "jobs_ok c" and "jobs_rel moves c c'"
  shows "jobs_ok c'"
proof -
  have "job_ok b' \<and> j_id b' = j" if "store_get (c_jobs c') j = Some b'" for j b'
    using that assms by (auto elim!: jobs_rel_get' simp: jobs_ok_def moves_def store_ok_def store_get_def)
  moreover have "hm_ok (by_id (c_jobs c'))"
    using assms by (simp add: jobs_ok_def jobs_rel_def store_ok_def)
  ultimately show ?thesis by (simp add: jobs_ok_def store_ok_def store_get_def)
qed

lemma rank_ok_moves: "jobs_rel moves c c' \<Longrightarrow> rank_ok c t \<Longrightarrow> rank_ok c' t"
  unfolding rank_ok_def by (auto simp: option.pred_set elim!: jobs_rel_get' simp: moves_def)

lemma verdict_of_moves: "jobs_ok c \<Longrightarrow> jobs_rel moves c c' \<Longrightarrow> verdict_of c j = Some v \<Longrightarrow> verdict_of c' j = Some v"
  by (auto simp: verdict_of_def with_job_def jobs_ok_def moves_def option.pred_set
      bind_eq_Some_conv elim!: jobs_rel_get)

lemma evolves_moves: "jobs_rel evolves c c' \<Longrightarrow> jobs_rel moves c c'"
  by (erule jobs_rel_mono) (simp add: evolves_def)

lemma sender_ok_evolves:
  assumes "jobs_rel evolves c c'" and "sender_ok c ts j" and "length (filter (sends j) ts') = length (filter (sends j) ts)"
  shows "sender_ok c' ts' j"
proof -
  have "list_ex (sends j) ts' \<longleftrightarrow> list_ex (sends j) ts"
    using assms(3) by (metis filter_empty_conv length_0_conv list_ex_iff)
  with assms show ?thesis by (auto simp: sender_ok_def evolves_def elim!: jobs_rel_get)
qed

lemma moves_claim: "jobs_rel moves c (with_job_mut c j (\<lambda>b. b\<lparr>j_delivering := d, j_last_delivery_at := t\<rparr>))"
  by (rule jobs_rel_with_job_mut [OF moves_refl]) (simp add: moves_def job_ok_def option.pred_set)

lemma sender_ok_claim:
  assumes "sender_ok c ts k" and "store_get (c_jobs c) j = Some b" and "\<not> j_delivering b"
    and "c' = with_job_mut c j (\<lambda>b. b\<lparr>j_delivering := True, j_last_delivery_at := t\<rparr>)"
    and "filter (sends k) ts' = filter (sends k) (xs @ (j, pos) # ys)" and "filter (sends k) ts = filter (sends k) (xs @ ys)"
  shows "sender_ok c' ts' k"
proof -
  have e: "list_ex (sends k) us \<longleftrightarrow> filter (sends k) us \<noteq> []" for us
    by (simp add: filter_empty_conv list_ex_iff)
  show ?thesis
  proof (cases "k = j")
    case True
    with assms(1-3) have "filter (sends k) ts = []" unfolding sender_ok_def e by auto
    then have "length (filter (sends k) ts') \<le> 1" using assms(5,6) by simp
    with assms(2,4) True show ?thesis by (simp add: sender_ok_def)
  next
    case False
    then have "filter (sends k) ts' = filter (sends k) ts" using assms(5,6) by (simp add: sends_def)
    with assms(1,4) False show ?thesis unfolding sender_ok_def e by auto
  qed
qed

lemma told_ok_moves:
  assumes "jobs_ok c" and "jobs_rel moves c c'" and "told_ok c ts sent j"
    and "\<And>t req. t \<in> set ts' \<Longrightarrow> req \<in> set (pending_of (snd t)) \<Longrightarrow> cb_job_id req = j \<Longrightarrow>
      req \<in> (\<Union>t\<in>set ts. set (pending_of (snd t))) \<or> verdict_of c' j = Some (cb_verdict req)"
    and "\<And>req. req \<in> fst ` set sent' \<Longrightarrow> req \<in> (\<Union>t\<in>set ts. set (pending_of (snd t))) \<union> fst ` set sent"
  shows "told_ok c' ts' sent' j"
  unfolding told_ok_def
proof (intro ballI impI)
  fix req
  assume r: "req \<in> (\<Union>t\<in>set ts'. set (pending_of (snd t))) \<union> fst ` set sent'" and j: "cb_job_id req = j"
  then have "req \<in> (\<Union>t\<in>set ts. set (pending_of (snd t))) \<union> fst ` set sent \<or> verdict_of c' j = Some (cb_verdict req)"
    using assms(4,5) by blast
  then show "verdict_of c' j = Some (cb_verdict req)"
  proof
    assume "req \<in> (\<Union>t\<in>set ts. set (pending_of (snd t))) \<union> fst ` set sent"
    then have "verdict_of c j = Some (cb_verdict req)" using assms(3) j unfolding told_ok_def by blast
    then show ?thesis by (rule verdict_of_moves [OF assms(1,2)])
  qed
qed

section \<open>What a task does\<close>

text \<open>The three kinds of step: one that leaves the delivery flags alone, one that takes a delivery
  claim and starts a report, and the last step of a report.\<close>

definition quiet :: "job_id \<Rightarrow> position \<Rightarrow> position \<Rightarrow> 'w control \<Rightarrow> 'w control \<Rightarrow> bool" where
  "quiet j pos pos' c c' \<longleftrightarrow> jobs_rel evolves c c' \<and> is_sender pos' = is_sender pos \<and>
     (\<forall>req\<in>set (pending_of pos'). req \<in> set (pending_of pos) \<or>
        cb_job_id req = j \<and> verdict_of c' j = Some (cb_verdict req)) \<and>
     fst ` set (newly_sent pos pos') \<subseteq> set (pending_of pos)"

definition claiming :: "job_id \<Rightarrow> position \<Rightarrow> position \<Rightarrow> 'w control \<Rightarrow> 'w control \<Rightarrow> bool" where
  "claiming j pos pos' c c' \<longleftrightarrow> \<not> is_sender pos \<and> (\<exists>k. pos' = AtReport report_acc_init [] k) \<and>
     (\<exists>c1 b t. jobs_rel evolves c c1 \<and> store_get (c_jobs c1) j = Some b \<and> \<not> j_delivering b \<and>
        has_verdict (j_state b) \<and> c' = with_job_mut c1 j (\<lambda>b. b\<lparr>j_delivering := True, j_last_delivery_at := t\<rparr>))"

definition releasing :: "job_id \<Rightarrow> position \<Rightarrow> position \<Rightarrow> 'w control \<Rightarrow> 'w control \<Rightarrow> bool" where
  "releasing j pos pos' c c' \<longleftrightarrow> is_sender pos \<and> pos' = AtEnd \<and>
     (\<exists>c1 c2 t. jobs_rel evolves c c1 \<and> c2 = with_job_mut c1 j (\<lambda>b. b\<lparr>j_delivering := False, j_last_delivery_at := t\<rparr>) \<and>
        jobs_rel evolves c2 c')"

lemma quietI:
  "jobs_rel evolves c c' \<Longrightarrow> \<not> is_sender pos \<Longrightarrow> \<not> is_sender pos' \<Longrightarrow> quiet j pos pos' c c'"
  by (cases pos; cases pos') (simp_all add: quiet_def)

lemma done_with_effect:
  "done_with D A j k c = (c', pos', ts) \<Longrightarrow> jobs_rel evolves c c' \<and> pos' = AtEnd \<and> ts = []"
  by (auto simp: done_with_def same_jobs_evolves [OF same_jobs_retire] split: if_splits)

lemma finish_record_effect:
  assumes "finish_record D now ms unix j v c = (c', ok)"
    and "\<And>b. store_get (c_jobs c) j = Some b \<Longrightarrow> v_status v = Errored \<or> state_rank (j_state b) \<ge> 3"
  shows "(if ok then claiming j AtLoop (AtReport report_acc_init [] k) c c' else jobs_rel evolves c c') \<and>
    pred_option (\<lambda>b. has_verdict (j_state b)) (store_get (c_jobs c') j)"
proof (cases "\<exists>b. store_get (c_jobs c) j = Some b \<and> \<not> has_verdict (j_state b)")
  case True
  then obtain b where b: "store_get (c_jobs c) j = Some b" "\<not> has_verdict (j_state b)" by blast
  let ?v = "decide (c_config c) j v"
  let ?c1 = "with_job_mut c j (\<lambda>b. (job_try b (from_status (v_status ?v)) now)\<lparr>j_verdict := Some ?v\<rparr>)"
  let ?c2 = "case (lease_of ?c1 j, verdict_of ?c1 j) of
    (Some lease, Some v) \<Rightarrow> fst (call_claims D (Settle lease v ms) ?c1) | _ \<Rightarrow> ?c1"
  let ?c3 = "fst (journal_record D ?c2 j (verdict_of ?c1 j) unix)"
  let ?c4 = "retire D now ms j ?c3"
  have "v_status ?v = v_status v" by (simp add: decide_def with_details_url_def split: option.split)
  with assms(2) [OF b(1)] b(2) state_rank_le [of "j_state b"]
  have "v_status ?v = Errored \<or> state_rank (j_state b) = 3" by (auto simp: has_verdict_rank)
  note decided = decide_evolves [OF b(2) this, of now]
  with b(1) have "jobs_rel evolves c ?c1"
    by (intro evolves_mut) simp
  moreover have "same_jobs ?c1 ?c4"
  proof (rule same_jobs_trans [OF same_jobs_trans [OF _ same_jobs_frame(6)] same_jobs_retire])
    show "same_jobs ?c1 ?c2" by (auto split: option.split)
  qed
  ultimately have c4: "jobs_rel evolves c ?c4" and c14: "jobs_rel evolves ?c1 ?c4"
    by (auto intro: evolves_then same_jobs_evolves)
  have "has_verdict (j_state b4)" if b4: "store_get (c_jobs ?c4) j = Some b4" for b4
  proof -
    have "has_verdict (from_status (v_status ?v))" by (cases "v_status ?v") (simp_all add: has_verdict_def)
    moreover obtain b1 where "store_get (c_jobs ?c1) j = Some b1" "evolves b1 b4"
      using c14 b4 by (rule jobs_rel_get')
    ultimately show ?thesis using decided(2) b(1) state_rank_le [of "j_state b4"]
      by (auto simp: evolves_def moves_def has_verdict_rank)
  qed
  moreover have "claim_delivery ?c4 j now = (c', ok)"
    using assms(1) b by (simp add: finish_record_def Let_def)
  ultimately show ?thesis using claim_delivery_simps(1) [of ?c4 j now c' ok] c4
    by (auto simp: claiming_def option.pred_set split: if_splits)
qed (use assms(1) in \<open>auto simp: finish_record_def split: option.splits if_splits\<close>)

lemma finish_job_effect:
  assumes "finish_job D A j k v c = (c', pos', ts)" and "\<not> is_sender pos"
    and "\<And>b. store_get (c_jobs c) j = Some b \<Longrightarrow> v_status v = Errored \<or> state_rank (j_state b) \<ge> 3"
  shows "ts = [] \<and> (claiming j pos pos' c c' \<or> jobs_rel evolves c c' \<and> pos' = AtEnd) \<and>
    pred_option (\<lambda>b. has_verdict (j_state b)) (store_get (c_jobs c') j)"
proof -
  obtain c1 ok where f: "finish_record D (ck_now (an_clock A)) (ck_ms (an_clock A)) (ck_unix (an_clock A)) j v c = (c1, ok)"
    by fastforce
  from finish_record_effect [OF f assms(3), of k] show ?thesis
  proof (cases ok)
    case False
    with f assms(1) have d: "done_with D A j k c1 = (c', pos', ts)" by (simp add: finish_job_def)
    have "has_verdict (j_state b')" if "store_get (c_jobs c') j = Some b'" for b'
    proof -
      from done_with_effect [OF d] have "jobs_rel evolves c1 c'" by simp
      then obtain b where "store_get (c_jobs c1) j = Some b" "evolves b b'" using \<open>store_get (c_jobs c') j = Some b'\<close>
        by (rule jobs_rel_get')
      with finish_record_effect [OF f assms(3)] state_rank_le [of "j_state b'"] show ?thesis
        by (auto simp: evolves_def moves_def has_verdict_rank)
    qed
    with done_with_effect [OF d] finish_record_effect [OF f assms(3)] False show ?thesis
      by (auto intro: evolves_then simp: option.pred_set)
  qed (use f assms(1,2) in \<open>auto simp: finish_job_def claiming_def\<close>)
qed

lemma callback_requests_ids:
  assumes "jobs_ok c" and "callback_requests c j att = Some reqs" and "req \<in> set reqs"
  shows "cb_job_id req = j \<and> verdict_of c j = Some (cb_verdict req)"
  using assms by (auto simp: callback_requests_def verdict_of_def with_job_def jobs_ok_def store_ok_def store_get_def
      bind_eq_Some_conv)

lemma callback_requests_urls:
  assumes "callback_requests c j att = Some reqs"
  shows "\<exists>b. store_get (c_jobs c) j = Some b \<and> map cb_url reqs = filter (\<lambda>u. u \<notin> set att) (j_callback_urls b)"
  using assms by (auto simp: callback_requests_def bind_eq_Some_conv comp_def)

lemma evolves_record_settle:
  assumes "job_ok b \<Longrightarrow> has_verdict (j_state b)"
  shows "evolves b (job_try (b\<lparr>j_report_attempts := n\<rparr>) s now)"
proof (cases "has_verdict (j_state b)")
  case True
  have "evolves b (b\<lparr>j_report_attempts := n\<rparr>)" by (rule evolves_field) simp_all
  moreover have "evolves (b\<lparr>j_report_attempts := n\<rparr>) (job_try (b\<lparr>j_report_attempts := n\<rparr>) s now)"
    by (rule job_try_evolves) (simp add: True)
  ultimately show ?thesis using evolves_trans by (meson transpE)
next
  case False
  then have nok: "\<not> job_ok b" using assms by blast
  have "state_rank (j_state b) \<le> state_rank (j_state (job_try (b\<lparr>j_report_attempts := n\<rparr>) s now))"
    using rank_forward by (auto simp: job_try_def job_transition_at_def Let_def)
  with nok show ?thesis
    by (auto simp: evolves_def moves_def job_try_def job_transition_at_def Let_def)
qed

text \<open>A report that sent something belongs to a job that had a verdict, which the record still has.\<close>

lemma report_settle_effect:
  assumes "\<And>b. ra_attempted acc \<noteq> [] \<Longrightarrow> store_get (c_jobs c) j = Some b \<Longrightarrow> has_verdict (j_state b)"
  shows "\<exists>c1. jobs_rel evolves c c1 \<and>
    report_settle D j now acc c = with_job_mut c1 j (\<lambda>b. b\<lparr>j_delivering := False, j_last_delivery_at := Some now\<rparr>)"
proof (cases "ra_attempted acc = []")
  case True
  then show ?thesis
    by (intro exI [of _ c]) (simp add: report_settle_def release_delivery_def)
next
  case False
  let ?c1 = "with_job_mut c j (\<lambda>b. b\<lparr>j_delivery := None\<rparr>)"
  let ?c2 = "with_job_mut ?c1 j (\<lambda>b. job_try (b\<lparr>j_report_attempts := j_report_attempts b + ra_attempts_total acc\<rparr>)
     (if ra_any_delivered acc then JReported else JReportFailed) now)"
  let ?c3 = "if ra_any_delivered acc
    then (journal_forget D j ?c2)\<lparr>c_wakers := AList.delete j (c_wakers ?c2)\<rparr> else ?c2"
  have "jobs_rel evolves c ?c1" by (rule evolves_mut) (simp add: evolves_field)
  moreover have "jobs_rel evolves ?c1 ?c2"
  proof (rule evolves_mut, rule evolves_record_settle)
    fix b assume "store_get (c_jobs ?c1) j = Some b"
    then obtain b0 where "store_get (c_jobs c) j = Some b0" "b = b0\<lparr>j_delivery := None\<rparr>" by auto
    with assms [OF False] show "has_verdict (j_state b)" by simp
  qed
  moreover have "jobs_rel evolves ?c2 ?c3" by (auto intro!: evolves_frame simp: journal_forget_def)
  ultimately have "jobs_rel evolves c ?c3" by (blast intro: evolves_then)
  then show ?thesis using False
    by (intro exI [of _ ?c3]) (simp add: report_settle_def release_delivery_def Let_def)
qed

lemma rank_ok_low: "min_rank pos = 0 \<Longrightarrow> rank_ok c (j, pos)"
  by (simp add: rank_ok_def option.pred_set)

lemma rank_ok_beat: "snd t = AtBeat \<Longrightarrow> rank_ok c t"
  by (simp add: rank_ok_def option.pred_set)

lemma claiming_rank: "claiming j pos pos' c c' \<Longrightarrow> rank_ok c' (j, pos')"
  by (auto simp: claiming_def rank_ok_def has_verdict_rank)

text \<open>The state a phase sets.\<close>

lemma rank_set_state:
  assumes "rank_ok c (j, pos)" and "min_rank pos \<le> k" and "k \<le> min_rank pos" and "n \<in> {JFetching, JPlanning}"
    and "state_rank n = Suc k" and "min_rank pos' = Suc k"
  shows "rank_ok (set_state c j n now) (j, pos')"
  using assms job_try_rank [of k _ n now]
  by (cases "store_get (c_jobs c) j") (auto simp: rank_ok_def set_state_def)

lemma rank_run_start:
  assumes "phase_run_start D joined ids now j tree specs c = (c', True)" and "rank_ok c (j, AtRun tree specs)"
  shows "rank_ok c' (j, AtLoop)"
proof -
  have [simp]: "c_jobs (waker d j) = c_jobs d" for d :: "'a control"
    by (simp add: waker_def split: option.split)
  show ?thesis
    using assms job_try_rank [of 2 _ JRunning now]
    by (auto simp: phase_run_start_def phase_memo_def rank_ok_def Let_def state_rank_def option.pred_set
        split: option.splits if_splits prod.splits)
qed

lemma report_effect:
  assumes "report_step D A j acc reqs k c = (c', pos', ts)" and "jobs_ok c" and "rank_ok c (j, AtReport acc reqs k)"
  shows "(quiet j (AtReport acc reqs k) pos' c c' \<or> releasing j (AtReport acc reqs k) pos' c c') \<and>
    rank_ok c' (j, pos') \<and> ts = []"
proof (cases reqs)
  case (Cons req rest)
  then obtain acc1 where "post_one (an_post A) j req acc c = (c', acc1)" and p: "pos' = AtReport acc1 rest k" "ts = []"
    using assms(1) by (auto simp: report_step_def split: prod.splits)
  then have c': "jobs_rel evolves c c'" and "fst ` set (newly_sent (AtReport acc reqs k) pos') = {req}"
    using evolves_post [of c "an_post A" j req acc] by (auto simp: post_one_def acc_push_def split: prod.splits)
  with p Cons have "quiet j (AtReport acc reqs k) pos' c c'" by (simp add: quiet_def)
  moreover have "rank_ok c' (j, pos')"
    using rank_ok_moves [OF evolves_moves [OF c'] assms(3)] p by (simp add: rank_ok_def)
  ultimately show ?thesis using p by simp
next
  case Nil
  let ?c1 = "merge_destinations D j c"
  have c1: "jobs_rel evolves c ?c1" by (rule evolves_merge)
  note ok = jobs_ok_moves [OF assms(2) evolves_moves [OF c1]]
  note rank = rank_ok_moves [OF evolves_moves [OF c1] assms(3)]
  show ?thesis
  proof (cases "\<exists>req rest. callback_requests ?c1 j (ra_attempted acc) = Some (req # rest)")
    case True
    then obtain req rest where r: "callback_requests ?c1 j (ra_attempted acc) = Some (req # rest)" by blast
    with assms(1) Nil have e: "c' = ?c1" "pos' = AtReport acc (req # rest) k" "ts = []"
      by (auto simp: report_step_def Let_def)
    with callback_requests_ids [OF ok r] c1 have "quiet j (AtReport acc reqs k) pos' c c'"
      by (simp add: quiet_def)
    with rank e show ?thesis by (simp add: rank_ok_def)
  next
    case False
    then have "done_with D A j k (report_settle D j (ck_now (an_clock A)) acc ?c1) = (c', pos', ts)"
      using assms(1) Nil by (auto simp: report_step_def Let_def split: option.splits list.splits)
    note d = done_with_effect [OF this]
    have "has_verdict (j_state b)" if "store_get (c_jobs ?c1) j = Some b" for b
      using rank that state_rank_le [of "j_state b"] by (auto simp: rank_ok_def has_verdict_rank)
    then obtain c2 where "jobs_rel evolves ?c1 c2" "report_settle D j (ck_now (an_clock A)) acc ?c1 =
        with_job_mut c2 j (\<lambda>b. b\<lparr>j_delivering := False, j_last_delivery_at := Some (ck_now (an_clock A))\<rparr>)"
      using report_settle_effect [of acc ?c1 j D "ck_now (an_clock A)"] by blast
    with d evolves_then [OF c1] have "releasing j (AtReport acc reqs k) pos' c c'"
      unfolding releasing_def by auto
    with d show ?thesis by (simp add: rank_ok_low)
  qed
qed

lemma phase_verdicts:
  "phase_fetch fetch now j d c = (c1, Inl v) \<Longrightarrow> v_status v = Errored"
  "phase_plan planner now j tree c = (c1, Inl v) \<Longrightarrow> v_status v = Errored"
  by (auto simp: phase_fetch_def phase_plan_def Let_def expiry_verdict_def verdict_errored_def fold_steps_def
      split: option.splits sum.splits if_splits)

lemma phase_states:
  "fst (phase_fetch fetch now j d c) = set_state c j JFetching now"
  "fst (phase_plan planner now j tree c) = set_state c j JPlanning now"
  by (simp_all add: phase_fetch_def phase_plan_def Let_def)

lemma claiming_after: "jobs_rel evolves c c1 \<Longrightarrow> claiming j pos pos' c1 c' \<Longrightarrow> claiming j pos pos' c c'"
  unfolding claiming_def by (blast intro: evolves_then)

lemma finish_effect:
  assumes "jobs_rel evolves c c1" and "finish_job D A j k v c1 = (c', pos', ts)" and "\<not> is_sender pos"
    and "\<And>b. store_get (c_jobs c1) j = Some b \<Longrightarrow> v_status v = Errored \<or> state_rank (j_state b) \<ge> 3"
  shows "(quiet j pos pos' c c' \<or> claiming j pos pos' c c') \<and> rank_ok c' (j, pos') \<and> ts = []"
  using finish_job_effect [OF assms(2-4)]
  by (auto intro: claiming_after [OF assms(1)] claiming_rank quietI [OF evolves_then [OF assms(1)] assms(3)] rank_ok_low)

lemma done_effect:
  assumes "jobs_rel evolves c c1" and "done_with D A j k c1 = (c', pos', ts)" and "\<not> is_sender pos"
  shows "quiet j pos pos' c c' \<and> rank_ok c' (j, pos') \<and> ts = []"
  using done_with_effect [OF assms(2)] evolves_then [OF assms(1)] assms(3) by (auto intro: quietI rank_ok_low)

lemma task_effect:
  assumes "task_step D A j pos c = (c', pos', ts)" and "jobs_ok c" and "rank_ok c (j, pos)"
  shows "(quiet j pos pos' c c' \<or> claiming j pos pos' c c' \<or> releasing j pos pos' c c') \<and>
    rank_ok c' (j, pos') \<and> (\<forall>t\<in>set ts. snd t = AtBeat)"
proof (cases pos)
  case AtStart
  with assms(1) show ?thesis by (auto simp: quietI rank_ok_low split: option.splits if_splits)
next
  case (AtFetch d)
  let ?c1 = "set_state c j JFetching (ck_now (an_clock A))"
  have c1: "jobs_rel evolves c ?c1" by (rule evolves_set_state) (simp add: has_verdict_def)
  obtain r where r: "phase_fetch (an_fetch A) (ck_now (an_clock A)) j d c = (?c1, r)"
    using phase_states(1) by (metis prod.collapse)
  show ?thesis
  proof (cases r)
    case (Inl v)
    with r AtFetch assms(1) have "finish_job D A j False v ?c1 = (c', pos', ts)" by simp
    from finish_effect [OF c1 this, of pos] phase_verdicts(1) [OF r [unfolded Inl]] AtFetch show ?thesis by auto
  next
    case (Inr tree)
    with r AtFetch assms(1) have "c' = ?c1" "pos' = AtPlan tree" "ts = []" by auto
    with c1 AtFetch assms(3) show ?thesis
      by (auto intro!: quietI rank_set_state [where k = 0 and pos = pos] simp: state_rank_def)
  qed
next
  case (AtPlan tree)
  let ?c1 = "set_state c j JPlanning (ck_now (an_clock A))"
  have c1: "jobs_rel evolves c ?c1" by (rule evolves_set_state) (simp add: has_verdict_def)
  obtain r where r: "phase_plan (an_plan A) (ck_now (an_clock A)) j tree c = (?c1, r)"
    using phase_states(2) by (metis prod.collapse)
  show ?thesis
  proof (cases r)
    case (Inl v)
    with r AtPlan assms(1) have "finish_job D A j False v ?c1 = (c', pos', ts)" by simp
    from finish_effect [OF c1 this, of pos] phase_verdicts(2) [OF r [unfolded Inl]] AtPlan show ?thesis by auto
  next
    case (Inr specs)
    with r AtPlan assms(1) have "c' = ?c1" "pos' = AtRun tree specs" "ts = []" by auto
    with c1 AtPlan assms(3) show ?thesis
      by (auto intro!: quietI rank_set_state [where k = 1 and pos = pos] simp: state_rank_def)
  qed
next
  case (AtRun tree specs)
  obtain c1 alive where s: "phase_run_start D (an_joined A) (an_ids A) (ck_now (an_clock A)) j tree specs c = (c1, alive)"
    by fastforce
  have c1: "jobs_rel evolves c c1"
    using evolves_run_start [of c D "an_joined A" "an_ids A" "ck_now (an_clock A)" j tree specs] s by simp
  show ?thesis
  proof (cases alive)
    case True
    with s AtRun assms(1) have "c' = c1" "pos' = AtLoop" "ts = []" by auto
    with c1 AtRun rank_run_start [OF s [unfolded True [THEN eqTrueI]]] assms(3) show ?thesis by (auto intro: quietI)
  next
    case False
    with s AtRun assms(1) have "done_with D A j True c1 = (c', pos', ts)" by simp
    from done_effect [OF c1 this, of pos] AtRun show ?thesis by auto
  qed
next
  case AtLoop
  obtain c1 out where s: "run_pass D (ck_now (an_clock A)) (ck_ms (an_clock A)) j c = (c1, out)" by fastforce
  have c1: "jobs_rel evolves c c1"
    using same_jobs_evolves [OF same_jobs_run_pass [of c D "ck_now (an_clock A)" "ck_ms (an_clock A)" j]] s by simp
  note rank = rank_ok_moves [OF evolves_moves [OF c1] assms(3)]
  show ?thesis
  proof (cases out)
    case PassGone
    with s AtLoop assms(1) have "done_with D A j True c1 = (c', pos', ts)" by simp
    from done_effect [OF c1 this, of pos] AtLoop show ?thesis by auto
  next
    case (PassFinish v)
    with s AtLoop assms(1) have "finish_job D A j True v c1 = (c', pos', ts)" by simp
    from finish_effect [OF c1 this, of pos] rank AtLoop show ?thesis by (auto simp: rank_ok_def option.pred_set)
  qed (use s AtLoop assms(1) c1 rank in \<open>auto intro: quietI\<close>)
next
  case (AtReport acc reqs k)
  with report_effect [of D A j acc reqs k c c' pos' ts] assms show ?thesis by auto
next
  case AtBeat
  with assms(1) same_jobs_evolves [OF same_jobs_heartbeat [of c D "ck_ms (an_clock A)" j]] show ?thesis
    by (auto intro!: quietI rank_ok_low split: prod.splits if_splits)
next
  case AtEnd
  with assms(1) show ?thesis by (auto simp: quietI rank_ok_low)
qed

lemma report_pos_ok:
  assumes "report_step D A j acc reqs k c = (c', pos', ts)" and "jobs_ok c" and "pos_ok S j (AtReport acc reqs k)"
  shows "pos_ok (S \<union> set (newly_sent (AtReport acc reqs k) pos')) j pos'"
proof (cases reqs)
  case (Cons req rest)
  with assms(1,3) show ?thesis
    by (auto simp: report_step_def post_one_def acc_push_def acc_ok_def split: prod.splits)
next
  case Nil
  let ?c1 = "merge_destinations D j c"
  have ok: "jobs_ok ?c1" by (rule jobs_ok_moves [OF assms(2) evolves_moves [OF evolves_merge]])
  show ?thesis
  proof (cases "\<exists>req rest. callback_requests ?c1 j (ra_attempted acc) = Some (req # rest)")
    case True
    then obtain req rest where r: "callback_requests ?c1 j (ra_attempted acc) = Some (req # rest)" by blast
    with assms(1) Nil have e: "pos' = AtReport acc (req # rest) k" by (auto simp: report_step_def Let_def)
    from callback_requests_urls [OF r] obtain b where
      "store_get (c_jobs ?c1) j = Some b" "map cb_url (req # rest) = filter (\<lambda>u. u \<notin> set (ra_attempted acc)) (j_callback_urls b)"
      by blast
    then have "distinct (map cb_url (req # rest)) \<and> set (map cb_url (req # rest)) \<inter> set (ra_attempted acc) = {}"
      using ok by (auto simp: jobs_ok_def job_ok_def simp del: list.map)
    with assms(3) callback_requests_ids [OF ok r] e show ?thesis by (auto simp: acc_ok_def)
  next
    case False
    then have "done_with D A j k (report_settle D j (ck_now (an_clock A)) acc ?c1) = (c', pos', ts)"
      using assms(1) Nil by (auto simp: report_step_def Let_def split: option.splits list.splits)
    with done_with_effect [OF this] show ?thesis by simp
  qed
qed

lemma task_pos_ok:
  assumes "task_step D A j pos c = (c', pos', ts)" and "jobs_ok c" and "rank_ok c (j, pos)" and "pos_ok S j pos"
  shows "pos_ok (S \<union> set (newly_sent pos pos')) j pos'"
proof (cases "is_sender pos")
  case True
  then obtain acc reqs k where "pos = AtReport acc reqs k" by (cases pos) simp_all
  with report_pos_ok [of D A j acc reqs k c c' pos' ts S] assms show ?thesis by (simp del: pos_ok.simps)
next
  case False
  from task_effect [OF assms(1-3)] show ?thesis
    using False pos_ok_init pos_ok_not_sender by (auto simp: quiet_def claiming_def releasing_def)
qed

section \<open>The invariant is kept\<close>

lemma quiet_or_not_moves:
  assumes "quiet j pos pos' c c' \<or> claiming j pos pos' c c' \<or> releasing j pos pos' c c'"
  shows "jobs_rel moves c c'"
proof -
  note m = jobs_rel_trans [OF moves_trans]
  from assms show ?thesis
  proof (elim disjE)
    assume "claiming j pos pos' c c'"
    then show ?thesis unfolding claiming_def by (blast intro: m evolves_moves moves_claim)
  next
    assume "releasing j pos pos' c c'"
    then show ?thesis unfolding releasing_def by (blast intro: m evolves_moves moves_claim)
  qed (simp add: quiet_def evolves_moves)
qed

lemma sends_beats: "\<forall>t\<in>set ts. snd t = AtBeat \<Longrightarrow> filter (sends k) ts = []"
  by (auto simp: filter_empty_conv sends_def)

lemma task_sender_ok:
  assumes "sender_ok c (xs @ (j, pos) # ys) k" and "\<forall>t\<in>set ts. snd t = AtBeat"
    and "quiet j pos pos' c c' \<or> claiming j pos pos' c c' \<or> releasing j pos pos' c c'"
  shows "sender_ok c' (xs @ (j, pos') # ys @ ts) k"
proof -
  note beats = sends_beats [OF assms(2), of k]
  from assms(3) show ?thesis
  proof (elim disjE)
    assume "quiet j pos pos' c c'"
    then have "jobs_rel evolves c c'" "sends k (j, pos') = sends k (j, pos)" by (simp_all add: quiet_def sends_def)
    then show ?thesis using assms(1) beats
      by (cases "sends k (j, pos)") (auto intro!: sender_ok_evolves [OF _ assms(1)] simp: sends_def)
  next
    assume "claiming j pos pos' c c'"
    then obtain c1 b t where c1: "jobs_rel evolves c c1" "store_get (c_jobs c1) j = Some b" "\<not> j_delivering b"
        "c' = with_job_mut c1 j (\<lambda>b. b\<lparr>j_delivering := True, j_last_delivery_at := t\<rparr>)" and ns: "\<not> is_sender pos"
      unfolding claiming_def by blast
    from sender_ok_evolves [OF c1(1) assms(1) refl] have "sender_ok c1 (xs @ (j, pos) # ys) k" .
    from sender_ok_claim [OF this c1(2-4)] show ?thesis
      using beats ns by (simp add: sends_def)
  next
    assume "releasing j pos pos' c c'"
    then obtain c1 c2 t where c1: "jobs_rel evolves c c1" "jobs_rel evolves c2 c'"
        "c2 = with_job_mut c1 j (\<lambda>b. b\<lparr>j_delivering := False, j_last_delivery_at := t\<rparr>)"
        and p: "is_sender pos" "pos' = AtEnd"
      unfolding releasing_def by blast
    from sender_ok_evolves [OF c1(1) assms(1) refl] have ok: "sender_ok c1 (xs @ (j, pos) # ys) k" .
    have "sender_ok c2 (xs @ (j, pos') # ys @ ts) k"
    proof (cases "k = j")
      case True
      with ok p have "filter (sends k) (xs @ ys) = []" by (auto simp: sender_ok_def sends_def)
      with True p beats have "filter (sends k) (xs @ (j, pos') # ys @ ts) = []" by (simp add: sends_def)
      then show ?thesis
        unfolding sender_ok_def by (auto simp: filter_empty_conv list_ex_iff simp del: filter_append)
    next
      case False
      with ok p beats have f: "filter (sends k) (xs @ (j, pos') # ys @ ts) = filter (sends k) (xs @ (j, pos) # ys)"
        by (simp add: sends_def)
      then have "list_ex (sends k) (xs @ (j, pos') # ys @ ts) = list_ex (sends k) (xs @ (j, pos) # ys)"
        by (metis filter_empty_conv list_ex_iff)
      with ok False c1(3) f show ?thesis by (simp add: sender_ok_def del: filter_append list_ex_append)
    qed
    from sender_ok_evolves [OF c1(2) this refl] show ?thesis .
  qed
qed

lemma task_told_ok:
  assumes "jobs_ok c" and "told_ok c (xs @ (j, pos) # ys) sent k" and "\<forall>t\<in>set ts. snd t = AtBeat"
    and "quiet j pos pos' c c' \<or> claiming j pos pos' c c' \<or> releasing j pos pos' c c'"
  shows "told_ok c' (xs @ (j, pos') # ys @ ts) (sent @ newly_sent pos pos') k"
proof (rule told_ok_moves [OF assms(1) quiet_or_not_moves [OF assms(4)] assms(2)])
  have new: "(\<forall>req\<in>set (pending_of pos'). req \<in> set (pending_of pos) \<or>
      cb_job_id req = j \<and> verdict_of c' j = Some (cb_verdict req)) \<and> fst ` set (newly_sent pos pos') \<subseteq> set (pending_of pos)"
    using assms(4) by (cases pos; cases pos') (auto simp: quiet_def claiming_def releasing_def)
  fix req
  {
    fix t assume "t \<in> set (xs @ (j, pos') # ys @ ts)" "req \<in> set (pending_of (snd t))" "cb_job_id req = k"
    then show "req \<in> (\<Union>t\<in>set (xs @ (j, pos) # ys). set (pending_of (snd t))) \<or> verdict_of c' k = Some (cb_verdict req)"
      using new assms(3) by auto
  }
  assume "req \<in> fst ` set (sent @ newly_sent pos pos')"
  then show "req \<in> (\<Union>t\<in>set (xs @ (j, pos) # ys). set (pending_of (snd t))) \<union> fst ` set sent"
    using new by auto
qed

lemma plane_inv_task:
  assumes "plane_inv p"
  shows "plane_inv (plane_apply D (EvTask i A) p)"
proof (cases "i < length (p_tasks p)")
  case True
  obtain j pos where jp: "p_tasks p ! i = (j, pos)" by fastforce
  define xs ys where xy: "xs = take i (p_tasks p)" "ys = drop (Suc i) (p_tasks p)"
  have tasks: "p_tasks p = xs @ (j, pos) # ys" using id_take_nth_drop [OF True] by (simp add: xy jp)
  obtain c' pos' ts where st: "task_step D A j pos (p_control p) = (c', pos', ts)" by (cases "task_step D A j pos (p_control p)")
  from assms tasks have ok: "jobs_ok (p_control p)" "rank_ok (p_control p) (j, pos)" by (auto simp: plane_inv_parts)
  from task_effect [OF st ok] have eff: "quiet j pos pos' (p_control p) c' \<or> claiming j pos pos' (p_control p) c' \<or>
      releasing j pos pos' (p_control p) c'" and rank: "rank_ok c' (j, pos')" and beats: "\<forall>t\<in>set ts. snd t = AtBeat" by auto
  note moves = quiet_or_not_moves [OF eff]
  have pos: "pos_ok (set (p_sent p @ newly_sent pos pos')) j pos'"
    using task_pos_ok [OF st ok] assms tasks by (simp add: plane_inv_parts)
  have "plane_apply D (EvTask i A) p = p\<lparr>p_control := c', p_tasks := xs @ (j, pos') # ys @ ts,
      p_sent := p_sent p @ newly_sent pos pos'\<rparr>"
    using True by (simp add: jp st xy)
  moreover have "\<forall>t\<in>set (xs @ (j, pos') # ys @ ts). rank_ok c' t \<and> pos_ok (set (p_sent p @ newly_sent pos pos')) (fst t) (snd t)"
    using assms rank pos beats rank_ok_moves [OF moves] tasks
    by (auto simp: plane_inv_parts rank_ok_beat intro: pos_ok_mono)
  ultimately show ?thesis
    using assms jobs_ok_moves [OF ok(1) moves] task_sender_ok [OF _ beats eff] task_told_ok [OF ok(1) _ beats eff]
    unfolding plane_inv_parts tasks by auto
qed (use assms in simp)

text \<open>The parts of \<open>accept\<close>.\<close>

lemma parts_same_get:
  assumes "parts_ok c ts dr sent" and "\<And>k. store_get (c_jobs c') k = store_get (c_jobs c) k" and "store_ok (c_jobs c')"
  shows "parts_ok c' ts dr sent"
  using assms
  by (simp add: parts_ok_def jobs_ok_def rank_ok_def sender_ok_def told_ok_def verdict_of_def with_job_def)

lemma parts_evolves:
  assumes "parts_ok c ts dr sent" and "jobs_rel evolves c c'"
  shows "parts_ok c' ts dr sent"
  using assms jobs_ok_moves [OF _ evolves_moves [OF assms(2)], of] rank_ok_moves [OF evolves_moves [OF assms(2)]]
    sender_ok_evolves [OF assms(2) _ refl] told_ok_moves [OF _ evolves_moves [OF assms(2)], of ts sent _ ts sent]
  unfolding parts_ok_def by blast

lemma parts_task:
  assumes "parts_ok c ts dr sent" and "\<not> is_sender pos" and "min_rank pos = 0"
  shows "parts_ok c (ts @ [(j, pos)]) dr sent"
proof -
  have "pending_of pos = []" using assms(2) by (cases pos) simp_all
  with assms show ?thesis
    by (auto simp: parts_ok_def rank_ok_low sender_ok_def sends_def told_ok_def pos_ok_not_sender)
qed

lemma parts_claim:
  assumes "parts_ok c ts dr sent" and "store_get (c_jobs c) j = Some b" and "\<not> j_delivering b" and "has_verdict (j_state b)"
  shows "parts_ok (with_job_mut c j (\<lambda>b. b\<lparr>j_delivering := True, j_last_delivery_at := t\<rparr>)) (ts @ [(j, report_start)]) dr sent"
    (is "parts_ok ?c _ _ _")
proof -
  have ok: "jobs_ok c" using assms(1) by (simp add: parts_ok_def)
  have "sender_ok ?c (ts @ [(j, report_start)]) k" if "sender_ok c ts k" for k
    by (rule sender_ok_claim [OF that assms(2,3) refl, of _ ts report_start "[]"]) simp_all
  moreover have "told_ok ?c (ts @ [(j, report_start)]) sent k" if "told_ok c ts sent k" for k
    by (rule told_ok_moves [OF ok moves_claim that]) (auto simp: report_start_def)
  moreover have "rank_ok ?c (j, report_start)"
    using assms(2,4) by (simp add: rank_ok_def report_start_def has_verdict_rank)
  moreover have "rank_ok ?c u" if "rank_ok c u" for u using that by (rule rank_ok_moves [OF moves_claim])
  ultimately show ?thesis
    using assms(1) jobs_ok_moves [OF ok moves_claim]
    by (auto simp: parts_ok_def report_start_def pos_ok_init simp del: pos_ok.simps)
qed

text \<open>A record that appears.\<close>

lemma parts_insert:
  assumes "parts_ok c ts dr sent" and "store_get (c_jobs c) j = None" and "store_ok (c_jobs c')"
    and get: "\<And>k. store_get (c_jobs c') k = (if k = j then Some b else store_get (c_jobs c) k)"
    and "job_ok b" and "j \<notin> fst ` set ts \<or> state_rank (j_state b) = 4"
  shows "parts_ok c' ts dr sent"
proof -
  have "jobs_ok c'" using assms(1,3,5) get by (simp add: parts_ok_def jobs_ok_def)
  moreover have "rank_ok c' t" if "t \<in> set ts" for t
  proof -
    have "min_rank pos \<le> 4" for pos by (cases pos) simp_all
    with that assms(1,6) get show ?thesis by (auto simp: parts_ok_def rank_ok_def)
  qed
  moreover have "sender_ok c' ts k \<and> told_ok c' ts sent k" if "k \<notin> set dr" for k
  proof -
    from that assms(1) have "sender_ok c ts k" "told_ok c ts sent k" by (auto simp: parts_ok_def)
    with assms(2) get show ?thesis
      by (cases "k = j") (auto simp: sender_ok_def told_ok_def verdict_of_def with_job_def)
  qed
  ultimately show ?thesis using assms(1) by (simp add: parts_ok_def)
qed

lemma parts_evict:
  assumes "parts_ok c ts dr sent" and "evict checks (c_jobs c) (ck_now ck) (cc_job_retention (c_config c)) (cc_max_jobs (c_config c)) = (st, res)"
    and "c_jobs c' = st"
  shows "parts_ok c' ts (dropped_by checks ck c @ dr) sent"
proof -
  have ok: "store_ok (c_jobs c)" "jobs_ok c" using assms(1) by (auto simp: parts_ok_def jobs_ok_def)
  have get: "store_get st j = store_get (c_jobs c) j \<or> store_get st j = None" for j
    using evict_effect [OF ok(1) assms(2)] by (auto simp: store_get_def)
  have kept: "store_get st j = store_get (c_jobs c) j" if "j \<notin> set (dropped_by checks ck c)" for j
  proof (cases "store_get (c_jobs c) j")
    case (Some b)
    then have "j \<in> set (map fst (by_id (c_jobs c)))" by (auto simp: store_get_def dest: map_of_SomeD intro: rev_image_eqI)
    with that get [of j] assms(2) Some show ?thesis by (auto simp: dropped_by_def)
  qed (use get [of j] in auto)
  have sok: "store_ok st"
  proof -
    from evict_split [OF ok(1) assms(2)] obtain js where "st = remove_all js (c_jobs c)" by metis
    moreover have "store_ok (remove_all js st0)" if "store_ok st0" for st0
      using that by (induction js arbitrary: st0) (simp_all add: store_ok_remove)
    ultimately show ?thesis using ok(1) by simp
  qed
  have "jobs_ok c'" using ok(2) sok get assms(3) unfolding jobs_ok_def by (metis option.distinct(1))
  moreover have "rank_ok c' t" if "rank_ok c t" for t
    using that get [of "fst t"] assms(3) by (auto simp: rank_ok_def)
  moreover have "sender_ok c' ts j \<and> told_ok c' ts sent j"
    if "j \<notin> set (dropped_by checks ck c)" "sender_ok c ts j" "told_ok c ts sent j" for j
    using that kept [OF that(1)] assms(3) by (simp add: sender_ok_def told_ok_def verdict_of_def with_job_def)
  ultimately show ?thesis using assms(1) by (auto simp: parts_ok_def)
qed

lemma parts_drain:
  assumes "parts_ok c ts dr sent" and "drain_loop now js c = (c', us)"
  shows "parts_ok c' (ts @ us) dr sent"
  using assms
proof (induction js arbitrary: c ts us)
  case (Cons j js)
  obtain c1 ok where cl: "claim_delivery_if_parked c j now = (c1, ok)" by fastforce
  obtain c2 vs where dr: "drain_loop now js c1 = (c2, vs)" by fastforce
  from Cons.prems(2) cl dr have e: "c' = c2" "us = (if ok then (j, report_start) # vs else vs)" by auto
  from claim_delivery_simps(2) [OF cl] Cons.prems(1)
  have "parts_ok c1 (ts @ (if ok then [(j, report_start)] else [])) dr sent"
    by (auto intro: parts_claim simp: has_verdict_def split: if_splits)
  from Cons.IH [OF this dr [folded e(1)]] e show ?case by (auto split: if_splits)
qed simp

lemma parts_start:
  assumes "parts_ok c ts dr sent" and "accept_start j now next c = (c', us)"
    and "\<And>b. next = NextReReport \<Longrightarrow> store_get (c_jobs c) j = Some b \<Longrightarrow> has_verdict (j_state b)"
  shows "parts_ok c' (ts @ us) dr sent"
proof (cases "next")
  case NextDrive
  with assms(2) have "c_jobs c' = c_jobs c" "us = [(j, AtStart)]" by (auto simp: accept_start_def)
  moreover from this(1) assms(1) have "parts_ok c' ts dr sent"
    by (intro parts_same_get [OF assms(1)]) (auto simp: parts_ok_def jobs_ok_def)
  ultimately show ?thesis by (auto intro: parts_task)
next
  case NextReReport
  then obtain ok where cl: "claim_delivery c j now = (c', ok)" "us = (if ok then [(j, report_start)] else [])"
    using assms(2) by (auto simp: accept_start_def split: prod.splits)
  from claim_delivery_simps(1) [OF cl(1)] cl(2) assms(1) assms(3) [OF NextReReport] show ?thesis
    by (auto intro: parts_claim split: if_splits)
qed (use assms(1,2) in \<open>auto simp: accept_start_def\<close>)

lemma store_get_insert:
  "store_get (store_insert st j d ac now t) k =
     (if k = j \<and> store_get st j = None then Some (job_new j d ac now t) else store_get st k)"
  by (auto simp: store_get_def store_insert_def split: option.split)

lemma store_ok_mut:
  "store_ok (c_jobs c) \<Longrightarrow> (\<And>b. j_id (f b) = j_id b) \<Longrightarrow> store_ok (c_jobs (with_job_mut c j f))"
  by (auto simp: store_ok_def with_job_mut_def store_get_mut_def)

lemma job_ok_new: "job_ok (job_new j d ac now t)"
  by (simp add: job_ok_def job_new_def has_verdict_def)

lemma parts_claimed:
  assumes "parts_ok c ts dr sent" and "accept_claimed d ac now adm c = (c', next)"
    and "\<And>l. adm = Created l \<Longrightarrow> store_get (c_jobs c) (admitted_job_id adm) = None \<and> admitted_job_id adm \<notin> fst ` set ts"
  shows "parts_ok c' ts dr sent \<and>
    (next = NextReReport \<longrightarrow> pred_option (\<lambda>b. has_verdict (j_state b)) (store_get (c_jobs c') (admitted_job_id adm)))"
proof (cases adm)
  case (Created l)
  let ?j = "dl_job_id l"
  have c': "c' = c\<lparr>c_leases := AList.update ?j l (c_leases c),
      c_jobs := store_insert (c_jobs c) ?j d ac now (t_job (cc_timeouts (c_config c)))\<rparr>" "next = NextDrive"
    using assms(2) Created by (auto simp: accept_claimed_def Let_def)
  have "parts_ok c' ts dr sent"
    using assms(1,3) Created
    by (intro parts_insert [OF assms(1), of ?j _ "job_new ?j d ac now (t_job (cc_timeouts (c_config c)))"])
      (auto simp: c' store_get_insert job_ok_new parts_ok_def jobs_ok_def intro: store_ok_insert)
  with c'(2) show ?thesis by simp
next
  case (Attached j owner v)
  show ?thesis
  proof (cases "store_get (c_jobs c) j")
    case (Some b)
    then have e: "c' = with_job_mut c j (\<lambda>b. fst (add_callback_url b (d_callback_url d)))"
      "next = NextReReport \<longrightarrow> has_verdict (j_state b)"
      using assms(2) Attached by (auto simp: accept_claimed_def is_finished_def Let_def split: if_splits)
    have "jobs_rel evolves c c'" unfolding e(1)
      by (rule evolves_mut) (auto simp: add_callback_url_def intro!: evolves_field)
    with parts_evolves [OF assms(1)] e Some Attached show ?thesis by (simp add: add_callback_url_def)
  next
    case None
    show ?thesis
    proof (cases v)
      case (Some v')
      let ?b = "(job_new j d ac now (t_job (cc_timeouts (c_config c))))
        \<lparr>j_state := from_status (v_status v'), j_verdict := Some v', j_settled_at := Some now\<rparr>"
      have v: "has_verdict (j_state ?b)" by (cases "v_status v'") (simp_all add: has_verdict_def)
      have get: "store_get (c_jobs c') k = (if k = j then Some ?b else store_get (c_jobs c) k)" for k
        using assms(2) Attached None Some by (auto simp: accept_claimed_def record_foreign_verdict_def store_get_insert Let_def)
      have "store_ok (c_jobs c)" using assms(1) by (simp add: parts_ok_def jobs_ok_def)
      then have "store_ok (c_jobs c')"
        using assms(2) Attached None Some
        by (auto simp: accept_claimed_def Let_def record_foreign_verdict_def intro!: store_ok_mut store_ok_insert)
      from parts_insert [OF assms(1) None this get] v get Attached show ?thesis
        by (simp add: job_ok_def has_verdict_rank job_new_def)
    qed (use assms(1,2) Attached None in \<open>simp add: accept_claimed_def Let_def\<close>)
  qed
qed

lemma same_jobs_forget_claims: "same_jobs c (forget_claims D js c)"
  unfolding forget_claims_def
  by (induction js arbitrary: c) (auto intro: same_jobs_trans [OF same_jobs_frame(5)])

text \<open>A rolled back admission leaves the records as they were.\<close>

lemma roll_back_records:
  assumes "store_ok (c_jobs c)" and "store_get (c_jobs c) j = None" and "accept_claimed d ac now (Created l) c = (c1, next)"
    and "dl_job_id l = j" and "journal_record D c1 j v unix = (c2, r)"
  shows "store_get (c_jobs (roll_back D j c2)) k = store_get (c_jobs c) k" and "store_ok (c_jobs (roll_back D j c2))"
proof -
  have "c_jobs c2 = c_jobs c1"
    using assms(5) by (auto simp: journal_record_def Let_def split: option.splits prod.splits)
  moreover have "c_jobs (roll_back D j c2) = store_remove (c_jobs c2) j"
    by (simp add: roll_back_def call_claims_def drop_lease_def split: prod.split)
  ultimately have e: "c_jobs (roll_back D j c2) = store_remove (store_insert (c_jobs c) j d ac now
      (t_job (cc_timeouts (c_config c)))) j"
    using assms(3,4) by (auto simp: accept_claimed_def Let_def)
  show "store_get (c_jobs (roll_back D j c2)) k = store_get (c_jobs c) k"
    using assms(2) unfolding e by (auto simp: store_get_def store_remove_def store_insert_def split: option.split)
  show "store_ok (c_jobs (roll_back D j c2))"
    unfolding e by (intro store_ok_remove store_ok_insert assms(1))
qed

lemma parts_admitted:
  assumes "parts_ok c ts dr sent" and "accept_admitted D d ck adm c = (c', res, us)"
    and new: "\<And>l. adm = Created l \<Longrightarrow> store_get (c_jobs c) (dl_job_id l) = None \<and> dl_job_id l \<notin> fst ` set ts"
  shows "parts_ok c' (ts @ us) dr sent"
proof -
  let ?j = "admitted_job_id adm"
  obtain c1 nx where cl: "accept_claimed d (dp_classify D (d_repo d) (d_author d)) (ck_now ck) adm c = (c1, nx)" by fastforce
  have c1: "parts_ok c1 ts dr sent \<and>
      (nx = NextReReport \<longrightarrow> pred_option (\<lambda>b. has_verdict (j_state b)) (store_get (c_jobs c1) ?j))"
  proof (rule parts_claimed [OF assms(1) cl])
    fix l assume "adm = Created l"
    with new [OF this] show "store_get (c_jobs c) ?j = None \<and> ?j \<notin> fst ` set ts" by simp
  qed
  obtain c2 r where jr: "(if nx \<in> {NextDrive, NextAttachedHere} then journal_record D c1 ?j None (ck_unix ck)
      else (c1, Inr ())) = (c2, r)" by fastforce
  have s12: "same_jobs c1 c2"
    using jr by (metis fst_conv same_jobs_frame(6,9))
  then have c2: "parts_ok c2 ts dr sent" using c1 by (blast intro: parts_evolves same_jobs_evolves)
  show ?thesis
  proof (cases r)
    case (Inr u)
    obtain c3 us3 where s3: "accept_start ?j (ck_now ck) nx c2 = (c3, us3)" by fastforce
    obtain c4 us4 where s4: "drain_undelivered c3 ?j (ck_now ck) = (c4, us4)" by fastforce
    have "has_verdict (j_state b)" if "nx = NextReReport" "store_get (c_jobs c2) ?j = Some b" for b
      using that c1 jr by (auto simp: option.pred_set)
    from parts_start [OF c2 s3 this] have "parts_ok c3 (ts @ us3) dr sent" .
    from parts_drain [OF this s4 [unfolded drain_undelivered_def]] show ?thesis
      using assms(2) cl jr Inr s3 s4 by (auto simp: accept_admitted_def Let_def)
  next
    case (Inl e)
    with assms(2) cl jr have e: "us = []" "c' = (if nx = NextDrive then roll_back D ?j c2 else c2)"
      by (auto simp: accept_admitted_def Let_def)
    show ?thesis
    proof (cases "nx = NextDrive")
      case True
      then obtain l where l: "adm = Created l"
        using cl by (cases adm) (auto simp: accept_claimed_def Let_def split: option.splits if_splits)
      have ok: "store_ok (c_jobs c)" using assms(1) by (simp add: parts_ok_def jobs_ok_def)
      have g: "store_get (c_jobs c) (dl_job_id l) = None" using new l by blast
      have j: "journal_record D c1 (dl_job_id l) None (ck_unix ck) = (c2, r)" using jr True l by simp
      from parts_same_get [OF assms(1) roll_back_records [OF ok g cl [unfolded l] refl j]] show ?thesis
        using e True l by simp
    qed (use c2 e in simp)
  qed
qed

lemma plane_inv_accept:
  assumes "plane_inv p" and "honest D" and "fresh_event p (EvAccept checks d ck proposed)"
  shows "plane_inv (plane_apply D (EvAccept checks d ck proposed) p)"
proof -
  let ?c = "p_control p"
  obtain st res where ev: "evict checks (c_jobs ?c) (ck_now ck) (cc_job_retention (c_config ?c)) (cc_max_jobs (c_config ?c)) = (st, res)"
    by fastforce
  obtain c' ans us where ac: "accept D checks d ck proposed ?c = (c', ans, us)" by (cases "accept D checks d ck proposed ?c")
  have e: "parts_ok (?c\<lparr>c_jobs := st\<rparr>) (p_tasks p) (dropped_by checks ck ?c @ p_dropped p) (p_sent p)"
    using assms(1) ev by (auto simp: plane_inv_def intro: parts_evict)
  have "parts_ok c' (p_tasks p @ us) (dropped_by checks ck ?c @ p_dropped p) (p_sent p)"
  proof (cases res)
    case None
    with ev ac e show ?thesis by (auto simp: accept_def)
  next
    case (Some evicted)
    let ?d0 = "forget_claims D evicted (?c\<lparr>c_jobs := st\<rparr>)"
    obtain c1 out where cl: "call_claims D (admit_op (c_config ?c) d ck proposed) ?d0 = (c1, out)" by fastforce
    have s: "same_jobs (?c\<lparr>c_jobs := st\<rparr>) c1"
      using same_jobs_trans [OF same_jobs_forget_claims same_jobs_call [OF cl]] .
    then have c1: "parts_ok c1 (p_tasks p) (dropped_by checks ck ?c @ p_dropped p) (p_sent p)"
      using e by (blast intro: parts_evolves same_jobs_evolves)
    show ?thesis
    proof (cases "as_admit out")
      case (Inl x)
      with Some ev cl ac c1 show ?thesis by (auto simp: accept_def)
    next
      case (Inr adm)
      have "store_get (c_jobs c1) (dl_job_id l) = None \<and> dl_job_id l \<notin> fst ` set (p_tasks p)" if "adm = Created l" for l
      proof -
        have "dl_job_id l = proposed"
          using Inr that cl assms(2) by (cases out) (auto simp: honest_def call_claims_def admit_op_def split: prod.splits)
        moreover have "store_get st proposed = None"
        proof -
          have "store_ok (c_jobs ?c)" using assms(1) by (simp add: plane_inv_def parts_ok_def jobs_ok_def)
          from evict_effect [OF this ev] assms(3) show ?thesis by (auto simp: store_get_def dest: spec [of _ proposed])
        qed
        then have "store_get (c_jobs c1) proposed = None" using s by (auto simp: jobs_rel_def option_rel_Some2 dest: spec [of _ proposed])
        ultimately show ?thesis using assms(3) by simp
      qed
      from parts_admitted [OF c1 _ this] show ?thesis
        using Some ev cl Inr ac by (simp add: accept_def)
    qed
  qed
  then show ?thesis using ac by (simp add: plane_inv_def)
qed

lemma reachable_inv:
  assumes "reachable D w0 p" and "honest D"
  shows "plane_inv p"
  using assms(1)
proof (induction rule: reachable.induct)
  case (start config memo)
  show ?case
    by (simp add: plane_inv_def parts_ok_def plane_new_def control_new_def jobs_ok_def store_ok_def job_store_new_def
        store_get_def sender_ok_def told_ok_def)
next
  case (event p ev)
  show ?case
  proof (cases ev)
    case EvAccept
    with plane_inv_accept [OF event.IH assms(2)] event.hyps show ?thesis by simp
  next
    case (EvReport rep node now)
    with parts_evolves [OF _ same_jobs_evolves [OF same_jobs_step_report]] event.IH show ?thesis
      by (auto simp: plane_inv_def)
  next
    case (EvRenew j i node now)
    with parts_evolves [OF _ same_jobs_evolves [OF same_jobs_renew]] event.IH show ?thesis
      by (auto simp: plane_inv_def)
  next
    case (EvTask i A)
    with plane_inv_task [OF event.IH] show ?thesis by simp
  qed
qed

section \<open>Properties\<close>

text \<open>The collaborators a control plane has when nothing is wired into it: process-local claims, no
  journal, no fleet.\<close>

definition unwired_deps :: "local_state deps" where
  "unwired_deps =
     \<lparr>dp_classify = least_privilege, dp_claims = local_apply, dp_needs_renewal = False,
      dp_record = no_journal_record, dp_forget = no_journal_forget,
      dp_assign = (\<lambda>a tree w. (w, Inl NodeUnwired)), dp_cancel = (\<lambda>j i w. w), dp_blake3 = (\<lambda>bs. bs)\<rparr>"

lemma honest_unwired: "honest unwired_deps"
  unfolding honest_def unwired_deps_def using lc.created by fastforce

definition example_dispatch :: dispatch where
  "example_dispatch = \<lparr>d_repo = [97, 47, 98], d_change = [99], d_tree_id = [100], d_intent = [], d_author = [101],
     d_source_url = [102], d_callback_url = [103], d_fetch_token = None\<rparr>"

definition example_clock :: clock where
  "example_clock = \<lparr>ck_now = 7, ck_ms = 8, ck_unix = 9\<rparr>"

definition example_answers :: answers where
  "example_answers = \<lparr>an_clock = example_clock, an_fetch = (\<lambda>r. None), an_plan = (\<lambda>t. Inr []), an_joined = True,
     an_ids = (\<lambda>i. [i]), an_post = (\<lambda>r n. Inr 200)\<rparr>"

definition example_config :: control_config where
  "example_config = control_config_default"

lemma select_idle: "fq_tenants q = [] \<Longrightarrow> select q now = (q, [])"
  by (simp add: select_def prune_ledgers_def drop_stale_heads_def select_loop.simps best_def Let_def hm_map_def)

lemma retire_idle:
  assumes "fq_tenants (c_queue c) = []" and "fq_jobs (c_queue c) = []"
  shows "retire D now ms j c = drop_lease (c\<lparr>c_trees := AList.delete j (c_trees c)\<rparr>) j"
  using assms by (simp add: retire_def pump_def drop_lease_def on_queue_def forget_job_def select_idle Let_def)

lemmas example_accept_simps = plane_new_def control_new_def accept_def evict_def settled_oldest_first_def job_store_new_def
    map_filter_simps forget_claims_def call_claims_def admit_op_def local_admit_def local_drop_stale_def local_stale_def local_new_def
    local_insert_def accept_admitted_def accept_claimed_def Let_def store_insert_def store_get_def journal_record_def no_journal_record_def accept_start_def drain_undelivered_def
    due_for_redelivery_def dropped_by_def  unwired_deps_def example_dispatch_def awaits_redelivery_def job_new_def

lemmas example_drive_simps = phase_fetch_def example_answers_def set_state_def with_job_mut_def store_get_mut_def hm_modify_def hm_map_def
  job_try_def job_transition_at_def job_can_transition_to_def finish_job_def finish_record_def has_verdict_def is_finished_def
  decide_def details_url_of_def example_config_def control_config_default_def expiry_verdict_def verdict_errored_def
  verdict_of_def with_job_def lease_of_def local_settle_def retire_idle fair_queue_new_def drop_lease_def claim_delivery_def

lemmas example_report_simps = report_step_def merge_destinations_def local_destinations_def merge_urls_def add_callback_url_def
  callback_requests_def report_acc_init_def post_one_def deliver_reporting_def deliver_loop.simps is_success_def acc_push_def

text \<open>A dispatch whose source never arrives: accepted, driven to a verdict, and reported. After three events
  the report has begun, after five it has sent its request.\<close>

definition example_plane :: "event list \<Rightarrow> local_state plane" where
  "example_plane evs = fold (plane_apply unwired_deps) evs
     (plane_apply unwired_deps (EvAccept True example_dispatch example_clock [106])
       (plane_new example_config (memo_new memo_policy_default) local_new))"

definition example_tick :: event where "example_tick = EvTask 0 example_answers"

lemma reachable_task: "reachable D w0 p \<Longrightarrow> reachable D w0 (plane_apply D (EvTask i A) p)"
  by (rule reachable.event) simp_all

lemma example_reachable:
  assumes "list_all (\<lambda>ev. ev = example_tick) evs"
  shows "reachable unwired_deps local_new (example_plane evs)"
proof -
  have "fresh_event (plane_new example_config (memo_new memo_policy_default) local_new)
      (EvAccept True example_dispatch example_clock [106])"
    by (simp add: plane_new_def control_new_def job_store_new_def store_get_def)
  from reachable.event [OF reachable.start this]
  have "reachable unwired_deps local_new (example_plane [])" by (simp add: example_plane_def del: plane_apply.simps)
  moreover have "reachable unwired_deps local_new (fold (plane_apply unwired_deps) evs p)" if "reachable unwired_deps local_new p" for p
    using assms that
    by (induction evs arbitrary: p) (auto intro: reachable_task simp: example_tick_def simp del: plane_apply.simps)
  ultimately show ?thesis by (simp add: example_plane_def del: plane_apply.simps)
qed

lemmas example_eval = example_plane_def example_tick_def example_accept_simps example_drive_simps example_report_simps

text \<open>C1. One job, one verdict, whatever the interleaving of dispatches, node reports and tasks: every
  callback ever sent for a job carries the verdict its record holds. A timeout that races a result,
  a second driver, a redelivery or a duplicate dispatch cannot make Hull hear a second one. The only
  way out is the retention sweep having dropped the record.\<close>

theorem plane_one_verdict:
  assumes "reachable D w0 p" and "honest D" and "(req, outcome) \<in> set (p_sent p)" and "cb_job_id req \<notin> set (p_dropped p)"
  shows "verdict_of (p_control p) (cb_job_id req) = Some (cb_verdict req)"
proof -
  from reachable_inv [OF assms(1,2)] assms(4)
  have "told_ok (p_control p) (p_tasks p) (p_sent p) (cb_job_id req)" by (simp add: plane_inv_def parts_ok_def)
  moreover have "req \<in> fst ` set (p_sent p)" using assms(3) by (rule rev_image_eqI) simp
  ultimately show ?thesis by (simp add: told_ok_def)
qed

theorem plane_one_verdict_witness:
  "\<exists>req outcome. (req, outcome) \<in> set (p_sent (example_plane [example_tick, example_tick, example_tick, example_tick])) \<and>
     verdict_of (p_control (example_plane [example_tick, example_tick, example_tick, example_tick])) (cb_job_id req) = Some (cb_verdict req)"
proof -
  obtain req outcome where "p_sent (example_plane [example_tick, example_tick, example_tick, example_tick]) = [(req, outcome)]" by (simp add: example_eval)
  moreover have "p_dropped (example_plane [example_tick, example_tick, example_tick, example_tick]) = []" by (simp add: example_eval)
  ultimately show ?thesis
    using plane_one_verdict [OF example_reachable honest_unwired, of "[example_tick, example_tick, example_tick, example_tick]" req outcome]
    by auto
qed



text \<open>How much a report has left to do when its destinations lie in \<open>U\<close>.\<close>

definition report_todo :: "str set \<Rightarrow> report_acc \<Rightarrow> callback_request list \<Rightarrow> nat" where
  "report_todo U acc reqs = 2 * card (U - set (ra_attempted acc)) + (if reqs = [] then 1 else 0)"

lemma report_todo_post:
  assumes "finite U" and "u \<in> U" and "u \<notin> set (ra_attempted acc)" and "ra_attempted acc' = ra_attempted acc @ [u]"
    and "reqs \<noteq> []"
  shows "report_todo U acc' reqs' < report_todo U acc reqs"
proof -
  have "U - set (ra_attempted acc') = (U - set (ra_attempted acc)) - {u}" using assms(4) by auto
  moreover have "u \<in> U - set (ra_attempted acc)" using assms(2,3) by simp
  ultimately have "card (U - set (ra_attempted acc')) < card (U - set (ra_attempted acc))"
    using assms(1) by (metis card_Diff1_less finite_Diff)
  with assms(5) show ?thesis by (simp add: report_todo_def)
qed

lemma report_step_progress:
  assumes "report_step D A j acc reqs k c = (c', pos', ts)" and "acc_ok S j acc reqs" and "finite U"
    and "set (map cb_url reqs) \<subseteq> U"
    and "pred_option (\<lambda>b. set (j_callback_urls b) \<subseteq> U) (store_get (c_jobs (merge_destinations D j c)) j)"
  shows "case pos' of
      AtReport acc' reqs' k' \<Rightarrow> k' = k \<and> report_todo U acc' reqs' < report_todo U acc reqs \<and> set (map cb_url reqs') \<subseteq> U
    | _ \<Rightarrow> pos' = AtEnd \<and> pred_option (\<lambda>b. j_verdict b = None \<or> set (j_callback_urls b) \<subseteq> set (ra_attempted acc))
        (store_get (c_jobs (merge_destinations D j c)) j)"
proof (cases reqs)
  case (Cons req rest)
  with assms(1) obtain c1 acc1 where p: "post_one (an_post A) j req acc c = (c1, acc1)" "pos' = AtReport acc1 rest k"
    by (auto simp: report_step_def split: prod.splits)
  then have "ra_attempted acc1 = ra_attempted acc @ [cb_url req]"
    by (auto simp: post_one_def acc_push_def split: prod.splits)
  with assms(2-4) Cons p report_todo_post [OF assms(3), of "cb_url req" acc acc1 reqs rest] show ?thesis
    by (auto simp: acc_ok_def)
next
  case Nil
  let ?c1 = "merge_destinations D j c"
  show ?thesis
  proof (cases "\<exists>req rest. callback_requests ?c1 j (ra_attempted acc) = Some (req # rest)")
    case True
    then obtain req rest where r: "callback_requests ?c1 j (ra_attempted acc) = Some (req # rest)" by blast
    with assms(1) Nil have e: "pos' = AtReport acc (req # rest) k" by (auto simp: report_step_def Let_def)
    from callback_requests_urls [OF r] obtain b where b: "store_get (c_jobs ?c1) j = Some b"
      "map cb_url (req # rest) = filter (\<lambda>u. u \<notin> set (ra_attempted acc)) (j_callback_urls b)" by blast
    then have "set (map cb_url (req # rest)) \<subseteq> U" using assms(5) unfolding b(2) by (auto simp: option.pred_set)
    with e Nil show ?thesis by (simp add: report_todo_def)
  next
    case False
    then have d: "done_with D A j k (report_settle D j (ck_now (an_clock A)) acc ?c1) = (c', pos', ts)"
      using assms(1) Nil by (auto simp: report_step_def Let_def split: option.splits list.splits)
    have "j_verdict b = None \<or> set (j_callback_urls b) \<subseteq> set (ra_attempted acc)"
      if "store_get (c_jobs ?c1) j = Some b" for b
    proof (rule ccontr)
      assume "\<not> ?thesis"
      then obtain v where v: "j_verdict b = Some v" and "filter (\<lambda>u. u \<notin> set (ra_attempted acc)) (j_callback_urls b) \<noteq> []"
        by (auto simp: filter_empty_conv)
      with that have "\<exists>req rest. callback_requests ?c1 j (ra_attempted acc) = Some (req # rest)"
        by (cases "filter (\<lambda>u. u \<notin> set (ra_attempted acc)) (j_callback_urls b)") (auto simp: callback_requests_def)
      with False show False by blast
    qed
    with done_with_effect [OF d] show ?thesis by (auto simp: option.pred_set)
  qed
qed

text \<open>C13. Delivery ends and leaves nobody out. While the destinations of a job lie in a finite set \<open>U\<close>, each
  step of its report strictly decreases \<open>report_todo U\<close>, whatever the other tasks do in between, so
  after at most \<open>2 * card U + 2\<close> steps it is over; no URL is sent to twice; and when it ends, every URL on
  the record of a decided job, those attached meanwhile and those another replica attached included,
  has been sent to.\<close>

theorem report_terminates:
  assumes "reachable D w0 p" and "honest D" and "i < length (p_tasks p)" and "p_tasks p ! i = (j, AtReport acc reqs k)"
    and "finite U" and "set (map cb_url reqs) \<subseteq> U"
    and "pred_option (\<lambda>b. set (j_callback_urls b) \<subseteq> U) (store_get (c_jobs (merge_destinations D j (p_control p))) j)"
  shows "distinct (ra_attempted acc @ map cb_url reqs) \<and>
    (case snd (p_tasks (plane_apply D (EvTask i A) p) ! i) of
       AtReport acc' reqs' k' \<Rightarrow> k' = k \<and> report_todo U acc' reqs' < report_todo U acc reqs \<and> set (map cb_url reqs') \<subseteq> U
     | pos \<Rightarrow> pos = AtEnd \<and> pred_option (\<lambda>b. j_verdict b = None \<or> set (j_callback_urls b) \<subseteq> set (ra_attempted acc))
         (store_get (c_jobs (merge_destinations D j (p_control p))) j))"
proof -
  obtain c' pos' ts where st: "report_step D A j acc reqs k (p_control p) = (c', pos', ts)"
    by (cases "report_step D A j acc reqs k (p_control p)")
  have ok: "acc_ok (set (p_sent p)) j acc reqs"
    using reachable_inv [OF assms(1,2)] nth_mem [OF assms(3)] assms(4) by (auto simp: plane_inv_parts)
  have "snd (p_tasks (plane_apply D (EvTask i A) p) ! i) = pos'"
    using assms(3,4) st by (simp add: nth_append)
  with report_step_progress [OF st ok assms(5-7)] ok show ?thesis
    by (cases pos') (simp_all add: acc_ok_def)
qed

theorem report_terminates_witness:
  "\<exists>acc reqs. p_tasks (example_plane [example_tick, example_tick]) ! 0 = ([106], AtReport acc reqs False) \<and>
     (\<exists>acc' reqs'. p_tasks (example_plane [example_tick, example_tick, example_tick]) ! 0 = ([106], AtReport acc' reqs' False) \<and>
        report_todo {[103]} acc' reqs' < report_todo {[103]} acc reqs)"
proof -
  let ?p = "example_plane [example_tick, example_tick]"
  have t: "p_tasks ?p = [([106], AtReport report_acc_init [] False)]" by (simp add: example_eval)
  have u: "pred_option (\<lambda>b. set (j_callback_urls b) \<subseteq> {[103]})
      (store_get (c_jobs (merge_destinations unwired_deps [106] (p_control ?p))) [106])"
    by (simp add: example_eval)
  have n: "plane_apply unwired_deps (EvTask 0 example_answers) ?p = example_plane [example_tick, example_tick, example_tick]"
    by (simp add: example_plane_def example_tick_def del: plane_apply.simps)
  have s: "\<exists>acc' reqs'. p_tasks (example_plane [example_tick, example_tick, example_tick]) ! 0 = ([106], AtReport acc' reqs' False)"
    by (simp add: example_eval)
  from report_terminates [OF example_reachable honest_unwired, of "[example_tick, example_tick]" 0 "[106]" report_acc_init "[]"
      False "{[103]}" example_answers] t u s show ?thesis unfolding n by auto
qed

end
