(* ===== verification/Ci_Methods.thy ===== *)
theory Ci_Methods
  imports Ci_Plane
begin

text \<open>
  What single methods of the control plane guarantee: which step reports are believed and what they
  change, what a refused dispatch leaves behind, how long a driver sleeps, and that a job is decided
  when its wall clock runs out.
\<close>

section \<open>Step reports\<close>

text \<open>A report is admissible when its step is in flight on the reporting node and the lease has not run
  out.\<close>

definition report_admissible :: "'w control \<Rightarrow> step_report \<Rightarrow> str \<Rightarrow> instant \<Rightarrow> bool" where
  "report_admissible c rep node now =
     (case Option.bind (store_get (c_jobs c) (r_job_id rep)) (\<lambda>b. job_step b (r_step_id rep)) of
        None \<Rightarrow> False
      | Some s \<Rightarrow> s_state s \<in> {SLeased, SRunning} \<and> s_node_id s = Some node \<and>
          (case s_lease_expires_at s of Some t \<Rightarrow> now \<le> t | None \<Rightarrow> True))"

lemma outcome_legal:
  "s_state s \<in> {SLeased, SRunning} \<Longrightarrow> step_transition s (outcome_state r) = Inr (s\<lparr>s_state := outcome_state r\<rparr>)"
  by (cases r) (auto simp: step_transition_def step_can_transition_to_def)

lemma report_check_iff:
  "report_check s rep node now =
     (if s_state s \<in> {SLeased, SRunning} \<and> s_node_id s = Some node \<and>
         (case s_lease_expires_at s of Some t \<Rightarrow> now \<le> t | None \<Rightarrow> True)
      then Inr (s\<lparr>s_state := outcome_state (r_outcome rep)\<rparr>)
      else Inl (if s_state s \<notin> {SLeased, SRunning} then NotInFlight
                else if s_node_id s \<noteq> Some node then NotLeaseHolder else LeaseExpired))"
  using outcome_legal by (auto simp: report_check_def split: option.splits)

lemma wake_jobs [simp]: "c_jobs (wake c j) = c_jobs c" "c_memo (wake c j) = c_memo c"
  "c_queue (wake c j) = c_queue c" "c_leases (wake c j) = c_leases c" "c_world (wake c j) = c_world c"
  "c_trees (wake c j) = c_trees c" "c_config (wake c j) = c_config c"
  by (simp_all add: wake_def split: option.split)

lemma record_step_report_cases:
  "if report_admissible c rep node now
   then \<exists>b s. store_get (c_jobs c) (r_job_id rep) = Some b \<and> job_step b (r_step_id rep) = Some s \<and>
     record_step_report c rep node now =
       (wake ((with_job_mut c (r_job_id rep) (\<lambda>b. job_step_mut b (r_step_id rep)
           (\<lambda>_. apply_report (s\<lparr>s_state := outcome_state (r_outcome rep)\<rparr>) rep (log_prefix b) now)))
         \<lparr>c_memo := (case (s_memo_key s, memo_from_state (outcome_state (r_outcome rep))) of
            (Some key, Some outcome) \<Rightarrow> memo_record (c_memo c) (tenant (j_dispatch b)) key outcome now
          | _ \<Rightarrow> c_memo c)\<rparr>) (r_job_id rep), Inr ())
   else fst (record_step_report c rep node now) = c \<and> (\<exists>e. snd (record_step_report c rep node now) = Inl e)"
proof -
  have [simp]: "(with_job_mut c j f)\<lparr>c_memo := c_memo c\<rparr> = with_job_mut c j f" for j f
    by (simp add: with_job_mut_def)
  show ?thesis
    by (auto simp: record_step_report_def report_admissible_def report_check_iff Let_def
        split: option.splits if_splits)
qed

lemma accepted_log_key_own:
  "pred_option (\<lambda>key. take (length prefix) key = prefix \<and> list_all good_segment (split_on slash key))
     (accepted_log_key reported prefix)"
  by (auto simp: accepted_log_key_def check_log_key_ok split: option.splits sum.splits)

text \<open>C12. A step report is believed exactly when the step is leased or running, the reporting node is the
  one that holds it and the lease has not run out; a report that is not believed changes nothing at
  all. A believed one moves that one step to the reported outcome and touches no other job and nothing
  else of the job; the text it stores is a clean line, the log key it stores lies under the job's own
  tenant, repository and tree and is made of plain names, and the outcome is memoized only for a step
  that has a key and passed or failed.\<close>

theorem step_report_exact:
  "case record_step_report c rep node now of (c', answer) \<Rightarrow>
     if report_admissible c rep node now
     then answer = Inr () \<and>
       (\<exists>b s s'. store_get (c_jobs c) (r_job_id rep) = Some b \<and> job_step b (r_step_id rep) = Some s \<and>
          store_get (c_jobs c') = (store_get (c_jobs c))(r_job_id rep \<mapsto> job_step_mut b (r_step_id rep) (\<lambda>_. s')) \<and>
          s_id s' = s_id s \<and> s_spec s' = s_spec s \<and> s_node_id s' = s_node_id s \<and>
          s_state s' = outcome_state (r_outcome rep) \<and> s_exit_code s' = r_exit_code rep \<and>
          clean_line (s_detail s') \<and>
          pred_option (\<lambda>key. take (length (log_prefix b)) key = log_prefix b \<and>
            list_all good_segment (split_on slash key)) (s_log_key s') \<and>
          c_memo c' = (case (s_memo_key s, r_outcome rep) of
            (Some key, OutPassed) \<Rightarrow> memo_record (c_memo c) (tenant (j_dispatch b)) key MemoPassed now
          | (Some key, OutFailed) \<Rightarrow> memo_record (c_memo c) (tenant (j_dispatch b)) key MemoFailed now
          | _ \<Rightarrow> c_memo c)) \<and>
       c_queue c' = c_queue c \<and> c_leases c' = c_leases c \<and> c_trees c' = c_trees c \<and> c_world c' = c_world c
     else c' = c \<and> (\<exists>e. answer = Inl e)"
proof (cases "report_admissible c rep node now")
  case True
  then obtain b s where b: "store_get (c_jobs c) (r_job_id rep) = Some b" "job_step b (r_step_id rep) = Some s"
    and r: "record_step_report c rep node now =
       (wake ((with_job_mut c (r_job_id rep) (\<lambda>b. job_step_mut b (r_step_id rep)
           (\<lambda>_. apply_report (s\<lparr>s_state := outcome_state (r_outcome rep)\<rparr>) rep (log_prefix b) now)))
         \<lparr>c_memo := (case (s_memo_key s, memo_from_state (outcome_state (r_outcome rep))) of
            (Some key, Some outcome) \<Rightarrow> memo_record (c_memo c) (tenant (j_dispatch b)) key outcome now
          | _ \<Rightarrow> c_memo c)\<rparr>) (r_job_id rep), Inr ())"
    using record_step_report_cases [of c rep node now] by auto
  let ?s = "apply_report (s\<lparr>s_state := outcome_state (r_outcome rep)\<rparr>) rep (log_prefix b) now"
  have memo: "(case (s_memo_key s, memo_from_state (outcome_state (r_outcome rep))) of
        (Some key, Some outcome) \<Rightarrow> memo_record (c_memo c) (tenant (j_dispatch b)) key outcome now | _ \<Rightarrow> c_memo c) =
      (case (s_memo_key s, r_outcome rep) of
            (Some key, OutPassed) \<Rightarrow> memo_record (c_memo c) (tenant (j_dispatch b)) key MemoPassed now
          | (Some key, OutFailed) \<Rightarrow> memo_record (c_memo c) (tenant (j_dispatch b)) key MemoFailed now
          | _ \<Rightarrow> c_memo c)"
    by (cases "r_outcome rep") (auto split: option.split)
  have "s_id ?s = s_id s \<and> s_spec ?s = s_spec s \<and> s_node_id ?s = s_node_id s \<and>
      s_state ?s = outcome_state (r_outcome rep) \<and> s_exit_code ?s = r_exit_code rep \<and> clean_line (s_detail ?s) \<and>
      pred_option (\<lambda>key. take (length (log_prefix b)) key = log_prefix b \<and>
        list_all good_segment (split_on slash key)) (s_log_key ?s)"
    using accepted_log_key_own clean_sanitized by (simp add: apply_report_def)
  moreover have "store_get (c_jobs (fst (record_step_report c rep node now))) =
      (store_get (c_jobs c))(r_job_id rep \<mapsto> job_step_mut b (r_step_id rep) (\<lambda>_. ?s))"
    using b unfolding r by (auto simp: fun_eq_iff)
  moreover have "c_memo (fst (record_step_report c rep node now)) = (case (s_memo_key s, r_outcome rep) of
            (Some key, OutPassed) \<Rightarrow> memo_record (c_memo c) (tenant (j_dispatch b)) key MemoPassed now
          | (Some key, OutFailed) \<Rightarrow> memo_record (c_memo c) (tenant (j_dispatch b)) key MemoFailed now
          | _ \<Rightarrow> c_memo c)"
    unfolding r memo by simp
  moreover have "snd (record_step_report c rep node now) = Inr ()" "c_queue (fst (record_step_report c rep node now)) = c_queue c"
    "c_leases (fst (record_step_report c rep node now)) = c_leases c" "c_trees (fst (record_step_report c rep node now)) = c_trees c"
    "c_world (fst (record_step_report c rep node now)) = c_world c"
    unfolding r by simp_all
  ultimately show ?thesis using True b
    by (cases "record_step_report c rep node now") (simp, blast)
next
  case False
  with record_step_report_cases [of c rep node now] show ?thesis
    by (auto split: prod.split)
qed

section \<open>The driver's passes\<close>

lemma advanced_deadline_future:
  assumes "justified now final (fst (sweep_step t now s)) s'" and "0 < t_queue_wait t" and "step_deadline s' t = Some (d, e)"
  shows "now < d"
proof (cases "s' = fst (sweep_step t now s)")
  case True
  with assms(3) sweep_step_deadline_future show ?thesis by auto
next
  case False
  with assms show ?thesis by (auto simp: justified_def step_deadline_def)
qed

lemma run_decide_wait:
  assumes "run_decide cfg now b = (b1, NextWait t)" and "0 < t_queue_wait (cc_timeouts cfg)"
  shows "now < t \<and> t \<le> j_deadline_at b \<and> list_ex live (j_steps b1)"
proof -
  let ?sw = "fst (sweep (j_steps b) (cc_timeouts cfg) now)"
  let ?steps = "fst (advance ?sw now)"
  have b1: "j_steps b1 = ?steps" and dl: "now < j_deadline_at b" and u: "fold_steps ?steps (now - j_created_at b) = Undecided"
    and t: "t = (case next_step_deadline ?steps (cc_timeouts cfg) of None \<Rightarrow> j_deadline_at b | Some d \<Rightarrow> min d (j_deadline_at b))"
    using assms(1) by (auto simp: run_decide_def Let_def split: if_splits fold_result.splits option.split)
  have "list_all2 (justified now ?steps) ?sw ?steps" using advance_outcome [of now ?sw] by simp
  then have "now < d" if "s' \<in> set ?steps" "step_deadline s' (cc_timeouts cfg) = Some (d, e)" for s' d e
    using that assms(2) by (auto simp: sweep_def list_all2_conv_all_nth in_set_conv_nth intro: advanced_deadline_future)
  then have "list_all (\<lambda>d. now < d) (List.map_filter (\<lambda>s. map_option fst (step_deadline s (cc_timeouts cfg))) ?steps)"
    by (auto simp: List.map_filter_def list_all_iff)
  then have "case next_step_deadline ?steps (cc_timeouts cfg) of None \<Rightarrow> True | Some d \<Rightarrow> now < d"
    unfolding next_step_deadline_def
    by (cases "List.map_filter (\<lambda>s. map_option fst (step_deadline s (cc_timeouts cfg))) ?steps") (simp_all add: fold_min_gt)
  with dl t have "now < t \<and> t \<le> j_deadline_at b" by (auto split: option.splits)
  moreover have "list_ex (\<lambda>s. \<not> is_terminal (s_state s)) ?steps"
    using u by (auto simp: fold_steps_def split: if_splits option.splits)
  with advance_outcome [of now ?sw] have "list_ex live ?steps" by (auto simp: list_ex_iff list_all_iff)
  ultimately show ?thesis using b1 by simp
qed

text \<open>A driver neither spins nor oversleeps: a pass that goes to sleep does so with a step that is ready,
  leased or running, until a moment strictly after now and no later than the wall clock of the job; a
  pass at or after that moment always ends the job with a verdict.\<close>

theorem run_pass_sleeps:
  assumes "0 < t_queue_wait (cc_timeouts (c_config c))" and "store_get (c_jobs c) j = Some b"
  shows "case snd (run_pass D now ms j c) of
      PassSleep t \<Rightarrow> now < t \<and> t \<le> j_deadline_at b \<and> list_ex live (j_steps (fst (run_decide (c_config c) now b)))
    | PassAgain \<Rightarrow> now < j_deadline_at b
    | PassFinish v \<Rightarrow> wf_verdict v
    | PassGone \<Rightarrow> False"
proof -
  obtain b1 nx where r: "run_decide (c_config c) now b = (b1, nx)" by (cases "run_decide (c_config c) now b")
  show ?thesis
  proof (cases nx)
    case (NextDecided d)
    with r obtain steps el where "fold_steps steps el = Decided d"
      by (auto simp: run_decide_def Let_def split: if_splits fold_result.splits)
    then have "wf_verdict (dc_verdict d)"
      by (auto simp: fold_steps_def wf_verdict_def verdict_errored_def verdict_red_def verdict_green_def
          split: if_splits option.splits)
    with r NextDecided assms(2) show ?thesis by (simp add: run_pass_def Let_def)
  next
    case NextJobTimeout
    with r assms(2) show ?thesis by (simp add: run_pass_def Let_def wf_verdict_def expiry_verdict_def verdict_errored_def)
  next
    case (NextWait t)
    with run_decide_wait [OF r [unfolded NextWait] assms(1)] r assms(2) show ?thesis
      by (auto simp: run_pass_def Let_def split: prod.split if_splits)
  qed
qed

text \<open>The example dispatch again, this time with a tree and a plan of one step.\<close>

definition running_answers :: "instant \<Rightarrow> answers" where
  "running_answers now = \<lparr>an_clock = \<lparr>ck_now = now, ck_ms = 8, ck_unix = 9\<rparr>,
     an_fetch = (\<lambda>r. Some (Inr \<lparr>vt_tree_id = [100], vt_path = [], vt_cached = False\<rparr>)),
     an_plan = (\<lambda>t. Inr [step_spec_new [98] [[99]] [105]]), an_joined = True, an_ids = (\<lambda>i. [115]),
     an_post = (\<lambda>r n. Inr 200)\<rparr>"

definition running_tick :: event where "running_tick = EvTask 0 (running_answers 7)"

definition running_plane :: "local_state plane" where
  "running_plane = example_plane [running_tick, running_tick, running_tick, running_tick]"

lemma running_reachable: "reachable unwired_deps local_new running_plane"
proof -
  have e: "running_plane = fold (plane_apply unwired_deps) [running_tick, running_tick, running_tick, running_tick] (example_plane [])"
    by (simp add: running_plane_def example_plane_def del: plane_apply.simps)
  have "reachable unwired_deps local_new (example_plane [])" by (simp add: example_reachable)
  then show ?thesis unfolding e by (simp add: running_tick_def reachable_task del: plane_apply.simps)
qed

lemmas running_eval = running_plane_def running_tick_def running_answers_def phase_plan_def phase_run_start_def phase_memo_def
  memo_config_default_def memo_enabled_def waker_def eq_ignore_ascii_case_def trim_def is_whitespace_def
  example_eval

lemma running_state:
  "p_tasks running_plane = [([106], AtLoop)]"
  "\<exists>b. store_get (c_jobs (p_control running_plane)) [106] = Some b \<and>
     j_deadline_at b = ck_now example_clock + t_job timeouts_default"
  "c_config (p_control running_plane) = example_config"
  by (simp_all add: running_eval)

theorem run_pass_sleeps_witness:
  "\<exists>b. store_get (c_jobs (p_control running_plane)) [106] = Some b \<and>
    (case snd (run_pass unwired_deps 8 9 [106] (p_control running_plane)) of
      PassSleep t \<Rightarrow> 8 < t \<and> t \<le> j_deadline_at b \<and> list_ex live (j_steps (fst (run_decide example_config 8 b)))
    | PassAgain \<Rightarrow> 8 < j_deadline_at b
    | PassFinish v \<Rightarrow> wf_verdict v
    | PassGone \<Rightarrow> False)"
proof -
  from running_state(2) obtain b where b: "store_get (c_jobs (p_control running_plane)) [106] = Some b" by blast
  have "0 < t_queue_wait (cc_timeouts (c_config (p_control running_plane)))"
    by (simp add: running_state(3) example_config_def control_config_default_def timeouts_default_def secs_def)
  from run_pass_sleeps [OF this b, where D = unwired_deps and now = 8 and ms = 9] b show ?thesis unfolding running_state(3) by blast
qed

lemma run_pass_deadline:
  assumes "store_get (c_jobs c) j = Some b" and "j_deadline_at b \<le> now"
  shows "\<exists>v. snd (run_pass D now ms j c) = PassFinish v"
proof -
  obtain b1 nx where r: "run_decide (c_config c) now b = (b1, nx)" by (cases "run_decide (c_config c) now b")
  with assms(2) have "nx = NextJobTimeout" by (auto simp: run_decide_def Let_def)
  with r assms(1) show ?thesis by (simp add: run_pass_def Let_def)
qed

text \<open>C11. No job is left without an answer: whatever its steps, its planner, the fleet or the other tasks do,
  the first pass of its driver at or after its wall clock leaves a verdict on its record.\<close>

theorem job_decided_at_deadline:
  assumes "reachable D w0 p" and "honest D" and "i < length (p_tasks p)" and "p_tasks p ! i = (j, AtLoop)"
    and "store_get (c_jobs (p_control p)) j = Some b" and "j_deadline_at b \<le> ck_now (an_clock A)"
  shows "\<exists>v. verdict_of (p_control (plane_apply D (EvTask i A) p)) j = Some v"
proof -
  let ?c = "p_control p" and ?p = "plane_apply D (EvTask i A) p"
  have inv: "plane_inv p" using assms(1,2) by (rule reachable_inv)
  obtain c1 v where rp: "run_pass D (ck_now (an_clock A)) (ck_ms (an_clock A)) j ?c = (c1, PassFinish v)"
    using run_pass_deadline [OF assms(5,6), of D "ck_ms (an_clock A)"]
    by (cases "run_pass D (ck_now (an_clock A)) (ck_ms (an_clock A)) j ?c") auto
  have ev: "jobs_rel evolves ?c c1"
    using same_jobs_evolves [OF same_jobs_run_pass [of ?c D "ck_now (an_clock A)" "ck_ms (an_clock A)" j]] rp by simp
  have "rank_ok ?c (j, AtLoop)" using inv nth_mem [OF assms(3)] assms(4) by (auto simp: plane_inv_parts)
  then have rank: "state_rank (j_state b1) \<ge> 3" if "store_get (c_jobs c1) j = Some b1" for b1
    using rank_ok_moves [OF evolves_moves [OF ev], of "(j, AtLoop)"] that by (simp add: rank_ok_def)
  obtain c' pos' ts where f: "finish_job D A j True v c1 = (c', pos', ts)" by (cases "finish_job D A j True v c1")
  have p': "p_control ?p = c'" using assms(3,4) rp f by simp
  have "jobs_ok c'" using plane_inv_task [OF inv, of D i A] p' by (simp add: plane_inv_parts)
  moreover have "pred_option (\<lambda>b. has_verdict (j_state b)) (store_get (c_jobs c') j)"
    using finish_job_effect [OF f, of AtLoop] rank by simp
  moreover have "jobs_rel moves ?c c'"
    using quiet_or_not_moves [of j AtLoop pos' ?c c'] task_effect [of D A j AtLoop ?c c' pos' ts] rp f inv
      \<open>rank_ok ?c (j, AtLoop)\<close> by (simp add: plane_inv_parts)
  then obtain b' where "store_get (c_jobs c') j = Some b'" using assms(5) by (rule jobs_rel_get)
  ultimately show ?thesis unfolding p' by (auto simp: verdict_of_def with_job_def jobs_ok_def job_ok_def)
qed

theorem job_decided_at_deadline_witness:
  "\<exists>v. verdict_of (p_control (plane_apply unwired_deps (EvTask 0 (running_answers (7 + t_job timeouts_default))) running_plane))
     [106] = Some v"
proof -
  from running_state(2) obtain b where "store_get (c_jobs (p_control running_plane)) [106] = Some b"
    "j_deadline_at b = 7 + t_job timeouts_default" by (auto simp: example_clock_def)
  then show ?thesis
    using job_decided_at_deadline [OF running_reachable honest_unwired, of 0 "[106]" b "running_answers (7 + t_job timeouts_default)"]
      running_state(1) by (simp add: running_answers_def del: plane_apply.simps)
qed

section \<open>A refused dispatch\<close>

lemma local_forget_none:
  "map_of (ls_by_key w) k = None \<Longrightarrow> map_of (ls_by_key (local_forget w j)) k = None"
  by (auto simp: local_forget_def Let_def split: option.splits)

lemma forget_claims_local:
  assumes "dp_claims D = local_apply" and "map_of (ls_by_key (c_world c)) k = None"
  shows "map_of (ls_by_key (c_world (forget_claims D js c))) k = None" and "c_jobs (forget_claims D js c) = c_jobs c"
    and "c_leases (forget_claims D js c) = c_leases c"
  using assms(2) unfolding forget_claims_def
  by (induction js arbitrary: c) (simp_all add: call_claims_def assms(1) local_forget_none)

lemma local_admit_new:
  assumes "map_of (ls_by_key w) key = None"
  shows "local_admit w key p url n l r =
    (fst (local_insert w key p url), Inr (Created \<lparr>dl_job_id = p, dl_owner = LOCAL_OWNER, dl_fence = 0\<rparr>))"
  using assms by (simp add: local_admit_def local_drop_stale_def local_stale_def local_insert_def Let_def)

lemma local_forget_inserted:
  assumes "map_of (ls_by_key w) key = None"
  shows "map_of (ls_by_key (local_forget (fst (local_insert w key p url)) p)) key = None"
  using assms by (simp add: local_insert_def local_forget_def Let_def)

text \<open>A dispatch that cannot be journalled is not acknowledged and leaves nothing behind: no task, no
  record, no drive lease, and its claim is given back, so that the dispatcher's retry is admitted as
  new work instead of being attached to a job that nobody drives.\<close>

theorem refused_dispatch_retries:
  assumes "dp_claims D = local_apply" and "\<forall>intent w. fst (dp_record D intent w) = w"
    and "store_ok (c_jobs c)" and "store_get (c_jobs c) proposed = None"
    and "map_of (ls_by_key (c_world c)) (d_repo d, d_tree_id d) = None"
    and "accept D checks d ck proposed c = (c', Some (Inl (NotDurable e)), ts)"
  shows "ts = [] \<and> store_get (c_jobs c') proposed = None \<and> lease_of c' proposed = None \<and>
    (\<exists>lease. snd (local_apply (admit_op cfg d ck' proposed') (c_world c')) = OutAdmit (Inr (Created lease)) \<and>
       dl_job_id lease = proposed')"
proof -
  let ?key = "(d_repo d, d_tree_id d)"
  obtain st res where ev: "evict checks (c_jobs c) (ck_now ck) (cc_job_retention (c_config c)) (cc_max_jobs (c_config c)) = (st, res)"
    by fastforce
  with assms(6) obtain evicted where res: "res = Some evicted" by (cases res) (simp_all add: accept_def)
  let ?d = "forget_claims D evicted (c\<lparr>c_jobs := st\<rparr>)"
  have key: "map_of (ls_by_key (c_world ?d)) ?key = None" and jobs: "c_jobs ?d = st" and leases: "c_leases ?d = c_leases c"
    using forget_claims_local [OF assms(1), of "c\<lparr>c_jobs := st\<rparr>" ?key evicted] assms(5) by simp_all
  have get: "store_get st proposed = None"
    using evict_effect [OF assms(3) ev] assms(4) by (auto simp: store_get_def dest: spec [of _ proposed])
  let ?lease = "\<lparr>dl_job_id = proposed, dl_owner = LOCAL_OWNER, dl_fence = 0\<rparr> :: drive_lease"
  define c1 where "c1 = ?d\<lparr>c_world := fst (local_insert (c_world ?d) ?key proposed (d_callback_url d))\<rparr>"
  have cl: "call_claims D (admit_op (c_config c) d ck proposed) ?d = (c1, OutAdmit (Inr (Created ?lease)))"
    using local_admit_new [OF key] by (simp add: call_claims_def assms(1) admit_op_def c1_def)
  then have acc: "accept_admitted D d ck (Created ?lease) c1 = (c', Some (Inl (NotDurable e)), ts)"
    using assms(6) ev res by (simp add: accept_def)
  obtain c2 nx where c2: "accept_claimed d (dp_classify D (d_repo d) (d_author d)) (ck_now ck) (Created ?lease) c1 = (c2, nx)"
    by fastforce
  then have nx: "nx = NextDrive" and w2: "c_world c2 = c_world c1" by (auto simp: accept_claimed_def Let_def)
  obtain c3 r where c3: "journal_record D c2 proposed None (ck_unix ck) = (c3, r)" by fastforce
  with assms(2) have w3: "c_world c3 = c_world c2"
    by (auto simp: journal_record_def Let_def split: option.splits prod.splits) (metis fst_conv)
  from acc c2 nx c3 have ts: "ts = []" and c': "c' = roll_back D proposed c3"
    by (auto simp: accept_admitted_def Let_def split: sum.splits prod.splits)
  have "c_world c' = local_forget (c_world c1) proposed"
    unfolding c' by (simp add: roll_back_def call_claims_def assms(1) drop_lease_def w3 w2)
  then have "map_of (ls_by_key (c_world c')) ?key = None"
    using local_forget_inserted [OF key] by (simp add: c1_def)
  from local_admit_new [OF this] have "snd (local_apply (admit_op cfg d ck' proposed') (c_world c')) =
      OutAdmit (Inr (Created \<lparr>dl_job_id = proposed', dl_owner = LOCAL_OWNER, dl_fence = 0\<rparr>))"
    by (simp add: admit_op_def)
  moreover have "store_get (c_jobs c') proposed = None" "lease_of c' proposed = None"
    unfolding c' by (simp_all add: roll_back_def call_claims_def assms(1) drop_lease_def lease_of_def store_remove_def store_get_def)
  ultimately show ?thesis using ts by simp
qed

theorem refused_dispatch_retries_witness:
  "\<exists>c' e lease. accept (unwired_deps\<lparr>dp_record := \<lambda>intent w. (w, Inl (JournalWrite (ji_job_id intent) []))\<rparr>) True
       example_dispatch example_clock [106] (control_new example_config (memo_new memo_policy_default) local_new) =
       (c', Some (Inl (NotDurable e)), []) \<and>
     snd (local_apply (admit_op example_config example_dispatch example_clock [107]) (c_world c')) =
       OutAdmit (Inr (Created lease)) \<and> dl_job_id lease = [107]"
proof -
  let ?D = "unwired_deps\<lparr>dp_record := \<lambda>intent w. (w, Inl (JournalWrite (ji_job_id intent) []))\<rparr>"
  let ?c = "control_new example_config (memo_new memo_policy_default) local_new"
  obtain c' where a: "accept ?D True example_dispatch example_clock [106] ?c = (c', Some (Inl (NotDurable (JournalWrite [106] []))), [])"
    by (simp add: example_accept_simps intent_of_def)
  have "store_ok (c_jobs ?c)" "store_get (c_jobs ?c) [106] = None"
    "map_of (ls_by_key (c_world ?c)) (d_repo example_dispatch, d_tree_id example_dispatch) = None"
    by (simp_all add: control_new_def job_store_new_def store_ok_def store_get_def local_new_def)
  with refused_dispatch_retries [OF _ _ this a, of example_config example_clock "[107]"] a show ?thesis
    by (auto simp: unwired_deps_def)
qed

section \<open>The lease of a long step\<close>

text \<open>C21. The lease a step is given is the larger of the lease time and the default step clock, while its own
  clock may be longer. Between the two the step is still within its allowance, no sweep touches it, and
  yet the report of the node that runs it is refused as coming from an expired lease.\<close>

theorem long_step_outlives_lease:
  assumes "assigned_step cfg now (Inr node) s = Some s'"
    and "now + max (cc_lease_ttl cfg) (t_step (cc_timeouts cfg)) < t"
    and "t < now + step_timeout (cc_timeouts cfg) (sp_timeout (s_spec s))"
  shows "report_check s' rep node t = Inl LeaseExpired \<and> sweep_step (cc_timeouts cfg) t s' = (s', None)"
proof -
  from assms(1) have s': "s' = s\<lparr>s_state := SLeased, s_node_id := Some node, s_attempt := s_attempt s + 1, s_started_at := Some now,
      s_lease_expires_at := Some (now + max (cc_lease_ttl cfg) (t_step (cc_timeouts cfg)))\<rparr>"
    by (auto simp: assigned_step_def step_transition_def split: if_splits)
  have "step_deadline s' (cc_timeouts cfg) = Some (now + step_timeout (cc_timeouts cfg) (sp_timeout (s_spec s)), ExStep)"
    by (simp add: s' step_deadline_def)
  with assms(3) have "sweep_step (cc_timeouts cfg) t s' = (s', None)" by (simp add: sweep_step_def)
  moreover have "report_check s' rep node t = Inl LeaseExpired" using assms(2) by (simp add: s' report_check_def)
  ultimately show ?thesis by blast
qed

definition long_step :: step where
  "long_step = (step_new [115] ((step_spec_new [98] [[99]] [105])\<lparr>sp_timeout := Some (secs (50 * 60))\<rparr>))\<lparr>s_state := SReady\<rparr>"

definition passed_report :: step_report where
  "passed_report = \<lparr>r_job_id = [106], r_step_id = [115], r_outcome = OutPassed, r_reason = None, r_exit_code = Some 0, r_log_key = None,
     r_detail = []\<rparr>"

theorem long_step_outlives_lease_witness:
  "\<exists>s'. assigned_step control_config_default 0 (Inr [110]) long_step = Some s' \<and>
     report_check s' passed_report [110] (secs (30 * 60)) = Inl LeaseExpired"
proof -
  obtain s' where "assigned_step control_config_default 0 (Inr [110]) long_step = Some s'"
    by (simp add: assigned_step_def step_transition_def step_can_transition_to_def long_step_def)
  moreover from long_step_outlives_lease [OF this, of "secs (30 * 60)"]
  have "report_check s' passed_report [110] (secs (30 * 60)) = Inl LeaseExpired"
    by (simp add: control_config_default_def timeouts_default_def secs_def step_timeout_def long_step_def step_new_def step_spec_new_def)
  ultimately show ?thesis by blast
qed

end
