(* ===== verification/Ci_Ingest.thy ===== *)
theory Ci_Ingest
  imports Ci_Methods "HOL-Library.Word"
begin

unbundle bit_operations_syntax

text \<open>
  The door: the comparison of the shared secret (\<open>src/crates/hull-ci-control/src/auth.rs\<close>), the minting
  of identifiers (\<open>ids.rs\<close>) and the handler of \<open>POST /hull\<close> (\<open>ingest.rs\<close>). Machine integers keep their
  width. A header is what \<open>headers.get(..).and_then(to_str)\<close> yields, and \<open>serde_json::from_slice\<close> is a
  parameter. Shown: the comparison that never exits early is equality, the mixer behind the ids is
  injective, so that ids collide exactly when their seeds do, every id is a plain name, and what the
  handler's answer says about the state it left.
\<close>

section \<open>Secrets\<close>

definition byte_at :: "bytes \<Rightarrow> nat \<Rightarrow> 8 word" where
  "byte_at a i = (if i < length a then of_nat (a ! i) else 0)"

definition constant_time_eq :: "bytes \<Rightarrow> bytes \<Rightarrow> bool" where
  "constant_time_eq a b \<longleftrightarrow>
     fold (\<lambda>i diff. diff OR (ucast (byte_at a i XOR byte_at b i) :: 64 word)) [0..<max (length a) (length b)]
       ((of_nat (length a) :: 64 word) XOR of_nat (length b)) = 0"

datatype auth_outcome = AuthOk | AuthMissing | AuthMismatch

definition auth_is_ok :: "auth_outcome \<Rightarrow> bool" where
  "auth_is_ok a \<longleftrightarrow> a = AuthOk"

definition check_secret :: "str option \<Rightarrow> str option \<Rightarrow> auth_outcome" where
  "check_secret configured presented =
     (case (configured, presented) of
        (None, _) \<Rightarrow> AuthOk
      | (Some _, None) \<Rightarrow> AuthMissing
      | (Some want, Some got) \<Rightarrow> if constant_time_eq (utf8 want) (utf8 got) then AuthOk else AuthMismatch)"

section \<open>Identifiers\<close>

definition splitmix64 :: "64 word \<Rightarrow> 64 word" where
  "splitmix64 x =
     (let z = x + 0x9E3779B97F4A7C15;
          z = (z XOR drop_bit 30 z) * 0xBF58476D1CE4E5B9;
          z = (z XOR drop_bit 27 z) * 0x94D049BB133111EB
      in z XOR drop_bit 31 z)"

text \<open>\<open>STATE\<close> holds the seed; \<open>nanos\<close> is the clock reading.\<close>

definition RAND_SEED :: "64 word" where "RAND_SEED = 0x243F6A8885A308D3"

definition rand_u64 :: "64 word \<Rightarrow> 64 word \<Rightarrow> 64 word \<times> 64 word" where
  "rand_u64 state nanos = (state + 0x9E3779B97F4A7C15, splitmix64 (state XOR nanos))"

text \<open>\<open>{:0nx}\<close>: at least \<open>n\<close> lower-case hexadecimal digits; the values printed fit in \<open>n\<close>.\<close>

fun hex_pad :: "nat \<Rightarrow> nat \<Rightarrow> str" where
  "hex_pad 0 v = []"
| "hex_pad (Suc n) v = hex_pad n (v div 16) @ [hex_digit (v mod 16)]"

definition new_job_id :: "64 word \<Rightarrow> job_id" where
  "new_job_id r = lit ''job_'' @ hex_pad 16 (unat r)"

definition new_step_id :: "nat \<Rightarrow> 64 word \<Rightarrow> step_id" where
  "new_step_id index r =
     lit ''step_'' @ (if index < 10 then lit ''0'' @ show_nat index else show_nat index) @ lit ''_'' @
     hex_pad 8 (unat (ucast r :: 32 word))"

section \<open>The handler\<close>

record request =
  rq_secret :: "str option"
  rq_version :: "str option"
  rq_body :: bytes

datatype api_response = ApiError nat str | ApiAccepted accepted

definition contract_error_to_string :: "contract_error \<Rightarrow> str" where
  "contract_error_to_string e =
     (case e of
        MissingField f \<Rightarrow> lit ''dispatch is missing required field `'' @ f @ lit ''`''
      | UnsupportedVersion v \<Rightarrow> lit ''unsupported contract version `'' @ v @ lit ''` (this runner speaks '' @ CONTRACT_VERSION @ lit '')''
      | Malformed f why \<Rightarrow> lit ''dispatch field `'' @ f @ lit ''` is unusable: '' @ why)"

definition journal_error_to_string :: "journal_error \<Rightarrow> str" where
  "journal_error_to_string e =
     (case e of
        JournalWrite j detail \<Rightarrow> lit ''could not record job '' @ j @ lit '' durably: '' @ detail
      | JournalRead detail \<Rightarrow> lit ''could not read the journal: '' @ detail)"

definition accept_error_to_string :: "accept_error \<Rightarrow> str" where
  "accept_error_to_string e =
     (case e of
        NotClaimed (Unavailable why) \<Rightarrow> lit ''the dispatch could not be claimed: '' @ lit ''the claim store is unavailable: '' @ why
      | NotDurable j \<Rightarrow> lit ''the dispatch could not be recorded durably: '' @ journal_error_to_string j)"

text \<open>The answer is \<open>None\<close> when the handler panics (see \<open>evict\<close>).\<close>

definition ingest :: "'w deps \<Rightarrow> (bytes \<Rightarrow> str + dispatch) \<Rightarrow> bool \<Rightarrow> clock \<Rightarrow> job_id \<Rightarrow> request \<Rightarrow> 'w control \<Rightarrow>
    'w control \<times> api_response option \<times> task list" where
  "ingest D from_slice checks ck proposed rq c =
     (if \<not> auth_is_ok (check_secret (cc_secret (c_config c)) (rq_secret rq))
      then (c, Some (ApiError 401 (lit ''unauthorized'')), [])
      else case check_version (rq_version rq) of
        Inl e \<Rightarrow> (c, Some (ApiError 400 (contract_error_to_string e)), [])
      | Inr _ \<Rightarrow>
          (case from_slice (rq_body rq) of
             Inl e \<Rightarrow> (c, Some (ApiError 400 (lit ''malformed dispatch: '' @ sanitize_summary e 160)), [])
           | Inr dispatch \<Rightarrow>
               (case canonicalize dispatch of
                  Inl e \<Rightarrow> (c, Some (ApiError 400 (contract_error_to_string e)), [])
                | Inr d \<Rightarrow>
                    (case accept D checks d ck proposed c of
                       (c1, None, ts) \<Rightarrow> (c1, None, ts)
                     | (c1, Some (Inl e), ts) \<Rightarrow> (c1, Some (ApiError 503 (accept_error_to_string e)), ts)
                     | (c1, Some (Inr a), ts) \<Rightarrow> (c1, Some (ApiAccepted a), ts)))))"

section \<open>The comparison is equality\<close>

lemma or_eq_zero: "(x OR y :: 'a::len word) = 0 \<longleftrightarrow> x = 0 \<and> y = 0"
  by (auto simp: bit_eq_iff bit_or_iff)

lemma xor_eq_zero: "(x XOR y :: 'a::len word) = 0 \<longleftrightarrow> x = y"
  by (auto simp: bit_eq_iff bit_xor_iff)

lemma fold_or_zero:
  "fold (\<lambda>i diff. diff OR (f i :: 'a::len word)) is d = 0 \<longleftrightarrow> d = 0 \<and> (\<forall>i\<in>set is. f i = 0)"
  by (induction "is" arbitrary: d) (auto simp: or_eq_zero)

lemma of_nat_byte_eq: "a < 256 \<Longrightarrow> b < 256 \<Longrightarrow> (of_nat a :: 8 word) = of_nat b \<longleftrightarrow> a = b"
  by (simp add: word_of_nat_eq_iff take_bit_nat_eq_self)

lemma of_nat_usize_eq: "a < 2 ^ 64 \<Longrightarrow> b < 2 ^ 64 \<Longrightarrow> (of_nat a :: 64 word) = of_nat b \<longleftrightarrow> a = b"
  by (simp add: word_of_nat_eq_iff take_bit_nat_eq_self)

lemma ucast_byte_zero: "(ucast (x :: 8 word) :: 64 word) = 0 \<longleftrightarrow> x = 0"
  by (transfer; auto simp: take_bit_take_bit min_def)

lemma constant_time_eq_iff:
  assumes "length a < 2 ^ 64" and "length b < 2 ^ 64" and "list_all (\<lambda>x. x < 256) a" and "list_all (\<lambda>x. x < 256) b"
  shows "constant_time_eq a b \<longleftrightarrow> a = b"
proof -
  have "constant_time_eq a b \<longleftrightarrow> length a = length b \<and> (\<forall>i<length a. byte_at a i = byte_at b i)"
    using of_nat_usize_eq [OF assms(1,2)]
    by (auto simp: constant_time_eq_def fold_or_zero xor_eq_zero ucast_byte_zero)
  also have "\<dots> \<longleftrightarrow> length a = length b \<and> (\<forall>i<length a. a ! i = b ! i)"
    using assms(3,4) of_nat_byte_eq by (auto simp: byte_at_def list_all_length)
  finally show ?thesis by (simp add: list_eq_iff_nth_eq)
qed

lemma utf8_bytes: "list_all scalar s \<Longrightarrow> list_all (\<lambda>x. x < 256) (utf8 s)"
  by (induction s) (auto simp: utf8_def utf8_char_def scalar_def)

section \<open>Ids\<close>

lemma xorshift_inj:
  assumes "0 < k" and "x XOR drop_bit k x = y XOR drop_bit k (y :: 'a::len word)"
  shows "x = y"
proof (rule bit_word_eqI)
  fix n assume "n < LENGTH('a)"
  then show "bit x n = bit y n"
  proof (induction "LENGTH('a) - n" arbitrary: n rule: less_induct)
    case less
    have "bit (x XOR drop_bit k x) n = bit (y XOR drop_bit k y) n" using assms(2) by simp
    then have e: "(bit x n \<noteq> bit x (k + n)) = (bit y n \<noteq> bit y (k + n))"
      by (simp add: bit_xor_iff bit_drop_bit_eq)
    have "bit x (k + n) = bit y (k + n)"
    proof (cases "k + n < LENGTH('a)")
      case True
      then show ?thesis using less.hyps [of "k + n"] less.prems assms(1) by simp
    qed (simp add: bit_word.rep_eq)
    with e show ?case by blast
  qed
qed

lemma mult_unit_inj: "c * d = (1 :: 'a::len word) \<Longrightarrow> x * c = y * c \<Longrightarrow> x = y"
  by (metis mult.assoc mult.right_neutral)

lemma mix_inj:
  "c * d = 1 \<Longrightarrow> 0 < k \<Longrightarrow> (x XOR drop_bit k x) * c = (y XOR drop_bit k y) * c \<Longrightarrow> x = (y :: 'a::len word)"
  using mult_unit_inj xorshift_inj by blast

lemma mix_units:
  "0xBF58476D1CE4E5B9 * 0x96de1b173f119089 = (1 :: 64 word)" "0x94D049BB133111EB * 0x319642b2d24d8ec3 = (1 :: 64 word)"
  by simp_all

lemma splitmix64_inj: "splitmix64 x = splitmix64 y \<Longrightarrow> x = y"
  unfolding splitmix64_def Let_def
  by (drule xorshift_inj [where k = 31, rotated], simp,
      drule mix_inj [OF mix_units(2), where k = 27, rotated], simp,
      drule mix_inj [OF mix_units(1), where k = 30, rotated], simp, simp)

lemma hex_pad_inj: "v < 16 ^ n \<Longrightarrow> w < 16 ^ n \<Longrightarrow> hex_pad n v = hex_pad n w \<longleftrightarrow> v = w"
proof (induction n arbitrary: v w)
  case (Suc n)
  have "v div 16 < 16 ^ n" "w div 16 < 16 ^ n" using Suc.prems by (auto simp: less_mult_imp_div_less mult.commute)
  from Suc.IH [OF this] show ?case using hex_digit_inj [of "v mod 16" "w mod 16"] div_mod_eq [of v 16 w] by auto
qed simp

definition id_char :: "nat \<Rightarrow> bool" where
  "id_char c \<longleftrightarrow> (48 \<le> c \<and> c \<le> 57) \<or> (97 \<le> c \<and> c \<le> 122) \<or> c = 95"

lemma hex_digit_char: "n < 16 \<Longrightarrow> id_char (hex_digit n)"
  using nth_mem [of n "lit ''0123456789abcdef''"] by (auto simp: hex_digit_def id_char_def)

lemma hex_pad_chars: "list_all id_char (hex_pad n v)"
  by (induction n arbitrary: v) (simp_all add: hex_digit_char)

lemma show_nat_chars: "list_all id_char (show_nat n)"
proof (induction n rule: show_nat.induct)
  case (1 n)
  have "id_char (48 + m)" if "m < 10" for m using that by (simp add: id_char_def)
  with 1 show ?case by (subst show_nat.simps) simp
qed

lemma id_char_plain: "id_char c \<Longrightarrow> \<not> is_whitespace c \<and> \<not> is_control c \<and> \<not> is_invisible_formatting c \<and> c \<noteq> backslash \<and> c \<noteq> slash \<and> c \<noteq> 46"
  by (auto simp: id_char_def is_whitespace_def is_control_def is_invisible_formatting_def backslash_def slash_def)

text \<open>A name that a path resolver reads as itself.\<close>

definition plain_name :: "str \<Rightarrow> bool" where
  "plain_name s \<longleftrightarrow> check_path_segment s = Inr () \<and> slash \<notin> set s"

lemma plain_id: "s \<noteq> [] \<Longrightarrow> list_all id_char s \<Longrightarrow> plain_name s"
  using id_char_plain by (fastforce simp: plain_name_def check_path_segment_def list_all_iff lit_def)

lemma new_job_id_plain: "plain_name (new_job_id r)"
  by (rule plain_id) (auto simp: new_job_id_def hex_pad_chars id_char_def)

lemma new_step_id_plain: "plain_name (new_step_id i r)"
  by (rule plain_id) (auto simp: new_step_id_def hex_pad_chars show_nat_chars id_char_def)

lemma new_job_id_inj: "new_job_id r = new_job_id r' \<longleftrightarrow> r = r'"
proof -
  have "unat x < 16 ^ 16" for x :: "64 word" using unsigned_less [of x] by simp
  from hex_pad_inj [OF this this] show ?thesis by (simp add: new_job_id_def word_unat_eq_iff [symmetric])
qed

text \<open>Minted ids: two job ids are equal exactly when the seeds they were drawn from are, since the
  mixer is injective on \<open>u64\<close>; every job and step id is one plain path component, and its characters
  are lower-case letters, digits and underscores, so that no id can name another file, a URL path or a
  log line.\<close>

theorem minted_ids_safe:
  "(new_job_id (snd (rand_u64 s n)) = new_job_id (snd (rand_u64 s' n')) \<longleftrightarrow> s XOR n = s' XOR n') \<and>
   plain_name (new_job_id r) \<and> list_all id_char (new_job_id r) \<and> length (new_job_id r) = 20 \<and>
   plain_name (new_step_id i r) \<and> list_all id_char (new_step_id i r)"
proof -
  have "length (hex_pad k v) = k" for k v by (induction k arbitrary: v) simp_all
  then have "length (new_job_id r) = 20" by (simp add: new_job_id_def)
  moreover have "list_all id_char (new_job_id r)" "list_all id_char (new_step_id i r)"
    by (auto simp: new_job_id_def new_step_id_def hex_pad_chars show_nat_chars id_char_def)
  ultimately show ?thesis
    using splitmix64_inj by (auto simp: rand_u64_def new_job_id_inj new_job_id_plain new_step_id_plain)
qed

text \<open>The secret: the comparison that looks at every byte and never exits early is equality of the two
  strings, so a configured endpoint lets a request pass exactly when it presents the same secret.\<close>

theorem check_secret_exact:
  assumes "list_all scalar want" and "list_all scalar got" and "length (utf8 want) < 2 ^ 64" and "length (utf8 got) < 2 ^ 64"
  shows "check_secret (Some want) (Some got) = (if got = want then AuthOk else AuthMismatch)"
  using constant_time_eq_iff [OF assms(3,4) utf8_bytes [OF assms(1)] utf8_bytes [OF assms(2)]] utf8_inj [OF assms(1,2)]
  by (auto simp: check_secret_def)

theorem check_secret_exact_witness:
  "check_secret (Some (lit ''s3cret'')) (Some (lit ''s3crey'')) = AuthMismatch"
  using check_secret_exact [of "lit ''s3cret''" "lit ''s3crey''"] by (simp add: scalar_def utf8_def utf8_char_def)

section \<open>What an acknowledgement means\<close>

abbreviation same_work :: "job \<Rightarrow> job \<Rightarrow> bool" where
  "same_work \<equiv> \<lambda>b b'. j_dispatch b' = j_dispatch b \<and> j_state b' = j_state b \<and> j_id b' = j_id b"

lemma drain_loop_frame:
  "drain_loop now js c = (c', us) \<Longrightarrow>
     c_world c' = c_world c \<and> jobs_rel same_work c c'"
proof (induction js arbitrary: c us)
  case Nil
  then show ?case by (auto intro!: jobs_rel_same simp: reflp_def)
next
  case (Cons j js)
  obtain c1 ok where cl: "claim_delivery_if_parked c j now = (c1, ok)" by fastforce
  then have "c_world c1 = c_world c \<and> jobs_rel same_work c c1"
    using claim_delivery_simps(2) [OF cl]
    by (auto intro!: jobs_rel_same jobs_rel_with_job_mut simp: reflp_def split: if_splits)
  moreover obtain us' where "drain_loop now js c1 = (c', us')" using Cons.prems cl by (auto split: prod.splits)
  note Cons.IH [OF this]
  ultimately show ?case
    using jobs_rel_trans [of same_work c c1 c'] by (auto simp: transp_def)
qed

text \<open>An accepted dispatch went through a claim, was written to the journal when this process owes its
  answer, and for new work leaves a record and a driver.\<close>

lemma accepted_path:
  assumes "accept D checks d ck proposed c = (c', Some (Inr a), ts)"
  obtains st evicted c0 c1 c2 adm nx where
    "evict checks (c_jobs c) (ck_now ck) (cc_job_retention (c_config c)) (cc_max_jobs (c_config c)) = (st, Some evicted)"
    and "call_claims D (admit_op (c_config c) d ck proposed) (forget_claims D evicted (c\<lparr>c_jobs := st\<rparr>)) = (c0, OutAdmit (Inr adm))"
    and "accept_claimed d (dp_classify D (d_repo d) (d_author d)) (ck_now ck) adm c0 = (c1, nx)"
    and "if nx \<in> {NextDrive, NextAttachedHere}
       then journal_record D c1 (admitted_job_id adm) None (ck_unix ck) = (c2, Inr ()) else c2 = c1"
    and "a = \<lparr>ac_job_id = admitted_job_id adm, ac_duplicate = is_duplicate adm\<rparr>"
    and "c_world c' = c_world c2" and "jobs_rel same_work c2 c'"
    and "nx = NextDrive \<Longrightarrow> (admitted_job_id adm, AtStart) \<in> set ts"
proof -
  obtain st evicted where ev: "evict checks (c_jobs c) (ck_now ck) (cc_job_retention (c_config c)) (cc_max_jobs (c_config c)) = (st, Some evicted)"
    using assms by (auto simp: accept_def split: prod.splits option.splits)
  obtain c0 out where cl: "call_claims D (admit_op (c_config c) d ck proposed) (forget_claims D evicted (c\<lparr>c_jobs := st\<rparr>)) = (c0, out)"
    by fastforce
  from assms ev cl obtain adm where out: "as_admit out = Inr adm" and acc: "accept_admitted D d ck adm c0 = (c', Some (Inr a), ts)"
    by (auto simp: accept_def split: sum.splits)
  obtain c1 nx where c1: "accept_claimed d (dp_classify D (d_repo d) (d_author d)) (ck_now ck) adm c0 = (c1, nx)" by fastforce
  obtain c2 r where c2: "(if nx \<in> {NextDrive, NextAttachedHere} then journal_record D c1 (admitted_job_id adm) None (ck_unix ck)
      else (c1, Inr ())) = (c2, r)" by fastforce
  have r: "r = Inr ()" using acc c1 c2 by (cases r) (auto simp: accept_admitted_def)
  obtain c3 ts3 where c3: "accept_start (admitted_job_id adm) (ck_now ck) nx c2 = (c3, ts3)" by fastforce
  obtain c4 ts4 where c4: "drain_undelivered c3 (admitted_job_id adm) (ck_now ck) = (c4, ts4)" by fastforce
  have fin: "c' = c4" "ts = ts3 @ ts4" "a = \<lparr>ac_job_id = admitted_job_id adm, ac_duplicate = is_duplicate adm\<rparr>"
    using acc c1 c2 r c3 c4 by (auto simp: accept_admitted_def)
  have s3: "c_world c3 = c_world c2 \<and> jobs_rel same_work c2 c3"
    using c3 claim_delivery_simps(1) [of c2 "admitted_job_id adm" "ck_now ck" c3]
    by (auto simp: accept_start_def reflp_def intro!: jobs_rel_same jobs_rel_with_job_mut split: accept_next.splits prod.splits if_splits)
  have s4: "c_world c4 = c_world c3 \<and> jobs_rel same_work c3 c4"
    using drain_loop_frame c4 unfolding drain_undelivered_def by blast
  show ?thesis
  proof (rule that)
    show "evict checks (c_jobs c) (ck_now ck) (cc_job_retention (c_config c)) (cc_max_jobs (c_config c)) = (st, Some evicted)" by fact
    show "call_claims D (admit_op (c_config c) d ck proposed) (forget_claims D evicted (c\<lparr>c_jobs := st\<rparr>)) = (c0, OutAdmit (Inr adm))"
      using cl out by (cases out) simp_all
    show "accept_claimed d (dp_classify D (d_repo d) (d_author d)) (ck_now ck) adm c0 = (c1, nx)" by fact
    show "if nx \<in> {NextDrive, NextAttachedHere}
       then journal_record D c1 (admitted_job_id adm) None (ck_unix ck) = (c2, Inr ()) else c2 = c1"
      using c2 r by (auto split: if_splits)
    show "jobs_rel same_work c2 c'"
      using jobs_rel_trans [of same_work c2 c3 c4] s3 s4 fin(1) by (auto simp: transp_def)
    show "(admitted_job_id adm, AtStart) \<in> set ts" if "nx = NextDrive"
      using c3 fin(2) that by (auto simp: accept_start_def)
  qed (use fin s3 s4 in simp_all)
qed

lemma accepted_new:
  assumes acc: "accept D checks d ck proposed c = (c', Some (Inr a), ts)" and "\<not> ac_duplicate a" and "honest D"
    and ok: "store_ok (c_jobs c)" and none: "store_get (c_jobs c) proposed = None"
  shows "ac_job_id a = proposed \<and> (proposed, AtStart) \<in> set ts \<and>
    (\<exists>b. store_get (c_jobs c') proposed = Some b \<and> j_dispatch b = d)"
  using acc
proof (rule accepted_path)
  fix st evicted c0 c1 c2 adm nx
  assume ev: "evict checks (c_jobs c) (ck_now ck) (cc_job_retention (c_config c)) (cc_max_jobs (c_config c)) = (st, Some evicted)"
    and cl: "call_claims D (admit_op (c_config c) d ck proposed) (forget_claims D evicted (c\<lparr>c_jobs := st\<rparr>)) = (c0, OutAdmit (Inr adm))"
    and c1: "accept_claimed d (dp_classify D (d_repo d) (d_author d)) (ck_now ck) adm c0 = (c1, nx)"
    and c2: "if nx \<in> {NextDrive, NextAttachedHere}
      then journal_record D c1 (admitted_job_id adm) None (ck_unix ck) = (c2, Inr ()) else c2 = c1"
    and a: "a = \<lparr>ac_job_id = admitted_job_id adm, ac_duplicate = is_duplicate adm\<rparr>"
    and rel: "jobs_rel same_work c2 c'"
    and drive: "nx = NextDrive \<Longrightarrow> (admitted_job_id adm, AtStart) \<in> set ts"
  from a assms(2) obtain l where l: "adm = Created l" by (cases adm) simp_all
  from cl l assms(3) have p: "dl_job_id l = proposed"
    unfolding honest_def call_claims_def admit_op_def by (auto split: prod.splits)
  have "store_get st proposed = None"
    using evict_effect [OF ok ev] none by (auto simp: store_get_def dest: spec [of _ proposed])
  moreover have "same_jobs (c\<lparr>c_jobs := st\<rparr>) c0"
    using same_jobs_trans [OF same_jobs_forget_claims same_jobs_call [OF cl]] .
  ultimately have n0: "store_get (c_jobs c0) proposed = None"
    by (auto simp: jobs_rel_def option_rel_Some2 dest: spec [of _ proposed])
  from c1 l p have nx: "nx = NextDrive" and "c_jobs c1 = store_insert (c_jobs c0) proposed d
      (dp_classify D (d_repo d) (d_author d)) (ck_now ck) (t_job (cc_timeouts (c_config c0)))"
    by (auto simp: accept_claimed_def)
  then have "store_get (c_jobs c1) proposed = Some (job_new proposed d
      (dp_classify D (d_repo d) (d_author d)) (ck_now ck) (t_job (cc_timeouts (c_config c0))))"
    using n0 by (simp add: store_get_insert)
  moreover have "c_jobs c2 = c_jobs c1" using c2 nx by (auto simp: journal_record_def split: option.splits prod.splits)
  ultimately obtain b where "store_get (c_jobs c') proposed = Some b" "j_dispatch b = d"
    using rel by (auto simp: job_new_def elim!: jobs_rel_get)
  with a l p drive nx show ?thesis by auto
qed


text \<open>A dispatch with the right secret at an idle endpoint.\<close>

definition example_request :: request where
  "example_request = \<lparr>rq_secret = Some (lit ''k''), rq_version = Some (lit ''1''), rq_body = []\<rparr>"

definition secret_config :: control_config where
  "secret_config = example_config\<lparr>cc_secret := Some (lit ''k'')\<rparr>"


end
