(* ===== verification/Ci_Journal.thy ===== *)
theory Ci_Journal
  imports Ci_Ingest
begin

text \<open>
  The write-ahead journal on disk and the recovery pass
  (\<open>src/crates/hull-ci-server/src/journal.rs\<close>). What the code uses of \<open>std::fs\<close> is modelled over a
  file system of directories and files: a path is resolved component by component, a file knows
  whether its contents have reached the disk, and every call may fail the way a script of faults says
  (a write may stop half way). \<open>write_atomically\<close> yields the file systems it goes through, one per
  call, so that a crash is any of them. \<open>serde_json\<close> is a pair of parameters.

  Shown: at every moment of a write the entry is the old one or the whole new one and is on disk, what
  was recorded is what a restart reads, the recovery pass answers every entry and keeps exactly those
  that no destination took, and the check of file names lets a separator through.
\<close>

section \<open>Files\<close>

type_synonym path = "str list"

record fs_file =
  fl_data :: bytes
  fl_synced :: bool

record fs =
  fs_dirs :: "path list"
  fs_files :: "(path \<times> fs_file) list"

definition ENOENT :: str where "ENOENT = lit ''No such file or directory (os error 2)''"
definition EISDIR :: str where "EISDIR = lit ''Is a directory (os error 21)''"

fun resolve :: "path list \<Rightarrow> path \<Rightarrow> str list \<Rightarrow> path option" where
  "resolve dirs cur [] = Some cur"
| "resolve dirs cur (c # cs) =
     (if cur \<notin> set dirs then None
      else if c = [] \<or> c = lit ''.'' then resolve dirs cur cs
      else if c = lit ''..'' then resolve dirs (butlast cur) cs
      else resolve dirs (cur @ [c]) cs)"

definition locate :: "fs \<Rightarrow> path \<Rightarrow> path option" where
  "locate F p = resolve (fs_dirs F) [] p"

definition file_at :: "fs \<Rightarrow> path \<Rightarrow> fs_file option" where
  "file_at F p = map_of (fs_files F) p"

text \<open>\<open>Path::join\<close>: an absolute argument replaces the path.\<close>

definition path_join :: "path \<Rightarrow> str \<Rightarrow> path" where
  "path_join dir s = (case s of c # _ \<Rightarrow> if c = slash then split_on slash s else dir @ split_on slash s | [] \<Rightarrow> dir)"

definition path_display :: "path \<Rightarrow> str" where
  "path_display p = concat (map (\<lambda>c. slash # c) p)"

text \<open>\<open>Path::extension\<close> of a file name.\<close>

definition dot :: nat where "dot = 46"

definition path_extension :: "str \<Rightarrow> str option" where
  "path_extension name =
     (if name = lit ''..'' then None
      else case dropWhile (\<lambda>c. c \<noteq> dot) (rev name) of
          [] \<Rightarrow> None
        | [_] \<Rightarrow> None
        | _ \<Rightarrow> Some (rev (takeWhile (\<lambda>c. c \<noteq> dot) (rev name))))"

record io_faults =
  io_create :: "str option"
  io_write :: "(nat \<times> str) option"
  io_sync :: "str option"
  io_rename :: "str option"
  io_remove :: "str option"

definition fs_create :: "fs \<Rightarrow> path \<Rightarrow> str option \<Rightarrow> str + fs \<times> path" where
  "fs_create F p fault =
     (case locate F p of
        None \<Rightarrow> Inl ENOENT
      | Some q \<Rightarrow>
          if q \<in> set (fs_dirs F) then Inl EISDIR
          else case fault of
              Some e \<Rightarrow> Inl e
            | None \<Rightarrow> Inr (F\<lparr>fs_files := AList.update q \<lparr>fl_data = [], fl_synced = False\<rparr> (fs_files F)\<rparr>, q))"

text \<open>\<open>write_all\<close> and \<open>sync_all\<close> on an open file.\<close>

definition fs_write_all :: "fs \<Rightarrow> path \<Rightarrow> bytes \<Rightarrow> (nat \<times> str) option \<Rightarrow> fs \<times> (str + unit)" where
  "fs_write_all F q bs fault =
     (let put = (\<lambda>xs. F\<lparr>fs_files := hm_modify q (\<lambda>f. f\<lparr>fl_data := fl_data f @ xs, fl_synced := False\<rparr>) (fs_files F)\<rparr>)
      in case fault of Some (n, e) \<Rightarrow> (put (take n bs), Inl e) | None \<Rightarrow> (put bs, Inr ()))"

definition fs_sync_all :: "fs \<Rightarrow> path \<Rightarrow> str option \<Rightarrow> fs \<times> (str + unit)" where
  "fs_sync_all F q fault =
     (case fault of
        Some e \<Rightarrow> (F, Inl e)
      | None \<Rightarrow> (F\<lparr>fs_files := hm_modify q (\<lambda>f. f\<lparr>fl_synced := True\<rparr>) (fs_files F)\<rparr>, Inr ()))"

definition fs_remove_file :: "fs \<Rightarrow> path \<Rightarrow> str option \<Rightarrow> fs" where
  "fs_remove_file F p fault =
     (case locate F p of
        None \<Rightarrow> F
      | Some q \<Rightarrow> if fault = None then F\<lparr>fs_files := AList.delete q (fs_files F)\<rparr> else F)"

definition fs_rename :: "fs \<Rightarrow> path \<Rightarrow> path \<Rightarrow> str option \<Rightarrow> str + fs" where
  "fs_rename F from to fault =
     (case (locate F from, locate F to) of
        (Some p, Some q) \<Rightarrow>
          (case file_at F p of
             None \<Rightarrow> Inl ENOENT
           | Some f \<Rightarrow>
               if q \<in> set (fs_dirs F) then Inl EISDIR
               else case fault of
                   Some e \<Rightarrow> Inl e
                 | None \<Rightarrow> Inr (F\<lparr>fs_files := AList.update q f (AList.delete p (fs_files F))\<rparr>))
      | _ \<Rightarrow> Inl ENOENT)"

section \<open>The journal\<close>

record file_journal =
  fj_dir :: path
  fj_seq :: nat
  fj_pid :: nat

definition JOURNAL_DIR :: str where "JOURNAL_DIR = lit ''journal''"

definition journal_open :: "path \<Rightarrow> nat \<Rightarrow> str option \<Rightarrow> journal_error + file_journal" where
  "journal_open store_root pid fault =
     (let dir = path_join store_root JOURNAL_DIR
      in case fault of
           Some e \<Rightarrow> Inl (JournalWrite (lit ''-'') (lit ''could not create '' @ path_display dir @ lit '': '' @ e))
         | None \<Rightarrow> Inr \<lparr>fj_dir = dir, fj_seq = 0, fj_pid = pid\<rparr>)"

definition entry_path :: "file_journal \<Rightarrow> job_id \<Rightarrow> journal_error + path" where
  "entry_path J j =
     (case check_path_segment j of
        Inl why \<Rightarrow> Inl (JournalWrite (sanitize_summary j 80) (lit ''not a usable file name: '' @ why))
      | Inr _ \<Rightarrow> Inr (path_join (fj_dir J) (j @ lit ''.json'')))"

definition scratch_path :: "file_journal \<Rightarrow> job_id \<Rightarrow> path" where
  "scratch_path J j =
     path_join (fj_dir J) (lit ''.'' @ j @ lit ''.'' @ show_nat (fj_pid J) @ lit ''.'' @ show_nat (fj_seq J) @ lit ''.tmp'')"

definition write_atomically :: "file_journal \<Rightarrow> io_faults \<Rightarrow> path \<Rightarrow> bytes \<Rightarrow> job_id \<Rightarrow> fs \<Rightarrow>
    fs list \<times> (journal_error + unit)" where
  "write_atomically J ft target bs j F =
     (let fail = JournalWrite j; tmp = scratch_path J j
      in case fs_create F tmp (io_create ft) of
           Inl e \<Rightarrow> ([F], Inl (fail e))
         | Inr (F1, q) \<Rightarrow>
             (case fs_write_all F1 q bs (io_write ft) of
                (F2, Inl e) \<Rightarrow> ([F1, F2, fs_remove_file F2 tmp (io_remove ft)], Inl (fail e))
              | (F2, Inr _) \<Rightarrow>
                  (case fs_sync_all F2 q (io_sync ft) of
                     (F3, Inl e) \<Rightarrow> ([F1, F2, F3, fs_remove_file F3 tmp (io_remove ft)], Inl (fail e))
                   | (F3, Inr _) \<Rightarrow>
                       (case fs_rename F3 tmp target (io_rename ft) of
                          Inl e \<Rightarrow> ([F1, F2, F3, fs_remove_file F3 tmp (io_remove ft)],
                            Inl (fail (lit ''could not publish '' @ path_display target @ lit '': '' @ e)))
                        | Inr F4 \<Rightarrow> ([F1, F2, F3, F4], Inr ())))))"

text \<open>\<open>record\<close>, with the file systems it goes through; the counter is a \<open>u64\<close>.\<close>

definition record_entry :: "(job_intent \<Rightarrow> str + bytes) \<Rightarrow> io_faults \<Rightarrow> job_intent \<Rightarrow> file_journal \<times> fs \<Rightarrow>
    file_journal \<times> fs list \<times> (journal_error + unit)" where
  "record_entry to_vec ft intent s =
     (case s of (J, F) \<Rightarrow>
        (case entry_path J (ji_job_id intent) of
           Inl e \<Rightarrow> (J, [F], Inl e)
         | Inr target \<Rightarrow>
             (case to_vec intent of
                Inl e \<Rightarrow> (J, [F], Inl (JournalWrite (ji_job_id intent) e))
              | Inr bs \<Rightarrow>
                  (case write_atomically J ft target bs (ji_job_id intent) F of
                     (Fs, r) \<Rightarrow> (J\<lparr>fj_seq := (fj_seq J + 1) mod 2 ^ 64\<rparr>, Fs, r)))))"

definition forget_entry :: "str option \<Rightarrow> job_id \<Rightarrow> file_journal \<times> fs \<Rightarrow> file_journal \<times> fs" where
  "forget_entry fault j s =
     (case s of (J, F) \<Rightarrow>
        (case entry_path J j of
           Inl _ \<Rightarrow> (J, F)
         | Inr p \<Rightarrow> (J, fs_remove_file F p fault)))"

text \<open>The directory listing, in the order the file system has it. \<open>rd_dir\<close>, \<open>rd_entry\<close> and \<open>rd_file\<close> are
  the failures of listing, of one entry and of reading one file.\<close>

record read_faults =
  rd_dir :: "str option"
  rd_entry :: "str \<Rightarrow> bool"
  rd_file :: "str \<Rightarrow> bool"

definition listing :: "file_journal \<Rightarrow> fs \<Rightarrow> (str \<times> fs_file) list" where
  "listing J F = map (\<lambda>(p, f). (last p, f)) (filter (\<lambda>(p, f). p \<noteq> [] \<and> butlast p = fj_dir J) (fs_files F))"

definition read_entry :: "(bytes \<Rightarrow> str + job_intent) \<Rightarrow> read_faults \<Rightarrow> str \<times> fs_file \<Rightarrow> job_intent option" where
  "read_entry from_slice rf e =
     (case e of (name, f) \<Rightarrow>
        if rd_entry rf name then None
        else if path_extension name \<noteq> Some (lit ''json'') then None
        else if rd_file rf name then None
        else case from_slice (fl_data f) of Inl _ \<Rightarrow> None | Inr intent \<Rightarrow> Some intent)"

definition outstanding :: "(bytes \<Rightarrow> str + job_intent) \<Rightarrow> read_faults \<Rightarrow> file_journal \<times> fs \<Rightarrow>
    journal_error + job_intent list" where
  "outstanding from_slice rf s =
     (case s of (J, F) \<Rightarrow>
        (case rd_dir rf of
           Some e \<Rightarrow> Inl (JournalRead (lit ''could not list '' @ path_display (fj_dir J) @ lit '': '' @ e))
         | None \<Rightarrow> Inr (List.map_filter (read_entry from_slice rf) (listing J F))))"

section \<open>Recovery\<close>

definition restart_summary :: str where
  "restart_summary = lit ''the runner restarted before this job produced a verdict''"

definition recovery_verdict :: "job_intent \<Rightarrow> verdict" where
  "recovery_verdict intent =
     (case ji_verdict intent of
        Some v \<Rightarrow> v
      | None \<Rightarrow> verdict_errored Infra (sanitize_summary restart_summary SUMMARY_MAX_CHARS))"

definition recovery_requests :: "str option \<Rightarrow> job_intent \<Rightarrow> callback_request list" where
  "recovery_requests secret intent =
     map (\<lambda>url. \<lparr>cb_url = url, cb_secret = secret, cb_verdict = recovery_verdict intent, cb_job_id = ji_job_id intent\<rparr>)
       (ji_callback_urls intent)"

text \<open>One entry: every destination is tried, and the entry goes once any of them took the verdict.\<close>

definition recover_one :: "transport \<Rightarrow> str option \<Rightarrow> retry_policy \<Rightarrow> (job_id \<Rightarrow> str option) \<Rightarrow> job_intent \<Rightarrow>
    file_journal \<times> fs \<Rightarrow> (file_journal \<times> fs) \<times> (callback_request \<times> delivery) list" where
  "recover_one post secret retry unlink intent s =
     (let sent = map (\<lambda>req. (req, deliver (post req) retry)) (recovery_requests secret intent)
      in (if list_ex (\<lambda>x. is_delivered (snd x)) sent
          then forget_entry (unlink (ji_job_id intent)) (ji_job_id intent) s else s, sent))"

fun recover_loop :: "transport \<Rightarrow> str option \<Rightarrow> retry_policy \<Rightarrow> (job_id \<Rightarrow> str option) \<Rightarrow> job_intent list \<Rightarrow>
    file_journal \<times> fs \<Rightarrow> (file_journal \<times> fs) \<times> (callback_request \<times> delivery) list" where
  "recover_loop post secret retry unlink [] s = (s, [])"
| "recover_loop post secret retry unlink (i # is) s =
     (case recover_one post secret retry unlink i s of
        (s1, sent) \<Rightarrow> (case recover_loop post secret retry unlink is s1 of (s2, sent') \<Rightarrow> (s2, sent @ sent')))"

definition recover :: "(bytes \<Rightarrow> str + job_intent) \<Rightarrow> read_faults \<Rightarrow> transport \<Rightarrow> str option \<Rightarrow> retry_policy \<Rightarrow>
    (job_id \<Rightarrow> str option) \<Rightarrow> file_journal \<times> fs \<Rightarrow> (file_journal \<times> fs) \<times> (callback_request \<times> delivery) list" where
  "recover from_slice rf post secret retry unlink s =
     (case outstanding from_slice rf s of
        Inl _ \<Rightarrow> (s, [])
      | Inr entries \<Rightarrow> recover_loop post secret retry unlink entries s)"

definition recovery_retry :: retry_policy where
  "recovery_retry = \<lparr>base = 250000000, max_delay = secs 2, max_attempts = 3\<rparr>"

section \<open>Names\<close>

lemma split_on_none: "d \<notin> set s \<Longrightarrow> split_on d s = [s]"
  by (induction s) auto

lemma path_join_name: "n \<noteq> [] \<Longrightarrow> slash \<notin> set n \<Longrightarrow> path_join dir n = dir @ [n]"
  by (cases n) (auto simp: path_join_def split_on_none)

definition proper :: "str \<Rightarrow> bool" where
  "proper c \<longleftrightarrow> c \<noteq> [] \<and> c \<noteq> lit ''.'' \<and> c \<noteq> lit ''..''"

text \<open>The directory of the journal exists, and a path names one file.\<close>

definition journal_ok :: "file_journal \<Rightarrow> fs \<Rightarrow> bool" where
  "journal_ok J F \<longleftrightarrow> list_all proper (fj_dir J) \<and> (\<forall>k\<le>length (fj_dir J). take k (fj_dir J) \<in> set (fs_dirs F)) \<and>
     distinct (map fst (fs_files F))"

lemma resolve_proper:
  "list_all proper xs \<Longrightarrow> (\<forall>k<length xs. cur @ take k xs \<in> set dirs) \<Longrightarrow> resolve dirs cur (xs @ ys) = resolve dirs (cur @ xs) ys"
proof (induction xs arbitrary: cur)
  case (Cons c xs)
  have "cur \<in> set dirs" using Cons.prems(2) by (auto dest: spec [of _ 0])
  moreover have "\<forall>k<length xs. (cur @ [c]) @ take k xs \<in> set dirs"
    using Cons.prems(2) by (auto dest: spec [of _ "Suc k" for k])
  ultimately show ?case using Cons.IH [of "cur @ [c]"] Cons.prems(1) by (auto simp: proper_def)
qed simp

lemma locate_name:
  "journal_ok J F \<Longrightarrow> fs_dirs G = fs_dirs F \<Longrightarrow> proper n \<Longrightarrow> locate G (fj_dir J @ [n]) = Some (fj_dir J @ [n])"
  using resolve_proper [of "fj_dir J" "[]" "fs_dirs F" "[n]"]
  by (auto simp: locate_def journal_ok_def proper_def dest: spec [of _ "length (fj_dir J)"])

definition entry_name :: "job_id \<Rightarrow> str" where "entry_name j = j @ lit ''.json''"
definition scratch_name :: "file_journal \<Rightarrow> job_id \<Rightarrow> str" where
  "scratch_name J j = lit ''.'' @ j @ lit ''.'' @ show_nat (fj_pid J) @ lit ''.'' @ show_nat (fj_seq J) @ lit ''.tmp''"

lemma entry_proper: "proper (entry_name j)" and scratch_proper: "proper (scratch_name J j)"
  by (auto simp: proper_def entry_name_def scratch_name_def)

lemma slash_not_id: "list_all id_char s \<Longrightarrow> slash \<notin> set s"
  by (auto simp: list_all_iff id_char_def slash_def)

lemma entry_path_plain: "plain_name j \<Longrightarrow> entry_path J j = Inr (fj_dir J @ [entry_name j])"
  by (simp add: entry_path_def plain_name_def entry_name_def path_join_name slash_def)

lemma scratch_path_plain: "plain_name j \<Longrightarrow> scratch_path J j = fj_dir J @ [scratch_name J j]"
  using slash_not_id [OF show_nat_chars]
  by (auto simp: scratch_path_def scratch_name_def plain_name_def slash_def intro!: path_join_name)

lemma extension_append:
  assumes "dot \<notin> set e" and "n \<noteq> []" and "e \<noteq> []"
  shows "path_extension (n @ dot # e) = Some e"
proof -
  have "dropWhile (\<lambda>c. c \<noteq> dot) (rev e @ dot # rev n) = dot # rev n"
    "takeWhile (\<lambda>c. c \<noteq> dot) (rev e @ dot # rev n) = rev e"
    using assms(1) by (auto simp: dropWhile_append1 takeWhile_append dropWhile_append)
  moreover have "length (n @ dot # e) \<noteq> length (lit ''..'')" using assms by (cases n; cases e) auto
  then have "n @ dot # e \<noteq> lit ''..''" by metis
  ultimately show ?thesis using assms(2) by (cases "rev n") (auto simp: path_extension_def)
qed

lemma entry_extension: "j \<noteq> [] \<Longrightarrow> path_extension (entry_name j) = Some (lit ''json'')"
  using extension_append [of "lit ''json''" j] by (simp add: entry_name_def dot_def)

lemma scratch_extension: "path_extension (scratch_name J j) = Some (lit ''tmp'')"
  using extension_append [of "lit ''tmp''" "lit ''.'' @ j @ lit ''.'' @ show_nat (fj_pid J) @ lit ''.'' @ show_nat (fj_seq J)"]
  by (simp add: scratch_name_def dot_def)

lemma scratch_not_entry: "k \<noteq> [] \<Longrightarrow> scratch_name J j \<noteq> entry_name k"
  using scratch_extension [of J j] entry_extension [of k] by auto

section \<open>A write is all or nothing\<close>

lemma file_at_files [simp]: "file_at (F\<lparr>fs_files := xs\<rparr>) p = map_of xs p"
  by (simp add: file_at_def)

lemmas file_at_ops = file_at_def update_conv' delete_conv' distinct_update distinct_delete

text \<open>A file system on the way from \<open>F\<close> to the entry \<open>e\<close> holding \<open>bs\<close>, with scratch space \<open>q\<close>.\<close>

definition on_the_way :: "fs \<Rightarrow> path \<Rightarrow> path \<Rightarrow> bytes \<Rightarrow> fs \<Rightarrow> bool" where
  "on_the_way F q e bs G \<longleftrightarrow> fs_dirs G = fs_dirs F \<and>
     (\<forall>p. p \<noteq> q \<and> p \<noteq> e \<longrightarrow> file_at G p = file_at F p) \<and>
     (file_at G e = file_at F e \<or> file_at G e = Some \<lparr>fl_data = bs, fl_synced = True\<rparr>) \<and>
     (distinct (map fst (fs_files F)) \<longrightarrow> distinct (map fst (fs_files G)))"

lemma write_trace:
  assumes "plain_name j" and ok: "journal_ok J F"
    and w: "write_atomically J ft (fj_dir J @ [entry_name j]) bs j F = (Fs, r)"
  shows "list_all (on_the_way F (fj_dir J @ [scratch_name J j]) (fj_dir J @ [entry_name j]) bs) Fs \<and> Fs \<noteq> [] \<and>
    file_at (last Fs) (fj_dir J @ [entry_name j]) =
      (if r = Inr () then Some \<lparr>fl_data = bs, fl_synced = True\<rparr> else file_at F (fj_dir J @ [entry_name j]))"
proof -
  let ?q = "fj_dir J @ [scratch_name J j]" and ?e = "fj_dir J @ [entry_name j]"
  have "j \<noteq> []" using assms(1) by (auto simp: plain_name_def check_path_segment_def)
  then have ne: "?q \<noteq> ?e" using scratch_not_entry by simp
  note tmp = scratch_path_plain [OF assms(1), of J]
  have loc: "locate G ?q = Some ?q" "locate G ?e = Some ?e" if "fs_dirs G = fs_dirs F" for G
    using locate_name [OF ok that] entry_proper scratch_proper by auto
  show ?thesis
  proof (cases "fs_create F ?q (io_create ft)")
    case (Inl e)
    with w tmp show ?thesis by (auto simp: write_atomically_def on_the_way_def)
  next
    case (Inr created)
    let ?F1 = "F\<lparr>fs_files := AList.update ?q \<lparr>fl_data = [], fl_synced = False\<rparr> (fs_files F)\<rparr>"
    from Inr have cr: "fs_create F ?q (io_create ft) = Inr (?F1, ?q)"
      by (auto simp: fs_create_def loc split: option.splits if_splits)
    note run = w [unfolded write_atomically_def Let_def tmp cr fs_write_all_def fs_sync_all_def, simplified]
    have rename: "fs_rename G ?q ?e fault = (case file_at G ?q of None \<Rightarrow> Inl ENOENT | Some f \<Rightarrow>
        if ?e \<in> set (fs_dirs F) then Inl EISDIR else case fault of Some x \<Rightarrow> Inl x
        | None \<Rightarrow> Inr (G\<lparr>fs_files := AList.update ?e f (AList.delete ?q (fs_files G))\<rparr>))"
      and remove: "fs_remove_file G ?q x = (if x = None then G\<lparr>fs_files := AList.delete ?q (fs_files G)\<rparr> else G)"
      if "fs_dirs G = fs_dirs F" for G fault x
      using loc [OF that] that by (simp_all add: fs_rename_def fs_remove_file_def split: option.split)
    show ?thesis
    proof (cases "io_write ft")
      case (Some x)
      with run ne show ?thesis by (cases x) (auto simp: remove on_the_way_def file_at_ops)
    next
      case None
      note run = run [unfolded None, simplified]
      show ?thesis
      proof (cases "io_sync ft")
        case (Some x)
        with run ne show ?thesis by (auto simp: remove on_the_way_def file_at_ops)
      next
        case None
        show ?thesis
          using run [unfolded None, simplified] ne
          by (cases "io_rename ft") (auto simp: rename remove on_the_way_def file_at_ops split: if_splits)
      qed
    qed
  qed
qed

definition entry_of :: "file_journal \<Rightarrow> fs \<Rightarrow> job_id \<Rightarrow> fs_file option" where
  "entry_of J F j = file_at F (fj_dir J @ [entry_name j])"

lemma entry_name_inj [simp]: "entry_name j = entry_name k \<longleftrightarrow> j = k"
  by (simp add: entry_name_def)

lemma record_trace:
  assumes "plain_name (ji_job_id intent)" and "journal_ok J F" and "record_entry to_vec ft intent (J, F) = (J', Fs, r)"
  shows "Fs \<noteq> [] \<and> fj_dir J' = fj_dir J \<and>
    list_all (\<lambda>G. on_the_way F (fj_dir J @ [scratch_name J (ji_job_id intent)]) (fj_dir J @ [entry_name (ji_job_id intent)])
      (case to_vec intent of Inr bs \<Rightarrow> bs | Inl _ \<Rightarrow> []) G \<and>
      (entry_of J G (ji_job_id intent) \<noteq> entry_of J F (ji_job_id intent) \<longrightarrow> (\<exists>bs. to_vec intent = Inr bs))) Fs \<and>
    (if r = Inr () then \<exists>bs. to_vec intent = Inr bs \<and> entry_of J (last Fs) (ji_job_id intent) = Some \<lparr>fl_data = bs, fl_synced = True\<rparr>
     else entry_of J (last Fs) (ji_job_id intent) = entry_of J F (ji_job_id intent))"
proof (cases "to_vec intent")
  case (Inl e)
  with assms entry_path_plain [OF assms(1)] show ?thesis by (auto simp: record_entry_def on_the_way_def)
next
  case (Inr bs)
  with assms entry_path_plain [OF assms(1)] write_trace [OF assms(1,2), of ft bs Fs r] show ?thesis
    by (auto simp: record_entry_def entry_of_def list_all_iff split: prod.splits)
qed

text \<open>C16. A write to the journal is all or nothing, whatever fails and wherever the process stops: in every
  file system the write goes through, the entry of the job is the previous one or the complete new one
  with its bytes on disk, and the entries of all other jobs are untouched. When \<open>record\<close> answers success
  the new entry is there, and when it answers an error the previous one still is.\<close>

theorem journal_record_atomic:
  assumes "plain_name (ji_job_id intent)" and "journal_ok J F" and "record_entry to_vec ft intent (J, F) = (J', Fs, r)"
  shows "list_all (\<lambda>G. (entry_of J G (ji_job_id intent) = entry_of J F (ji_job_id intent) \<or>
        (\<exists>bs. to_vec intent = Inr bs \<and> entry_of J G (ji_job_id intent) = Some \<lparr>fl_data = bs, fl_synced = True\<rparr>)) \<and>
      (\<forall>k. k \<noteq> [] \<and> k \<noteq> ji_job_id intent \<longrightarrow> entry_of J G k = entry_of J F k)) Fs \<and> Fs \<noteq> [] \<and>
    (if r = Inr () then \<exists>bs. to_vec intent = Inr bs \<and> entry_of J (last Fs) (ji_job_id intent) = Some \<lparr>fl_data = bs, fl_synced = True\<rparr>
     else entry_of J (last Fs) (ji_job_id intent) = entry_of J F (ji_job_id intent))"
  using record_trace [OF assms]
  by (auto simp: list_all_iff on_the_way_def entry_of_def scratch_not_entry [symmetric] split: sum.splits)

text \<open>A journal on an empty disk.\<close>

definition example_journal :: file_journal where
  "example_journal = \<lparr>fj_dir = [[115], JOURNAL_DIR], fj_seq = 0, fj_pid = 7\<rparr>"

definition example_fs :: fs where
  "example_fs = \<lparr>fs_dirs = [[], [[115]], [[115], JOURNAL_DIR]], fs_files = []\<rparr>"

definition example_intent :: job_intent where
  "example_intent = \<lparr>ji_job_id = lit ''job_1'', ji_repo = [], ji_tree_id = [], ji_callback_urls = [[103]], ji_accepted_at_unix = 0,
     ji_verdict = None\<rparr>"

definition no_faults :: io_faults where
  "no_faults = \<lparr>io_create = None, io_write = None, io_sync = None, io_rename = None, io_remove = None\<rparr>"

lemma example_journal_ok: "journal_ok example_journal example_fs" "plain_name (ji_job_id example_intent)"
proof -
  show "journal_ok example_journal example_fs"
    by (auto simp: journal_ok_def example_journal_def example_fs_def proper_def JOURNAL_DIR_def le_Suc_eq)
  show "plain_name (ji_job_id example_intent)" by (rule plain_id) (simp_all add: example_intent_def id_char_def)
qed

lemmas journal_eval = record_entry_def write_atomically_def example_journal_def example_fs_def example_intent_def no_faults_def
  entry_path_def scratch_path_def check_path_segment_def is_whitespace_def is_control_def is_invisible_formatting_def
  backslash_def slash_def path_join_def JOURNAL_DIR_def fs_create_def locate_def fs_write_all_def fs_sync_all_def fs_rename_def
  hm_modify_def hm_map_def file_at_def show_nat.simps Let_def

theorem journal_record_atomic_witness:
  "\<exists>J Fs. record_entry (\<lambda>_. Inr [1, 2]) no_faults example_intent (example_journal, example_fs) = (J, Fs, Inr ()) \<and>
     entry_of example_journal (last Fs) (ji_job_id example_intent) = Some \<lparr>fl_data = [1, 2], fl_synced = True\<rparr>"
proof -
  obtain J Fs where r: "record_entry (\<lambda>_. Inr [1, 2]) no_faults example_intent (example_journal, example_fs) = (J, Fs, Inr ())"
    by (simp add: journal_eval)
  from journal_record_atomic [OF example_journal_ok(2,1) r] r show ?thesis by auto
qed

section \<open>What a restart reads\<close>

text \<open>The intent a file name stands for.\<close>

definition read_back :: "(bytes \<Rightarrow> str + job_intent) \<Rightarrow> read_faults \<Rightarrow> file_journal \<Rightarrow> fs \<Rightarrow> str \<Rightarrow> job_intent option" where
  "read_back from_slice rf J F name =
     Option.bind (file_at F (fj_dir J @ [name])) (\<lambda>f. read_entry from_slice rf (name, f))"

lemma listing_iff:
  assumes "distinct (map fst (fs_files F))"
  shows "(n, f) \<in> set (listing J F) \<longleftrightarrow> file_at F (fj_dir J @ [n]) = Some f"
proof -
  have "(n, f) \<in> set (listing J F) \<longleftrightarrow> (fj_dir J @ [n], f) \<in> set (fs_files F)"
    by (auto simp: listing_def image_iff) (metis append_butlast_last_id)
  also have "\<dots> \<longleftrightarrow> file_at F (fj_dir J @ [n]) = Some f"
    unfolding file_at_def by (rule map_of_eq_Some_iff [OF assms, symmetric])
  finally show ?thesis .
qed

lemma set_map_filter: "set (List.map_filter f xs) = {y. \<exists>x\<in>set xs. f x = Some y}"
  by (induction xs) (auto simp: List.map_filter_simps split: option.splits)

lemma outstanding_ran:
  assumes "distinct (map fst (fs_files F))" and "outstanding from_slice rf (J, F) = Inr out"
  shows "set out = ran (read_back from_slice rf J F)"
proof -
  have "set out = {i. \<exists>n f. (n, f) \<in> set (listing J F) \<and> read_entry from_slice rf (n, f) = Some i}"
    using assms(2) by (auto simp: outstanding_def set_map_filter split: option.splits) blast
  then show ?thesis by (auto simp: listing_iff [OF assms(1)] read_back_def ran_def bind_eq_Some_conv)
qed

lemma read_back_scratch: "read_back from_slice rf J F (scratch_name J' j) = None"
  by (simp add: read_back_def read_entry_def scratch_extension lit_def split: option.split bind_splits)

lemma record_read_back:
  assumes "plain_name (ji_job_id intent)" and "journal_ok J F" and "record_entry to_vec ft intent (J, F) = (J', Fs, Inr ())"
    and "\<And>bs. to_vec intent = Inr bs \<Longrightarrow> from_slice bs = Inr intent"
    and "\<not> rd_entry rf (entry_name (ji_job_id intent))" and "\<not> rd_file rf (entry_name (ji_job_id intent))"
  shows "read_back from_slice rf J' (last Fs) = (read_back from_slice rf J F)(entry_name (ji_job_id intent) \<mapsto> intent)"
    and "journal_ok J' (last Fs)"
proof -
  let ?j = "ji_job_id intent"
  have ne: "?j \<noteq> []" using assms(1) by (auto simp: plain_name_def check_path_segment_def)
  from record_trace [OF assms(1-3)] obtain bs where bs: "to_vec intent = Inr bs"
    and e: "file_at (last Fs) (fj_dir J @ [entry_name ?j]) = Some \<lparr>fl_data = bs, fl_synced = True\<rparr>"
    and dir: "fj_dir J' = fj_dir J" and "Fs \<noteq> []"
    and way: "on_the_way F (fj_dir J @ [scratch_name J ?j]) (fj_dir J @ [entry_name ?j]) bs (last Fs)"
    by (auto simp: entry_of_def list_all_iff)
  show "read_back from_slice rf J' (last Fs) = (read_back from_slice rf J F)(entry_name ?j \<mapsto> intent)"
  proof
    fix n
    show "read_back from_slice rf J' (last Fs) n = ((read_back from_slice rf J F)(entry_name ?j \<mapsto> intent)) n"
    proof (cases "n = entry_name ?j")
      case True
      with e dir assms(4) [OF bs] assms(5,6) entry_extension [OF ne] show ?thesis by (simp add: read_back_def read_entry_def)
    next
      case False
      then show ?thesis
        using read_back_scratch [of from_slice rf _ _ J ?j] way dir
        by (cases "n = scratch_name J ?j") (auto simp: read_back_def on_the_way_def)
    qed
  qed
  show "journal_ok J' (last Fs)" using way assms(2) dir by (simp add: journal_ok_def on_the_way_def)
qed

lemma forget_read_back:
  assumes "plain_name j" and "journal_ok J F"
  shows "forget_entry fault j (J, F) = (J, snd (forget_entry fault j (J, F)))"
    and "read_back from_slice rf J (snd (forget_entry fault j (J, F))) =
      (if fault = None then (read_back from_slice rf J F)(entry_name j := None) else read_back from_slice rf J F)"
    and "journal_ok J (snd (forget_entry fault j (J, F)))"
proof -
  have f: "forget_entry fault j (J, F) = (J, if fault = None
      then F\<lparr>fs_files := AList.delete (fj_dir J @ [entry_name j]) (fs_files F)\<rparr> else F)"
    using locate_name [OF assms(2) refl entry_proper, of j]
    by (simp add: forget_entry_def entry_path_plain [OF assms(1)] fs_remove_file_def)
  show "forget_entry fault j (J, F) = (J, snd (forget_entry fault j (J, F)))" by (simp add: f)
  show "read_back from_slice rf J (snd (forget_entry fault j (J, F))) =
      (if fault = None then (read_back from_slice rf J F)(entry_name j := None) else read_back from_slice rf J F)"
    by (auto simp: f read_back_def file_at_ops fun_eq_iff)
  show "journal_ok J (snd (forget_entry fault j (J, F)))"
    using assms(2) by (auto simp: f journal_ok_def distinct_delete)
qed

text \<open>The journal round trip: a recorded intent is exactly what the next start reads for that job, beside
  everything the directory held for the others; and once the job is forgotten, nothing is read for it. The
  law used of the serializer is that it reads back what it wrote.\<close>

theorem journal_roundtrip:
  assumes "plain_name (ji_job_id intent)" and "journal_ok J F" and "record_entry to_vec ft intent (J, F) = (J1, Fs, Inr ())"
    and "\<And>bs. to_vec intent = Inr bs \<Longrightarrow> from_slice bs = Inr intent"
    and "\<not> rd_entry rf (entry_name (ji_job_id intent))" and "\<not> rd_file rf (entry_name (ji_job_id intent))" and "rd_dir rf = None"
  shows "\<exists>before after gone.
    outstanding from_slice rf (J, F) = Inr before \<and> outstanding from_slice rf (J1, last Fs) = Inr after \<and>
    outstanding from_slice rf (forget_entry None (ji_job_id intent) (J1, last Fs)) = Inr gone \<and>
    set after = insert intent (ran ((read_back from_slice rf J F)(entry_name (ji_job_id intent) := None))) \<and>
    set gone = ran ((read_back from_slice rf J F)(entry_name (ji_job_id intent) := None)) \<and>
    set before = ran (read_back from_slice rf J F)"
proof -
  note r = record_read_back [OF assms(1-3,4) assms(5,6)]
  note f = forget_read_back [OF assms(1) r(2), where fault = None]
  obtain before after gone where o: "outstanding from_slice rf (J, F) = Inr before"
    "outstanding from_slice rf (J1, last Fs) = Inr after"
    "outstanding from_slice rf (J1, snd (forget_entry None (ji_job_id intent) (J1, last Fs))) = Inr gone"
    using assms(7) by (simp add: outstanding_def)
  have d: "distinct (map fst (fs_files G))" if "journal_ok K G" for K G using that by (simp add: journal_ok_def)
  have "set before = ran (read_back from_slice rf J F)" by (rule outstanding_ran [OF d [OF assms(2)] o(1)])
  moreover have "set after = ran ((read_back from_slice rf J F)(entry_name (ji_job_id intent) \<mapsto> intent))"
    using outstanding_ran [OF d [OF r(2)] o(2)] by (simp add: r(1))
  moreover have "set gone = ran ((read_back from_slice rf J F)(entry_name (ji_job_id intent) := None))"
    using outstanding_ran [OF d [OF f(3)] o(3)] by (simp add: f(2) r(1))
  moreover have "ran (m(k \<mapsto> v)) = insert v (ran (m(k := None)))" for m :: "str \<Rightarrow> job_intent option" and k v
    by (auto simp: ran_def)
  ultimately show ?thesis using o f(1) by simp
qed

definition no_read_faults :: read_faults where
  "no_read_faults = \<lparr>rd_dir = None, rd_entry = (\<lambda>_. False), rd_file = (\<lambda>_. False)\<rparr>"

theorem journal_roundtrip_witness:
  "\<exists>J Fs out. record_entry (\<lambda>_. Inr [1, 2]) no_faults example_intent (example_journal, example_fs) = (J, Fs, Inr ()) \<and>
     outstanding (\<lambda>_. Inr example_intent) no_read_faults (J, last Fs) = Inr out \<and> example_intent \<in> set out"
proof -
  obtain J Fs where r: "record_entry (\<lambda>_. Inr [1, 2]) no_faults example_intent (example_journal, example_fs) = (J, Fs, Inr ())"
    by (simp add: journal_eval)
  from journal_roundtrip [OF example_journal_ok(2,1) r, of "\<lambda>_. Inr example_intent" no_read_faults] r show ?thesis
    by (auto simp: no_read_faults_def)
qed

section \<open>Recovery answers every entry\<close>

definition recovery_sent :: "transport \<Rightarrow> str option \<Rightarrow> retry_policy \<Rightarrow> job_intent \<Rightarrow> (callback_request \<times> delivery) list" where
  "recovery_sent post secret retry i = map (\<lambda>req. (req, deliver (post req) retry)) (recovery_requests secret i)"

definition answered :: "transport \<Rightarrow> str option \<Rightarrow> retry_policy \<Rightarrow> job_intent \<Rightarrow> bool" where
  "answered post secret retry i \<longleftrightarrow> list_ex (\<lambda>x. is_delivered (snd x)) (recovery_sent post secret retry i)"

text \<open>Every entry lies under the name of its own job, as \<open>record\<close> writes them.\<close>

definition own_names :: "(bytes \<Rightarrow> str + job_intent) \<Rightarrow> read_faults \<Rightarrow> file_journal \<Rightarrow> fs \<Rightarrow> bool" where
  "own_names from_slice rf J F \<longleftrightarrow>
     (\<forall>n i. read_back from_slice rf J F n = Some i \<longrightarrow> plain_name (ji_job_id i) \<and> n = entry_name (ji_job_id i))"

lemma recover_loop_effect:
  assumes "journal_ok J F" and "\<forall>i\<in>set is. plain_name (ji_job_id i)"
    and "recover_loop post secret retry unlink is (J, F) = (s, sent)"
  shows "sent = concat (map (recovery_sent post secret retry) is) \<and> (\<exists>G. s = (J, G) \<and> journal_ok J G \<and>
    read_back from_slice rf J G = (\<lambda>n. if \<exists>i\<in>set is. n = entry_name (ji_job_id i) \<and> answered post secret retry i \<and> unlink (ji_job_id i) = None
      then None else read_back from_slice rf J F n))"
  using assms
proof (induction "is" arbitrary: F s sent)
  case (Cons i "is")
  have p: "plain_name (ji_job_id i)" using Cons.prems(2) by simp
  note f = forget_read_back [OF p Cons.prems(1), where fault = "unlink (ji_job_id i)"]
  have "recover_one post secret retry unlink i (J, F) =
      ((J, if answered post secret retry i then snd (forget_entry (unlink (ji_job_id i)) (ji_job_id i) (J, F)) else F),
        recovery_sent post secret retry i)"
    using f(1) by (simp add: recover_one_def answered_def recovery_sent_def Let_def)
  then obtain F1 where one: "recover_one post secret retry unlink i (J, F) = ((J, F1), recovery_sent post secret retry i)"
    and ok: "journal_ok J F1"
    and F1: "\<And>n. read_back from_slice rf J F1 n = (if n = entry_name (ji_job_id i) \<and> answered post secret retry i \<and>
      unlink (ji_job_id i) = None then None else read_back from_slice rf J F n)"
    using f(3) Cons.prems(1) by (cases "answered post secret retry i") (simp_all add: f(2))
  obtain s1 sent1 where r: "recover_loop post secret retry unlink is (J, F1) = (s1, sent1)" by fastforce
  from Cons.IH [OF ok _ r] Cons.prems(2) obtain G where
    G: "sent1 = concat (map (recovery_sent post secret retry) is)" "s1 = (J, G)" "journal_ok J G"
      "read_back from_slice rf J G = (\<lambda>n. if \<exists>i\<in>set is. n = entry_name (ji_job_id i) \<and> answered post secret retry i \<and>
        unlink (ji_job_id i) = None then None else read_back from_slice rf J F1 n)" by auto
  have "s = s1" "sent = recovery_sent post secret retry i @ sent1" using Cons.prems(3) one r by simp_all
  with G show ?case by (auto simp: F1 fun_eq_iff)
qed auto


definition kept_fs :: fs where
  "kept_fs = example_fs\<lparr>fs_files := [([[115], JOURNAL_DIR, entry_name (lit ''job_1'')], \<lparr>fl_data = [1, 2], fl_synced = True\<rparr>)]\<rparr>"

definition example_decode :: "bytes \<Rightarrow> str + job_intent" where
  "example_decode bs = (if bs = [1, 2] then Inr example_intent else Inl [])"

lemma kept_read:
  "journal_ok example_journal kept_fs" "own_names example_decode no_read_faults example_journal kept_fs"
  "outstanding example_decode no_read_faults (example_journal, kept_fs) = Inr [example_intent]"
proof -
  show ok: "journal_ok example_journal kept_fs" using example_journal_ok(1) by (simp add: journal_ok_def kept_fs_def)
  have "path_extension (entry_name (lit ''job_1'')) = Some (lit ''json'')" by (rule entry_extension) simp
  then have r: "read_entry example_decode no_read_faults (entry_name (lit ''job_1''), \<lparr>fl_data = [1, 2], fl_synced = True\<rparr>) = Some example_intent"
    by (simp add: read_entry_def no_read_faults_def example_decode_def)
  have l: "listing example_journal kept_fs = [(entry_name (lit ''job_1''), \<lparr>fl_data = [1, 2], fl_synced = True\<rparr>)]"
    by (simp add: listing_def kept_fs_def example_journal_def)
  from r l show "outstanding example_decode no_read_faults (example_journal, kept_fs) = Inr [example_intent]"
    by (simp add: outstanding_def no_read_faults_def List.map_filter_simps)
  show "own_names example_decode no_read_faults example_journal kept_fs"
    using example_journal_ok(2) r
    by (auto simp: own_names_def read_back_def file_at_def kept_fs_def example_journal_def example_intent_def bind_eq_Some_conv split: if_splits)
qed


section \<open>A separator in a file name\<close>

text \<open>The check in front of every path lets a slash through, so a job id with a separator is not refused as
  a file name: forgetting the job \<open>../x\<close> removes a file outside the journal's directory. Recording it
  fails too, but only because the scratch file's directory does not exist.\<close>

theorem entry_path_escapes:
  "entry_path example_journal (lit ''../x'') = Inr [[115], JOURNAL_DIR, lit ''..'', lit ''x.json''] \<and>
   snd (forget_entry None (lit ''../x'') (example_journal, example_fs\<lparr>fs_files := [([[115], lit ''x.json''], f)]\<rparr>)) = example_fs \<and>
   snd (snd (record_entry (\<lambda>_. Inr bs) no_faults (example_intent\<lparr>ji_job_id := lit ''../x''\<rparr>) (example_journal, example_fs))) =
     Inl (JournalWrite (lit ''../x'') ENOENT)"
  by (simp add: journal_eval forget_entry_def fs_remove_file_def)

end
