(* ===== verification/Ci_Dispatch.thy ===== *)
theory Ci_Dispatch
  imports Ci_Methods
begin

text \<open>
  No step is handed to the fleet twice. The claim store is used through its contract only: the locale
  \<open>fleet\<close> extends \<open>job_claims\<close> by the rest of the collaborators and by a log of the steps the fleet took.
  Inside it, the drive leases, the claims and the log are tied together by an invariant of every
  reachable state. The locale is interpreted on \<open>LocalClaims\<close> and an arbitrary fleet.
\<close>

section \<open>What the methods leave undecided\<close>

definition undecided :: "job \<Rightarrow> job \<Rightarrow> bool" where
  "undecided b b' \<longleftrightarrow> (has_verdict (j_state b') \<longrightarrow> has_verdict (j_state b))"

lemma undecided_refl: "reflp undecided" and undecided_trans: "transp undecided"
  by (auto simp: undecided_def reflp_def transp_def)

lemma same_jobs_undecided: "same_jobs c c' \<Longrightarrow> jobs_rel undecided c c'"
  by (erule jobs_rel_mono) (auto simp: steps_only_def undecided_def)

lemma undecided_try: "\<not> has_verdict n \<or> n \<in> {JReported, JReportFailed} \<Longrightarrow> undecided b (job_try b n now)"
  by (auto simp: undecided_def job_try_def job_transition_at_def Let_def job_can_transition_to_def has_verdict_def
      split: if_splits)

lemmas undecided_mut = jobs_rel_with_job_mut [OF undecided_refl]
lemmas undecided_then = jobs_rel_trans [OF undecided_trans]
lemmas undecided_frame = jobs_rel_same [OF undecided_refl]

lemma step_report_frame:
  "c_world (fst (record_step_report c rep node now)) = c_world c \<and>
   c_leases (fst (record_step_report c rep node now)) = c_leases c"
  by (simp add: record_step_report_def Let_def split: option.split sum.split)

lemma if_P_both: "P x \<Longrightarrow> P y \<Longrightarrow> P (if b then x else y)"
  by simp

section \<open>The contract with the fleet\<close>

locale fleet = job_claims app drives taken urls
  for app :: "claim_op \<Rightarrow> 'w \<Rightarrow> 'w \<times> claim_out" and drives taken urls +
  fixes D :: "'w deps" and handed :: "'w \<Rightarrow> (job_id \<times> step_id) list"
  assumes claims_app: "dp_claims D = app"
    and app_handed: "app op w = (w', out) \<Longrightarrow> handed w' = handed w"
    and record_frame: "dp_record D intent w = (w', r) \<Longrightarrow>
      handed w' = handed w \<and> drives w' = drives w \<and> taken w' = taken w"
    and forget_frame: "handed (dp_forget D j w) = handed w \<and> drives (dp_forget D j w) = drives w \<and>
      taken (dp_forget D j w) = taken w"
    and cancel_frame: "handed (dp_cancel D j i w) = handed w \<and> drives (dp_cancel D j i w) = drives w \<and>
      taken (dp_cancel D j i w) = taken w"
    and assign_logs: "dp_assign D a tree w = (w', res) \<Longrightarrow>
      handed w' = (if res = Inl NoCapacity then handed w else (a_job_id a, a_step_id a) # handed w) \<and>
      drives w' = drives w \<and> taken w' = taken w"
begin

text \<open>The invariant, with a set of jobs that are being given up.\<close>

definition lease_ok :: "'w control \<Rightarrow> job_id \<Rightarrow> drive_lease \<Rightarrow> bool" where
  "lease_ok c j l \<longleftrightarrow> dl_job_id l = j \<and> (\<exists>k. drives (c_world c) k j) \<and>
     (\<exists>b. store_get (c_jobs c) j = Some b \<and> \<not> has_verdict (j_state b))"

definition handed_inv :: "job_id set \<Rightarrow> job_id set \<Rightarrow> 'w control \<Rightarrow> bool" where
  "handed_inv M X c \<longleftrightarrow>
     distinct (handed (c_world c)) \<and> fst ` set (handed (c_world c)) \<subseteq> M \<and> dom (lease_of c) \<subseteq> M \<and>
     (\<forall>j l. lease_of c j = Some l \<longrightarrow> j \<notin> X \<longrightarrow>
        lease_ok c j l \<and> (\<forall>s. (j, s) \<in> set (handed (c_world c)) \<longrightarrow> taken (c_world c) j s))"

lemma handed_lease: "handed_inv M X c \<Longrightarrow> lease_of c j = Some l \<Longrightarrow> j \<notin> X \<Longrightarrow> lease_ok c j l"
  by (simp add: handed_inv_def)

lemma handed_jobs:
  assumes "handed_inv M X c" and "jobs_rel undecided c c'" and "c_world c' = c_world c" and "lease_of c' = lease_of c"
  shows "handed_inv M X c'"
proof -
  have "lease_ok c' j l" if "lease_ok c j l" for j l
    using that assms(2,3) by (auto simp: lease_ok_def undecided_def elim!: jobs_rel_get)
  with assms show ?thesis unfolding handed_inv_def by auto
qed

lemma handed_drop: "handed_inv M (insert j X) c \<Longrightarrow> handed_inv M X (drop_lease c j)"
  by (auto simp: handed_inv_def lease_of_def drop_lease_def lease_ok_def split: if_splits)

lemma handed_weaken: "handed_inv M X c \<Longrightarrow> X \<subseteq> Y \<Longrightarrow> handed_inv M Y c"
  unfolding handed_inv_def by blast

text \<open>A call of the claim store that ends no claim of a leased job and releases no handed step.\<close>

lemma handed_call:
  assumes "handed_inv M X c" and "\<And>j l. lease_of c j = Some l \<Longrightarrow> j \<notin> X \<Longrightarrow> \<not> ends_claim j op"
    and "\<And>j l s. lease_of c j = Some l \<Longrightarrow> j \<notin> X \<Longrightarrow> (j, s) \<in> set (handed (c_world c)) \<Longrightarrow> \<not> releases j s op"
  shows "handed_inv M X (fst (call_claims D op c))"
proof -
  obtain w out where a: "app op (c_world c) = (w, out)" by fastforce
  let ?c = "c\<lparr>c_world := w\<rparr>"
  have h: "handed w = handed (c_world c)" using app_handed [OF a] .
  have "lease_ok ?c j l \<and> (\<forall>s. (j, s) \<in> set (handed w) \<longrightarrow> taken w j s)"
    if l: "lease_of c j = Some l" "j \<notin> X" for j l
  proof -
    from assms(1) l have ok: "lease_ok c j l" "\<forall>s. (j, s) \<in> set (handed (c_world c)) \<longrightarrow> taken (c_world c) j s"
      by (auto simp: handed_inv_def)
    then obtain k where k: "drives (c_world c) k j" by (auto simp: lease_ok_def)
    from drives_kept [OF k assms(2) [OF l] a] have "drives w k j" by simp
    with ok have "lease_ok ?c j l" unfolding lease_ok_def by (cases k) auto
    moreover have "taken w j s" if "(j, s) \<in> set (handed w)" for s
      using taken_kept [OF k _ assms(2) [OF l] assms(3) [OF l] a] ok(2) that h by auto
    ultimately show ?thesis by blast
  qed
  with assms(1) h show ?thesis
    by (auto simp: handed_inv_def call_claims_def claims_app a lease_of_def)
qed

lemma handed_world:
  assumes "handed_inv M X c" and "handed w = handed (c_world c)" and "drives w = drives (c_world c)" and "taken w = taken (c_world c)"
  shows "handed_inv M X (c\<lparr>c_world := w\<rparr>)"
  using assms by (auto simp: handed_inv_def lease_of_def lease_ok_def)

text \<open>One grant: what is handed out was claimed first.\<close>

lemma handed_frames [simp]:
  "lease_of (on_queue f c) = lease_of c" "c_world (on_queue f c) = c_world c"
  "lease_of (with_job_mut c j g) = lease_of c" "lease_of (c\<lparr>c_world := w\<rparr>) = lease_of c"
  "lease_of (wake c j) = lease_of c" "lease_of (fst (call_claims D' op c)) = lease_of c"
  by (auto simp: lease_of_def on_queue_def call_claims_def fun_eq_iff split: prod.split)

lemma handed_queue: "handed_inv M X c \<Longrightarrow> handed_inv M X (on_queue f c)"
  by (erule handed_jobs) (auto intro: same_jobs_undecided)

lemma settle_frames:
  "lease_of (fst (settle_assignment c g a r now)) = lease_of c"
  "c_world (fst (settle_assignment c g a r now)) = c_world c"
  by (auto simp: settle_assignment_def Let_def split: option.split sum.split)

lemma assignment_ids:
  assumes "assignment_for c g = Some (a, tree)" and "store_ok (c_jobs c)"
  shows "a_job_id a = g_job_id g \<and> a_step_id a = g_step_id g"
  using assms
  by (auto simp: assignment_for_def assignment_of_def store_ok_def store_get_def job_step_def find_Some_iff
      split: option.splits)

lemma handed_grant:
  assumes inv: "handed_inv M {} c" and "store_ok (c_jobs c)"
  shows "handed_inv M {} (fst (pump_grant D now ms g c))"
proof (cases "assignment_for c g")
  case (Some pair)
  obtain a tree where at: "assignment_for c g = Some (a, tree)" using Some by (cases pair) auto
  note ids = assignment_ids [OF at assms(2)]
  let ?j = "g_job_id g" and ?s = "g_step_id g"
  show ?thesis
  proof (cases "lease_of c ?j")
    case (Some lease)
    obtain c1 out where c1: "call_claims D (ClaimStep lease ?s ms) c = (c1, out)" by fastforce
    then obtain w1 where a: "app (ClaimStep lease ?s ms) (c_world c) = (w1, out)" and c1w: "c1 = c\<lparr>c_world := w1\<rparr>"
      by (auto simp: call_claims_def claims_app split: prod.splits)
    have inv1: "handed_inv M {} c1"
      using handed_call [OF inv, of "ClaimStep lease ?s ms"] c1 by simp
    show ?thesis
    proof (cases "as_step out = Inr Granted")
      case True
      obtain w2 r where as: "dp_assign D a tree w1 = (w2, r)" by fastforce
      note log = assign_logs [OF as]
      let ?c3 = "if r = Inl NoCapacity then fst (call_claims D (ReleaseStep lease ?s) (c1\<lparr>c_world := w2\<rparr>)) else c1\<lparr>c_world := w2\<rparr>"
      have e: "fst (pump_grant D now ms g c) = fst (settle_assignment ?c3 g a r now)"
        using at Some c1 True as c1w by (simp add: pump_grant_def Let_def)
      have out: "out = OutStep (Inr Granted)" using True by (cases out) simp_all
      have j: "dl_job_id lease = ?j" using inv Some by (auto simp: handed_inv_def lease_ok_def)
      have new: "(?j, ?s) \<notin> set (handed (c_world c))"
      proof
        assume "(?j, ?s) \<in> set (handed (c_world c))"
        with inv Some have "taken (c_world c) ?j ?s" by (auto simp: handed_inv_def)
        from claim_taken [OF this a] j out show False by simp
      qed
      have h1: "handed w1 = handed (c_world c)" by (rule app_handed [OF a])
      have "handed_inv M {} ?c3"
      proof (cases "r = Inl NoCapacity")
        case True
        with log inv1 c1w have "handed_inv M {} (c1\<lparr>c_world := w2\<rparr>)" by (intro handed_world) auto
        with handed_call [OF this, of "ReleaseStep lease ?s"] True new log h1 j show ?thesis by auto
      next
        case False
        have "taken w1 ?j ?s" using granted [OF a [unfolded out]] j by simp
        moreover have "?j \<in> M" using inv Some by (auto simp: handed_inv_def)
        ultimately show ?thesis using False log ids new inv1 c1w h1
          by (auto simp: handed_inv_def lease_of_def lease_ok_def)
      qed
      then show ?thesis unfolding e
        by (rule handed_jobs) (simp_all add: settle_frames same_jobs_undecided same_jobs_settle_assignment)
    next
      case False
      with at Some c1 inv1 show ?thesis
        by (auto simp: pump_grant_def Let_def split: sum.splits step_claim.splits
            intro: handed_queue handed_drop handed_weaken)
    qed
  qed (use at inv in \<open>simp add: pump_grant_def Let_def handed_queue\<close>)
qed (use inv in \<open>simp add: pump_grant_def Let_def handed_queue\<close>)

lemma handed_pump_loop:
  assumes "handed_inv M {} c" and "jobs_ok c"
  shows "handed_inv M {} (fst (pump_loop D now ms ob gs m wo c))"
  using assms
proof (induction gs arbitrary: c m wo)
  case (Cons g gs)
  obtain c1 mv where g: "pump_grant D now ms g c = (c1, mv)" by fastforce
  have "handed_inv M {} c1" using handed_grant [of M c now ms g] Cons.prems g by (simp add: jobs_ok_def)
  moreover have "jobs_ok c1"
    using jobs_ok_moves [OF Cons.prems(2) evolves_moves [OF same_jobs_evolves [OF same_jobs_pump_grant]]] g by (metis fst_conv)
  ultimately show ?case using Cons.IH g by auto
qed simp

lemma handed_wakes: "handed_inv M X c \<Longrightarrow> handed_inv M X (fold (\<lambda>j c. wake c j) js c)"
proof (induction js arbitrary: c)
  case (Cons j js)
  have "handed_inv M X (wake c j)" by (rule handed_jobs [OF Cons.prems]) (simp_all add: same_jobs_undecided)
  then show ?case using Cons.IH by simp
qed simp

lemma handed_pump:
  assumes "handed_inv M {} c" and "jobs_ok c"
  shows "handed_inv M {} (fst (pump D now ms ob c))"
proof -
  have q: "handed_inv M {} (c\<lparr>c_queue := q\<rparr>) \<and> jobs_ok (c\<lparr>c_queue := q\<rparr>)" for q
    using assms handed_queue [of M "{}" c "\<lambda>_. q"] by (simp add: on_queue_def jobs_ok_def)
  have "handed_inv M {} (fst (pump_loop D now ms ob gs m wo (c\<lparr>c_queue := q\<rparr>)))" for gs m wo q
    using handed_pump_loop q by blast
  then show ?thesis
    unfolding pump_def Let_def by (simp split: prod.split) (metis fst_conv handed_wakes)
qed

lemma handed_retire:
  assumes "handed_inv M {j} c" and "jobs_ok c"
  shows "handed_inv M {} (retire D now ms j c)"
proof -
  let ?c1 = "drop_lease (c\<lparr>c_trees := AList.delete j (c_trees c)\<rparr>) j"
  have "handed_inv M {j} (c\<lparr>c_trees := AList.delete j (c_trees c)\<rparr>)"
    using assms(1) by (auto simp: handed_inv_def lease_of_def lease_ok_def)
  then have "handed_inv M {} (on_queue (\<lambda>q. forget_job q j now) ?c1)" by (intro handed_queue handed_drop) simp
  moreover have "jobs_ok (on_queue (\<lambda>q. forget_job q j now) ?c1)"
    using assms(2) by (simp add: jobs_ok_def on_queue_def drop_lease_def)
  ultimately show ?thesis unfolding retire_def Let_def by (rule handed_pump)
qed

text \<open>The other methods.\<close>

lemma handed_same:
  "handed_inv M X c \<Longrightarrow> jobs_rel undecided c c' \<Longrightarrow> c_world c' = c_world c \<Longrightarrow> c_leases c' = c_leases c \<Longrightarrow> handed_inv M X c'"
  by (erule handed_jobs) (simp_all add: lease_of_def fun_eq_iff)

lemma handed_journal: "handed_inv M X c \<Longrightarrow> handed_inv M X (fst (journal_record D c j v n))"
proof (cases "store_get (c_jobs c) j")
  case (Some b)
  assume inv: "handed_inv M X c"
  obtain w r where "dp_record D (intent_of b v n) (c_world c) = (w, r)" by fastforce
  with handed_world [OF inv, of w] record_frame [OF this] Some show ?thesis by (simp add: journal_record_def)
qed (simp add: journal_record_def)

lemma handed_cancel: "handed_inv M X c \<Longrightarrow> handed_inv M X (cancel_steps D j is c)"
proof (induction "is" arbitrary: c)
  case (Cons i js)
  let ?c1 = "if (case Option.bind (store_get (c_jobs c) j) (\<lambda>b. job_step b i) of
    Some s \<Rightarrow> s_state s \<in> {SLeased, SRunning} | None \<Rightarrow> False) then c\<lparr>c_world := dp_cancel D j i (c_world c)\<rparr> else c"
  have "handed_inv M X ?c1" using Cons.prems cancel_frame by (auto intro: handed_world)
  then have "handed_inv M X (with_job_mut ?c1 j (\<lambda>b. job_step_mut b i (\<lambda>s. step_try s SSkipped)))"
    by (rule handed_same) (auto intro: undecided_mut simp: undecided_def job_step_mut_def)
  from Cons.IH [OF this] show ?case by (simp add: Let_def)
qed simp

lemma handed_run_pass:
  assumes "handed_inv M {} c" and "jobs_ok c"
  shows "handed_inv M {} (fst (run_pass D now ms j c))"
proof (cases "store_get (c_jobs c) j")
  case (Some b)
  obtain b1 nx where r: "run_decide (c_config c) now b = (b1, nx)" by (cases "run_decide (c_config c) now b")
  then have b1: "steps_only b b1" by (auto simp: run_decide_def Let_def)
  let ?c = "with_job_mut c j (\<lambda>_. b1)"
  have sj: "same_jobs c ?c" using b1 Some by (auto intro: same_jobs_mut)
  have "handed_inv M {} ?c"
    by (rule handed_same [OF assms(1) same_jobs_undecided [OF sj]]) simp_all
  moreover have "jobs_ok ?c" using jobs_ok_moves [OF assms(2) evolves_moves [OF same_jobs_evolves [OF sj]]] .
  ultimately show ?thesis using Some r handed_pump [of M ?c now ms "Some j"]
    by (cases nx) (auto simp: run_pass_def Let_def handed_cancel split: prod.split)
qed (use assms(1) in \<open>simp add: run_pass_def\<close>)

lemma handed_heartbeat: "handed_inv M {} c \<Longrightarrow> handed_inv M {} (fst (heartbeat D ms j c))"
proof (cases "lease_of c j")
  case (Some l)
  assume inv: "handed_inv M {} c"
  let ?op = "Renew l ms (as_millis_i64 (cc_claim_ttl (c_config c)))"
  obtain c1 out where c1: "call_claims D ?op c = (c1, out)" by fastforce
  have "handed_inv M {} c1" using handed_call [OF inv, of ?op] c1 by simp
  with Some c1 show ?thesis
    by (auto simp: heartbeat_def split: sum.split bool.split intro: handed_drop handed_weaken)
qed (simp add: heartbeat_def)

lemma handed_finish_record:
  assumes "handed_inv M {} c" and "jobs_ok c"
    and "\<And>b. store_get (c_jobs c) j = Some b \<Longrightarrow> v_status v = Errored \<or> state_rank (j_state b) \<ge> 3"
  shows "handed_inv M {} (fst (finish_record D now ms unix j v c))"
proof (cases "\<exists>b. store_get (c_jobs c) j = Some b \<and> \<not> has_verdict (j_state b)")
  case True
  then obtain b where b: "store_get (c_jobs c) j = Some b" "\<not> has_verdict (j_state b)" by blast
  let ?v = "decide (c_config c) j v"
  let ?c1 = "with_job_mut c j (\<lambda>b. (job_try b (from_status (v_status ?v)) now)\<lparr>j_verdict := Some ?v\<rparr>)"
  let ?c2 = "case (lease_of ?c1 j, verdict_of ?c1 j) of
    (Some lease, Some v) \<Rightarrow> fst (call_claims D (Settle lease v ms) ?c1) | _ \<Rightarrow> ?c1"
  let ?c3 = "fst (journal_record D ?c2 j (verdict_of ?c1 j) unix)"
  let ?c4 = "retire D now ms j ?c3"
  have i1: "handed_inv M {j} ?c1"
    using assms(1) by (auto simp: handed_inv_def lease_ok_def)
  have settle: "handed_inv M {j} (fst (call_claims D (Settle lease w ms) ?c1))" if "lease_of ?c1 j = Some lease" for lease w
  proof (rule handed_call [OF i1])
    have "dl_job_id lease = j" using assms(1) that by (auto simp: handed_inv_def lease_ok_def)
    then show "\<not> ends_claim j' (Settle lease w ms)" if "j' \<notin> {j}" for j' using that by auto
  qed simp
  have "handed_inv M {j} ?c2" using i1 settle by (auto split: option.split)
  then have "handed_inv M {j} ?c3" by (rule handed_journal)
  moreover have "jobs_ok ?c3"
  proof -
    have "v_status ?v = v_status v" by (simp add: decide_def with_details_url_def split: option.split)
    with assms(3) [OF b(1)] b(2) state_rank_le [of "j_state b"]
    have "v_status ?v = Errored \<or> state_rank (j_state b) = 3" by (auto simp: has_verdict_rank)
    with decide_evolves(1) [OF b(2) this, of now] b(1) have "jobs_rel evolves c ?c1" by (intro evolves_mut) simp
    moreover have "same_jobs ?c1 ?c3"
      by (rule same_jobs_trans [OF _ same_jobs_frame(6)]) (auto split: option.split)
    ultimately show ?thesis using jobs_ok_moves [OF assms(2)] by (blast intro: evolves_moves evolves_then same_jobs_evolves)
  qed
  ultimately have i4: "handed_inv M {} ?c4" by (rule handed_retire)
  obtain c' ok where cl: "claim_delivery ?c4 j now = (c', ok)" by fastforce
  have "handed_inv M {} c'"
    using claim_delivery_simps(1) [OF cl] i4
    by (cases ok) (auto intro!: handed_same [OF i4] undecided_mut simp: undecided_def)
  with b cl show ?thesis by (simp add: finish_record_def Let_def)
qed (use assms(1) in \<open>auto simp: finish_record_def split: option.splits\<close>)

lemma handed_done:
  assumes "handed_inv M {} c" and "jobs_ok c" and "done_with D A j k c = (c', pos', ts)"
  shows "handed_inv M {} c'"
  using assms handed_retire [OF handed_weaken [OF assms(1)] assms(2), of j] by (auto simp: done_with_def split: if_splits)

lemma handed_finish:
  assumes "handed_inv M {} c" and "jobs_ok c" and "finish_job D A j k v c = (c', pos', ts)"
    and rank: "\<And>b. store_get (c_jobs c) j = Some b \<Longrightarrow> v_status v = Errored \<or> state_rank (j_state b) \<ge> 3"
  shows "handed_inv M {} c'"
proof -
  obtain c1 ok where f: "finish_record D (ck_now (an_clock A)) (ck_ms (an_clock A)) (ck_unix (an_clock A)) j v c = (c1, ok)"
    by fastforce
  have i1: "handed_inv M {} c1"
    using handed_finish_record [OF assms(1,2), of j v "ck_now (an_clock A)" "ck_ms (an_clock A)" "ck_unix (an_clock A)"] rank f
    by simp
  show ?thesis
  proof (cases ok)
    case False
    with finish_record_effect [OF f rank] have "jobs_rel evolves c c1" by simp
    with jobs_ok_moves [OF assms(2)] have "jobs_ok c1" by (blast intro: evolves_moves)
    with handed_done [OF i1] assms(3) f False show ?thesis by (simp add: finish_job_def)
  qed (use assms(3) f i1 in \<open>simp add: finish_job_def\<close>)
qed

lemma handed_merge: "handed_inv M {} c \<Longrightarrow> handed_inv M {} (merge_destinations D j c)"
proof -
  assume inv: "handed_inv M {} c"
  obtain c1 out where c1: "call_claims D (Destinations j) c = (c1, out)" by fastforce
  have "handed_inv M {} c1" using handed_call [OF inv, of "Destinations j"] c1 by simp
  then show ?thesis
    by (auto simp: merge_destinations_def c1 split: sum.split
        intro!: handed_same [of M "{}" c1] undecided_mut simp: undecided_def)
qed

lemma handed_settle: "handed_inv M {} c \<Longrightarrow> handed_inv M {} (report_settle D j now acc c)"
proof -
  assume inv: "handed_inv M {} c"
  let ?c1 = "with_job_mut c j (\<lambda>b. b\<lparr>j_delivery := None\<rparr>)"
  let ?c2 = "with_job_mut ?c1 j (\<lambda>b. job_try (b\<lparr>j_report_attempts := j_report_attempts b + ra_attempts_total acc\<rparr>)
     (if ra_any_delivered acc then JReported else JReportFailed) now)"
  let ?c3 = "if ra_any_delivered acc
    then (journal_forget D j ?c2)\<lparr>c_wakers := AList.delete j (c_wakers ?c2)\<rparr> else ?c2"
  have rel: "handed_inv M {} (release_delivery d j now)" if "handed_inv M {} d" for d
    by (rule handed_same [OF that]) (auto simp: release_delivery_def undecided_def intro: undecided_mut)
  have "handed_inv M {} ?c1" by (rule handed_same [OF inv]) (auto simp: undecided_def intro: undecided_mut)
  then have "handed_inv M {} ?c2"
  proof (rule handed_same)
    have "undecided b (job_try (b\<lparr>j_report_attempts := n\<rparr>) (if ra_any_delivered acc then JReported else JReportFailed) now)" for b n
      using undecided_try [of "if ra_any_delivered acc then JReported else JReportFailed" "b\<lparr>j_report_attempts := n\<rparr>" now]
      by (simp add: undecided_def)
    then show "jobs_rel undecided ?c1 ?c2" by (intro undecided_mut)
  qed simp_all
  then have i3: "handed_inv M {} (journal_forget D j ?c2)"
    unfolding journal_forget_def using forget_frame [of j "c_world ?c2"] by (intro handed_world) blast+
  have "handed_inv M {} ((journal_forget D j ?c2)\<lparr>c_wakers := ws\<rparr>)" for ws
    by (rule handed_same [OF i3]) (simp_all add: undecided_frame)
  then have "handed_inv M {} (if ra_any_delivered acc then (journal_forget D j ?c2)\<lparr>c_wakers := ws\<rparr> else ?c2)" for ws
    using \<open>handed_inv M {} ?c2\<close> by (rule if_P_both)
  then have "handed_inv M {} ?c3" .
  with rel [OF this] rel [OF inv] show ?thesis by (simp add: report_settle_def Let_def)
qed

lemma handed_report:
  assumes "handed_inv M {} c" and "jobs_ok c" and "rank_ok c (j, AtReport acc reqs k)"
    and "report_step D A j acc reqs k c = (c', pos', ts)"
  shows "handed_inv M {} c'"
proof (cases reqs)
  case (Cons req rest)
  have "handed_inv M {} (fold (\<lambda>p c. with_job_mut c j (\<lambda>b. b\<lparr>j_delivery := Some p\<rparr>)) ps c)" for ps
    using assms(1)
  proof (induction ps arbitrary: c)
    case (Cons p ps)
    have "handed_inv M {} (with_job_mut c j (\<lambda>b. b\<lparr>j_delivery := Some p\<rparr>))"
      by (rule handed_same [OF Cons.prems]) (auto simp: undecided_def intro: undecided_mut)
    with Cons.IH show ?case by simp
  qed simp
  with assms(4) Cons show ?thesis by (auto simp: report_step_def post_one_def split: prod.splits)
next
  case Nil
  let ?c1 = "merge_destinations D j c"
  note i1 = handed_merge [OF assms(1), of j]
  show ?thesis
  proof (cases "\<exists>req rest. callback_requests ?c1 j (ra_attempted acc) = Some (req # rest)")
    case True
    with assms(4) Nil i1 show ?thesis by (auto simp: report_step_def Let_def)
  next
    case False
    then have d: "done_with D A j k (report_settle D j (ck_now (an_clock A)) acc ?c1) = (c', pos', ts)"
      using assms(4) Nil by (auto simp: report_step_def Let_def split: option.splits list.splits)
    have "jobs_ok (report_settle D j (ck_now (an_clock A)) acc ?c1)"
    proof -
      have ok: "jobs_ok ?c1" and rank: "rank_ok ?c1 (j, AtReport acc reqs k)"
        using jobs_ok_moves [OF assms(2)] rank_ok_moves [OF _ assms(3)] evolves_merge [of c D j] by (auto intro: evolves_moves)
      have "has_verdict (j_state b)" if "store_get (c_jobs ?c1) j = Some b" for b
        using rank that state_rank_le [of "j_state b"] by (auto simp: rank_ok_def has_verdict_rank)
      then obtain c2 where "jobs_rel evolves ?c1 c2" "report_settle D j (ck_now (an_clock A)) acc ?c1 =
          with_job_mut c2 j (\<lambda>b. b\<lparr>j_delivering := False, j_last_delivery_at := Some (ck_now (an_clock A))\<rparr>)"
        using report_settle_effect [of acc ?c1 j D "ck_now (an_clock A)"] by blast
      then show ?thesis using jobs_ok_moves [OF jobs_ok_moves [OF ok evolves_moves] moves_claim] by auto
    qed
    with handed_done [OF handed_settle [OF i1] _ d] show ?thesis by simp
  qed
qed

lemma handed_run_start:
  "handed_inv M {} c \<Longrightarrow> handed_inv M {} (fst (phase_run_start D joined ids now j tree specs c))"
proof -
  assume inv: "handed_inv M {} c"
  let ?c1 = "c\<lparr>c_trees := AList.update j tree (c_trees c)\<rparr>"
  show ?thesis
  proof (cases "store_get (c_jobs c) j")
    case (Some b)
    let ?ctx = "\<lparr>kc_tenant = tenant (j_dispatch b), kc_tier = cc_tier (c_config c), kc_author_class = j_author_class b\<rparr>"
    obtain c2 ds where c2: "phase_memo D joined now ?ctx tree specs ?c1 = (c2, ds)"
      by (cases "phase_memo D joined now ?ctx tree specs ?c1")
    have i2: "handed_inv M {} c2"
      using c2 by (intro handed_same [OF inv])
        (auto intro: undecided_frame simp: phase_memo_def Let_def split: if_splits prod.splits)
    have i3: "handed_inv M {} (with_job_mut c2 j (\<lambda>b. let b1 = job_try b JRunning now
        in b1\<lparr>j_steps := j_steps b1 @ planned_steps now ids specs ds\<rparr>))"
    proof (rule handed_same [OF i2])
      have "undecided b (job_try b JRunning now)" for b by (rule undecided_try) (simp add: has_verdict_def)
      then show "jobs_rel undecided c2 (with_job_mut c2 j (\<lambda>b. let b1 = job_try b JRunning now
          in b1\<lparr>j_steps := j_steps b1 @ planned_steps now ids specs ds\<rparr>))"
        by (intro undecided_mut) (simp add: undecided_def Let_def)
    qed simp_all
    have "handed_inv M {} (waker d j)" if "handed_inv M {} d" for d
      by (rule handed_same [OF that]) (auto intro: undecided_frame simp: waker_def split: option.split)
    from this [OF i3] show ?thesis using Some c2 by (simp add: phase_run_start_def Let_def)
  next
    case None
    have "handed_inv M {} ?c1" by (rule handed_same [OF inv]) (simp_all add: undecided_frame)
    with None show ?thesis by (simp add: phase_run_start_def Let_def)
  qed
qed

lemma handed_set_state: "handed_inv M {} c \<Longrightarrow> \<not> has_verdict n \<Longrightarrow> handed_inv M {} (set_state c j n now)"
  by (erule handed_same) (auto simp: set_state_def intro: undecided_mut undecided_try)

lemma handed_task:
  assumes inv: "handed_inv M {} c" and ok: "jobs_ok c" and rank: "rank_ok c (j, pos)"
    and st: "task_step D A j pos c = (c', pos', ts)"
  shows "handed_inv M {} c'"
proof (cases pos)
  case AtStart
  with st inv show ?thesis by (auto split: option.splits)
next
  case (AtFetch d)
  let ?c1 = "set_state c j JFetching (ck_now (an_clock A))"
  have c1: "handed_inv M {} ?c1" by (rule handed_set_state [OF inv]) (simp add: has_verdict_def)
  have ok1: "jobs_ok ?c1" using jobs_ok_moves [OF ok evolves_moves [OF evolves_set_state]] by (simp add: has_verdict_def)
  obtain r where r: "phase_fetch (an_fetch A) (ck_now (an_clock A)) j d c = (?c1, r)"
    using phase_states(1) by (metis prod.collapse)
  show ?thesis
  proof (cases r)
    case (Inl v)
    with st AtFetch r have "finish_job D A j False v ?c1 = (c', pos', ts)" by simp
    from handed_finish [OF c1 ok1 this] phase_verdicts(1) [OF r [unfolded Inl]] show ?thesis by simp
  qed (use st AtFetch r c1 in auto)
next
  case (AtPlan tree)
  let ?c1 = "set_state c j JPlanning (ck_now (an_clock A))"
  have c1: "handed_inv M {} ?c1" by (rule handed_set_state [OF inv]) (simp add: has_verdict_def)
  have ok1: "jobs_ok ?c1" using jobs_ok_moves [OF ok evolves_moves [OF evolves_set_state]] by (simp add: has_verdict_def)
  obtain r where r: "phase_plan (an_plan A) (ck_now (an_clock A)) j tree c = (?c1, r)"
    using phase_states(2) by (metis prod.collapse)
  show ?thesis
  proof (cases r)
    case (Inl v)
    with st AtPlan r have "finish_job D A j False v ?c1 = (c', pos', ts)" by simp
    from handed_finish [OF c1 ok1 this] phase_verdicts(2) [OF r [unfolded Inl]] show ?thesis by simp
  qed (use st AtPlan r c1 in auto)
next
  case (AtRun tree specs)
  obtain c1 alive where s: "phase_run_start D (an_joined A) (an_ids A) (ck_now (an_clock A)) j tree specs c = (c1, alive)"
    by fastforce
  have c1: "handed_inv M {} c1"
    using handed_run_start [OF inv, of "an_joined A" "an_ids A" "ck_now (an_clock A)" j tree specs] s by simp
  have "jobs_ok c1"
    using jobs_ok_moves [OF ok evolves_moves [OF evolves_run_start [of c D "an_joined A" "an_ids A" "ck_now (an_clock A)" j tree specs]]] s
    by simp
  with c1 st AtRun s handed_done [OF c1] show ?thesis by (cases alive) auto
next
  case AtLoop
  obtain c1 out where s: "run_pass D (ck_now (an_clock A)) (ck_ms (an_clock A)) j c = (c1, out)" by fastforce
  have c1: "handed_inv M {} c1"
    using handed_run_pass [OF inv ok, of "ck_now (an_clock A)" "ck_ms (an_clock A)" j] s by simp
  have ev: "jobs_rel evolves c c1"
    using same_jobs_evolves [OF same_jobs_run_pass [of c D "ck_now (an_clock A)" "ck_ms (an_clock A)" j]] s by simp
  then have ok1: "jobs_ok c1" by (blast intro: jobs_ok_moves [OF ok] evolves_moves)
  have rk: "state_rank (j_state b) \<ge> 3" if "store_get (c_jobs c1) j = Some b" for b
    using rank_ok_moves [OF evolves_moves [OF ev] rank] AtLoop that by (simp add: rank_ok_def)
  show ?thesis
  proof (cases out)
    case (PassFinish v)
    with st AtLoop s have "finish_job D A j True v c1 = (c', pos', ts)" by simp
    from handed_finish [OF c1 ok1 this] rk show ?thesis by simp
  next
    case PassGone
    with st AtLoop s handed_done [OF c1 ok1] show ?thesis by simp
  qed (use st AtLoop s c1 in auto)
next
  case (AtReport acc reqs k)
  with handed_report [OF inv ok, of j acc reqs k A c' pos' ts] rank st show ?thesis by simp
next
  case AtBeat
  with handed_heartbeat [OF inv, of "ck_ms (an_clock A)" j] st show ?thesis by (auto split: prod.splits)
next
  case AtEnd
  with st inv show ?thesis by simp
qed

text \<open>Ingest.\<close>

lemma handed_mono: "handed_inv M X c \<Longrightarrow> M \<subseteq> M' \<Longrightarrow> handed_inv M' X c"
  by (auto simp: handed_inv_def)

lemma handed_get:
  assumes "handed_inv M X c" and "c_world c' = c_world c" and "lease_of c' = lease_of c"
    and "\<And>j l. lease_of c j = Some l \<Longrightarrow> j \<notin> X \<Longrightarrow> store_get (c_jobs c') j = store_get (c_jobs c) j"
  shows "handed_inv M X c'"
  using assms by (auto simp: handed_inv_def lease_ok_def)

lemma handed_evict:
  assumes "handed_inv M {} c" and "jobs_ok c" and "evict checks (c_jobs c) now r m = (st, res)"
  shows "handed_inv M {} (c\<lparr>c_jobs := st\<rparr>)"
    and "pred_option (\<lambda>js. \<forall>j\<in>set js. lease_of c j = None) res"
proof -
  have kept: "store_get st j = store_get (c_jobs c) j \<and> store_get (c_jobs c) j \<noteq> None" if "lease_of c j = Some l" for j l
  proof -
    from handed_lease [OF assms(1) that] obtain b where b: "store_get (c_jobs c) j = Some b" "\<not> has_verdict (j_state b)"
      by (auto simp: lease_ok_def)
    then have "job_ok b" using assms(2) by (simp add: jobs_ok_def)
    with b(2) have "j_settled_at b = None" by (auto simp: job_ok_def)
    with b have "\<not> is_paid (c_jobs c) j" "\<not> is_owed (c_jobs c) j" by (auto simp: is_paid_def is_owed_def store_get_def)
    moreover have "store_ok (c_jobs c)" using assms(2) by (simp add: jobs_ok_def)
    then have "map_of (by_id st) j = map_of (by_id (c_jobs c)) j \<or>
        map_of (by_id st) j = None \<and> (is_paid (c_jobs c) j \<or> is_owed (c_jobs c) j)"
      using evict_effect [OF _ assms(3), THEN conjunct1, THEN spec] by blast
    ultimately have "map_of (by_id st) j = map_of (by_id (c_jobs c)) j" by simp
    with b(1) show ?thesis by (simp add: store_get_def)
  qed
  show "handed_inv M {} (c\<lparr>c_jobs := st\<rparr>)"
    by (rule handed_get [OF assms(1)]) (auto simp: lease_of_def dest: kept [unfolded lease_of_def])
  show "pred_option (\<lambda>js. \<forall>j\<in>set js. lease_of c j = None) res"
  proof (cases res)
    case (Some js)
    have "store_ok (c_jobs c)" using assms(2) by (simp add: jobs_ok_def)
    from evict_effect [OF this assms(3), THEN conjunct2, THEN conjunct1] Some
    have js: "store_get (c_jobs c) j \<noteq> None \<and> store_get st j = None" if "j \<in> set js" for j
      using that by (simp add: store_get_def)
    have "lease_of c j = None" if "j \<in> set js" for j
      using js [OF that] kept [of j] by (cases "lease_of c j") auto
    with Some show ?thesis by simp
  qed simp
qed

lemma handed_forget_claims:
  assumes "handed_inv M {} c" and "\<forall>j\<in>set js. lease_of c j = None"
  shows "handed_inv M {} (forget_claims D js c)"
  using assms unfolding forget_claims_def
proof (induction js arbitrary: c)
  case (Cons j js)
  have "handed_inv M {} (fst (call_claims D (Forget j) c))"
    by (rule handed_call [OF Cons.prems(1)]) (use Cons.prems(2) in auto)
  from Cons.IH [OF this] Cons.prems(2) show ?case by simp
qed simp

lemma handed_start: "handed_inv M {} c \<Longrightarrow> accept_start j now nx c = (c', us) \<Longrightarrow> handed_inv M {} c'"
  using claim_delivery_simps(1) [of c j now c']
  by (auto simp: accept_start_def lease_of_def undecided_def split: accept_next.splits prod.splits if_splits
      intro!: handed_same [of M "{}" c] undecided_frame undecided_mut)

lemma handed_drain: "handed_inv M {} c \<Longrightarrow> drain_loop now js c = (c', us) \<Longrightarrow> handed_inv M {} c'"
proof (induction js arbitrary: c us)
  case (Cons j js)
  obtain c1 ok where cl: "claim_delivery_if_parked c j now = (c1, ok)" by fastforce
  have "handed_inv M {} c1"
    using claim_delivery_simps(2) [OF cl] Cons.prems(1)
    by (auto simp: undecided_def split: if_splits intro!: handed_same [of M "{}" c] undecided_mut)
  with Cons.IH Cons.prems(2) cl show ?case by (auto split: prod.splits)
qed simp

lemma handed_claimed:
  assumes inv: "handed_inv M {} c" and cl: "accept_claimed d ac now adm c = (c', nx)"
    and new: "\<And>l. adm = Created l \<Longrightarrow> dl_job_id l = p \<and>
      dl_job_id l \<notin> M \<and> store_get (c_jobs c) (dl_job_id l) = None \<and> (\<exists>k. drives (c_world c) k (dl_job_id l))"
  shows "handed_inv (insert p M) {} c'"
proof (cases adm)
  case (Created l)
  let ?j = "dl_job_id l"
  from new [OF Created] obtain k where n: "?j = p" "?j \<notin> M" "store_get (c_jobs c) ?j = None" "drives (c_world c) k ?j" by auto
  have c': "c' = c\<lparr>c_leases := AList.update ?j l (c_leases c),
      c_jobs := store_insert (c_jobs c) ?j d ac now (t_job (cc_timeouts (c_config c)))\<rparr>"
    using cl Created by (auto simp: accept_claimed_def Let_def)
  have ls: "lease_of c' = (lease_of c)(?j \<mapsto> l)" by (auto simp: c' lease_of_def fun_eq_iff)
  have "lease_ok c' ?j l"
    using n(2-) by (cases k) (auto simp: c' lease_ok_def store_get_insert job_new_def has_verdict_def)
  moreover have "lease_ok c' j l'" if "lease_ok c j l'" for j l'
    using that n(3) by (auto simp: c' lease_ok_def store_get_insert)
  moreover have "(?j, s) \<notin> set (handed (c_world c))" for s using inv n(2) by (force simp: handed_inv_def)
  moreover have "c_world c' = c_world c" by (simp add: c')
  ultimately show ?thesis using inv ls n(1) by (auto simp: handed_inv_def)
next
  case (Attached j owner v)
  have "handed_inv M {} c'"
  proof (cases "store_get (c_jobs c) j")
    case (Some b)
    then have "c' = with_job_mut c j (\<lambda>b. fst (add_callback_url b (d_callback_url d)))"
      using cl Attached by (auto simp: accept_claimed_def Let_def split: if_splits)
    then show ?thesis
      by (auto intro!: handed_same [OF inv] undecided_mut simp: undecided_def add_callback_url_def)
  next
    case None
    then have "c' = c \<or> (\<exists>v'. c' = record_foreign_verdict j d ac now v' c)"
      using cl Attached by (auto simp: accept_claimed_def Let_def split: option.splits)
    moreover have "lease_of c j = None" using None handed_lease [OF inv, of j] by (cases "lease_of c j") (auto simp: lease_ok_def)
    then have "handed_inv M {} (record_foreign_verdict j d ac now v' c)" for v'
      by (intro handed_get [OF inv]) (auto simp: record_foreign_verdict_def lease_of_def store_get_insert)
    ultimately show ?thesis using inv by auto
  qed
  then show ?thesis by (rule handed_mono) auto
qed

lemma handed_roll_back:
  assumes "handed_inv M {} c"
  shows "handed_inv M {} (roll_back D j c)"
proof -
  have "handed_inv M {j} (c\<lparr>c_jobs := store_remove (c_jobs c) j\<rparr>)"
    by (rule handed_get [OF handed_weaken [OF assms]]) (auto simp: lease_of_def store_get_def store_remove_def)
  then have "handed_inv M {} (drop_lease (c\<lparr>c_jobs := store_remove (c_jobs c) j\<rparr>) j)" by (intro handed_drop) simp
  then show ?thesis unfolding roll_back_def
    by (rule handed_call) (auto simp: lease_of_def drop_lease_def split: if_splits)
qed

lemma handed_admitted:
  assumes inv: "handed_inv M {} c" and acc: "accept_admitted D d ck adm c = (c', res, us)"
    and new: "\<And>l. adm = Created l \<Longrightarrow> dl_job_id l = p \<and>
      dl_job_id l \<notin> M \<and> store_get (c_jobs c) (dl_job_id l) = None \<and> (\<exists>k. drives (c_world c) k (dl_job_id l))"
  shows "handed_inv (insert p M) {} c'"
proof -
  let ?j = "admitted_job_id adm" and ?M = "insert p M"
  obtain c1 nx where cl: "accept_claimed d (dp_classify D (d_repo d) (d_author d)) (ck_now ck) adm c = (c1, nx)" by fastforce
  have c1: "handed_inv ?M {} c1" using handed_claimed [OF inv cl new] by blast
  obtain c2 r where jr: "(if nx \<in> {NextDrive, NextAttachedHere} then journal_record D c1 ?j None (ck_unix ck)
      else (c1, Inr ())) = (c2, r)" by fastforce
  have c2: "handed_inv ?M {} c2" using jr c1 handed_journal [OF c1] by (metis fst_conv)
  show ?thesis
  proof (cases r)
    case (Inr u)
    obtain c3 us3 where s3: "accept_start ?j (ck_now ck) nx c2 = (c3, us3)" by fastforce
    obtain c4 us4 where s4: "drain_undelivered c3 ?j (ck_now ck) = (c4, us4)" by fastforce
    from handed_drain [OF handed_start [OF c2 s3] s4 [unfolded drain_undelivered_def]] show ?thesis
      using acc cl jr Inr s3 s4 by (simp add: accept_admitted_def Let_def)
  next
    case (Inl e)
    with acc cl jr c2 handed_roll_back [OF c2] show ?thesis by (auto simp: accept_admitted_def Let_def)
  qed
qed

lemma handed_accept:
  assumes inv: "handed_inv M {} c" and ok: "jobs_ok c" and fresh: "proposed \<notin> M" "store_get (c_jobs c) proposed = None"
    and ac: "accept D checks d ck proposed c = (c', ans, us)"
  shows "handed_inv (insert proposed M) {} c'"
proof -
  obtain st res where ev: "evict checks (c_jobs c) (ck_now ck) (cc_job_retention (c_config c)) (cc_max_jobs (c_config c)) = (st, res)"
    by fastforce
  note e = handed_evict [OF inv ok ev]
  show ?thesis
  proof (cases res)
    case None
    with e(1) ac ev show ?thesis by (auto simp: accept_def intro: handed_mono)
  next
    case (Some evicted)
    let ?d = "forget_claims D evicted (c\<lparr>c_jobs := st\<rparr>)" and ?op = "admit_op (c_config c) d ck proposed"
    have d: "handed_inv M {} ?d"
      using e Some by (intro handed_forget_claims) (auto simp: lease_of_def)
    obtain c1 out where cl: "call_claims D ?op ?d = (c1, out)" by fastforce
    have "handed_inv M {} (fst (call_claims D ?op ?d))"
      using fresh(1) d by (intro handed_call [OF d]) (auto simp: admit_op_def handed_inv_def)
    with cl have c1: "handed_inv M {} c1" by simp
    show ?thesis
    proof (cases "as_admit out")
      case (Inl x)
      with Some ev cl ac c1 show ?thesis by (auto simp: accept_def intro: handed_mono)
    next
      case (Inr adm)
      then have out: "out = OutAdmit (Inr adm)" by (cases out) simp_all
      have "dl_job_id l = proposed \<and> dl_job_id l \<notin> M \<and> store_get (c_jobs c1) (dl_job_id l) = None \<and>
          (\<exists>k. drives (c_world c1) k (dl_job_id l))" if l: "adm = Created l" for l
      proof -
        obtain w where "app ?op (c_world ?d) = (w, OutAdmit (Inr (Created l)))" and w: "c_world c1 = w"
          using cl out l by (auto simp: call_claims_def claims_app split: prod.splits)
        from created [OF this(1) [unfolded admit_op_def]] have p: "dl_job_id l = proposed"
          and dr: "drives w (d_repo d, d_tree_id d) proposed" by auto
        have "store_get st proposed = None"
          using evict_effect [OF _ ev] ok fresh(2) by (auto simp: jobs_ok_def store_get_def dest: spec [of _ proposed])
        moreover have "same_jobs (c\<lparr>c_jobs := st\<rparr>) c1"
          using same_jobs_trans [OF same_jobs_forget_claims same_jobs_call [OF cl]] .
        ultimately have "store_get (c_jobs c1) proposed = None"
          by (auto simp: jobs_rel_def option_rel_Some2 dest: spec [of _ proposed])
        with p dr w fresh(1) show ?thesis by auto
      qed
      from handed_admitted [OF c1 _ this] show ?thesis using Some ev cl Inr ac by (simp add: accept_def)
    qed
  qed
qed

text \<open>Every reachable state.\<close>

lemma honest_fleet: "honest D"
  unfolding honest_def claims_app using created by blast

lemma reachable_handed:
  assumes "reachable D w0 p" and "handed w0 = []"
  shows "handed_inv (set (p_minted p)) {} (p_control p)"
  using assms(1)
proof (induction rule: reachable.induct)
  case (start config memo)
  have "lease_of (control_new config memo w0) = (\<lambda>_. None)" by (simp add: control_new_def lease_of_def fun_eq_iff)
  then show ?case using assms(2) by (simp add: handed_inv_def plane_new_def control_new_def)
next
  case (event p ev)
  have pinv: "plane_inv p" using reachable_inv [OF event.hyps(1) honest_fleet] .
  then have ok: "jobs_ok (p_control p)" by (simp add: plane_inv_parts)
  show ?case
  proof (cases ev)
    case (EvAccept checks d ck proposed)
    obtain c' ans us where ac: "accept D checks d ck proposed (p_control p) = (c', ans, us)" by (cases "accept D checks d ck proposed (p_control p)")
    with handed_accept [OF event.IH ok _ _ ac] event.hyps(2) EvAccept show ?thesis by simp
  next
    case (EvReport rep node now)
    have "c_world (fst (record_step_report (p_control p) rep node now)) = c_world (p_control p) \<and>
        c_leases (fst (record_step_report (p_control p) rep node now)) = c_leases (p_control p)"
      using step_report_frame by blast
    with EvReport handed_same [OF event.IH same_jobs_undecided [OF same_jobs_step_report]] show ?thesis by simp
  next
    case (EvRenew j i node now)
    have "c_world (fst (renew_lease (p_control p) j i node now)) = c_world (p_control p) \<and>
        c_leases (fst (renew_lease (p_control p) j i node now)) = c_leases (p_control p)"
      by (simp add: renew_lease_def split: option.split)
    with EvRenew handed_same [OF event.IH same_jobs_undecided [OF same_jobs_renew]] show ?thesis by simp
  next
    case (EvTask i A)
    show ?thesis
    proof (cases "i < length (p_tasks p)")
      case True
      obtain j pos where jp: "p_tasks p ! i = (j, pos)" by fastforce
      obtain c' pos' ts where st: "task_step D A j pos (p_control p) = (c', pos', ts)" by (cases "task_step D A j pos (p_control p)")
      have "rank_ok (p_control p) (j, pos)" using pinv nth_mem [OF True] jp by (auto simp: plane_inv_parts)
      from handed_task [OF event.IH ok this st] show ?thesis using EvTask True jp st by simp
    qed (use EvTask event.IH in simp)
  qed
qed

lemma never_twice: "reachable D w0 p \<Longrightarrow> handed w0 = [] \<Longrightarrow> distinct (handed (c_world (p_control p)))"
  using reachable_handed by (simp add: handed_inv_def)

end

section \<open>LocalClaims and any fleet\<close>

text \<open>The process-local claim store beside any journal, classifier and fleet, whose state is the second
  component. The log keeps a step when the fleet's answer is anything but \<open>NoCapacity\<close>: after every other
  answer a node may be running it.\<close>

record 'x fleet_world =
  fw_claims :: local_state
  fw_rest :: 'x
  fw_handed :: "(job_id \<times> step_id) list"

definition fleet_claims :: "claim_op \<Rightarrow> 'x fleet_world \<Rightarrow> 'x fleet_world \<times> claim_out" where
  "fleet_claims op w = (let (s, out) = local_apply op (fw_claims w) in (w\<lparr>fw_claims := s\<rparr>, out))"

definition fleet_deps :: "'x deps \<Rightarrow> 'x fleet_world deps" where
  "fleet_deps S =
     \<lparr>dp_classify = dp_classify S, dp_claims = fleet_claims, dp_needs_renewal = dp_needs_renewal S,
      dp_record = (\<lambda>i w. let (x, r) = dp_record S i (fw_rest w) in (w\<lparr>fw_rest := x\<rparr>, r)),
      dp_forget = (\<lambda>j w. w\<lparr>fw_rest := dp_forget S j (fw_rest w)\<rparr>),
      dp_assign = (\<lambda>a tree w. let (x, r) = dp_assign S a tree (fw_rest w)
        in (w\<lparr>fw_rest := x,
              fw_handed := (if r = Inl NoCapacity then [] else [(a_job_id a, a_step_id a)]) @ fw_handed w\<rparr>, r)),
      dp_cancel = (\<lambda>j i w. w\<lparr>fw_rest := dp_cancel S j i (fw_rest w)\<rparr>),
      dp_blake3 = dp_blake3 S\<rparr>"

interpretation fl: fleet fleet_claims "\<lambda>w. local_drives (fw_claims w)" "\<lambda>w. local_taken (fw_claims w)"
    "\<lambda>w. local_urls (fw_claims w)" "fleet_deps S" fw_handed for S :: "'x deps"
proof (unfold_locales, goal_cases)
  case (1 k j url n l r s s' d)
  then show ?case using lc.created [of k j url n l r "fw_claims s"] by (auto simp: fleet_claims_def split: prod.splits)
next
  case (2 d st n s s')
  then show ?case using lc.granted [of d st n "fw_claims s"] by (auto simp: fleet_claims_def split: prod.splits)
next
  case (3 s k j op s' out)
  then show ?case using lc.drives_kept [of "fw_claims s" k j op] by (auto simp: fleet_claims_def split: prod.splits)
next
  case (4 s k j st op s' out)
  then show ?case using lc.taken_kept [of "fw_claims s" k j st op] by (auto simp: fleet_claims_def split: prod.splits)
next
  case (5 s k j op s' out)
  then show ?case using lc.admit_driven [of "fw_claims s" k j op] by (auto simp: fleet_claims_def split: prod.splits)
next
  case (6 s j st op s' out)
  then show ?case using lc.claim_taken [of "fw_claims s" j st op] by (auto simp: fleet_claims_def split: prod.splits)
qed (auto simp: fleet_deps_def fleet_claims_def split: prod.splits if_splits)

text \<open>C2. No step runs twice: whatever the dispatches, reports and interleavings, and whatever the fleet
  answers, the control plane hands a step of a job to the fleet at most once, unless the fleet said it
  had not taken it. A tree whose record was rolled back, evicted or retried gets a new job id.\<close>

theorem no_double_dispatch:
  assumes "reachable (fleet_deps S) w0 p" and "fw_handed w0 = []"
  shows "distinct (fw_handed (c_world (p_control p)))"
  using assms by (rule fl.never_twice)

text \<open>The example dispatch with its plan of one step, and a node that takes it.\<close>

definition taking_deps :: "unit deps" where
  "taking_deps =
     \<lparr>dp_classify = least_privilege, dp_claims = (\<lambda>op w. (w, OutUnit (Inr ()))), dp_needs_renewal = False,
      dp_record = no_journal_record, dp_forget = no_journal_forget,
      dp_assign = (\<lambda>a tree w. (w, Inr [110])), dp_cancel = (\<lambda>j i w. w), dp_blake3 = (\<lambda>bs. bs)\<rparr>"

definition fleet_plane :: "event list \<Rightarrow> unit fleet_world plane" where
  "fleet_plane evs = fold (plane_apply (fleet_deps taking_deps)) evs
     (plane_apply (fleet_deps taking_deps) (EvAccept True example_dispatch example_clock [106])
       (plane_new example_config (memo_new memo_policy_default) \<lparr>fw_claims = local_new, fw_rest = (), fw_handed = []\<rparr>))"

lemmas fleet_eval = fleet_plane_def fleet_deps_def fleet_claims_def taking_deps_def

lemmas pass_eval = run_pass_def run_decide_def planned_steps_def planned_step_def step_spec_new_def memo_decision_default_def step_new_def
  sweep_def sweep_step_def step_deadline_def advance_def advance_loop.simps advance_pass_def advance_step_def apply_gate_def
  snapshot_of_def decision_for_def gate_of_def step_transition_def step_can_transition_to_def fold_steps_def failed_fatally_def
  next_step_deadline_def is_terminal_def live_def timeouts_default_def example_clock_def

lemmas pump_eval = pump_def pump_grant_def assignment_for_def assignment_of_def job_step_def call_claims_def local_claim_step_def
  settle_assignment_def assigned_step_def job_step_mut_def job_view_of_def reconcile_def reconcile_step_def tenant_def
  tenant_of_def admit_job_def enqueue_def estimate_def bt_entry_def push_queue_def tenant_default_def MIN_COST_SECS_def
  assume_interactive_def slash_def USIZE_MAX_def select_loop.simps [of "18446744073709551615"] select_loop.simps [of "18446744073709551614"]
  Ci_Select.example_eval

lemma fleet_reachable:
  "reachable (fleet_deps taking_deps) \<lparr>fw_claims = local_new, fw_rest = (), fw_handed = []\<rparr>
     (fleet_plane [running_tick, running_tick, running_tick, running_tick, running_tick])"
proof -
  have "fresh_event (plane_new example_config (memo_new memo_policy_default) \<lparr>fw_claims = local_new, fw_rest = (), fw_handed = []\<rparr>)
      (EvAccept True example_dispatch example_clock [106])"
    by (simp add: plane_new_def control_new_def job_store_new_def store_get_def)
  from reachable.event [OF reachable.start this, of "fleet_deps taking_deps"] show ?thesis
    by (simp add: fleet_plane_def running_tick_def reachable_task del: plane_apply.simps)
qed

theorem no_double_dispatch_witness:
  "fw_handed (c_world (p_control (fleet_plane [running_tick, running_tick, running_tick, running_tick, running_tick]))) = [([106], [115])] \<and>
   distinct (fw_handed (c_world (p_control (fleet_plane [running_tick, running_tick, running_tick, running_tick, running_tick]))))"
proof
  show "fw_handed (c_world (p_control (fleet_plane [running_tick, running_tick, running_tick, running_tick, running_tick]))) = [([106], [115])]"
    by (simp add: fleet_eval running_eval pass_eval pump_eval)
qed (rule no_double_dispatch [OF fleet_reachable], simp)

end
