(* ===== verification/Ci_Outbox.thy ===== *)
theory Ci_Outbox
  imports Ci_Journal Ci_Dispatch
begin

text \<open>
  An acknowledgement means the debt is durable. The journal is used through its contract only: the
  locale \<open>outbox\<close> names what the control plane relies on (a successful record is held, every other call
  keeps what is held, forgetting one job keeps the others). Inside it: from the moment a dispatch of an
  undecided job is acknowledged, the journal holds the job until a callback for it has been delivered,
  whatever the interleaving. The locale is interpreted on \<open>LocalClaims\<close> and \<open>FileJournal\<close> on a disk whose
  calls fail in any way.
\<close>

section \<open>What the methods do to the world\<close>

text \<open>The calls a method makes, apart from admissions and the journal's \<open>forget\<close>. \<open>P\<close> holds of the jobs it
  writes to the journal.\<close>

fun is_admit :: "claim_op \<Rightarrow> bool" where
  "is_admit (Admit _ _ _ _ _ _) = True"
| "is_admit _ = False"

inductive wmove :: "(job_id \<Rightarrow> bool) \<Rightarrow> 'w deps \<Rightarrow> 'w \<Rightarrow> 'w \<Rightarrow> bool" for P D where
  m_stay: "wmove P D w w"
| m_claims: "wmove P D w w1 \<Longrightarrow> \<not> is_admit op \<Longrightarrow> dp_claims D op w1 = (w2, out) \<Longrightarrow> wmove P D w w2"
| m_record: "wmove P D w w1 \<Longrightarrow> P (ji_job_id i) \<Longrightarrow> dp_record D i w1 = (w2, r) \<Longrightarrow> wmove P D w w2"
| m_assign: "wmove P D w w1 \<Longrightarrow> dp_assign D a tree w1 = (w2, res) \<Longrightarrow> wmove P D w w2"
| m_cancel: "wmove P D w w1 \<Longrightarrow> wmove P D w (dp_cancel D j s w1)"

lemma wmove_trans: "wmove P D w1 w2 \<Longrightarrow> wmove P D w0 w1 \<Longrightarrow> wmove P D w0 w2"
  by (induction rule: wmove.induct) (auto intro: wmove.intros)

abbreviation moved :: "(job_id \<Rightarrow> bool) \<Rightarrow> 'w deps \<Rightarrow> 'w control \<Rightarrow> 'w control \<Rightarrow> bool" where
  "moved P D c c' \<equiv> wmove P D (c_world c) (c_world c')"

lemma moved_trans: "moved P D c c1 \<Longrightarrow> moved P D c1 c2 \<Longrightarrow> moved P D c c2"
  by (rule wmove_trans)

lemma moved_call: "\<not> is_admit op \<Longrightarrow> moved P D c (fst (call_claims D op c))"
  by (auto simp: call_claims_def intro: wmove.intros split: prod.split)

lemma moved_call': "call_claims D op c = (c1, out) \<Longrightarrow> \<not> is_admit op \<Longrightarrow> moved P D c c1"
  using moved_call by (metis fst_conv)

lemma moved_same: "c_world c' = c_world c \<Longrightarrow> moved P D c c'"
  by (simp add: wmove.m_stay)

lemma world_frames [simp]:
  "c_world (on_queue f c) = c_world c" "c_world (drop_lease c j) = c_world c"
  "c_world (waker c j) = c_world c" "c_world (set_state c j n now) = c_world c"
  "c_world (fst (settle_assignment c g a r now)) = c_world c" "c_world (release_delivery c j now) = c_world c"
  by (auto simp: on_queue_def drop_lease_def waker_def set_state_def settle_assignment_def release_delivery_def Let_def
      split: option.split sum.split)

lemma moved_pump_grant: "moved P D c (fst (pump_grant D now ms g c))"
proof (cases "assignment_for c g")
  case (Some pair)
  obtain a tree where at: "assignment_for c g = Some (a, tree)" using Some by (cases pair) auto
  show ?thesis
  proof (cases "lease_of c (g_job_id g)")
    case (Some lease)
    obtain c1 out where c1: "call_claims D (ClaimStep lease (g_step_id g) ms) c = (c1, out)" by fastforce
    have m: "moved P D c c1" using moved_call' [OF c1] by simp
    obtain w r where as: "dp_assign D a tree (c_world c1) = (w, r)" by fastforce
    have w: "wmove P D (c_world c) w" using wmove.m_assign [OF m as] .
    moreover have "wmove P D (c_world c) (c_world (fst (call_claims D (ReleaseStep lease (g_step_id g)) (c1\<lparr>c_world := w\<rparr>))))"
      using moved_trans [of P D c "c1\<lparr>c_world := w\<rparr>", OF _ moved_call] w by simp
    ultimately show ?thesis using at Some c1 m as
      by (auto simp: pump_grant_def Let_def split: sum.split step_claim.split)
  qed (use at in \<open>simp add: pump_grant_def wmove.m_stay\<close>)
qed (simp add: pump_grant_def wmove.m_stay)

lemma moved_pump_loop: "moved P D c (fst (pump_loop D now ms ob gs m wo c))"
proof (induction gs arbitrary: m wo c)
  case (Cons g gs)
  obtain c1 mv where "pump_grant D now ms g c = (c1, mv)" by fastforce
  moreover from this have "moved P D c c1" using moved_pump_grant by (metis fst_conv)
  ultimately show ?case using Cons.IH by (auto intro: moved_trans)
qed (simp add: wmove.m_stay)

lemma moved_pump: "moved P D c (fst (pump D now ms ob c))"
proof -
  have w: "c_world (fold (\<lambda>j c. wake c j) js d) = c_world d" for js and d :: "'a control"
    by (induction js arbitrary: d) simp_all
  have "moved P D c (fst (pump_loop D now ms ob gs m wo (c\<lparr>c_queue := q\<rparr>)))" for gs m wo q
    using moved_pump_loop [of P D "c\<lparr>c_queue := q\<rparr>"] by simp
  then show ?thesis unfolding pump_def Let_def by (simp add: w split: prod.split) (metis fst_conv)
qed

lemma moved_retire: "moved P D c (retire D now ms j c)"
  using moved_pump [of P D "on_queue (\<lambda>q. forget_job q j now) (drop_lease (c\<lparr>c_trees := AList.delete j (c_trees c)\<rparr>) j)" now ms None]
  by (simp add: retire_def Let_def)

lemma moved_cancel: "moved P D c (cancel_steps D j is c)"
proof (induction "is" arbitrary: c)
  case (Cons i js)
  let ?c1 = "if (case Option.bind (store_get (c_jobs c) j) (\<lambda>b. job_step b i) of
    Some s \<Rightarrow> s_state s \<in> {SLeased, SRunning} | None \<Rightarrow> False) then c\<lparr>c_world := dp_cancel D j i (c_world c)\<rparr> else c"
  have "moved P D c ?c1" by (auto intro: wmove.intros)
  then have "moved P D c (with_job_mut ?c1 j (\<lambda>b. job_step_mut b i (\<lambda>s. step_try s SSkipped)))" by simp
  from moved_trans [OF this Cons.IH] show ?case by (simp add: Let_def)
qed (simp add: wmove.m_stay)

lemma moved_run_pass: "moved P D c (fst (run_pass D now ms j c))"
proof (cases "store_get (c_jobs c) j")
  case (Some b)
  obtain b1 nx where r: "run_decide (c_config c) now b = (b1, nx)" by (cases "run_decide (c_config c) now b")
  have "moved P D c (cancel_steps D j is (with_job_mut c j (\<lambda>_. b1)))" for "is"
    using moved_cancel [of P D "with_job_mut c j (\<lambda>_. b1)"] by simp
  moreover have "moved P D c (fst (pump D now ms (Some j) (with_job_mut c j (\<lambda>_. b1))))"
    using moved_pump [of P D "with_job_mut c j (\<lambda>_. b1)"] by simp
  ultimately show ?thesis using Some r
    by (cases nx) (auto simp: run_pass_def Let_def split: prod.split dest!: arg_cong [where f = fst])
qed (simp add: run_pass_def wmove.m_stay)

lemma moved_journal:
  assumes "\<And>b. store_get (c_jobs c) j = Some b \<Longrightarrow> j_id b = j" and "P j"
  shows "moved P D c (fst (journal_record D c j v unix))"
proof (cases "store_get (c_jobs c) j")
  case (Some b)
  obtain w r where "dp_record D (intent_of b v unix) (c_world c) = (w, r)" by fastforce
  then show ?thesis using Some assms wmove.m_record [OF wmove.m_stay, of P "intent_of b v unix" D]
    by (simp add: journal_record_def intent_of_def)
qed (simp add: journal_record_def wmove.m_stay)

lemma job_try_id [simp]: "j_id (job_try b n now) = j_id b"
  by (simp add: job_try_def job_transition_at_def Let_def)

lemma moved_finish:
  assumes id: "\<And>b. store_get (c_jobs c) j = Some b \<Longrightarrow> j_id b = j" and "P j"
  shows "moved P D c (fst (finish_record D now ms unix j verdict c))"
proof (cases "store_get (c_jobs c) j")
  case (Some b)
  let ?v = "decide (c_config c) j verdict"
  let ?c1 = "with_job_mut c j (\<lambda>b. (job_try b (from_status (v_status ?v)) now)\<lparr>j_verdict := Some ?v\<rparr>)"
  let ?c2 = "case (lease_of ?c1 j, verdict_of ?c1 j) of (Some lease, Some v) \<Rightarrow> fst (call_claims D (Settle lease v ms) ?c1) | _ \<Rightarrow> ?c1"
  let ?c3 = "fst (journal_record D ?c2 j (verdict_of ?c1 j) unix)"
  have jobs: "c_jobs ?c2 = c_jobs ?c1" by (auto simp: call_claims_def split: option.split prod.split)
  have m2: "moved P D c ?c2" using moved_call [of "Settle l v ms" P D ?c1 for l v] by (auto simp: wmove.m_stay split: option.split)
  have "j_id b = j" if "store_get (c_jobs ?c2) j = Some b" for b
    using that [unfolded jobs] id by (auto simp: store_get_mut_get)
  note m3 = moved_trans [OF m2 moved_journal [of ?c2 j P D "verdict_of ?c1 j" unix, OF this assms(2)]]
  have w: "c_world (fst (claim_delivery d j now)) = c_world d" for d :: "'a control"
    by (auto simp: claim_delivery_def split: option.split)
  from moved_trans [OF m3 moved_retire] Some show ?thesis
    by (simp add: finish_record_def Let_def w wmove.m_stay)
qed (simp add: finish_record_def wmove.m_stay)

lemma moved_finish_job:
  assumes "\<And>b. store_get (c_jobs c) j = Some b \<Longrightarrow> j_id b = j" and "P j" and "finish_job D A j k v c = (c', pos', ts)"
  shows "moved P D c c'"
proof -
  obtain c1 claimed where f: "finish_record D (ck_now (an_clock A)) (ck_ms (an_clock A)) (ck_unix (an_clock A)) j v c = (c1, claimed)"
    by fastforce
  have "moved P D c c1" using moved_finish [of c j P, OF assms(1,2)] f by (metis fst_conv)
  moreover have "moved P D c1 (retire D (ck_now (an_clock A)) (ck_ms (an_clock A)) j c1)" by (rule moved_retire)
  ultimately show ?thesis using assms(3) f by (auto simp: finish_job_def done_with_def split: if_splits intro: moved_trans)
qed

lemma moved_done: "done_with D A j k c = (c', pos', ts) \<Longrightarrow> moved P D c c'"
  using moved_retire [of P D c] by (auto simp: done_with_def wmove.m_stay split: if_splits)

lemma moved_merge: "moved P D c (merge_destinations D j c)"
  using moved_call [of "Destinations j" P D c]
  by (auto simp: merge_destinations_def wmove.m_stay split: prod.split sum.split dest: arg_cong [where f = fst])

lemma post_one_world: "c_world (fst (post_one post j req acc c)) = c_world c"
proof -
  have "c_world (fold (\<lambda>p c. with_job_mut c j (\<lambda>b. b\<lparr>j_delivery := Some p\<rparr>)) ps c) = c_world c" for ps
    by (induction ps arbitrary: c) simp_all
  then show ?thesis by (simp add: post_one_def split: prod.split)
qed

text \<open>A step of a task either makes such calls only, or is the end of a report in which some destination
  took the verdict.\<close>

definition forgot :: "(job_id \<Rightarrow> bool) \<Rightarrow> 'w deps \<Rightarrow> job_id \<Rightarrow> 'w control \<Rightarrow> 'w control \<Rightarrow> bool" where
  "forgot P D j c c' \<longleftrightarrow> (\<exists>w. wmove P D (c_world c) w \<and> wmove P D (dp_forget D j w) (c_world c'))"

lemma world_report:
  assumes "report_step D A j acc reqs k c = (c', pos', ts)"
  shows "moved P D c c' \<or> ra_any_delivered acc \<and> forgot P D j c c'"
proof (cases reqs)
  case (Cons req rest)
  with assms show ?thesis
    using post_one_world [of "an_post A" j req acc c] by (auto simp: report_step_def wmove.m_stay split: prod.splits)
next
  case Nil
  let ?c1 = "merge_destinations D j c" and ?now = "ck_now (an_clock A)"
  have m: "moved P D c ?c1" by (rule moved_merge)
  show ?thesis
  proof (cases "\<exists>req rest. callback_requests ?c1 j (ra_attempted acc) = Some (req # rest)")
    case True
    with assms Nil m show ?thesis by (auto simp: report_step_def Let_def)
  next
    case False
    then have "done_with D A j k (report_settle D j ?now acc ?c1) = (c', pos', ts)"
      using assms Nil by (auto simp: report_step_def Let_def split: option.splits list.splits)
    note d = moved_done [OF this, of P]
    have "c_world (report_settle D j ?now acc ?c1) =
        (if ra_attempted acc \<noteq> [] \<and> ra_any_delivered acc then dp_forget D j (c_world ?c1) else c_world ?c1)"
      by (simp add: report_settle_def Let_def journal_forget_def)
    with d m show ?thesis by (auto simp: forgot_def intro: wmove_trans split: if_splits)
  qed
qed

lemma world_task:
  assumes "jobs_ok c" and "P j" and st: "task_step D A j pos c = (c', pos', ts)"
  shows "moved P D c c' \<or> (\<exists>acc k. pos = AtReport acc [] k \<and> ra_any_delivered acc) \<and> forgot P D j c c'"
proof -
  have id: "j_id b = j" if "store_get (c_jobs c) j = Some b" for b
    using that assms(1) by (simp add: jobs_ok_def store_ok_def store_get_def)
  have id': "j_id b = j" if "jobs_rel moves c d" "store_get (c_jobs d) j = Some b" for d b
    using that id by (auto simp: moves_def elim!: jobs_rel_get')
  have fin: "moved P D c c'" if "moved P D c d" "jobs_rel moves c d" "finish_job D A j k v d = (c', pos', ts)" for d k v
  proof (rule moved_trans [OF that(1)])
    show "moved P D d c'" by (rule moved_finish_job [of d j P, OF id' [OF that(2)] assms(2) that(3)])
  qed
  show ?thesis
  proof (cases pos)
    case AtStart
    with st show ?thesis by (auto simp: wmove.m_stay split: option.splits)
  next
    case (AtFetch d)
    let ?c1 = "set_state c j JFetching (ck_now (an_clock A))"
    have "jobs_rel moves c ?c1" by (rule evolves_moves [OF evolves_set_state]) (simp add: has_verdict_def)
    moreover obtain r where "phase_fetch (an_fetch A) (ck_now (an_clock A)) j d c = (?c1, r)"
      using phase_states(1) by (metis prod.collapse)
    ultimately show ?thesis using st AtFetch fin [of ?c1] by (auto simp: wmove.m_stay split: sum.splits)
  next
    case (AtPlan tree)
    let ?c1 = "set_state c j JPlanning (ck_now (an_clock A))"
    have "jobs_rel moves c ?c1" by (rule evolves_moves [OF evolves_set_state]) (simp add: has_verdict_def)
    moreover obtain r where "phase_plan (an_plan A) (ck_now (an_clock A)) j tree c = (?c1, r)"
      using phase_states(2) by (metis prod.collapse)
    ultimately show ?thesis using st AtPlan fin [of ?c1] by (auto simp: wmove.m_stay split: sum.splits)
  next
    case (AtRun tree specs)
    obtain c1 alive where s: "phase_run_start D (an_joined A) (an_ids A) (ck_now (an_clock A)) j tree specs c = (c1, alive)"
      by fastforce
    then have "c_world c1 = c_world c"
      by (auto simp: phase_run_start_def phase_memo_def Let_def split: option.splits prod.splits if_splits)
    with st AtRun s show ?thesis using moved_done [of D A j True c1 c' pos' ts P] by (cases alive) (auto simp: wmove.m_stay)
  next
    case AtLoop
    obtain c1 out where s: "run_pass D (ck_now (an_clock A)) (ck_ms (an_clock A)) j c = (c1, out)" by fastforce
    have m: "moved P D c c1" "jobs_rel moves c c1"
      using moved_run_pass [of P D c] same_jobs_evolves [OF same_jobs_run_pass [of c D "ck_now (an_clock A)" "ck_ms (an_clock A)" j]] s
      by (metis fst_conv evolves_moves)+
    with st AtLoop s show ?thesis
      using fin [OF m, of True] moved_trans [OF m(1) moved_done [of D A j True c1 c' pos' ts]] by (cases out) auto
  next
    case (AtReport acc reqs k)
    with st world_report [of D A j acc reqs k c c' pos' ts P] show ?thesis
      by (cases reqs) (auto simp: report_step_def post_one_world wmove.m_stay split: prod.splits dest!: arg_cong [where f = fst])
  next
    case AtBeat
    then show ?thesis
      using st moved_call [of "Renew l (ck_ms (an_clock A)) (as_millis_i64 (cc_claim_ttl (c_config c)))" P D c for l]
      by (auto simp: heartbeat_def wmove.m_stay split: option.splits prod.splits sum.splits bool.splits dest: moved_call')
  next
    case AtEnd
    with st show ?thesis by (simp add: wmove.m_stay)
  qed
qed

lemma task_spawns: "task_step D A j pos c = (c', pos', ts) \<Longrightarrow> list_all (\<lambda>t. fst t = j) ts"
  by (cases pos) (auto simp: finish_job_def done_with_def report_step_def Let_def
      split: option.splits prod.splits sum.splits if_splits pass_out.splits list.splits)

section \<open>The contract of the journal\<close>

fun clean_op :: "(job_id \<Rightarrow> bool) \<Rightarrow> claim_op \<Rightarrow> bool" where
  "clean_op P (Admit _ p _ _ _ _) = P p"
| "clean_op P _ = True"

lemma clean_op_not_admit: "\<not> is_admit op \<Longrightarrow> clean_op P op"
  by (cases op) simp_all

definition clean_jobs :: "(job_id \<Rightarrow> bool) \<Rightarrow> 'w control \<Rightarrow> bool" where
  "clean_jobs P c \<longleftrightarrow> (\<forall>j b. store_get (c_jobs c) j = Some b \<longrightarrow> j_id b = j \<and> P j)"

lemma clean_jobs_rel:
  "clean_jobs P c \<Longrightarrow> jobs_rel R c c' \<Longrightarrow> (\<And>b b'. R b b' \<Longrightarrow> j_id b' = j_id b) \<Longrightarrow> clean_jobs P c'"
  unfolding clean_jobs_def by (metis jobs_rel_get')

lemma clean_jobs_moves: "clean_jobs P c \<Longrightarrow> jobs_rel moves c c' \<Longrightarrow> clean_jobs P c'"
  by (erule (1) clean_jobs_rel) (simp add: moves_def)

lemma clean_jobs_same: "clean_jobs P c \<Longrightarrow> same_jobs c c' \<Longrightarrow> clean_jobs P c'"
  by (erule (1) clean_jobs_rel) (auto simp: steps_only_def)

lemma drain_tasks:
  "drain_loop now js c = (c', us) \<Longrightarrow> clean_jobs P c \<Longrightarrow> clean_jobs P c' \<and> list_all (\<lambda>t. P (fst t)) us"
proof (induction js arbitrary: c us)
  case (Cons j js)
  obtain c1 ok where cl: "claim_delivery_if_parked c j now = (c1, ok)" by fastforce
  have "clean_jobs P c1 \<and> (ok \<longrightarrow> P j)"
    using claim_delivery_simps(2) [OF cl] Cons.prems(2)
    by (auto simp: clean_jobs_def store_get_mut_get split: if_splits)
  then have "clean_jobs P c1" "ok \<longrightarrow> P j" by simp_all
  obtain us' where r: "drain_loop now js c1 = (c', us')" "us = (if ok then (j, report_start) # us' else us')"
    using Cons.prems(1) cl by (auto split: prod.splits)
  from Cons.IH [OF r(1)] \<open>clean_jobs P c1\<close> \<open>ok \<longrightarrow> P j\<close> r(2) show ?case by auto
qed simp

text \<open>The jobs an event acknowledges while they are undecided on this process, and the runs that keep
  account of them.\<close>

definition owed_here :: "'w control \<Rightarrow> accepted \<Rightarrow> bool" where
  "owed_here c a \<longleftrightarrow> (case store_get (c_jobs c) (ac_job_id a) of Some b \<Rightarrow> \<not> has_verdict (j_state b) | None \<Rightarrow> False)"

fun acked_by :: "'w deps \<Rightarrow> 'w plane \<Rightarrow> event \<Rightarrow> job_id list" where
  "acked_by D p (EvAccept checks d ck proposed) =
     (case accept D checks d ck proposed (p_control p) of
        (c, Some (Inr a), _) \<Rightarrow> if owed_here c a then [ac_job_id a] else []
      | _ \<Rightarrow> [])"
| "acked_by D p _ = []"

fun clean_event :: "(job_id \<Rightarrow> bool) \<Rightarrow> event \<Rightarrow> bool" where
  "clean_event P (EvAccept checks d ck proposed) = P proposed"
| "clean_event P _ = True"

inductive acked_run :: "(job_id \<Rightarrow> bool) \<Rightarrow> 'w deps \<Rightarrow> 'w \<Rightarrow> 'w plane \<Rightarrow> job_id list \<Rightarrow> bool" for P D w0 where
  a_start: "acked_run P D w0 (plane_new config memo w0) []"
| a_event: "acked_run P D w0 p A \<Longrightarrow> fresh_event p ev \<Longrightarrow> clean_event P ev \<Longrightarrow>
    acked_run P D w0 (plane_apply D ev p) (acked_by D p ev @ A)"

lemma acked_reachable: "acked_run P D w0 p A \<Longrightarrow> reachable D w0 p"
  by (induction rule: acked_run.induct) (auto intro: reachable.intros)

definition was_delivered :: "(callback_request \<times> delivery) list \<Rightarrow> job_id \<Rightarrow> bool" where
  "was_delivered sent j \<longleftrightarrow> list_ex (\<lambda>x. cb_job_id (fst x) = j \<and> is_delivered (snd x)) sent"

locale outbox =
  fixes D :: "'w deps" and holds :: "'w \<Rightarrow> job_id \<Rightarrow> bool" and clean :: "job_id \<Rightarrow> bool" and usable :: "'w \<Rightarrow> bool"
  assumes claims_honest: "honest D"
    and claims_law: "usable w \<Longrightarrow> clean_op clean op \<Longrightarrow> dp_claims D op w = (w', out) \<Longrightarrow>
      usable w' \<and> (\<forall>j. holds w j \<longrightarrow> holds w' j) \<and> (case out of OutAdmit (Inr adm) \<Rightarrow> clean (admitted_job_id adm) \<or> \<not> is_admit op | _ \<Rightarrow> True)"
    and record_law: "usable w \<Longrightarrow> clean (ji_job_id i) \<Longrightarrow> dp_record D i w = (w', r) \<Longrightarrow>
      usable w' \<and> (\<forall>j. holds w j \<longrightarrow> holds w' j) \<and> (r = Inr () \<longrightarrow> holds w' (ji_job_id i))"
    and forget_law: "usable w \<Longrightarrow> clean j \<Longrightarrow> usable (dp_forget D j w) \<and> (\<forall>k. k \<noteq> j \<longrightarrow> holds w k \<longrightarrow> holds (dp_forget D j w) k)"
    and assign_law: "usable w \<Longrightarrow> dp_assign D a tree w = (w', res) \<Longrightarrow> usable w' \<and> (\<forall>j. holds w j \<longrightarrow> holds w' j)"
    and cancel_law: "usable w \<Longrightarrow> usable (dp_cancel D j s w) \<and> (\<forall>k. holds w k \<longrightarrow> holds (dp_cancel D j s w) k)"
begin

definition kept :: "'w \<Rightarrow> 'w \<Rightarrow> bool" where
  "kept w w' \<longleftrightarrow> usable w' \<and> (\<forall>j. holds w j \<longrightarrow> holds w' j)"

lemma kept_wmove: "wmove clean D w w' \<Longrightarrow> usable w \<Longrightarrow> kept w w'"
proof (induction rule: wmove.induct)
  case (m_claims w w1 op w2 out)
  then show ?case using claims_law [OF _ clean_op_not_admit, of w1 op w2 out] by (auto simp: kept_def)
next
  case (m_record w w1 i w2 r)
  then show ?case using record_law [of w1 i w2 r] by (auto simp: kept_def)
next
  case (m_assign w w1 a tree w2 res)
  then show ?case using assign_law [of w1 a tree w2 res] by (auto simp: kept_def)
next
  case (m_cancel w w1 j s)
  then show ?case using cancel_law [of w1 j s] by (auto simp: kept_def)
qed (simp add: kept_def)

lemma kept_trans: "kept w w1 \<Longrightarrow> kept w1 w2 \<Longrightarrow> kept w w2"
  by (auto simp: kept_def)

lemma kept_moved: "moved clean D c c' \<Longrightarrow> usable (c_world c) \<Longrightarrow> kept (c_world c) (c_world c')"
  by (rule kept_wmove)

lemma moved_forget_claims: "moved clean D c (forget_claims D js c)"
  unfolding forget_claims_def
proof (induction js arbitrary: c)
  case (Cons j js)
  have "moved clean D c (fst (call_claims D (Forget j) c))" by (rule moved_call) simp
  with Cons.IH show ?case by (auto intro: moved_trans)
qed (simp add: wmove.m_stay)

text \<open>Ingest. Whatever it answers, it loses nothing and leaves only clean ids behind; and when it
  acknowledges a job that is undecided here, the journal holds the job.\<close>

lemma accept_kept:
  assumes u: "usable (c_world c)" and cj: "clean_jobs clean c" and p: "clean proposed" and ok: "store_ok (c_jobs c)"
    and acc: "accept D checks d ck proposed c = (c', ans, ts)"
  shows "kept (c_world c) (c_world c') \<and> clean_jobs clean c' \<and> list_all (\<lambda>t. clean (fst t)) ts"
proof -
  obtain st res where ev: "evict checks (c_jobs c) (ck_now ck) (cc_job_retention (c_config c)) (cc_max_jobs (c_config c)) = (st, res)"
    by fastforce
  have cst: "clean_jobs clean (c\<lparr>c_jobs := st\<rparr>)"
    using cj spec [OF evict_effect [OF ok ev, THEN conjunct1]] unfolding clean_jobs_def store_get_def
    by simp (metis option.distinct(1))
  show ?thesis
  proof (cases res)
    case None
    with acc ev cst u show ?thesis by (auto simp: accept_def kept_def)
  next
    case (Some evicted)
    let ?d = "forget_claims D evicted (c\<lparr>c_jobs := st\<rparr>)" and ?op = "admit_op (c_config c) d ck proposed"
    have d: "kept (c_world c) (c_world ?d)" using kept_moved [OF moved_forget_claims, of "c\<lparr>c_jobs := st\<rparr>"] u by simp
    obtain c0 out where cl: "call_claims D ?op ?d = (c0, out)" by fastforce
    then have w0: "dp_claims D ?op (c_world ?d) = (c_world c0, out)" by (auto simp: call_claims_def split: prod.splits)
    have cop: "clean_op clean ?op" and iop: "is_admit ?op" using p by (simp_all add: admit_op_def)
    have "usable (c_world ?d)" using d by (simp add: kept_def)
    note law = claims_law [OF this cop w0]
    have k0: "kept (c_world c) (c_world c0)" using kept_trans [OF d, of "c_world c0"] law by (simp add: kept_def)
    have c0: "clean_jobs clean c0"
      using clean_jobs_same [OF cst same_jobs_trans [OF same_jobs_forget_claims same_jobs_call [OF cl]]] .
    show ?thesis
    proof (cases "as_admit out")
      case (Inl e)
      with acc ev Some cl k0 c0 show ?thesis by (auto simp: accept_def)
    next
      case (Inr adm)
      then have out: "out = OutAdmit (Inr adm)" by (cases out) simp_all
      let ?j = "admitted_job_id adm"
      have cj: "clean ?j" using law out iop by simp
      obtain c1 nx where c1: "accept_claimed d (dp_classify D (d_repo d) (d_author d)) (ck_now ck) adm c0 = (c1, nx)" by fastforce
      have j1: "clean_jobs clean c1" and w1: "c_world c1 = c_world c0"
        using c1 c0 cj
        by (auto simp: accept_claimed_def Let_def clean_jobs_def store_get_insert store_get_mut_get record_foreign_verdict_def
            job_new_def add_callback_url_def split: admitted.splits option.splits if_splits)
      obtain c2 r where c2: "(if nx \<in> {NextDrive, NextAttachedHere} then journal_record D c1 ?j None (ck_unix ck) else (c1, Inr ())) = (c2, r)"
        by fastforce
      have "moved clean D c1 c2"
      proof (cases "nx \<in> {NextDrive, NextAttachedHere}")
        case True
        have "moved clean D c1 (fst (journal_record D c1 ?j None (ck_unix ck)))"
          by (rule moved_journal) (use j1 cj in \<open>auto simp: clean_jobs_def\<close>)
        with True c2 show ?thesis by (metis fst_conv)
      qed (use c2 in \<open>simp add: wmove.m_stay\<close>)
      moreover have "usable (c_world c1)" using k0 w1 by (simp add: kept_def)
      ultimately have k2: "kept (c_world c) (c_world c2)" using kept_trans [OF k0] kept_moved w1 by metis
      have j2: "clean_jobs clean c2"
        using c2 j1 by (auto simp: journal_record_def clean_jobs_def split: if_splits option.splits prod.splits)
      show ?thesis
      proof (cases r)
        case (Inl e)
        have "clean_jobs clean (roll_back D ?j c2)"
          using j2 by (auto simp: roll_back_def clean_jobs_def call_claims_def drop_lease_def store_get_def store_remove_def
              delete_conv' split: prod.splits if_splits)
        moreover have "kept (c_world c2) (c_world (roll_back D ?j c2))"
          using kept_moved [OF moved_call, of "Forget ?j" "drop_lease (c2\<lparr>c_jobs := store_remove (c_jobs c2) ?j\<rparr>) ?j"] k2
          by (simp add: roll_back_def kept_def)
        ultimately show ?thesis using acc ev Some cl Inr c1 c2 Inl j2 k2
          by (auto simp: accept_def accept_admitted_def intro: kept_trans)
      next
        case (Inr u)
        obtain c3 us3 where c3: "accept_start ?j (ck_now ck) nx c2 = (c3, us3)" by fastforce
        obtain c4 us4 where c4: "drain_undelivered c3 ?j (ck_now ck) = (c4, us4)" by fastforce
        have j3: "clean_jobs clean c3 \<and> c_world c3 = c_world c2 \<and> list_all (\<lambda>t. clean (fst t)) us3"
          using c3 j2 cj claim_delivery_simps(1) [of c2 ?j "ck_now ck" c3]
          by (auto simp: accept_start_def clean_jobs_def store_get_mut_get split: accept_next.splits prod.splits if_splits)
        then show ?thesis
          using drain_tasks [OF c4 [unfolded drain_undelivered_def], of clean] drain_loop_frame [OF c4 [unfolded drain_undelivered_def]]
            acc ev Some cl out c1 c2 Inr c3 c4 k2
          by (auto simp: accept_def accept_admitted_def)
      qed
    qed
  qed
qed

lemma accept_acked:
  assumes u: "usable (c_world c)" and cj: "clean_jobs clean c" and p: "clean proposed" and ok: "store_ok (c_jobs c)"
    and acc: "accept D checks d ck proposed c = (c', Some (Inr a), ts)" and owed: "owed_here c' a"
  shows "holds (c_world c') (ac_job_id a)"
  using acc
proof (rule accepted_path)
  fix st evicted c0 c1 c2 adm nx
  assume ev: "evict checks (c_jobs c) (ck_now ck) (cc_job_retention (c_config c)) (cc_max_jobs (c_config c)) = (st, Some evicted)"
    and cl: "call_claims D (admit_op (c_config c) d ck proposed) (forget_claims D evicted (c\<lparr>c_jobs := st\<rparr>)) = (c0, OutAdmit (Inr adm))"
    and c1: "accept_claimed d (dp_classify D (d_repo d) (d_author d)) (ck_now ck) adm c0 = (c1, nx)"
    and c2: "if nx \<in> {NextDrive, NextAttachedHere}
      then journal_record D c1 (admitted_job_id adm) None (ck_unix ck) = (c2, Inr ()) else c2 = c1"
    and a: "a = \<lparr>ac_job_id = admitted_job_id adm, ac_duplicate = is_duplicate adm\<rparr>"
    and w: "c_world c' = c_world c2" and rel: "jobs_rel same_work c2 c'"
  let ?j = "admitted_job_id adm" and ?d = "forget_claims D evicted (c\<lparr>c_jobs := st\<rparr>)"
  have "kept (c_world c) (c_world ?d)" using kept_moved [OF moved_forget_claims, of "c\<lparr>c_jobs := st\<rparr>"] u by simp
  then have ud: "usable (c_world ?d)" by (simp add: kept_def)
  have w0: "dp_claims D (admit_op (c_config c) d ck proposed) (c_world ?d) = (c_world c0, OutAdmit (Inr adm))"
    using cl by (auto simp: call_claims_def split: prod.splits)
  have law: "usable (c_world c0)" "clean ?j"
    using claims_law [OF ud _ w0] p by (simp_all add: admit_op_def)
  have "clean_jobs clean (c\<lparr>c_jobs := st\<rparr>)"
    using cj spec [OF evict_effect [OF ok ev, THEN conjunct1]] unfolding clean_jobs_def store_get_def
    by simp (metis option.distinct(1))
  then have id0: "clean_jobs clean c0"
    using clean_jobs_same same_jobs_trans [OF same_jobs_forget_claims same_jobs_call [OF cl]] by blast
  have w1: "c_world c1 = c_world c0"
    using c1 by (auto simp: accept_claimed_def Let_def record_foreign_verdict_def split: admitted.splits option.splits if_splits)
  from owed a obtain b' where "store_get (c_jobs c') ?j = Some b'" "\<not> has_verdict (j_state b')"
    by (auto simp: owed_here_def split: option.splits)
  then obtain b where b: "store_get (c_jobs c2) ?j = Some b" "\<not> has_verdict (j_state b)"
    using rel by (auto elim!: jobs_rel_get')
  have here: "nx \<in> {NextDrive, NextAttachedHere}"
  proof (rule ccontr)
    assume "nx \<notin> {NextDrive, NextAttachedHere}"
    with c2 b c1 show False
      by (auto simp: accept_claimed_def Let_def store_get_mut_get store_get_insert record_foreign_verdict_def is_finished_def
          has_verdict_def add_callback_url_def split: admitted.splits option.splits if_splits status.splits) (metis from_status.elims job_state.simps)+
  qed
  with c2 have jr: "journal_record D c1 ?j None (ck_unix ck) = (c2, Inr ())" by simp
  then obtain b1 where b1: "store_get (c_jobs c1) ?j = Some b1"
    using b(1) by (cases "store_get (c_jobs c1) ?j") (auto simp: journal_record_def)
  have "j_id b1 = ?j"
    using b1 c1 id0 law(2)
    by (auto simp: accept_claimed_def Let_def clean_jobs_def store_get_insert store_get_mut_get record_foreign_verdict_def
        job_new_def add_callback_url_def split: admitted.splits option.splits if_splits)
  moreover obtain w2 where "dp_record D (intent_of b1 None (ck_unix ck)) (c_world c1) = (w2, Inr ())" "c_world c2 = w2"
    using jr b1 by (auto simp: journal_record_def split: prod.splits)
  ultimately have "holds (c_world c2) ?j"
    using record_law [of "c_world c1" "intent_of b1 None (ck_unix ck)"] law w1 by (simp add: intent_of_def)
  with w a show "holds (c_world c') (ac_job_id a)" by simp
qed

lemma acked_inv:
  assumes "acked_run clean D w0 p A" and "usable w0"
  shows "usable (c_world (p_control p)) \<and> clean_jobs clean (p_control p) \<and> list_all (\<lambda>t. clean (fst t)) (p_tasks p) \<and>
    list_all (\<lambda>j. holds (c_world (p_control p)) j \<or> was_delivered (p_sent p) j) A"
  using assms(1)
proof (induction rule: acked_run.induct)
  case (a_start config memo)
  then show ?case using assms(2)
    by (simp add: plane_new_def control_new_def clean_jobs_def store_get_def job_store_new_def)
next
  case (a_event p A ev)
  have pinv: "plane_inv p" using reachable_inv [OF acked_reachable [OF a_event.hyps(1)] claims_honest] .
  then have jobs: "jobs_ok (p_control p)" by (simp add: plane_inv_parts)
  let ?c = "p_control p"
  from a_event.IH have IH: "usable (c_world ?c)" "clean_jobs clean ?c" "list_all (\<lambda>t. clean (fst t)) (p_tasks p)"
    "list_all (\<lambda>j. holds (c_world ?c) j \<or> was_delivered (p_sent p) j) A" by auto
  have held: "list_all (\<lambda>j. holds w j \<or> was_delivered (p_sent p) j) A" if "kept (c_world ?c) w" for w
    using IH(4) that by (auto simp: kept_def list_all_iff)
  show ?case
  proof (cases ev)
    case (EvAccept checks d ck proposed)
    obtain c' ans us where ac: "accept D checks d ck proposed ?c = (c', ans, us)" by (cases "accept D checks d ck proposed ?c")
    have "clean proposed" "store_ok (c_jobs ?c)" using a_event.hyps(3) EvAccept jobs by (simp_all add: jobs_ok_def)
    note k = accept_kept [OF IH(1,2) this ac]
    have "holds (c_world c') (ac_job_id a)" if "ans = Some (Inr a)" "owed_here c' a" for a
      using accept_acked [OF IH(1,2) \<open>clean proposed\<close> \<open>store_ok (c_jobs ?c)\<close>] ac that by blast
    then have "list_all (\<lambda>j. holds (c_world c') j) (acked_by D p ev)"
      using EvAccept ac by (auto split: option.split sum.split)
    with k held [of "c_world c'"] EvAccept ac IH(3) show ?thesis by (auto simp: kept_def list_all_iff)
  next
    case (EvReport rep node now)
    have "c_world (fst (record_step_report ?c rep node now)) = c_world ?c" using step_report_frame by blast
    with EvReport IH clean_jobs_same [OF IH(2) same_jobs_step_report] show ?thesis by simp
  next
    case (EvRenew j i node now)
    have "c_world (fst (renew_lease ?c j i node now)) = c_world ?c" by (simp add: renew_lease_def split: option.split)
    with EvRenew IH clean_jobs_same [OF IH(2) same_jobs_renew] show ?thesis by simp
  next
    case (EvTask i B)
    show ?thesis
    proof (cases "i < length (p_tasks p)")
      case True
      obtain j pos where jp: "p_tasks p ! i = (j, pos)" by fastforce
      obtain c' pos' ts where st: "task_step D B j pos ?c = (c', pos', ts)" by (cases "task_step D B j pos ?c")
      have t: "(j, pos) \<in> set (p_tasks p)" using nth_mem [OF True] jp by simp
      with IH(3) have j: "clean j" by (auto simp: list_all_iff)
      have "rank_ok ?c (j, pos)" using pinv t by (auto simp: plane_inv_parts)
      from task_effect [OF st jobs this] have "jobs_rel moves ?c c'" by (blast intro: quiet_or_not_moves)
      then have cj: "clean_jobs clean c'" by (rule clean_jobs_moves [OF IH(2)])
      have ts: "list_all (\<lambda>t. clean (fst t)) ts" using task_spawns [OF st] j by (auto simp: list_all_iff)
      from world_task [where P = clean, OF jobs j st]
      have "usable (c_world c') \<and> list_all (\<lambda>j. holds (c_world c') j \<or> was_delivered (p_sent p) j) A"
      proof
        assume "moved clean D ?c c'"
        from kept_moved [OF this IH(1)] held show ?thesis by (simp add: kept_def)
      next
        assume a: "(\<exists>acc k. pos = AtReport acc [] k \<and> ra_any_delivered acc) \<and> forgot clean D j ?c c'"
        then obtain acc k where acc: "pos = AtReport acc [] k" "ra_any_delivered acc" by blast
        have "acc_ok (set (p_sent p)) j acc []" using pinv t acc(1) by (auto simp: plane_inv_parts)
        with acc(2) have dj: "was_delivered (p_sent p) j"
          by (auto simp: acc_ok_def was_delivered_def list_ex_iff)
        from a obtain w where w: "wmove clean D (c_world ?c) w" "wmove clean D (dp_forget D j w) (c_world c')"
          by (auto simp: forgot_def)
        have k1: "kept (c_world ?c) w" using kept_wmove [OF w(1) IH(1)] .
        then have f: "usable (dp_forget D j w)" "\<forall>k. k \<noteq> j \<longrightarrow> holds w k \<longrightarrow> holds (dp_forget D j w) k"
          using forget_law [OF _ j] by (auto simp: kept_def)
        have k2: "kept (dp_forget D j w) (c_world c')" using kept_wmove [OF w(2) f(1)] .
        have "holds (c_world c') l \<or> was_delivered (p_sent p) l" if "holds (c_world ?c) l \<or> was_delivered (p_sent p) l" for l
          using that k1 f(2) k2 dj by (cases "l = j") (auto simp: kept_def)
        with IH(4) k2 show ?thesis by (auto simp: kept_def list_all_iff)
      qed
      moreover have "list_all (\<lambda>j. holds w j \<or> was_delivered (p_sent p @ new) j) A"
        if "list_all (\<lambda>j. holds w j \<or> was_delivered (p_sent p) j) A" for w new
        using that by (auto simp: list_all_iff was_delivered_def)
      moreover have "list_all (\<lambda>t. clean (fst t)) (take i (p_tasks p) @ (j, pos') # drop (Suc i) (p_tasks p) @ ts)"
        using IH(3) j ts by (auto simp: list_all_iff dest: in_set_takeD in_set_dropD)
      ultimately show ?thesis using EvTask True jp st cj by simp
    qed (use EvTask IH in simp)
  qed
qed

end

section \<open>LocalClaims and FileJournal\<close>

text \<open>The process-local claim store and the journal on a disk whose calls fail as \<open>flt\<close> says, beside any fleet.\<close>

record 'x disk_world =
  dw_claims :: local_state
  dw_disk :: "file_journal \<times> fs"
  dw_call :: nat
  dw_rest :: 'x

definition disk_deps :: "(job_intent \<Rightarrow> str + bytes) \<Rightarrow> (nat \<Rightarrow> io_faults) \<Rightarrow> 'x deps \<Rightarrow> 'x disk_world deps" where
  "disk_deps to_vec flt S =
     \<lparr>dp_classify = dp_classify S,
      dp_claims = (\<lambda>op w. let (s, out) = local_apply op (dw_claims w) in (w\<lparr>dw_claims := s\<rparr>, out)),
      dp_needs_renewal = dp_needs_renewal S,
      dp_record = (\<lambda>i w. case record_entry to_vec (flt (dw_call w)) i (dw_disk w) of
        (J, Fs, r) \<Rightarrow> (w\<lparr>dw_disk := (J, last Fs), dw_call := Suc (dw_call w)\<rparr>, r)),
      dp_forget = (\<lambda>j w. w\<lparr>dw_disk := forget_entry (io_remove (flt (dw_call w))) j (dw_disk w), dw_call := Suc (dw_call w)\<rparr>),
      dp_assign = (\<lambda>a tree w. let (x, r) = dp_assign S a tree (dw_rest w) in (w\<lparr>dw_rest := x\<rparr>, r)),
      dp_cancel = (\<lambda>j i w. w\<lparr>dw_rest := dp_cancel S j i (dw_rest w)\<rparr>),
      dp_blake3 = dp_blake3 S\<rparr>"

text \<open>The journal holds a job when its entry is whole, is on the disk, and names the job.\<close>

definition on_disk :: "(job_intent \<Rightarrow> str + bytes) \<Rightarrow> file_journal \<times> fs \<Rightarrow> job_id \<Rightarrow> bool" where
  "on_disk to_vec s j \<longleftrightarrow> plain_name j \<and>
     (\<exists>f i. entry_of (fst s) (snd s) j = Some f \<and> fl_synced f \<and> to_vec i = Inr (fl_data f) \<and> ji_job_id i = j)"

definition disk_usable :: "'x disk_world \<Rightarrow> bool" where
  "disk_usable w \<longleftrightarrow> journal_ok (fst (dw_disk w)) (snd (dw_disk w)) \<and>
     list_all (\<lambda>x. plain_name (snd x)) (ls_by_key (dw_claims w))"

lemma plain_ne: "plain_name j \<Longrightarrow> j \<noteq> []"
  by (auto simp: plain_name_def check_path_segment_def)

lemma record_on_disk:
  assumes "journal_ok J F" and "plain_name (ji_job_id i)" and "record_entry to_vec ft i (J, F) = (J', Fs, r)"
  shows "journal_ok J' (last Fs) \<and> (\<forall>j. on_disk to_vec (J, F) j \<longrightarrow> on_disk to_vec (J', last Fs) j) \<and>
    (r = Inr () \<longrightarrow> on_disk to_vec (J', last Fs) (ji_job_id i))"
proof -
  let ?j = "ji_job_id i"
  from record_trace [OF assms(2,1,3)] have t: "fj_dir J' = fj_dir J" "Fs \<noteq> []"
    "on_the_way F (fj_dir J @ [scratch_name J ?j]) (fj_dir J @ [entry_name ?j]) (case to_vec i of Inr bs \<Rightarrow> bs | Inl _ \<Rightarrow> []) (last Fs)"
    "entry_of J (last Fs) ?j \<noteq> entry_of J F ?j \<longrightarrow> (\<exists>bs. to_vec i = Inr bs)"
    "r = Inr () \<longrightarrow> (\<exists>bs. to_vec i = Inr bs \<and> entry_of J (last Fs) ?j = Some \<lparr>fl_data = bs, fl_synced = True\<rparr>)"
    by (auto simp: list_all_iff)
  have "journal_ok J' (last Fs)" using t assms(1) by (simp add: journal_ok_def on_the_way_def)
  moreover have "on_disk to_vec (J', last Fs) j" if h: "on_disk to_vec (J, F) j" for j
  proof (cases "j = ?j \<and> entry_of J (last Fs) ?j \<noteq> entry_of J F ?j")
    case True
    with t(4) obtain bs where "to_vec i = Inr bs" by blast
    with True t assms(2) show ?thesis by (auto simp: on_disk_def on_the_way_def entry_of_def)
  next
    case False
    have "j \<noteq> []" using h plain_ne by (auto simp: on_disk_def)
    then have "entry_name j \<noteq> scratch_name J ?j" using scratch_not_entry by metis
    with False t(1,3) have "entry_of J' (last Fs) j = entry_of J F j"
      by (cases "j = ?j") (auto simp: entry_of_def on_the_way_def)
    with h show ?thesis by (simp add: on_disk_def)
  qed
  moreover have "r = Inr () \<longrightarrow> on_disk to_vec (J', last Fs) ?j"
    using t(1,5) assms(2) by (auto simp: on_disk_def entry_of_def)
  ultimately show ?thesis by blast
qed

lemma forget_on_disk:
  assumes "journal_ok J F" and "plain_name j"
  shows "journal_ok J (snd (forget_entry fault j (J, F))) \<and> fst (forget_entry fault j (J, F)) = J \<and>
    (\<forall>k. k \<noteq> j \<longrightarrow> on_disk to_vec (J, F) k \<longrightarrow> on_disk to_vec (forget_entry fault j (J, F)) k)"
proof -
  have f: "forget_entry fault j (J, F) = (J, if fault = None
      then F\<lparr>fs_files := AList.delete (fj_dir J @ [entry_name j]) (fs_files F)\<rparr> else F)"
    using locate_name [OF assms(1) refl entry_proper, of j]
    by (simp add: forget_entry_def entry_path_plain [OF assms(2)] fs_remove_file_def)
  show ?thesis using assms(1)
    by (auto simp: f on_disk_def entry_of_def file_at_ops journal_ok_def simp del: map_of_eq_Some_iff)
qed

lemma list_all_delete: "list_all Q xs \<Longrightarrow> list_all Q (AList.delete k xs)"
  by (induction xs) auto

lemma local_ids_plain:
  assumes "local_apply op s = (s', out)" and "list_all (\<lambda>x. plain_name (snd x)) (ls_by_key s)" and "clean_op plain_name op"
  shows "list_all (\<lambda>x. plain_name (snd x)) (ls_by_key s') \<and>
    (case out of OutAdmit (Inr adm) \<Rightarrow> plain_name (admitted_job_id adm) \<or> \<not> is_admit op | _ \<Rightarrow> True)"
proof -
  have upd: "list_all (\<lambda>x. plain_name (snd x)) (AList.update k j xs)" if "list_all (\<lambda>x. plain_name (snd x)) xs" "plain_name j"
    for k j and xs :: "(tree_key \<times> job_id) list"
    using that by (induction xs) auto
  have val: "plain_name j" if "map_of xs k = Some j" "list_all (\<lambda>x. plain_name (snd x)) xs" for xs :: "(tree_key \<times> job_id) list" and k j
    using that map_of_SomeD [OF that(1)] by (auto simp: list_all_iff)
  show ?thesis
  proof (cases op)
    case (Admit k p url n l r)
    have st: "list_all (\<lambda>x. plain_name (snd x)) (ls_by_key (local_drop_stale s k n r))"
      using assms(2) list_all_delete by (auto simp: local_drop_stale_def split: option.split)
    with assms Admit show ?thesis
      by (auto simp: local_admit_def local_insert_def Let_def upd list_all_delete split: option.splits dest: val)
  qed (use assms list_all_delete in \<open>auto simp: local_claim_step_def local_release_step_def local_settle_def local_forget_def Let_def
      split: option.splits if_splits prod.splits\<close>)
qed

interpretation ob: outbox "disk_deps to_vec flt S" "\<lambda>w. on_disk to_vec (dw_disk w)" plain_name disk_usable
  for to_vec and flt :: "nat \<Rightarrow> io_faults" and S :: "'x deps"
proof (unfold_locales, goal_cases)
  case 1
  then show ?case unfolding honest_def disk_deps_def using lc.created by (fastforce split: prod.splits)
next
  case (2 w op w' out)
  then show ?case using local_ids_plain [of op "dw_claims w"]
    by (auto simp: disk_deps_def disk_usable_def split: prod.splits)
next
  case (3 w i w' r)
  obtain J F where d: "dw_disk w = (J, F)" by fastforce
  obtain J' Fs r' where e: "record_entry to_vec (flt (dw_call w)) i (J, F) = (J', Fs, r')" by (cases "record_entry to_vec (flt (dw_call w)) i (J, F)")
  from record_on_disk [OF _ 3(2) e] 3 d e show ?case by (auto simp: disk_deps_def disk_usable_def)
next
  case (4 w j)
  obtain J F where d: "dw_disk w = (J, F)" by fastforce
  from forget_on_disk [OF _ 4(2), of J F] 4 d show ?case by (auto simp: disk_deps_def disk_usable_def)
qed (auto simp: disk_deps_def disk_usable_def split: prod.splits)


definition disk_start :: "unit disk_world" where
  "disk_start = \<lparr>dw_claims = local_new, dw_disk = (example_journal, example_fs), dw_call = 0, dw_rest = ()\<rparr>"

definition disk_example :: "unit disk_world deps" where
  "disk_example = disk_deps (\<lambda>i. Inr (ji_job_id i)) (\<lambda>_. no_faults) taking_deps"

definition disk_accept :: event where
  "disk_accept = EvAccept True example_dispatch example_clock [106]"

lemma disk_acked:
  "acked_by disk_example (plane_new example_config (memo_new memo_policy_default) disk_start) disk_accept = [[106]]"
  by (simp add: disk_example_def disk_deps_def disk_start_def disk_accept_def taking_deps_def example_accept_simps intent_of_def
      journal_eval owed_here_def has_verdict_def)


end
