(* ===== verification/Ci_Text.thy ===== *)
theory Ci_Text
  imports Ci_Memo
begin

text \<open>
  What the credential-handling crates share: the methods of \<open>str\<close> they parse with, and the functions of
  third-party crates they call, which are fields of a record (\<open>crates\<close>): \<open>hex::encode\<close> and
  \<open>hex::decode\<close>, \<open>blake3::hash\<close>, and \<open>subtle::ConstantTimeEq\<close>. \<open>crates_ok\<close> is their documented
  behaviour, as far as a claim needs it. Both bearer tokens of the repository (the package grant of
  \<open>hull-ci-proxy\<close>, the capability of \<open>hull-ci-secrets\<close>) are \<open><prefix><hex id>.<hex secret>\<close>.
\<close>

section \<open>Methods of str\<close>

definition starts_with :: "str \<Rightarrow> str \<Rightarrow> bool" where
  "starts_with s p \<longleftrightarrow> take (length p) s = p"

definition strip_prefix :: "str \<Rightarrow> str \<Rightarrow> str option" where
  "strip_prefix s p = (if starts_with s p then Some (drop (length p) s) else None)"

definition ends_with :: "str \<Rightarrow> str \<Rightarrow> bool" where
  "ends_with s p \<longleftrightarrow> starts_with (rev s) (rev p)"

fun split_once :: "nat \<Rightarrow> str \<Rightarrow> (str \<times> str) option" where
  "split_once d [] = None"
| "split_once d (c # cs) =
     (if c = d then Some ([], cs) else map_option (\<lambda>(a, b). (c # a, b)) (split_once d cs))"

fun contains_str :: "str \<Rightarrow> str \<Rightarrow> bool" where
  "contains_str [] p \<longleftrightarrow> p = []"
| "contains_str (c # cs) p \<longleftrightarrow> starts_with (c # cs) p \<or> contains_str cs p"

lemma starts_with_iff: "starts_with s p \<longleftrightarrow> (\<exists>r. s = p @ r)"
  by (metis append_eq_conv_conj append_take_drop_id starts_with_def)

lemma starts_with_append [simp]: "starts_with (p @ r) p"
  by (simp add: starts_with_def)

lemma strip_prefix_append [simp]: "strip_prefix (p @ r) p = Some r"
  by (simp add: strip_prefix_def)

lemma strip_prefix_Some: "strip_prefix s p = Some r \<longleftrightarrow> s = p @ r"
  by (auto simp: strip_prefix_def starts_with_iff)

lemma split_once_append [simp]: "d \<notin> set a \<Longrightarrow> split_once d (a @ d # b) = Some (a, b)"
  by (induction a) auto

lemma split_once_Some: "split_once d s = Some (a, b) \<Longrightarrow> s = a @ d # b \<and> d \<notin> set a"
  by (induction s arbitrary: a) (auto split: if_splits)

lemma contains_str_iff: "contains_str s p \<longleftrightarrow> (\<exists>a b. s = a @ p @ b)"
proof (induction s)
  case (Cons c cs)
  show ?case
  proof
    assume "contains_str (c # cs) p"
    then consider "starts_with (c # cs) p" | "contains_str cs p" by auto
    then show "\<exists>a b. c # cs = a @ p @ b"
    proof cases
      case 1
      then show ?thesis by (metis append_Nil starts_with_iff)
    next
      case 2
      with Cons.IH show ?thesis by (metis append_Cons)
    qed
  next
    assume "\<exists>a b. c # cs = a @ p @ b"
    then obtain a b where s: "c # cs = a @ p @ b" by blast
    show "contains_str (c # cs) p"
    proof (cases a)
      case Nil
      with s have "starts_with (c # cs) p" by (metis append_Nil starts_with_iff)
      then show ?thesis by simp
    next
      case (Cons x a')
      with s have "cs = a' @ p @ b" by simp
      then show ?thesis using \<open>contains_str cs p = _\<close> by auto
    qed
  qed
qed auto

section \<open>Budgets of runs and removals from ordered maps\<close>

text \<open>A potential that every step pays for its answer from bounds the sum of the answers.\<close>

lemma run_potential:
  assumes "P s" and "\<And>x s. x \<in> set xs \<Longrightarrow> P s \<Longrightarrow> P (fst (f x s))"
    and "\<And>x s. x \<in> set xs \<Longrightarrow> P s \<Longrightarrow> w (snd (f x s)) + phi (fst (f x s)) \<le> (phi s :: nat)"
  shows "sum_list (map w (snd (run f xs s))) \<le> phi s"
  using assms
proof (induction xs arbitrary: s)
  case (Cons x xs)
  from Cons.prems have "P (fst (f x s))" "w (snd (f x s)) + phi (fst (f x s)) \<le> phi s" by simp_all
  moreover from this Cons.prems have "sum_list (map w (snd (run f xs (fst (f x s))))) \<le> phi (fst (f x s))"
    by (intro Cons.IH) simp_all
  ultimately show ?case by (simp add: Let_def case_prod_unfold)
qed simp

lemma run_snoc:
  "fst (run f (xs @ [x]) s) = fst (f x (fst (run f xs s)))"
  "snd (run f (xs @ [x]) s) = snd (run f xs s) @ [snd (f x (fst (run f xs s)))]"
  by (simp_all add: run_append Let_def case_prod_unfold)

lemma bt_ok_filter: "bt_ok m \<Longrightarrow> bt_ok (filter p m)"
  by (induction m) (auto simp: bt_ok_def)

lemma bt_ok_delete: "bt_ok m \<Longrightarrow> bt_ok (AList.delete k m)"
  by (simp add: AList.delete_eq bt_ok_filter)

lemma bt_ok_Nil [simp]: "bt_ok []"
  by (simp add: bt_ok_def)

lemma map_of_filter_ok:
  "hm_ok m \<Longrightarrow> map_of (filter p m) k = (case map_of m k of Some v \<Rightarrow> if p (k, v) then Some v else None | None \<Rightarrow> None)"
proof (induction m)
  case (Cons q m)
  then have IH: "map_of (filter p m) k = (case map_of m k of Some v \<Rightarrow> if p (k, v) then Some v else None | None \<Rightarrow> None)"
    by simp
  have none: "k = fst q \<Longrightarrow> map_of m k = None" using Cons.prems by (simp add: map_of_eq_None_iff)
  show ?case using IH none by (cases q) (auto split: option.splits)
qed simp

lemma map_of_fold_delete: "map_of (fold AList.delete ks m) k = (if k \<in> set ks then None else map_of m k)"
  by (induction ks arbitrary: m) auto

lemma bt_ok_fold_delete: "bt_ok m \<Longrightarrow> bt_ok (fold AList.delete ks m)"
  by (induction ks arbitrary: m) (auto simp: bt_ok_delete)

section \<open>Third-party functions\<close>

record crates =
  hex_encode :: "bytes \<Rightarrow> str"
  hex_decode :: "str \<Rightarrow> bytes option"
  blake3_hash :: "bytes \<Rightarrow> bytes"
  ct_eq :: "bytes \<Rightarrow> bytes \<Rightarrow> bool"

abbreviation u8s :: "bytes \<Rightarrow> bool" where
  "u8s b \<equiv> list_all (\<lambda>x. x < 256) b"

text \<open>Decoding undoes encoding, an encoding has no dot, and \<open>ct_eq\<close> is equality.\<close>

definition crates_ok :: "crates \<Rightarrow> bool" where
  "crates_ok K \<longleftrightarrow>
     (\<forall>b. u8s b \<longrightarrow> hex_decode K (hex_encode K b) = Some b \<and> 46 \<notin> set (hex_encode K b)) \<and>
     (\<forall>a b. ct_eq K a b \<longleftrightarrow> a = b)"

section \<open>Bearer tokens\<close>

definition ID_LEN :: nat where "ID_LEN = 16"
definition SECRET_LEN :: nat where "SECRET_LEN = 32"

text \<open>\<open>id\<close> and \<open>secret\<close> are what \<open>OsRng\<close> filled in; the digest is all that is kept of the secret.\<close>

definition bearer_mint :: "crates \<Rightarrow> str \<Rightarrow> bytes \<Rightarrow> bytes \<Rightarrow> str \<times> bytes \<times> bytes" where
  "bearer_mint K prefix i secret =
     (prefix @ hex_encode K i @ lit ''.'' @ hex_encode K secret, i, blake3_hash K secret)"

definition bearer_parse :: "crates \<Rightarrow> str \<Rightarrow> str \<Rightarrow> (bytes \<times> bytes) option" where
  "bearer_parse K prefix s =
     (case strip_prefix s prefix of
        None \<Rightarrow> None
      | Some body \<Rightarrow>
          (case split_once (of_char CHR ''.'') body of
             None \<Rightarrow> None
           | Some (id_hex, secret_hex) \<Rightarrow>
               (case hex_decode K id_hex of
                  None \<Rightarrow> None
                | Some i \<Rightarrow>
                    if length i \<noteq> ID_LEN then None
                    else (case hex_decode K secret_hex of
                            None \<Rightarrow> None
                          | Some secret \<Rightarrow>
                              if length secret \<noteq> SECRET_LEN then None
                              else Some (i, blake3_hash K secret)))))"

text \<open>A token that was minted parses to its id and its digest.\<close>

lemma bearer_parse_mint:
  assumes "crates_ok K" and "u8s i" and "u8s secret" and "length i = ID_LEN" and "length secret = SECRET_LEN"
  shows "bearer_parse K prefix (fst (bearer_mint K prefix i secret)) = Some (i, blake3_hash K secret)"
proof -
  from assms have "46 \<notin> set (hex_encode K i)" and d: "hex_decode K (hex_encode K i) = Some i"
    "hex_decode K (hex_encode K secret) = Some secret"
    by (auto simp: crates_ok_def)
  then have "split_once 46 (hex_encode K i @ 46 # hex_encode K secret) = Some (hex_encode K i, hex_encode K secret)"
    by simp
  with d assms show ?thesis by (simp add: bearer_parse_def bearer_mint_def)
qed

lemma bearer_parse_id: "bearer_parse K prefix s = Some (i, d) \<Longrightarrow> length i = ID_LEN"
  by (auto simp: bearer_parse_def split: option.splits if_splits)

text \<open>Bytes decoded from UTF-8; \<open>None\<close> where \<open>std::str::from_utf8\<close> fails.\<close>

definition usv :: "nat \<Rightarrow> bool" where
  "usv c \<longleftrightarrow> c < 0xD800 \<or> (0xE000 \<le> c \<and> c < 0x110000)"

definition cont_byte :: "nat \<Rightarrow> bool" where
  "cont_byte b \<longleftrightarrow> 0x80 \<le> b \<and> b < 0xC0"

fun from_utf8 :: "bytes \<Rightarrow> str option" where
  "from_utf8 [] = Some []"
| "from_utf8 (a # rest) =
     (if a < 0x80 then map_option ((#) a) (from_utf8 rest)
      else if 0xC2 \<le> a \<and> a < 0xE0 then
        (case rest of
           b # rest' \<Rightarrow>
             if cont_byte b then map_option ((#) ((a - 0xC0) * 64 + (b - 0x80))) (from_utf8 rest') else None
         | _ \<Rightarrow> None)
      else if 0xE0 \<le> a \<and> a < 0xF0 then
        (case rest of
           b # c # rest' \<Rightarrow>
             (let v = (a - 0xE0) * 4096 + (b - 0x80) * 64 + (c - 0x80)
              in if cont_byte b \<and> cont_byte c \<and> 0x800 \<le> v \<and> usv v
                 then map_option ((#) v) (from_utf8 rest') else None)
         | _ \<Rightarrow> None)
      else if 0xF0 \<le> a \<and> a < 0xF5 then
        (case rest of
           b # c # d # rest' \<Rightarrow>
             (let v = (a - 0xF0) * 262144 + (b - 0x80) * 4096 + (c - 0x80) * 64 + (d - 0x80)
              in if cont_byte b \<and> cont_byte c \<and> cont_byte d \<and> 0x10000 \<le> v \<and> usv v
                 then map_option ((#) v) (from_utf8 rest') else None)
         | _ \<Rightarrow> None)
      else None)"

lemma from_utf8_char:
  assumes "usv c"
  shows "from_utf8 (utf8_char c @ rest) = map_option ((#) c) (from_utf8 rest)"
proof -
  consider "c < 0x80" | "0x80 \<le> c" "c < 0x800" | "0x800 \<le> c" "c < 0x10000" | "0x10000 \<le> c" by linarith
  then show ?thesis
  proof cases
    case 1
    then show ?thesis by (simp add: utf8_char_def)
  next
    case 2
    then have "2 \<le> c div 64" "c div 64 < 32" by auto
    with 2 show ?thesis by (simp add: utf8_char_def cont_byte_def)
  next
    case 3
    define h m l where "h = c div 4096" and "m = c div 64 mod 64" and "l = c mod 64"
    have b: "h < 16" "m < 64" "l < 64" using 3 by (auto simp: h_def m_def l_def)
    have e: "c div 4096 = c div 64 div 64" using div_mult2_eq [of c 64 64] by simp
    have v: "h * 4096 + m * 64 + l = c"
      unfolding h_def m_def l_def using e div_mult_mod_eq [of c 64] div_mult_mod_eq [of "c div 64" 64] by linarith
    have u: "utf8_char c = [0xE0 + h, 0x80 + m, 0x80 + l]" using 3 by (simp add: utf8_char_def h_def m_def l_def)
    show ?thesis using b 3 assms by (simp add: u v cont_byte_def Let_def)
  next
    case 4
    define k h m l where "k = c div 262144" and "h = c div 4096 mod 64" and "m = c div 64 mod 64" and "l = c mod 64"
    have b: "k < 5" "h < 64" "m < 64" "l < 64"
      using 4 assms by (auto simp: k_def h_def m_def l_def usv_def)
    have e: "c div 4096 = c div 64 div 64" "c div 262144 = c div 4096 div 64"
      using div_mult2_eq [of c 64 64] div_mult2_eq [of c 4096 64] by simp_all
    have v: "k * 262144 + h * 4096 + m * 64 + l = c"
      unfolding k_def h_def m_def l_def using e div_mult_mod_eq [of c 64] div_mult_mod_eq [of "c div 64" 64]
        div_mult_mod_eq [of "c div 4096" 64] by linarith
    have u: "utf8_char c = [0xF0 + k, 0x80 + h, 0x80 + m, 0x80 + l]"
      using 4 by (simp add: utf8_char_def k_def h_def m_def l_def)
    show ?thesis using b 4 assms by (simp add: u v cont_byte_def Let_def)
  qed
qed

lemma from_utf8_utf8: "list_all usv s \<Longrightarrow> from_utf8 (utf8 s) = Some s"
  by (induction s) (simp_all add: utf8_def from_utf8_char)

section \<open>A concrete instance\<close>

text \<open>Hexadecimal as the \<open>hex\<close> crate prints it, an identity for the hash, and equality.\<close>

fun demo_nibble :: "nat \<Rightarrow> nat" where
  "demo_nibble c = (if c < 58 then c - 48 else c - 87)"

fun demo_unhex :: "str \<Rightarrow> bytes option" where
  "demo_unhex [] = Some []"
| "demo_unhex [c] = None"
| "demo_unhex (c # d # s) = map_option ((#) (demo_nibble c * 16 + demo_nibble d)) (demo_unhex s)"

definition demo_crates :: crates where
  "demo_crates = \<lparr>hex_encode = hex, hex_decode = demo_unhex, blake3_hash = id, ct_eq = (=)\<rparr>"

lemma demo_digit: "n < 16 \<Longrightarrow> demo_nibble (hex_digit n) = n \<and> hex_digit n \<noteq> 46"
proof -
  have "\<forall>n<16. demo_nibble (hex_digit n) = n \<and> hex_digit n \<noteq> 46" by code_simp
  then show "n < 16 \<Longrightarrow> ?thesis" by blast
qed

lemma demo_unhex_hex: "u8s b \<Longrightarrow> demo_unhex (hex b) = Some b \<and> 46 \<notin> set (hex b)"
proof (induction b)
  case (Cons x b)
  from Cons.prems have x: "x div 16 < 16" "x mod 16 < 16" "u8s b" by auto
  then have "demo_nibble (hex_digit (x div 16)) * 16 + demo_nibble (hex_digit (x mod 16)) = x"
    using demo_digit div_mult_mod_eq [of x 16] by simp
  then show ?case using Cons.IH x demo_digit [of "x div 16"] demo_digit [of "x mod 16"]
    by (auto simp: hex_def simp del: demo_nibble.simps)
qed (simp add: hex_def)

lemma demo_crates_ok: "crates_ok demo_crates"
  by (simp add: crates_ok_def demo_crates_def demo_unhex_hex)

end
