(* ===== verification/Ci_Vault.thy ===== *)
theory Ci_Vault
  imports Ci_Text "HOL-Library.Product_Lexorder"
begin

text \<open>
  Tenant secrets at rest: the names and the framing of associated data
  (\<open>src/crates/hull-ci-secrets/src/lib.rs\<close>), the development key manager (\<open>keys.rs\<close>), the envelope
  (\<open>seal.rs\<close>), the in-memory store (\<open>store.rs\<close>) and the storage half of the broker (\<open>broker.rs\<close>). The
  AEAD is a parameter; what \<open>OsRng\<close> fills in (data keys, nonces, key material) are arguments. Shown: the
  whole of it implements a map from tenant and name to a value, which sealing updates, deletion shrinks,
  rotation leaves alone and a crypto-shred empties for good; and that rows left behind by a shred block
  the rotation of the tenant that is enrolled again.
\<close>

section \<open>Errors and names\<close>

datatype secret_error =
    InvalidName str | ReservedName str | EmptyValue | NoTenantKey str | NoKekVersion str nat | Decrypt
  | ContextMismatch str str | UnknownSecret str str | OutsiderRefused | BadCapability | CapabilityExpired
  | CapabilityConsumed | CapabilityRevoked | WrongNode | WrongProxy | WrongJob job_id job_id
  | WrongTenant str str | BadNodeSignature | UnenrolledNode str | UnenrolledProxy str | StaleRedemption nat
  | KeyAlreadyEnrolled str str | Undeclared str | StoreFailure str | KeyService str

definition RESERVED_NAMES :: "str list" where
  "RESERVED_NAMES = map lit [''PATH'', ''HOME'', ''LANG'', ''CI'', ''TMPDIR'', ''IFS'', ''LD_PRELOAD'', ''LD_AUDIT'',
     ''LD_LIBRARY_PATH'', ''DYLD_INSERT_LIBRARIES'', ''DYLD_LIBRARY_PATH'']"

definition is_upper :: "nat \<Rightarrow> bool" where "is_upper c \<longleftrightarrow> 65 \<le> c \<and> c \<le> 90"
definition is_digit :: "nat \<Rightarrow> bool" where "is_digit c \<longleftrightarrow> 48 \<le> c \<and> c \<le> 57"

definition validate_name :: "str \<Rightarrow> secret_error + unit" where
  "validate_name name =
     (let ok = (case name of
           [] \<Rightarrow> False
         | c # cs \<Rightarrow> (is_upper c \<or> c = 95) \<and> list_all (\<lambda>c. is_upper c \<or> is_digit c \<or> c = 95) cs)
      in if \<not> ok then Inl (InvalidName name)
         else if name \<in> set RESERVED_NAMES then Inl (ReservedName name)
         else Inr ())"

definition be_u32 :: "nat \<Rightarrow> bytes" where
  "be_u32 n = [n div 16777216 mod 256, n div 65536 mod 256, n div 256 mod 256, n mod 256]"

definition associated_data :: "str \<Rightarrow> str list \<Rightarrow> bytes" where
  "associated_data domain fs = concat (map (\<lambda>f. be_u32 (length (utf8 f)) @ utf8 f) (domain # fs))"

section \<open>Keys\<close>

record aead =
  ae_encrypt :: "bytes \<Rightarrow> bytes \<Rightarrow> bytes \<Rightarrow> bytes \<Rightarrow> bytes option"
  ae_decrypt :: "bytes \<Rightarrow> bytes \<Rightarrow> bytes \<Rightarrow> bytes \<Rightarrow> bytes option"

definition AEAD_NONCE_LEN :: nat where "AEAD_NONCE_LEN = 24"
definition DEK_LEN :: nat where "DEK_LEN = 32"

definition aead_seal :: "aead \<Rightarrow> bytes \<Rightarrow> bytes \<Rightarrow> bytes \<Rightarrow> bytes \<Rightarrow> secret_error + bytes" where
  "aead_seal A nonce key plaintext aad =
     (case ae_encrypt A key nonce aad plaintext of None \<Rightarrow> Inl Decrypt | Some ct \<Rightarrow> Inr (nonce @ ct))"

definition aead_open :: "aead \<Rightarrow> bytes \<Rightarrow> bytes \<Rightarrow> bytes \<Rightarrow> secret_error + bytes" where
  "aead_open A key blob aad =
     (if length blob < AEAD_NONCE_LEN then Inl Decrypt
      else case ae_decrypt A key (take AEAD_NONCE_LEN blob) aad (drop AEAD_NONCE_LEN blob) of
        None \<Rightarrow> Inl Decrypt | Some m \<Rightarrow> Inr m)"

record tenant_keys =
  tk_versions :: "(nat \<times> bytes) list"
  tk_next :: nat

type_synonym key_map = "(str \<times> tenant_keys) list"

definition with_kek :: "key_map \<Rightarrow> str \<Rightarrow> nat \<Rightarrow> secret_error + bytes" where
  "with_kek km t version =
     (case map_of km t of
        None \<Rightarrow> Inl (NoTenantKey t)
      | Some keys \<Rightarrow>
          (case find (\<lambda>(v, _). v = version) (tk_versions keys) of
             None \<Rightarrow> Inl (NoKekVersion t version)
           | Some (_, kek) \<Rightarrow> Inr kek))"

definition current_version :: "key_map \<Rightarrow> str \<Rightarrow> secret_error + nat" where
  "current_version km t =
     (case map_of km t of
        None \<Rightarrow> Inl (NoTenantKey t)
      | Some keys \<Rightarrow> if tk_versions keys = [] then Inl (NoTenantKey t) else Inr (fst (last (tk_versions keys))))"

definition wrap_dek :: "aead \<Rightarrow> bytes \<Rightarrow> key_map \<Rightarrow> str \<Rightarrow> nat \<Rightarrow> bytes \<Rightarrow> bytes \<Rightarrow> secret_error + bytes" where
  "wrap_dek A nonce km t version dek aad =
     (case with_kek km t version of Inl e \<Rightarrow> Inl e | Inr kek \<Rightarrow> aead_seal A nonce kek dek aad)"

definition unwrap_dek :: "aead \<Rightarrow> key_map \<Rightarrow> str \<Rightarrow> nat \<Rightarrow> bytes \<Rightarrow> bytes \<Rightarrow> secret_error + bytes" where
  "unwrap_dek A km t version wrapped aad =
     (case with_kek km t version of
        Inl e \<Rightarrow> Inl e
      | Inr kek \<Rightarrow>
          (case aead_open A kek wrapped aad of
             Inl e \<Rightarrow> Inl e
           | Inr plain \<Rightarrow> if length plain = DEK_LEN then Inr plain else Inl Decrypt))"

definition provision_keys :: "bytes \<Rightarrow> str \<Rightarrow> key_map \<Rightarrow> key_map \<times> nat" where
  "provision_keys kek t km =
     (let keys = (case map_of km t of Some k \<Rightarrow> k | None \<Rightarrow> \<lparr>tk_versions = [], tk_next = 1\<rparr>) in
      if tk_versions keys \<noteq> [] then (AList.update t keys km, fst (last (tk_versions keys)))
      else (AList.update t \<lparr>tk_versions = [(tk_next keys, kek)], tk_next = tk_next keys + 1\<rparr> km, tk_next keys))"

definition rotate_keys :: "bytes \<Rightarrow> str \<Rightarrow> key_map \<Rightarrow> key_map \<times> (secret_error + nat)" where
  "rotate_keys kek t km =
     (case map_of km t of
        None \<Rightarrow> (km, Inl (NoTenantKey t))
      | Some keys \<Rightarrow>
          (AList.update t \<lparr>tk_versions = tk_versions keys @ [(tk_next keys, kek)], tk_next = tk_next keys + 1\<rparr> km,
           Inr (tk_next keys)))"

definition shred_keys :: "str \<Rightarrow> key_map \<Rightarrow> key_map \<times> (secret_error + unit)" where
  "shred_keys t km =
     (case map_of km t of
        None \<Rightarrow> (km, Inl (NoTenantKey t))
      | Some keys \<Rightarrow> (AList.update t (keys\<lparr>tk_versions := []\<rparr>) km, Inr ()))"

section \<open>The envelope\<close>

record sealed =
  se_tenant :: str
  se_name :: str
  se_version :: nat
  se_wrapped :: bytes
  se_cipher :: bytes

definition value_aad :: "str \<Rightarrow> str \<Rightarrow> bytes" where
  "value_aad t n = associated_data (lit ''hull-ci/secret-value/v1'') [t, n]"

definition wrap_aad :: "str \<Rightarrow> str \<Rightarrow> nat \<Rightarrow> bytes" where
  "wrap_aad t n version = associated_data (lit ''hull-ci/dek-wrap/v1'') [t, n, show_nat version]"

definition vault_seal :: "aead \<Rightarrow> bytes \<Rightarrow> bytes \<Rightarrow> bytes \<Rightarrow> key_map \<Rightarrow> str \<Rightarrow> str \<Rightarrow> bytes \<Rightarrow> secret_error + sealed" where
  "vault_seal A dek nonce1 nonce2 km t n plaintext =
     (if plaintext = [] then Inl EmptyValue
      else case current_version km t of
        Inl e \<Rightarrow> Inl e
      | Inr version \<Rightarrow>
          (case aead_seal A nonce1 dek plaintext (value_aad t n) of
             Inl e \<Rightarrow> Inl e
           | Inr ciphertext \<Rightarrow>
               (case wrap_dek A nonce2 km t version dek (wrap_aad t n version) of
                  Inl e \<Rightarrow> Inl e
                | Inr wrapped \<Rightarrow>
                    Inr \<lparr>se_tenant = t, se_name = n, se_version = version, se_wrapped = wrapped, se_cipher = ciphertext\<rparr>)))"

definition vault_open :: "aead \<Rightarrow> key_map \<Rightarrow> str \<Rightarrow> str \<Rightarrow> sealed \<Rightarrow> secret_error + bytes" where
  "vault_open A km t n s =
     (if se_tenant s \<noteq> t \<or> se_name s \<noteq> n
      then Inl (ContextMismatch (t @ lit ''/'' @ n) (se_tenant s @ lit ''/'' @ se_name s))
      else case unwrap_dek A km t (se_version s) (se_wrapped s) (wrap_aad t n (se_version s)) of
        Inl e \<Rightarrow> Inl e
      | Inr dek \<Rightarrow> aead_open A dek (se_cipher s) (value_aad t n))"

definition vault_rewrap :: "aead \<Rightarrow> bytes \<Rightarrow> key_map \<Rightarrow> sealed \<Rightarrow> secret_error + sealed option" where
  "vault_rewrap A nonce km s =
     (case current_version km (se_tenant s) of
        Inl e \<Rightarrow> Inl e
      | Inr current \<Rightarrow>
          if current = se_version s then Inr None
          else case unwrap_dek A km (se_tenant s) (se_version s) (se_wrapped s)
                      (wrap_aad (se_tenant s) (se_name s) (se_version s)) of
            Inl e \<Rightarrow> Inl e
          | Inr dek \<Rightarrow>
              (case wrap_dek A nonce km (se_tenant s) current dek (wrap_aad (se_tenant s) (se_name s) current) of
                 Inl e \<Rightarrow> Inl e
               | Inr wrapped \<Rightarrow> Inr (Some (s\<lparr>se_version := current, se_wrapped := wrapped\<rparr>))))"

section \<open>The store\<close>

type_synonym rows = "((str \<times> str) \<times> sealed) list"

definition store_put :: "sealed \<Rightarrow> rows \<Rightarrow> rows" where
  "store_put s rows = bt_insert (se_tenant s, se_name s) s rows"

definition sealed_get :: "str \<Rightarrow> str \<Rightarrow> rows \<Rightarrow> sealed option" where
  "sealed_get t n rows = map_of rows (t, n)"

definition store_delete :: "str \<Rightarrow> str \<Rightarrow> rows \<Rightarrow> rows \<times> bool" where
  "store_delete t n rows = (AList.delete (t, n) rows, map_of rows (t, n) \<noteq> None)"

definition store_list :: "str \<Rightarrow> rows \<Rightarrow> sealed list" where
  "store_list t rows = map snd (filter (\<lambda>((t', _), _). t' = t) rows)"

definition store_delete_tenant :: "str \<Rightarrow> rows \<Rightarrow> rows \<times> nat" where
  "store_delete_tenant t rows =
     (let kept = filter (\<lambda>((t', _), _). t' \<noteq> t) rows in (kept, length rows - length kept))"

section \<open>The broker's storage\<close>

record vault =
  v_keys :: key_map
  v_rows :: rows

definition provision_tenant :: "bytes \<Rightarrow> str \<Rightarrow> 'a vault_scheme \<Rightarrow> 'a vault_scheme" where
  "provision_tenant kek t v = v\<lparr>v_keys := fst (provision_keys kek t (v_keys v))\<rparr>"

definition put_secret :: "aead \<Rightarrow> bytes \<Rightarrow> bytes \<Rightarrow> bytes \<Rightarrow> str \<Rightarrow> str \<Rightarrow> bytes \<Rightarrow> 'a vault_scheme \<Rightarrow>
    'a vault_scheme \<times> (secret_error + unit)" where
  "put_secret A dek nonce1 nonce2 t n value v =
     (case validate_name n of
        Inl e \<Rightarrow> (v, Inl e)
      | Inr _ \<Rightarrow>
          (case vault_seal A dek nonce1 nonce2 (v_keys v) t n value of
             Inl e \<Rightarrow> (v, Inl e)
           | Inr s \<Rightarrow> (v\<lparr>v_rows := store_put s (v_rows v)\<rparr>, Inr ())))"

definition delete_secret :: "str \<Rightarrow> str \<Rightarrow> 'a vault_scheme \<Rightarrow> 'a vault_scheme \<times> bool" where
  "delete_secret t n v = (v\<lparr>v_rows := fst (store_delete t n (v_rows v))\<rparr>, snd (store_delete t n (v_rows v)))"

definition list_names :: "str \<Rightarrow> 'a vault_scheme \<Rightarrow> str list" where
  "list_names t v = map se_name (store_list t (v_rows v))"

text \<open>The loop of \<open>rotate_tenant\<close>; each re-wrap draws a nonce.\<close>

fun rewrap_all :: "aead \<Rightarrow> (nat \<Rightarrow> bytes) \<Rightarrow> key_map \<Rightarrow> sealed list \<Rightarrow> nat \<Rightarrow> rows \<Rightarrow> rows \<times> (secret_error + nat)" where
  "rewrap_all A nonces km [] k rows = (rows, Inr k)"
| "rewrap_all A nonces km (s # ss) k rows =
     (case vault_rewrap A (nonces (length ss)) km s of
        Inl e \<Rightarrow> (rows, Inl e)
      | Inr None \<Rightarrow> rewrap_all A nonces km ss k rows
      | Inr (Some s') \<Rightarrow> rewrap_all A nonces km ss (k + 1) (store_put s' rows))"

definition rotate_tenant :: "aead \<Rightarrow> bytes \<Rightarrow> (nat \<Rightarrow> bytes) \<Rightarrow> str \<Rightarrow> 'a vault_scheme \<Rightarrow>
    'a vault_scheme \<times> (secret_error + nat)" where
  "rotate_tenant A kek nonces t v =
     (case rotate_keys kek t (v_keys v) of
        (km, Inl e) \<Rightarrow> (v, Inl e)
      | (km, Inr _) \<Rightarrow>
          (let (rows, r) = rewrap_all A nonces km (store_list t (v_rows v)) 0 (v_rows v)
           in (v\<lparr>v_keys := km, v_rows := rows\<rparr>, r)))"

definition shred_vault :: "str \<Rightarrow> 'a vault_scheme \<Rightarrow> 'a vault_scheme \<times> (secret_error + unit)" where
  "shred_vault t v = (v\<lparr>v_keys := fst (shred_keys t (v_keys v))\<rparr>, snd (shred_keys t (v_keys v)))"

text \<open>What the vault holds under a tenant and a name.\<close>

definition secret_value :: "aead \<Rightarrow> 'a vault_scheme \<Rightarrow> str \<times> str \<Rightarrow> bytes option" where
  "secret_value A v = (\<lambda>(t, n).
     case sealed_get t n (v_rows v) of
       None \<Rightarrow> None
     | Some s \<Rightarrow> (case vault_open A (v_keys v) t n s of Inl _ \<Rightarrow> None | Inr b \<Rightarrow> Some b))"

section \<open>Calls on the vault, and what they mean\<close>

datatype vault_call =
    Provision bytes str
  | Put bytes bytes bytes str str bytes
  | Delete str str
  | Rotate bytes "nat \<Rightarrow> bytes" str
  | Shred str

fun vault_step :: "aead \<Rightarrow> vault_call \<Rightarrow> 'a vault_scheme \<Rightarrow> 'a vault_scheme \<times> bool" where
  "vault_step A (Provision kek t) v = (provision_tenant kek t v, True)"
| "vault_step A (Put dek n1 n2 t n value) v =
     (fst (put_secret A dek n1 n2 t n value v), snd (put_secret A dek n1 n2 t n value v) = Inr ())"
| "vault_step A (Delete t n) v = delete_secret t n v"
| "vault_step A (Rotate kek nonces t) v =
     (fst (rotate_tenant A kek nonces t v), \<not> isl (snd (rotate_tenant A kek nonces t v)))"
| "vault_step A (Shred t) v = (fst (shred_vault t v), snd (shred_vault t v) = Inr ())"

definition empty_vault :: vault where "empty_vault = \<lparr>v_keys = [], v_rows = []\<rparr>"

definition vault_after :: "aead \<Rightarrow> vault_call list \<Rightarrow> vault" where
  "vault_after A calls = fst (run (vault_step A) calls empty_vault)"

text \<open>The abstract store: a map, on which only an accepted write, a deletion and a shred have an effect.\<close>

fun spec_step :: "vault_call \<Rightarrow> bool \<Rightarrow> (str \<times> str \<Rightarrow> bytes option) \<Rightarrow> str \<times> str \<Rightarrow> bytes option" where
  "spec_step (Put _ _ _ t n value) ok m = (if ok then m((t, n) \<mapsto> value) else m)"
| "spec_step (Delete t n) _ m = m((t, n) := None)"
| "spec_step (Shred t) _ m = (\<lambda>(t', n). if t' = t then None else m (t', n))"
| "spec_step (Provision _ _) _ m = m"
| "spec_step (Rotate _ _ _) _ m = m"

text \<open>What the code relies on the AEAD for, and on \<open>OsRng\<close> and the array types for.\<close>

definition aead_ok :: "aead \<Rightarrow> bool" where
  "aead_ok A \<longleftrightarrow> (\<forall>k n a m c. ae_encrypt A k n a m = Some c \<longrightarrow> ae_decrypt A k n a c = Some m)"

fun sized :: "vault_call \<Rightarrow> bool" where
  "sized (Put dek n1 n2 _ _ _) \<longleftrightarrow> length dek = DEK_LEN \<and> length n1 = AEAD_NONCE_LEN \<and> length n2 = AEAD_NONCE_LEN"
| "sized (Rotate _ nonces _) \<longleftrightarrow> (\<forall>i. length (nonces i) = AEAD_NONCE_LEN)"
| "sized _ \<longleftrightarrow> True"

section \<open>The envelope opens what it sealed\<close>

lemma seal_open:
  "aead_ok A \<Longrightarrow> length nonce = AEAD_NONCE_LEN \<Longrightarrow> aead_seal A nonce k m a = Inr b \<Longrightarrow> aead_open A k b a = Inr m"
  by (auto simp: aead_seal_def aead_open_def aead_ok_def split: option.splits)

lemma wrap_unwrap:
  "aead_ok A \<Longrightarrow> length nonce = AEAD_NONCE_LEN \<Longrightarrow> length dek = DEK_LEN \<Longrightarrow>
   wrap_dek A nonce km t ver dek a = Inr w \<Longrightarrow> unwrap_dek A km t ver w a = Inr dek"
  by (auto simp: wrap_dek_def unwrap_dek_def dest: seal_open split: sum.splits)

lemma unwrap_length: "unwrap_dek A km t ver w a = Inr dek \<Longrightarrow> length dek = DEK_LEN"
  by (auto simp: unwrap_dek_def split: sum.splits if_splits)

lemma vault_seal_open:
  assumes "aead_ok A" and "length n1 = AEAD_NONCE_LEN" and "length n2 = AEAD_NONCE_LEN" and "length dek = DEK_LEN"
    and "vault_seal A dek n1 n2 km t n value = Inr s"
  shows "se_tenant s = t \<and> se_name s = n \<and> current_version km t = Inr (se_version s) \<and> vault_open A km t n s = Inr value"
proof -
  from assms(5) obtain ver ct w where "current_version km t = Inr ver"
    and "aead_seal A n1 dek value (value_aad t n) = Inr ct" "wrap_dek A n2 km t ver dek (wrap_aad t n ver) = Inr w"
    and "s = \<lparr>se_tenant = t, se_name = n, se_version = ver, se_wrapped = w, se_cipher = ct\<rparr>"
    by (auto simp: vault_seal_def split: sum.splits if_splits)
  moreover from this have "unwrap_dek A km t ver w (wrap_aad t n ver) = Inr dek" "aead_open A dek ct (value_aad t n) = Inr value"
    using wrap_unwrap [OF assms(1,3,4)] seal_open [OF assms(1,2)] by blast+
  ultimately show ?thesis by (simp add: vault_open_def)
qed

lemma rewrap_opens_same:
  assumes "aead_ok A" and "length nonce = AEAD_NONCE_LEN" and "vault_rewrap A nonce km s = Inr (Some s')"
  shows "se_tenant s' = se_tenant s \<and> se_name s' = se_name s \<and> current_version km (se_tenant s) = Inr (se_version s') \<and>
    vault_open A km t n s' = vault_open A km t n s"
proof -
  from assms(3) obtain ver dek w where "current_version km (se_tenant s) = Inr ver"
    and "unwrap_dek A km (se_tenant s) (se_version s) (se_wrapped s) (wrap_aad (se_tenant s) (se_name s) (se_version s)) = Inr dek"
    and "wrap_dek A nonce km (se_tenant s) ver dek (wrap_aad (se_tenant s) (se_name s) ver) = Inr w"
    and "s' = s\<lparr>se_version := ver, se_wrapped := w\<rparr>"
    by (auto simp: vault_rewrap_def split: sum.splits if_splits option.splits)
  moreover from this have "unwrap_dek A km (se_tenant s) ver w (wrap_aad (se_tenant s) (se_name s) ver) = Inr dek"
    using wrap_unwrap [OF assms(1,2)] unwrap_length by blast
  ultimately show ?thesis by (auto simp: vault_open_def)
qed

section \<open>The invariant\<close>

definition version_known :: "key_map \<Rightarrow> str \<Rightarrow> nat \<Rightarrow> bool" where
  "version_known km t ver \<longleftrightarrow> (\<exists>keys. map_of km t = Some keys \<and> ver < tk_next keys)"

definition rows_ok :: "key_map \<Rightarrow> rows \<Rightarrow> bool" where
  "rows_ok km rows \<longleftrightarrow> bt_ok rows \<and>
     (\<forall>t n s. map_of rows (t, n) = Some s \<longrightarrow> se_tenant s = t \<and> se_name s = n \<and> version_known km t (se_version s))"

definition keys_ok :: "key_map \<Rightarrow> bool" where
  "keys_ok km \<longleftrightarrow> (\<forall>t keys. map_of km t = Some keys \<longrightarrow> list_all (\<lambda>(ver, _). ver < tk_next keys) (tk_versions keys))"

definition vault_ok :: "'a vault_scheme \<Rightarrow> bool" where
  "vault_ok v \<longleftrightarrow> keys_ok (v_keys v) \<and> rows_ok (v_keys v) (v_rows v)"

text \<open>The key a row is opened with, and what it opens to.\<close>

definition kek_of :: "key_map \<Rightarrow> str \<Rightarrow> nat \<Rightarrow> bytes option" where
  "kek_of km t ver = (case with_kek km t ver of Inl _ \<Rightarrow> None | Inr kek \<Rightarrow> Some kek)"

definition opened :: "aead \<Rightarrow> key_map \<Rightarrow> rows \<Rightarrow> str \<times> str \<Rightarrow> bytes option" where
  "opened A km rows = (\<lambda>(t, n). case map_of rows (t, n) of None \<Rightarrow> None
     | Some s \<Rightarrow> (case vault_open A km t n s of Inl _ \<Rightarrow> None | Inr b \<Rightarrow> Some b))"

lemma secret_value_opened: "secret_value A v = opened A (v_keys v) (v_rows v)"
  by (simp add: secret_value_def opened_def sealed_get_def)

lemma open_cong:
  assumes "kek_of km' t (se_version s) = kek_of km t (se_version s)"
  shows "(case vault_open A km' t n s of Inl _ \<Rightarrow> None | Inr b \<Rightarrow> Some b) =
    (case vault_open A km t n s of Inl _ \<Rightarrow> None | Inr b \<Rightarrow> Some b)"
  using assms by (auto simp: vault_open_def unwrap_dek_def kek_of_def split: sum.splits)

lemma open_no_kek: "kek_of km t (se_version s) = None \<Longrightarrow> (case vault_open A km t n s of Inl _ \<Rightarrow> None | Inr b \<Rightarrow> Some b) = None"
  by (auto simp: vault_open_def unwrap_dek_def kek_of_def split: sum.splits)

lemma opened_cong:
  assumes "rows_ok km rows" and "\<And>t ver. version_known km t ver \<Longrightarrow> kek_of km' t ver = kek_of km t ver"
  shows "opened A km' rows = opened A km rows"
proof
  fix tn :: "str \<times> str"
  obtain t n where tn: "tn = (t, n)" by (cases tn)
  show "opened A km' rows tn = opened A km rows tn"
  proof (cases "map_of rows (t, n)")
    case (Some s)
    with assms(1) have "version_known km t (se_version s)" by (simp add: rows_ok_def)
    from open_cong [OF assms(2) [OF this]] Some show ?thesis by (simp add: tn opened_def)
  qed (simp add: tn opened_def)
qed

lemma find_fresh:
  "list_all (\<lambda>(v, _). v < m) xs \<Longrightarrow> ver < (m::nat) \<Longrightarrow> find (\<lambda>(v, _). v = ver) (xs @ [(m, k)]) = find (\<lambda>(v, _). v = ver) xs"
  by (induction xs) auto

lemma current_version_known: "keys_ok km \<Longrightarrow> current_version km t = Inr ver \<Longrightarrow> version_known km t ver"
  by (auto simp: current_version_def keys_ok_def version_known_def list_all_iff split: option.splits if_splits)
    (metis case_prodD last_in_set prod.collapse)

text \<open>Each key operation keeps the keys of the known versions, a shred apart.\<close>

lemma provision_kek:
  assumes "keys_ok km" and "version_known km t' ver"
  shows "kek_of (fst (provision_keys kek t km)) t' ver = kek_of km t' ver"
  using assms
  by (auto simp: provision_keys_def version_known_def kek_of_def with_kek_def Let_def split: option.splits)

lemma provision_ok: "keys_ok km \<Longrightarrow> keys_ok (fst (provision_keys kek t km))"
  by (auto simp: keys_ok_def provision_keys_def Let_def split: option.splits if_splits)

lemma provision_known: "version_known km t' ver \<Longrightarrow> version_known (fst (provision_keys kek t km)) t' ver"
  by (auto simp: provision_keys_def version_known_def Let_def)

lemma rotate_kek:
  assumes "keys_ok km" and "version_known km t' ver"
  shows "kek_of (fst (rotate_keys kek t km)) t' ver = kek_of km t' ver"
proof (cases "map_of km t")
  case (Some keys)
  with assms have "t' = t \<Longrightarrow> find (\<lambda>(v, _). v = ver) (tk_versions keys @ [(tk_next keys, kek)]) =
      find (\<lambda>(v, _). v = ver) (tk_versions keys)"
    by (intro find_fresh) (auto simp: keys_ok_def version_known_def)
  with Some show ?thesis by (simp add: rotate_keys_def kek_of_def with_kek_def)
qed (simp add: rotate_keys_def)

lemma rotate_ok: "keys_ok km \<Longrightarrow> keys_ok (fst (rotate_keys kek t km))"
  by (fastforce simp: keys_ok_def rotate_keys_def list_all_iff less_Suc_eq split: option.splits if_splits)

lemma rotate_known: "version_known km t' ver \<Longrightarrow> version_known (fst (rotate_keys kek t km)) t' ver"
  by (auto simp: rotate_keys_def version_known_def split: option.splits)

lemma shred_kek:
  "kek_of (fst (shred_keys t km)) t' ver = (if t' = t then None else kek_of km t' ver)"
  by (simp add: shred_keys_def kek_of_def with_kek_def split: option.splits)

lemma shred_ok: "keys_ok km \<Longrightarrow> keys_ok (fst (shred_keys t km))"
  by (auto simp: keys_ok_def shred_keys_def split: option.splits if_splits)

lemma shred_known: "version_known km t' ver \<Longrightarrow> version_known (fst (shred_keys t km)) t' ver"
  by (auto simp: shred_keys_def version_known_def split: option.splits)

lemma rows_ok_mono:
  "rows_ok km rows \<Longrightarrow> (\<And>t ver. version_known km t ver \<Longrightarrow> version_known km' t ver) \<Longrightarrow> rows_ok km' rows"
  by (simp add: rows_ok_def)

lemma rows_ok_put:
  "rows_ok km rows \<Longrightarrow> version_known km (se_tenant s) (se_version s) \<Longrightarrow> rows_ok km (store_put s rows)"
  by (auto simp: rows_ok_def store_put_def bt_ok_insert)

definition row_key :: "sealed \<Rightarrow> str \<times> str" where
  "row_key s = (se_tenant s, se_name s)"

lemma opened_put:
  assumes "bt_ok rows"
  shows "opened A km (store_put s rows) =
    (opened A km rows)(row_key s := (case vault_open A km (se_tenant s) (se_name s) s of Inl _ \<Rightarrow> None | Inr b \<Rightarrow> Some b))"
  using assms by (auto simp: opened_def store_put_def row_key_def fun_eq_iff)

lemma rewrap_all_same:
  assumes "aead_ok A" and "\<And>i. length (nonces i) = AEAD_NONCE_LEN" and "keys_ok km"
    and "rows_ok km rows" and "\<forall>s\<in>set ss. map_of rows (row_key s) = Some s" and "distinct (map row_key ss)"
  shows "rows_ok km (fst (rewrap_all A nonces km ss k rows)) \<and>
    opened A km (fst (rewrap_all A nonces km ss k rows)) = opened A km rows"
  using assms(4-6)
proof (induction ss arbitrary: k rows)
  case (Cons s ss)
  consider e where "vault_rewrap A (nonces (length ss)) km s = Inl e" | "vault_rewrap A (nonces (length ss)) km s = Inr None"
    | s' where "vault_rewrap A (nonces (length ss)) km s = Inr (Some s')"
    by (metis option.exhaust sum.exhaust)
  then show ?case
  proof cases
    case 1
    with Cons.prems show ?thesis by simp
  next
    case 2
    with Cons show ?thesis by simp
  next
    case 3
    from rewrap_opens_same [OF assms(1,2) 3]
    have s': "row_key s' = row_key s" "current_version km (se_tenant s) = Inr (se_version s')" "se_tenant s' = se_tenant s"
      "se_name s' = se_name s" "\<And>t n. vault_open A km t n s' = vault_open A km t n s"
      by (auto simp: row_key_def)
    have row: "map_of rows (row_key s) = Some s" using Cons.prems(2) by simp
    have bt: "bt_ok rows" using Cons.prems(1) by (simp add: rows_ok_def)
    have "rows_ok km (store_put s' rows)"
      using Cons.prems(1) s' current_version_known [OF assms(3)] by (intro rows_ok_put) auto
    moreover have mp: "map_of (store_put s' rows) = (map_of rows)(row_key s \<mapsto> s')"
      using bt s'(1) by (simp add: store_put_def row_key_def)
    have "\<forall>x\<in>set ss. map_of (store_put s' rows) (row_key x) = Some x"
    proof
      fix x assume x: "x \<in> set ss"
      then have "row_key x \<noteq> row_key s" using Cons.prems(3) by (metis distinct.simps(2) image_eqI image_set list.map(2))
      with x Cons.prems(2) show "map_of (store_put s' rows) (row_key x) = Some x" by (simp add: mp)
    qed
    moreover have "opened A km (store_put s' rows) = opened A km rows"
      using row s'(5) by (auto simp: opened_def mp row_key_def fun_eq_iff)
    ultimately show ?thesis using Cons.IH [of "store_put s' rows" "k + 1"] Cons.prems(3) 3 by simp
  qed
qed simp

lemma store_list_rows:
  assumes "rows_ok km rows"
  shows "\<forall>s\<in>set (store_list t rows). map_of rows (row_key s) = Some s" and "distinct (map row_key (store_list t rows))"
proof -
  from assms have ok: "hm_ok rows" by (simp add: rows_ok_def bt_ok_distinct)
  have key: "row_key s = k" if "(k, s) \<in> set rows" for k s
    using that assms hm_mem_iff [OF ok] by (cases k) (auto simp: rows_ok_def row_key_def)
  show "\<forall>s\<in>set (store_list t rows). map_of rows (row_key s) = Some s"
    using key hm_mem_iff [OF ok] by (fastforce simp: store_list_def)
  have "map row_key (store_list t rows) = map fst (filter (\<lambda>((t', _), _). t' = t) rows)"
    using key by (auto simp: store_list_def)
  then show "distinct (map row_key (store_list t rows))" using ok by (simp add: distinct_map_filter)
qed

lemma store_list_tenant: "rows_ok km rows \<Longrightarrow> s \<in> set (store_list t rows) \<Longrightarrow> se_tenant s = t"
proof -
  assume ro: "rows_ok km rows" and "s \<in> set (store_list t rows)"
  then obtain n where "((t, n), s) \<in> set rows" by (auto simp: store_list_def)
  moreover have "bt_ok rows" by (rule conjunct1 [OF ro [unfolded rows_ok_def]])
  then have "hm_ok rows" by (rule bt_ok_distinct)
  ultimately have "map_of rows (t, n) = Some s" by (rule iffD1 [OF hm_mem_iff, rotated])
  with ro show ?thesis unfolding rows_ok_def by blast
qed

lemma rotate_same:
  assumes "aead_ok A" and "\<And>i. length (nonces i) = AEAD_NONCE_LEN" and "vault_ok v"
  shows "vault_ok (fst (rotate_tenant A kek nonces t v)) \<and>
    secret_value A (fst (rotate_tenant A kek nonces t v)) = secret_value A v"
proof (cases "rotate_keys kek t (v_keys v)")
  case (Pair km r)
  have km: "km = fst (rotate_keys kek t (v_keys v))" using Pair by simp
  from assms(3) have ko: "keys_ok (v_keys v)" and ro: "rows_ok (v_keys v) (v_rows v)" by (simp_all add: vault_ok_def)
  have k': "keys_ok km" and r': "rows_ok km (v_rows v)"
    unfolding km using rotate_ok [OF ko] rows_ok_mono [OF ro rotate_known] by auto
  have same: "opened A km (v_rows v) = opened A (v_keys v) (v_rows v)"
    unfolding km using opened_cong [OF ro] rotate_kek [OF ko] by blast
  from rewrap_all_same [OF assms(1,2) k' r' store_list_rows [OF r', where t = t], where k = 0] same assms(3) show ?thesis
    by (cases r) (auto simp: rotate_tenant_def Pair vault_ok_def secret_value_opened k' case_prod_unfold Let_def)
qed

lemma vault_step_refines:
  assumes "aead_ok A" and "sized c" and "vault_ok v"
  shows "vault_ok (fst (vault_step A c v)) \<and>
    secret_value A (fst (vault_step A c v)) = spec_step c (snd (vault_step A c v)) (secret_value A v)"
proof (cases c)
  case (Provision kek t)
  from assms(3) have ko: "keys_ok (v_keys v)" and ro: "rows_ok (v_keys v) (v_rows v)" by (simp_all add: vault_ok_def)
  have "opened A (fst (provision_keys kek t (v_keys v))) (v_rows v) = opened A (v_keys v) (v_rows v)"
    using opened_cong [OF ro] provision_kek [OF ko] by blast
  with rows_ok_mono [OF ro provision_known] provision_ok [OF ko, of kek t] show ?thesis by (simp add: Provision provision_tenant_def vault_ok_def secret_value_opened)
next
  case (Put dek n1 n2 t n x)
  show ?thesis
  proof (cases "snd (put_secret A dek n1 n2 t n x v)")
    case (Inl e)
    then have "fst (put_secret A dek n1 n2 t n x v) = v"
      by (auto simp: put_secret_def split: sum.splits)
    with Inl assms(3) show ?thesis by (simp add: Put)
  next
    case (Inr u)
    then obtain s where s: "vault_seal A dek n1 n2 (v_keys v) t n x = Inr s"
      and v': "fst (put_secret A dek n1 n2 t n x v) = v\<lparr>v_rows := store_put s (v_rows v)\<rparr>"
      by (auto simp: put_secret_def split: sum.splits)
    from vault_seal_open [OF assms(1) _ _ _ s] assms(2) have
      o: "se_tenant s = t" "se_name s = n" "current_version (v_keys v) t = Inr (se_version s)" "vault_open A (v_keys v) t n s = Inr x"
      by (auto simp: Put)
    from assms(3) have ko: "keys_ok (v_keys v)" and ro: "rows_ok (v_keys v) (v_rows v)" by (simp_all add: vault_ok_def)
    have "rows_ok (v_keys v) (store_put s (v_rows v))"
      using rows_ok_put [OF ro] current_version_known [OF ko o(3)] o(1) by simp
    with v' o Inr ko ro show ?thesis
      by (simp add: Put vault_ok_def secret_value_opened opened_put rows_ok_def row_key_def)
  qed
next
  case (Delete t n)
  from assms(3) show ?thesis
    by (auto simp: Delete delete_secret_def store_delete_def vault_ok_def rows_ok_def bt_ok_delete secret_value_opened
      opened_def fun_eq_iff)
next
  case (Rotate kek nonces t)
  with rotate_same [OF assms(1) _ assms(3), of nonces kek t] assms(2) show ?thesis by simp
next
  case (Shred t)
  from assms(3) have ko: "keys_ok (v_keys v)" and ro: "rows_ok (v_keys v) (v_rows v)" by (simp_all add: vault_ok_def)
  have "opened A (fst (shred_keys t (v_keys v))) (v_rows v) (t', n) =
      (if t' = t then None else opened A (v_keys v) (v_rows v) (t', n))" for t' n
  proof (cases "map_of (v_rows v) (t', n)")
    case (Some s)
    show ?thesis
    proof (cases "t' = t")
      case True
      then have "kek_of (fst (shred_keys t (v_keys v))) t' (se_version s) = None" by (simp add: shred_kek)
      from open_no_kek [OF this] Some True show ?thesis by (simp add: opened_def)
    next
      case False
      then have "kek_of (fst (shred_keys t (v_keys v))) t' (se_version s) = kek_of (v_keys v) t' (se_version s)"
        by (simp add: shred_kek)
      from open_cong [OF this] Some False show ?thesis by (simp add: opened_def)
    qed
  qed (simp add: opened_def)
  then have "opened A (fst (shred_keys t (v_keys v))) (v_rows v) =
      (\<lambda>(t', n). if t' = t then None else opened A (v_keys v) (v_rows v) (t', n))" by auto
  moreover have "rows_ok (fst (shred_keys t (v_keys v))) (v_rows v)" using rows_ok_mono [OF ro] shred_known by blast
  ultimately show ?thesis using shred_ok [OF ko, of t]
    by (simp add: Shred shred_vault_def vault_ok_def secret_value_opened)
qed

lemma vault_ok_empty: "vault_ok empty_vault"
  by (simp add: vault_ok_def empty_vault_def keys_ok_def rows_ok_def)

lemma vault_after_ok: "aead_ok A \<Longrightarrow> list_all sized calls \<Longrightarrow> vault_ok (vault_after A calls)"
  unfolding vault_after_def
  by (rule run_invariant [where P = vault_ok, OF vault_ok_empty]) (simp add: vault_step_refines list_all_iff)

text \<open>C15. The secret store refines a map. For every sequence of calls on a fresh vault, in which each answer
  says whether the call was accepted: what the vault opens under each tenant and name is what the
  abstract store holds after the same calls, where an accepted write sets one entry, a deletion removes
  one, a crypto-shred removes every entry of its tenant, and provisioning and rotation (finished, refused
  or stopped halfway) change nothing. So a value sealed before a shred never opens again, whatever keys
  the tenant is given later, and no call reaches another tenant's value.
\<close>

theorem vault_refines_map:
  assumes "aead_ok A" and "list_all sized calls"
  shows "secret_value A (vault_after A calls) =
    fold (\<lambda>(c, ok). spec_step c ok) (zip calls (snd (run (vault_step A) calls empty_vault))) (\<lambda>_. None)"
  using assms(2)
proof -
  have "vault_ok v \<Longrightarrow> secret_value A (fst (run (vault_step A) calls v)) =
      fold (\<lambda>(c, ok). spec_step c ok) (zip calls (snd (run (vault_step A) calls v))) (secret_value A v)" for v :: vault
    using assms(2)
  proof (induction calls arbitrary: v)
    case (Cons c calls)
    then show ?case using vault_step_refines [OF assms(1), of c v] by (simp add: Let_def case_prod_unfold)
  qed simp
  moreover note vault_ok_empty
  moreover have "secret_value A empty_vault = (\<lambda>_. None)"
    by (auto simp: secret_value_opened empty_vault_def opened_def)
  ultimately show ?thesis by (simp add: vault_after_def)
qed

text \<open>A concrete AEAD that changes nothing.\<close>

definition demo_aead :: aead where
  "demo_aead = \<lparr>ae_encrypt = (\<lambda>_ _ _ m. Some m), ae_decrypt = (\<lambda>_ _ _ c. Some c)\<rparr>"

lemma demo_aead_ok: "aead_ok demo_aead"
  by (simp add: aead_ok_def demo_aead_def)

definition demo_nonce :: bytes where "demo_nonce = replicate 24 0"
definition demo_dek :: bytes where "demo_dek = replicate 32 5"

lemma demo_lengths: "length demo_nonce = AEAD_NONCE_LEN" "length demo_dek = DEK_LEN"
  by (simp_all add: demo_nonce_def demo_dek_def AEAD_NONCE_LEN_def DEK_LEN_def)

lemma demo_open: "aead_open demo_aead k (demo_nonce @ c) a = Inr c"
  by (simp add: aead_open_def demo_aead_def demo_lengths [symmetric])

lemma demo_seal: "aead_seal demo_aead n k m a = Inr (n @ m)"
  by (simp add: aead_seal_def demo_aead_def)

lemmas vault_eval = vault_after_def empty_vault_def provision_tenant_def provision_keys_def put_secret_def validate_name_def
  is_upper_def RESERVED_NAMES_def vault_seal_def current_version_def wrap_dek_def with_kek_def store_put_def
  rotate_tenant_def rotate_keys_def store_list_def vault_rewrap_def unwrap_dek_def shred_vault_def shred_keys_def
  secret_value_def sealed_get_def vault_open_def demo_open demo_seal demo_lengths Let_def

definition demo_vault_calls :: "vault_call list" where
  "demo_vault_calls = [Provision [1] (lit ''acme''), Put demo_dek demo_nonce demo_nonce (lit ''acme'') (lit ''T'') [9],
     Rotate [2] (\<lambda>_. demo_nonce) (lit ''acme''), Shred (lit ''acme''), Provision [3] (lit ''acme'')]"

theorem vault_refines_map_witness:
  "secret_value demo_aead (vault_after demo_aead demo_vault_calls) =
     fold (\<lambda>(c, ok). spec_step c ok) (zip demo_vault_calls (snd (run (vault_step demo_aead) demo_vault_calls empty_vault)))
       (\<lambda>_. None) \<and>
   secret_value demo_aead (vault_after demo_aead (take 3 demo_vault_calls)) (lit ''acme'', lit ''T'') = Some [9] \<and>
   secret_value demo_aead (vault_after demo_aead demo_vault_calls) (lit ''acme'', lit ''T'') = None"
proof -
  have "list_all sized demo_vault_calls"
    by (simp add: demo_vault_calls_def demo_lengths)
  from vault_refines_map [OF demo_aead_ok this]
  have "secret_value demo_aead (vault_after demo_aead demo_vault_calls) =
     fold (\<lambda>(c, ok). spec_step c ok) (zip demo_vault_calls (snd (run (vault_step demo_aead) demo_vault_calls empty_vault)))
       (\<lambda>_. None)" .
  moreover have "secret_value demo_aead (vault_after demo_aead (take 3 demo_vault_calls)) (lit ''acme'', lit ''T'') = Some [9]"
    by (simp add: demo_vault_calls_def vault_eval)
  moreover have "secret_value demo_aead (vault_after demo_aead demo_vault_calls) (lit ''acme'', lit ''T'') = None"
    by (simp add: demo_vault_calls_def vault_eval)
  ultimately show ?thesis by blast
qed

section \<open>Rows that outlive their key\<close>

lemma rewrap_all_blocked:
  assumes "s \<in> set ss" and "vault_rewrap A nonce km s = Inl e" and "\<And>n. vault_rewrap A n km s = Inl e"
  shows "\<exists>e. snd (rewrap_all A nonces km ss k rows) = Inl e"
  using assms(1)
proof (induction ss arbitrary: k rows)
  case (Cons x ss)
  consider e where "vault_rewrap A (nonces (length ss)) km x = Inl e" | "vault_rewrap A (nonces (length ss)) km x = Inr None"
    | s' where "vault_rewrap A (nonces (length ss)) km x = Inr (Some s')"
    by (metis option.exhaust sum.exhaust)
  then show ?case
    using Cons assms(3) by cases auto
qed simp

text \<open>C36. Rows that outlive a crypto-shred are not inert: in every reachable state of the vault, if a row of
  a tenant is sealed under a key version that is gone (the tenant was shredded and enrolled again, the
  rows being left in place), then every attempt to rotate that tenant's key fails.
\<close>

theorem dead_row_blocks_rotation:
  assumes "list_all sized calls" and "aead_ok A"
    and "s \<in> set (store_list t (v_rows (vault_after A calls)))"
    and "with_kek (v_keys (vault_after A calls)) t (se_version s) = Inl e"
  shows "\<exists>e. snd (rotate_tenant A kek nonces t (vault_after A calls)) = Inl e"
proof -
  let ?v = "vault_after A calls"
  from vault_after_ok [OF assms(2,1)] have ko: "keys_ok (v_keys ?v)" and ro: "rows_ok (v_keys ?v) (v_rows ?v)" by (simp_all add: vault_ok_def)
  have row: "map_of (v_rows ?v) (row_key s) = Some s" using store_list_rows(1) [OF ro] assms(3) by blast
  have "se_tenant s = t"
    using assms(3) row ro store_list_tenant [OF ro] by blast
  with row ro have known: "version_known (v_keys ?v) t (se_version s)" by (auto simp: rows_ok_def row_key_def)
  then obtain keys where keys: "map_of (v_keys ?v) t = Some keys" "se_version s < tk_next keys"
    by (auto simp: version_known_def)
  define km where "km = fst (rotate_keys kek t (v_keys ?v))"
  have rk: "rotate_keys kek t (v_keys ?v) = (km, Inr (tk_next keys))" using keys by (simp add: km_def rotate_keys_def)
  have cur: "current_version km t = Inr (tk_next keys)"
    using keys by (simp add: km_def rotate_keys_def current_version_def)
  have "kek_of km t (se_version s) = None"
    using rotate_kek [OF ko known] assms(4) by (simp add: km_def kek_of_def)
  then obtain e' where "with_kek km t (se_version s) = Inl e'" by (auto simp: kek_of_def split: sum.splits)
  then have "vault_rewrap A n km s = Inl e'" for n
    using cur keys(2) \<open>se_tenant s = t\<close> by (simp add: vault_rewrap_def unwrap_dek_def)
  from rewrap_all_blocked [OF assms(3) this this] show ?thesis
    by (simp add: rotate_tenant_def rk case_prod_unfold Let_def)
qed

theorem dead_row_blocks_rotation_witness:
  "\<exists>e. snd (rotate_tenant demo_aead [4] (\<lambda>_. demo_nonce) (lit ''acme'') (vault_after demo_aead demo_vault_calls)) = Inl e"
proof -
  define row where "row = hd (store_list (lit ''acme'') (v_rows (vault_after demo_aead demo_vault_calls)))"
  have a: "list_all sized demo_vault_calls"
    by (simp add: demo_vault_calls_def demo_lengths)
  have "store_list (lit ''acme'') (v_rows (vault_after demo_aead demo_vault_calls)) \<noteq> []"
    by (simp add: demo_vault_calls_def vault_eval)
  then have b: "row \<in> set (store_list (lit ''acme'') (v_rows (vault_after demo_aead demo_vault_calls)))"
    by (simp add: row_def)
  have c: "with_kek (v_keys (vault_after demo_aead demo_vault_calls)) (lit ''acme'') (se_version row) = Inl (NoKekVersion (lit ''acme'') 2)"
    unfolding row_def by (simp add: demo_vault_calls_def vault_eval)
  show ?thesis by (rule dead_row_blocks_rotation [OF a demo_aead_ok b c])
qed

end
