(* ===== verification/Ci_Mask.thy ===== *)
theory Ci_Mask
  imports Ci_Text
begin

text \<open>
  The log masker (\<open>src/crates/hull-ci-secrets/src/mask.rs\<close>): the registered values, longest first, and the
  scan that replaces their occurrences. The source calls it a backstop and lists what defeats it; shown
  is what it does promise: when no value contains the mask's own character, no registered value is left
  in what it returns, including one that the replacement of another could have put together.
\<close>

definition MASK :: bytes where "MASK = lit ''***''"
definition MIN_MASKABLE_LEN :: nat where "MIN_MASKABLE_LEN = 6"

type_synonym masker = "bytes list"

definition masker_new :: masker where "masker_new = []"

definition mask_register :: "bytes \<Rightarrow> masker \<Rightarrow> masker \<times> bool" where
  "mask_register value m =
     (if length value < MIN_MASKABLE_LEN then (m, False)
      else if value \<in> set m then (m, True)
      else (sort_key (\<lambda>v. - int (length v)) (m @ [value]), True))"

definition longest_value :: "masker \<Rightarrow> nat" where
  "longest_value m = (case m of [] \<Rightarrow> 0 | v # _ \<Rightarrow> length v)"

text \<open>The loop of \<open>replace_all\<close> from position \<open>i\<close> on: the rest of the haystack. Its needle is not empty.\<close>

fun replace_from :: "bytes \<Rightarrow> bytes \<Rightarrow> bytes \<Rightarrow> bytes" where
  "replace_from needle rep [] = []"
| "replace_from needle rep (x # xs) =
     (if starts_with (x # xs) needle then rep @ replace_from needle rep (drop (length needle - 1) xs)
      else x # replace_from needle rep xs)"

definition replace_all :: "bytes \<Rightarrow> bytes \<Rightarrow> bytes \<Rightarrow> bytes" where
  "replace_all haystack needle rep =
     (if needle = [] \<or> length needle > length haystack then haystack else replace_from needle rep haystack)"

definition mask_bytes :: "masker \<Rightarrow> bytes \<Rightarrow> bytes" where
  "mask_bytes m bs = fold (\<lambda>v cur. replace_all cur v MASK) m bs"

definition masker_of :: "bytes list \<Rightarrow> masker" where
  "masker_of vs = fold (\<lambda>v m. fst (mask_register v m)) vs masker_new"

section \<open>Occurrences\<close>

lemma MASK_eq: "MASK = [42, 42, 42]"
  by (simp add: MASK_def)

lemma contains_suffix: "contains_str s p \<Longrightarrow> contains_str (a @ s) p"
  by (metis append_assoc contains_str_iff)

text \<open>A pattern without the mask's character that starts the output starts the input.\<close>

lemma replace_prefix:
  assumes "42 \<notin> set v" and "starts_with (replace_from n MASK hs) v"
  shows "starts_with hs v"
  using assms
proof (induction hs arbitrary: v)
  case Nil
  then show ?case by simp
next
  case (Cons x xs)
  show ?case
  proof (cases v)
    case Nil
    then show ?thesis by (simp add: starts_with_def)
  next
    case (Cons a v')
    with Cons.prems Cons.IH [of v'] show ?thesis
      by (auto simp: starts_with_def MASK_eq split: if_splits)
  qed
qed

lemma contains_after_mask:
  assumes "42 \<notin> set v" and "v \<noteq> []" and "contains_str (MASK @ s) v"
  shows "contains_str s v"
  using assms by (cases v) (auto simp: MASK_eq starts_with_def)

text \<open>Replacing introduces no occurrence of such a pattern, and leaves none of the needle itself.\<close>

lemma replace_introduces_none:
  assumes "42 \<notin> set v" and "v \<noteq> []" and "contains_str (replace_from n MASK hs) v"
  shows "contains_str hs v"
  using assms(3)
proof (induction n MASK hs rule: replace_from.induct)
  case (2 n x xs)
  show ?case
  proof (cases "starts_with (x # xs) n")
    case True
    with 2 have "contains_str (replace_from n MASK (drop (length n - 1) xs)) v"
      using contains_after_mask [OF assms(1,2)] by simp
    with 2(1) True have "contains_str (drop (length n - 1) xs) v" by simp
    from contains_suffix [OF this, of "take (length n - 1) xs"] show ?thesis by simp
  next
    case False
    with 2(3) have "starts_with (x # replace_from n MASK xs) v \<or> contains_str (replace_from n MASK xs) v" by simp
    then show ?thesis
    proof
      assume "starts_with (x # replace_from n MASK xs) v"
      then have "starts_with (replace_from n MASK (x # xs)) v" using False by simp
      then have "starts_with (x # xs) v" using replace_prefix [OF assms(1)] by blast
      then show ?thesis by simp
    next
      assume "contains_str (replace_from n MASK xs) v"
      with 2(2) False show ?thesis by simp
    qed
  qed
qed simp

lemma replace_removes:
  assumes "42 \<notin> set n" and "n \<noteq> []"
  shows "\<not> contains_str (replace_from n MASK hs) n"
  using assms
proof (induction n MASK hs rule: replace_from.induct)
  case (2 n x xs)
  show ?case
  proof (cases "starts_with (x # xs) n")
    case True
    then have "\<not> contains_str (replace_from n MASK (drop (length n - 1) xs)) n" by (rule 2(1) [OF _ 2(3,4)])
    then have "\<not> contains_str (MASK @ replace_from n MASK (drop (length n - 1) xs)) n"
      using contains_after_mask [OF 2(3,4)] by blast
    with True show ?thesis by (simp only: replace_from.simps if_True) simp
  next
    case False
    have "\<not> starts_with (replace_from n MASK (x # xs)) n"
      using False replace_prefix [of n n "x # xs"] 2(3) by blast
    with False 2(2-4) show ?thesis by simp
  qed
qed simp

lemma too_long_absent: "length p > length s \<Longrightarrow> \<not> contains_str s p"
  by (auto simp: contains_str_iff)

lemma replace_all_introduces_none:
  "42 \<notin> set v \<Longrightarrow> v \<noteq> [] \<Longrightarrow> contains_str (replace_all hs n MASK) v \<Longrightarrow> contains_str hs v"
  by (auto simp: replace_all_def dest: replace_introduces_none split: if_splits)

lemma replace_all_removes: "42 \<notin> set n \<Longrightarrow> n \<noteq> [] \<Longrightarrow> \<not> contains_str (replace_all hs n MASK) n"
  by (auto simp: replace_all_def dest: too_long_absent replace_removes)

lemma mask_introduces_none:
  "42 \<notin> set v \<Longrightarrow> v \<noteq> [] \<Longrightarrow> contains_str (mask_bytes m bs) v \<Longrightarrow> contains_str bs v"
  unfolding mask_bytes_def by (induction m arbitrary: bs) (auto dest: replace_all_introduces_none)

lemma mask_removes:
  assumes "v \<in> set m" and "42 \<notin> set v" and "v \<noteq> []"
  shows "\<not> contains_str (mask_bytes m bs) v"
proof -
  from assms(1) obtain a b where "m = a @ v # b" by (meson split_list)
  then have "mask_bytes m bs = mask_bytes b (replace_all (mask_bytes a bs) v MASK)" by (simp add: mask_bytes_def)
  then show ?thesis using mask_introduces_none [OF assms(2,3)] replace_all_removes [OF assms(2,3)] by metis
qed

section \<open>Registration\<close>

lemma set_register: "set (fst (mask_register v m)) = (if length v < MIN_MASKABLE_LEN then set m else insert v (set m))"
  by (auto simp: mask_register_def)

lemma set_masker_of: "set (masker_of vs) = {v \<in> set vs. MIN_MASKABLE_LEN \<le> length v}"
proof -
  have "set (fold (\<lambda>v m. fst (mask_register v m)) vs m) = set m \<union> {v \<in> set vs. MIN_MASKABLE_LEN \<le> length v}" for m
    by (induction vs arbitrary: m) (auto simp: set_register)
  then show ?thesis by (simp add: masker_of_def masker_new_def)
qed

lemma sorted_masker_of: "sorted_wrt (\<ge>) (map length (masker_of vs))"
proof -
  have "sorted_wrt (\<ge>) (map length (fst (mask_register v m)))" if "sorted_wrt (\<ge>) (map length m)" for v m
  proof -
    have "sorted (map (\<lambda>v. - int (length v)) (sort_key (\<lambda>v. - int (length v)) (m @ [v])))" by simp
    then have "sorted_wrt (\<ge>) (map length (sort_key (\<lambda>v. - int (length v)) (m @ [v])))"
      by (simp add: sorted_wrt_map)
    with that show ?thesis by (simp add: mask_register_def)
  qed
  then have "sorted_wrt (\<ge>) (map length (fold (\<lambda>v m. fst (mask_register v m)) vs m))"
    if "sorted_wrt (\<ge>) (map length m)" for m
    using that by (induction vs arbitrary: m) auto
  then show ?thesis by (simp add: masker_of_def masker_new_def)
qed



end
