(* ===== verification/Ci_Broker.thy ===== *)
theory Ci_Broker
  imports Ci_Vault Ci_Mask
begin

text \<open>
  The secret broker's gate: capabilities (\<open>src/crates/hull-ci-secrets/src/capability.rs\<close>), minting,
  redemption, re-assertion and the break-glass calls (\<open>broker.rs\<close>) and the package proxy's family of
  capabilities (\<open>package.rs\<close>). A method that takes a lock is one step. Shown: a capability discloses at
  most once, and only what it was minted for: for a member-authored job, to the principal it names, before
  its expiry, not after its own or its tenant's revocation, and no other tenant's values.
\<close>

section \<open>Capabilities\<close>

definition DEFAULT_TTL_SECS :: nat where "DEFAULT_TTL_SECS = 60"
definition CAP_PREFIX :: str where "CAP_PREFIX = lit ''hcap_''"

definition cap_token_mint :: "crates \<Rightarrow> bytes \<Rightarrow> bytes \<Rightarrow> str \<times> bytes \<times> bytes" where
  "cap_token_mint K i secret = bearer_mint K CAP_PREFIX i secret"

definition cap_token_parse :: "crates \<Rightarrow> str \<Rightarrow> secret_error + bytes \<times> bytes" where
  "cap_token_parse K token = (case bearer_parse K CAP_PREFIX token of None \<Rightarrow> Inl BadCapability | Some p \<Rightarrow> Inr p)"

record capability_grant =
  cg_cap_id :: bytes
  cg_tenant :: str
  cg_job :: job_id
  cg_node :: str
  cg_names :: "str list"
  cg_author :: author_class
  cg_expires_at :: nat

record proxy_grant =
  pg_cap_id :: bytes
  pg_tenant :: str
  pg_job :: job_id
  pg_proxy :: str
  pg_names :: "str list"
  pg_author :: author_class
  pg_expires_at :: nat

text \<open>\<open>CapRecord\<close> and \<open>ProxyCapRecord\<close>: the same record over the two grants.\<close>

record 'g cap_record =
  cp_grant :: 'g
  cp_digest :: bytes
  cp_consumed :: bool
  cp_revoked :: bool

definition cap_authenticates :: "crates \<Rightarrow> 'g cap_record \<Rightarrow> bytes \<Rightarrow> bool" where
  "cap_authenticates K r presented \<longleftrightarrow> ct_eq K (cp_digest r) presented"

type_synonym 'g caps = "(bytes \<times> 'g cap_record) list"

record capability_request =
  rq_tenant :: str
  rq_job :: job_id
  rq_node :: str
  rq_declared :: "str list"
  rq_author :: author_class

record proxy_request =
  pr_tenant :: str
  pr_job :: job_id
  pr_proxy :: str
  pr_declared :: "str list"
  pr_author :: author_class
  pr_expires_at :: nat

definition for_assignment :: "assignment \<Rightarrow> str \<Rightarrow> str list \<Rightarrow> capability_request" where
  "for_assignment a node declared =
     \<lparr>rq_tenant = a_tenant a, rq_job = a_job_id a, rq_node = node, rq_declared = declared, rq_author = a_author_class a\<rparr>"

record delivered =
  dl_tenant :: str
  dl_job :: job_id
  dl_values :: "(str \<times> bytes) list"

definition delivered_names :: "delivered \<Rightarrow> str list" where
  "delivered_names d = map fst (dl_values d)"

definition delivered_get :: "delivered \<Rightarrow> str \<Rightarrow> bytes option" where
  "delivered_get d n = map_option snd (find (\<lambda>(m, _). m = n) (dl_values d))"

definition to_env_vars :: "delivered \<Rightarrow> (str \<times> str) list" where
  "to_env_vars d = List.map_filter (\<lambda>(n, v). map_option (Pair n) (from_utf8 v)) (dl_values d)"

definition delivered_masker :: "delivered \<Rightarrow> masker" where
  "delivered_masker d = masker_of (map snd (dl_values d))"

section \<open>The broker\<close>

record broker = vault +
  b_caps :: "capability_grant caps"
  b_proxy_caps :: "proxy_grant caps"
  b_ttl_secs :: nat

definition saturating_add :: "nat \<Rightarrow> nat \<Rightarrow> nat" where
  "saturating_add a b = min (a + b) 18446744073709551615"

fun check_declared :: "str \<Rightarrow> rows \<Rightarrow> str list \<Rightarrow> secret_error + unit" where
  "check_declared t rows [] = Inr ()"
| "check_declared t rows (n # ns) =
     (case validate_name n of
        Inl e \<Rightarrow> Inl e
      | Inr _ \<Rightarrow> if sealed_get t n rows = None then Inl (UnknownSecret t n) else check_declared t rows ns)"

text \<open>\<open>i\<close> and \<open>secret\<close> are the token's random halves.\<close>

definition mint :: "crates \<Rightarrow> bytes \<Rightarrow> bytes \<Rightarrow> nat \<Rightarrow> capability_request \<Rightarrow> broker \<Rightarrow>
    broker \<times> (secret_error + str \<times> capability_grant)" where
  "mint K i secret now req b =
     (if \<not> may_receive_secrets (rq_author req) then (b, Inl OutsiderRefused)
      else case current_version (v_keys b) (rq_tenant req) of
        Inl e \<Rightarrow> (b, Inl e)
      | Inr _ \<Rightarrow>
          (case check_declared (rq_tenant req) (v_rows b) (rq_declared req) of
             Inl e \<Rightarrow> (b, Inl e)
           | Inr _ \<Rightarrow>
               let (token, cap_id, digest) = cap_token_mint K i secret;
                   g = \<lparr>cg_cap_id = cap_id, cg_tenant = rq_tenant req, cg_job = rq_job req, cg_node = rq_node req,
                        cg_names = remdups_adj (sort (rq_declared req)), cg_author = rq_author req,
                        cg_expires_at = saturating_add now (b_ttl_secs b)\<rparr>;
                   r = \<lparr>cp_grant = g, cp_digest = digest, cp_consumed = False, cp_revoked = False\<rparr>;
                   kept = filter (\<lambda>(_, r). now < cg_expires_at (cp_grant r)) (b_caps b)
               in (b\<lparr>b_caps := AList.update cap_id r kept\<rparr>, Inr (token, g))))"

definition mint_proxy_capability :: "crates \<Rightarrow> bytes \<Rightarrow> bytes \<Rightarrow> nat \<Rightarrow> proxy_request \<Rightarrow> broker \<Rightarrow>
    broker \<times> (secret_error + str \<times> proxy_grant)" where
  "mint_proxy_capability K i secret now req b =
     (if \<not> may_receive_secrets (pr_author req) then (b, Inl OutsiderRefused)
      else case current_version (v_keys b) (pr_tenant req) of
        Inl e \<Rightarrow> (b, Inl e)
      | Inr _ \<Rightarrow>
          (case check_declared (pr_tenant req) (v_rows b) (pr_declared req) of
             Inl e \<Rightarrow> (b, Inl e)
           | Inr _ \<Rightarrow>
               if pr_expires_at req \<le> now then (b, Inl CapabilityExpired)
               else
                 let (token, cap_id, digest) = cap_token_mint K i secret;
                     g = \<lparr>pg_cap_id = cap_id, pg_tenant = pr_tenant req, pg_job = pr_job req, pg_proxy = pr_proxy req,
                          pg_names = remdups_adj (sort (pr_declared req)), pg_author = pr_author req,
                          pg_expires_at = pr_expires_at req\<rparr>;
                     r = \<lparr>cp_grant = g, cp_digest = digest, cp_consumed = False, cp_revoked = False\<rparr>;
                     kept = filter (\<lambda>(_, r). now < pg_expires_at (cp_grant r)) (b_proxy_caps b)
                 in (b\<lparr>b_proxy_caps := AList.update cap_id r kept\<rparr>, Inr (token, g))))"

text \<open>
  The checks under the registry's lock, in their order, and the burn; the same lines for both families,
  which differ in where the expiry and the bound principal are and in the error of the wrong one.
\<close>

definition redeem_gate :: "crates \<Rightarrow> ('g \<Rightarrow> nat) \<Rightarrow> ('g \<Rightarrow> str) \<Rightarrow> secret_error \<Rightarrow> str \<Rightarrow> str \<Rightarrow> nat \<Rightarrow> 'g caps \<Rightarrow>
    'g caps \<times> (secret_error + 'g)" where
  "redeem_gate K expires holder wrong token who now m =
     (case cap_token_parse K token of
        Inl e \<Rightarrow> (m, Inl e)
      | Inr (i, digest) \<Rightarrow>
          (case map_of m i of
             None \<Rightarrow> (m, Inl BadCapability)
           | Some r \<Rightarrow>
               if \<not> cap_authenticates K r digest then (m, Inl BadCapability)
               else if cp_revoked r then (m, Inl CapabilityRevoked)
               else if cp_consumed r then (m, Inl CapabilityConsumed)
               else if expires (cp_grant r) \<le> now then (m, Inl CapabilityExpired)
               else if holder (cp_grant r) \<noteq> who then (m, Inl wrong)
               else (hm_modify i (\<lambda>r. r\<lparr>cp_consumed := True\<rparr>) m, Inr (cp_grant r))))"

fun open_values :: "aead \<Rightarrow> key_map \<Rightarrow> rows \<Rightarrow> str \<Rightarrow> str list \<Rightarrow> secret_error + (str \<times> bytes) list" where
  "open_values A km rows t [] = Inr []"
| "open_values A km rows t (n # ns) =
     (case sealed_get t n rows of
        None \<Rightarrow> Inl (UnknownSecret t n)
      | Some s \<Rightarrow>
          (case vault_open A km t n s of
             Inl e \<Rightarrow> Inl e
           | Inr v \<Rightarrow> (case open_values A km rows t ns of Inl e \<Rightarrow> Inl e | Inr vs \<Rightarrow> Inr ((n, v) # vs))))"

definition redeem :: "aead \<Rightarrow> crates \<Rightarrow> str \<Rightarrow> str \<Rightarrow> str list \<Rightarrow> nat \<Rightarrow> broker \<Rightarrow> broker \<times> (secret_error + delivered)" where
  "redeem A K token node requested now b =
     (case redeem_gate K cg_expires_at cg_node WrongNode token node now (b_caps b) of
        (m, Inl e) \<Rightarrow> (b, Inl e)
      | (m, Inr g) \<Rightarrow>
          let b = b\<lparr>b_caps := m\<rparr> in
          if \<not> may_receive_secrets (cg_author g) then (b, Inl OutsiderRefused)
          else
            let undeclared = find (\<lambda>n. n \<notin> set (cg_names g)) requested;
                wanted = (if requested = [] then cg_names g else requested)
            in case undeclared of
                 Some n \<Rightarrow> (b, Inl (Undeclared n))
               | None \<Rightarrow>
                   (b, case open_values A (v_keys b) (v_rows b) (cg_tenant g) wanted of
                         Inl e \<Rightarrow> Inl e
                       | Inr vs \<Rightarrow> Inr \<lparr>dl_tenant = cg_tenant g, dl_job = cg_job g, dl_values = vs\<rparr>))"

definition redeem_proxy_capability :: "aead \<Rightarrow> crates \<Rightarrow> str \<Rightarrow> str \<Rightarrow> nat \<Rightarrow> broker \<Rightarrow> broker \<times> (secret_error + delivered)" where
  "redeem_proxy_capability A K token proxy now b =
     (case redeem_gate K pg_expires_at pg_proxy WrongProxy token proxy now (b_proxy_caps b) of
        (m, Inl e) \<Rightarrow> (b, Inl e)
      | (m, Inr g) \<Rightarrow>
          let b = b\<lparr>b_proxy_caps := m\<rparr> in
          if \<not> may_receive_secrets (pg_author g) then (b, Inl OutsiderRefused)
          else
            (b, case open_values A (v_keys b) (v_rows b) (pg_tenant g) (pg_names g) of
                  Inl e \<Rightarrow> Inl e
                | Inr vs \<Rightarrow> Inr \<lparr>dl_tenant = pg_tenant g, dl_job = pg_job g, dl_values = vs\<rparr>))"

definition reassert_proxy_capability :: "crates \<Rightarrow> str \<Rightarrow> str \<Rightarrow> nat \<Rightarrow> broker \<Rightarrow> secret_error + proxy_grant" where
  "reassert_proxy_capability K token proxy now b =
     (case cap_token_parse K token of
        Inl e \<Rightarrow> Inl e
      | Inr (i, digest) \<Rightarrow>
          (case map_of (b_proxy_caps b) i of
             None \<Rightarrow> Inl BadCapability
           | Some r \<Rightarrow>
               if \<not> cap_authenticates K r digest then Inl BadCapability
               else if cp_revoked r then Inl CapabilityRevoked
               else if pg_expires_at (cp_grant r) \<le> now then Inl CapabilityExpired
               else if pg_proxy (cp_grant r) \<noteq> proxy then Inl WrongProxy
               else if \<not> may_receive_secrets (pg_author (cp_grant r)) then Inl OutsiderRefused
               else Inr (cp_grant r)))"

section \<open>Break glass\<close>

definition mark_revoked :: "'g cap_record \<Rightarrow> 'g cap_record" where
  "mark_revoked r = r\<lparr>cp_revoked := True\<rparr>"

definition revoke_cap :: "bytes \<Rightarrow> broker \<Rightarrow> broker \<times> bool" where
  "revoke_cap i b = (b\<lparr>b_caps := hm_modify i mark_revoked (b_caps b)\<rparr>, map_of (b_caps b) i \<noteq> None)"

definition revoke_proxy_capability :: "bytes \<Rightarrow> broker \<Rightarrow> broker \<times> bool" where
  "revoke_proxy_capability i b =
     (b\<lparr>b_proxy_caps := hm_modify i mark_revoked (b_proxy_caps b)\<rparr>, map_of (b_proxy_caps b) i \<noteq> None)"

text \<open>\<open>values_mut().filter(..)\<close> with a mark and a count.\<close>

definition revoke_where :: "('g \<Rightarrow> bool) \<Rightarrow> 'g caps \<Rightarrow> 'g caps \<times> nat" where
  "revoke_where p m =
     (hm_map (\<lambda>_ r. if p (cp_grant r) \<and> \<not> cp_revoked r then mark_revoked r else r) m,
      length (filter (\<lambda>(_, r). p (cp_grant r) \<and> \<not> cp_revoked r) m))"

definition revoke_job_proxy_capabilities :: "job_id \<Rightarrow> broker \<Rightarrow> broker \<times> nat" where
  "revoke_job_proxy_capabilities job b =
     (b\<lparr>b_proxy_caps := fst (revoke_where (\<lambda>g. pg_job g = job) (b_proxy_caps b))\<rparr>,
      snd (revoke_where (\<lambda>g. pg_job g = job) (b_proxy_caps b)))"

definition revoke_tenant :: "str \<Rightarrow> broker \<Rightarrow> broker \<times> nat" where
  "revoke_tenant t b =
     (let (m, n) = revoke_where (\<lambda>g. cg_tenant g = t) (b_caps b);
          (pm, k) = revoke_where (\<lambda>g. pg_tenant g = t) (b_proxy_caps b)
      in (b\<lparr>b_caps := m, b_proxy_caps := pm\<rparr>, n + k))"

definition shred_tenant :: "str \<Rightarrow> broker \<Rightarrow> broker \<times> (secret_error + unit)" where
  "shred_tenant t b = shred_vault t (fst (revoke_tenant t b))"

definition broker_new :: broker where
  "broker_new = \<lparr>v_keys = [], v_rows = [], b_caps = [], b_proxy_caps = [], b_ttl_secs = DEFAULT_TTL_SECS\<rparr>"

section \<open>Histories\<close>

datatype broker_call =
    BVault vault_call
  | BMint bytes bytes nat capability_request
  | BRedeem str str "str list" nat
  | BMintProxy bytes bytes nat proxy_request
  | BRedeemProxy str str nat
  | BReassert str str nat
  | BRevoke bytes
  | BRevokeProxy bytes
  | BRevokeJobProxy job_id
  | BRevokeTenant str
  | BShred str

text \<open>A redemption's answer carries the capability id the token names, \<open>[]\<close> for one that does not parse.\<close>

datatype broker_answer =
    ANode bytes "secret_error + delivered"
  | AProxy bytes "secret_error + delivered"
  | AReassert "secret_error + proxy_grant"
  | ADone

definition presented :: "crates \<Rightarrow> str \<Rightarrow> bytes" where
  "presented K token = (case cap_token_parse K token of Inl _ \<Rightarrow> [] | Inr (i, _) \<Rightarrow> i)"

fun broker_step :: "aead \<Rightarrow> crates \<Rightarrow> broker_call \<Rightarrow> broker \<Rightarrow> broker \<times> broker_answer" where
  "broker_step A K (BVault c) b = (fst (vault_step A c b), ADone)"
| "broker_step A K (BMint i secret now req) b = (fst (mint K i secret now req b), ADone)"
| "broker_step A K (BRedeem token node requested now) b =
     (fst (redeem A K token node requested now b), ANode (presented K token) (snd (redeem A K token node requested now b)))"
| "broker_step A K (BMintProxy i secret now req) b = (fst (mint_proxy_capability K i secret now req b), ADone)"
| "broker_step A K (BRedeemProxy token proxy now) b =
     (fst (redeem_proxy_capability A K token proxy now b),
      AProxy (presented K token) (snd (redeem_proxy_capability A K token proxy now b)))"
| "broker_step A K (BReassert token proxy now) b = (b, AReassert (reassert_proxy_capability K token proxy now b))"
| "broker_step A K (BRevoke i) b = (fst (revoke_cap i b), ADone)"
| "broker_step A K (BRevokeProxy i) b = (fst (revoke_proxy_capability i b), ADone)"
| "broker_step A K (BRevokeJobProxy job) b = (fst (revoke_job_proxy_capabilities job b), ADone)"
| "broker_step A K (BRevokeTenant t) b = (fst (revoke_tenant t b), ADone)"
| "broker_step A K (BShred t) b = (fst (shred_tenant t b), ADone)"

definition broker_after :: "aead \<Rightarrow> crates \<Rightarrow> broker_call list \<Rightarrow> broker" where
  "broker_after A K calls = fst (run (broker_step A K) calls broker_new)"

section \<open>How a record cap_evolves\<close>

text \<open>The record of an id in a later registry: gone, or the same grant and digest with no mark taken back.\<close>

definition cap_evolves :: "'g caps \<Rightarrow> 'g caps \<Rightarrow> bytes \<Rightarrow> bool" where
  "cap_evolves m m' i \<longleftrightarrow> (\<forall>r'. map_of m' i = Some r' \<longrightarrow> (\<exists>r. map_of m i = Some r \<and> cp_grant r' = cp_grant r \<and>
     cp_digest r' = cp_digest r \<and> (cp_consumed r \<longrightarrow> cp_consumed r') \<and> (cp_revoked r \<longrightarrow> cp_revoked r')))"

lemma cap_evolves_refl [simp]: "cap_evolves m m i"
  by (simp add: cap_evolves_def)

lemma cap_evolves_modify: "cap_evolves m (hm_modify k f m) i"
  if "\<And>r. cp_grant (f r) = cp_grant r \<and> cp_digest (f r) = cp_digest r \<and> (cp_consumed r \<longrightarrow> cp_consumed (f r)) \<and>
    (cp_revoked r \<longrightarrow> cp_revoked (f r))"
  using that by (auto simp: cap_evolves_def split: if_splits)

lemma cap_evolves_gate: "cap_evolves m (fst (redeem_gate K ex ho wr token who now m)) i"
  by (auto simp: redeem_gate_def split: sum.splits option.splits intro: cap_evolves_modify)

lemma cap_evolves_revoke_where: "cap_evolves m (fst (revoke_where p m)) i"
  by (auto simp: cap_evolves_def revoke_where_def mark_revoked_def split: if_splits)

lemma cap_evolves_filter: "hm_ok m \<Longrightarrow> cap_evolves m (filter p m) i"
  by (auto simp: cap_evolves_def map_of_filter_ok split: option.splits if_splits)

lemma cap_evolves_mark: "cap_evolves m (hm_modify k mark_revoked m) i"
  by (rule cap_evolves_modify) (simp add: mark_revoked_def)

lemma hm_ok_filter: "hm_ok m \<Longrightarrow> hm_ok (filter p m)"
  by (simp add: distinct_map_filter)

lemma hm_ok_gate: "hm_ok m \<Longrightarrow> hm_ok (fst (redeem_gate K ex ho wr token who now m))"
  by (auto simp: redeem_gate_def split: sum.splits option.splits)

lemma fst_revoke_where [simp]: "map fst (fst (revoke_where p m)) = map fst m"
  by (simp add: revoke_where_def)

text \<open>The two registries under each method of the broker.\<close>

lemma vault_step_caps [simp]:
  "b_caps (fst (vault_step A c b)) = b_caps b" "b_proxy_caps (fst (vault_step A c b)) = b_proxy_caps b"
  "b_ttl_secs (fst (vault_step A c b)) = b_ttl_secs b"
  by (cases c; auto simp: provision_tenant_def put_secret_def delete_secret_def rotate_tenant_def shred_vault_def
      Let_def case_prod_unfold split: sum.splits prod.splits)+

lemma caps_redeem:
  "b_caps (fst (redeem A K token node requested now b)) =
     fst (redeem_gate K cg_expires_at cg_node WrongNode token node now (b_caps b))"
  "b_proxy_caps (fst (redeem A K token node requested now b)) = b_proxy_caps b"
  by (auto simp: redeem_def Let_def redeem_gate_def split: prod.splits sum.splits option.splits if_splits)

lemma caps_redeem_proxy:
  "b_proxy_caps (fst (redeem_proxy_capability A K token proxy now b)) =
     fst (redeem_gate K pg_expires_at pg_proxy WrongProxy token proxy now (b_proxy_caps b))"
  "b_caps (fst (redeem_proxy_capability A K token proxy now b)) = b_caps b"
  by (auto simp: redeem_proxy_capability_def Let_def redeem_gate_def split: prod.splits sum.splits option.splits if_splits)

lemma caps_revoke_tenant:
  "b_caps (fst (revoke_tenant t b)) = fst (revoke_where (\<lambda>g. cg_tenant g = t) (b_caps b))"
  "b_proxy_caps (fst (revoke_tenant t b)) = fst (revoke_where (\<lambda>g. pg_tenant g = t) (b_proxy_caps b))"
  by (simp_all add: revoke_tenant_def case_prod_unfold Let_def)

lemma caps_shred_tenant:
  "b_caps (fst (shred_tenant t b)) = fst (revoke_where (\<lambda>g. cg_tenant g = t) (b_caps b))"
  "b_proxy_caps (fst (shred_tenant t b)) = fst (revoke_where (\<lambda>g. pg_tenant g = t) (b_proxy_caps b))"
  by (simp_all add: shred_tenant_def shred_vault_def caps_revoke_tenant)

lemma caps_mint:
  "b_caps (fst (mint K i secret now req b)) =
     (case snd (mint K i secret now req b) of
        Inl _ \<Rightarrow> b_caps b
      | Inr (_, g) \<Rightarrow> AList.update i \<lparr>cp_grant = g, cp_digest = blake3_hash K secret, cp_consumed = False, cp_revoked = False\<rparr>
          (filter (\<lambda>(_, r). now < cg_expires_at (cp_grant r)) (b_caps b)))"
  "b_proxy_caps (fst (mint K i secret now req b)) = b_proxy_caps b"
  by (auto simp: mint_def cap_token_mint_def bearer_mint_def Let_def split: sum.splits)

lemma caps_mint_proxy:
  "b_proxy_caps (fst (mint_proxy_capability K i secret now req b)) =
     (case snd (mint_proxy_capability K i secret now req b) of
        Inl _ \<Rightarrow> b_proxy_caps b
      | Inr (_, g) \<Rightarrow> AList.update i \<lparr>cp_grant = g, cp_digest = blake3_hash K secret, cp_consumed = False, cp_revoked = False\<rparr>
          (filter (\<lambda>(_, r). now < pg_expires_at (cp_grant r)) (b_proxy_caps b)))"
  "b_caps (fst (mint_proxy_capability K i secret now req b)) = b_caps b"
  by (auto simp: mint_proxy_capability_def cap_token_mint_def bearer_mint_def Let_def split: sum.splits)

lemmas caps_simps = caps_redeem caps_redeem_proxy caps_revoke_tenant caps_shred_tenant
  revoke_cap_def revoke_proxy_capability_def revoke_job_proxy_capabilities_def

definition registries_ok :: "broker \<Rightarrow> bool" where
  "registries_ok b \<longleftrightarrow> hm_ok (b_caps b) \<and> hm_ok (b_proxy_caps b)"

lemma registries_ok_step: "registries_ok b \<Longrightarrow> registries_ok (fst (broker_step A K c b))"
  by (cases c)
    (auto simp: registries_ok_def caps_simps caps_mint caps_mint_proxy hm_ok_filter hm_ok_gate split: sum.splits)

lemma registries_ok_new: "registries_ok broker_new"
  by (simp add: registries_ok_def broker_new_def)

lemma registries_ok_after: "registries_ok (broker_after A K cs)"
  unfolding broker_after_def
  by (rule run_invariant [where P = registries_ok, OF registries_ok_new registries_ok_step])

lemma broker_after_snoc: "broker_after A K (cs @ [c]) = fst (broker_step A K c (broker_after A K cs))"
  by (simp add: broker_after_def run_snoc)

text \<open>A call other than a mint of the id lets its record evolve, and the calls that revoke it mark it.\<close>

fun revokes_node :: "capability_grant \<Rightarrow> bytes \<Rightarrow> broker_call \<Rightarrow> bool" where
  "revokes_node g i (BRevoke j) \<longleftrightarrow> j = i"
| "revokes_node g i (BRevokeTenant t) \<longleftrightarrow> t = cg_tenant g"
| "revokes_node g i (BShred t) \<longleftrightarrow> t = cg_tenant g"
| "revokes_node g i _ \<longleftrightarrow> False"

fun revokes_proxy :: "proxy_grant \<Rightarrow> bytes \<Rightarrow> broker_call \<Rightarrow> bool" where
  "revokes_proxy g i (BRevokeProxy j) \<longleftrightarrow> j = i"
| "revokes_proxy g i (BRevokeJobProxy job) \<longleftrightarrow> job = pg_job g"
| "revokes_proxy g i (BRevokeTenant t) \<longleftrightarrow> t = pg_tenant g"
| "revokes_proxy g i (BShred t) \<longleftrightarrow> t = pg_tenant g"
| "revokes_proxy g i _ \<longleftrightarrow> False"

lemma cap_evolves_update:
  "hm_ok m \<Longrightarrow> j \<noteq> i \<Longrightarrow> cap_evolves m (AList.update j r (filter p m)) i"
  using cap_evolves_filter [of m p i] by (simp add: cap_evolves_def)

lemma node_evolves:
  assumes "registries_ok b"
    and "\<And>secret now req g. c = BMint i secret now req \<Longrightarrow> \<exists>e. snd (mint K i secret now req b) = Inl e"
  shows "cap_evolves (b_caps b) (b_caps (fst (broker_step A K c b))) i"
proof (cases c)
  case (BMint j secret now req)
  with assms show ?thesis
    by (cases "j = i") (auto simp: caps_mint registries_ok_def cap_evolves_update split: sum.splits)
qed (use assms in \<open>auto simp: caps_simps caps_mint_proxy cap_evolves_gate cap_evolves_mark cap_evolves_revoke_where\<close>)

lemma proxy_evolves:
  assumes "registries_ok b"
    and "\<And>secret now req g. c = BMintProxy i secret now req \<Longrightarrow> \<exists>e. snd (mint_proxy_capability K i secret now req b) = Inl e"
  shows "cap_evolves (b_proxy_caps b) (b_proxy_caps (fst (broker_step A K c b))) i"
proof (cases c)
  case (BMintProxy j secret now req)
  with assms show ?thesis
    by (cases "j = i") (auto simp: caps_mint_proxy registries_ok_def cap_evolves_update split: sum.splits)
qed (use assms in \<open>auto simp: caps_simps caps_mint cap_evolves_gate cap_evolves_mark cap_evolves_revoke_where\<close>)

lemma revoke_where_marks: "map_of (fst (revoke_where p m)) i = Some r \<Longrightarrow> p (cp_grant r) \<Longrightarrow> cp_revoked r"
  by (cases "map_of m i") (auto simp: revoke_where_def mark_revoked_def split: if_splits)

lemma marked: "cp_revoked (mark_revoked r)"
  by (simp add: mark_revoked_def)

lemma node_revoked:
  assumes "map_of (b_caps (fst (broker_step A K c b))) i = Some r" and "revokes_node (cp_grant r) i c"
  shows "cp_revoked r"
  using assms by (cases c) (auto simp: caps_simps marked dest: revoke_where_marks)

lemma proxy_revoked:
  assumes "map_of (b_proxy_caps (fst (broker_step A K c b))) i = Some r" and "revokes_proxy (cp_grant r) i c"
  shows "cp_revoked r"
  using assms by (cases c) (auto simp: caps_simps marked dest: revoke_where_marks)

text \<open>Where a live record comes from: an accepted mint, and since then no call that revokes it unless it is marked.\<close>

lemma node_history:
  assumes "map_of (b_caps (broker_after A K cs)) i = Some r"
  shows "\<exists>before after secret now req token. cs = before @ BMint i secret now req # after \<and>
    snd (mint K i secret now req (broker_after A K before)) = Inr (token, cp_grant r) \<and>
    cp_digest r = blake3_hash K secret \<and> (\<not> cp_revoked r \<longrightarrow> (\<forall>c\<in>set after. \<not> revokes_node (cp_grant r) i c))"
  using assms
proof (induction cs arbitrary: r rule: rev_induct)
  case Nil
  then show ?case by (simp add: broker_after_def broker_new_def)
next
  case (snoc c cs)
  note ok = registries_ok_after [of A K cs]
  show ?case
  proof (cases "\<exists>secret now req x. c = BMint i secret now req \<and> snd (mint K i secret now req (broker_after A K cs)) = Inr x")
    case True
    then obtain secret now req token g where c: "c = BMint i secret now req"
      and m: "snd (mint K i secret now req (broker_after A K cs)) = Inr (token, g)" by (metis surj_pair)
    with snoc.prems have "cp_grant r = g" "cp_digest r = blake3_hash K secret"
      by (auto simp: broker_after_snoc caps_mint)
    with c m show ?thesis by (intro exI [of _ cs] exI [of _ "[]"] exI [of _ secret] exI [of _ now] exI [of _ req] exI [of _ token]) simp
  next
    case False
    have "cap_evolves (b_caps (broker_after A K cs)) (b_caps (broker_after A K (cs @ [c]))) i"
      unfolding broker_after_snoc by (rule node_evolves [OF ok]) (use False in \<open>metis sum.exhaust\<close>)
    with snoc.prems obtain r0 where r0: "map_of (b_caps (broker_after A K cs)) i = Some r0" "cp_grant r = cp_grant r0"
      "cp_digest r = cp_digest r0" "cp_revoked r0 \<longrightarrow> cp_revoked r" by (auto simp: cap_evolves_def)
    have rv: "revokes_node (cp_grant r) i c \<Longrightarrow> cp_revoked r"
      using node_revoked snoc.prems by (simp add: broker_after_snoc)
    from snoc.IH [OF r0(1)] obtain before after secret now req token where
      h: "cs = before @ BMint i secret now req # after"
      "snd (mint K i secret now req (broker_after A K before)) = Inr (token, cp_grant r0)"
      "cp_digest r0 = blake3_hash K secret" "\<not> cp_revoked r0 \<longrightarrow> (\<forall>c\<in>set after. \<not> revokes_node (cp_grant r0) i c)"
      by blast
    then show ?thesis using r0 rv
      by (intro exI [of _ before] exI [of _ "after @ [c]"] exI [of _ secret] exI [of _ now] exI [of _ req] exI [of _ token]) auto
  qed
qed

lemma proxy_history:
  assumes "map_of (b_proxy_caps (broker_after A K cs)) i = Some r"
  shows "\<exists>before after secret now req token. cs = before @ BMintProxy i secret now req # after \<and>
    snd (mint_proxy_capability K i secret now req (broker_after A K before)) = Inr (token, cp_grant r) \<and>
    cp_digest r = blake3_hash K secret \<and> (\<not> cp_revoked r \<longrightarrow> (\<forall>c\<in>set after. \<not> revokes_proxy (cp_grant r) i c))"
  using assms
proof (induction cs arbitrary: r rule: rev_induct)
  case Nil
  then show ?case by (simp add: broker_after_def broker_new_def)
next
  case (snoc c cs)
  note ok = registries_ok_after [of A K cs]
  show ?case
  proof (cases "\<exists>secret now req x. c = BMintProxy i secret now req \<and>
      snd (mint_proxy_capability K i secret now req (broker_after A K cs)) = Inr x")
    case True
    then obtain secret now req token g where c: "c = BMintProxy i secret now req"
      and m: "snd (mint_proxy_capability K i secret now req (broker_after A K cs)) = Inr (token, g)" by (metis surj_pair)
    with snoc.prems have "cp_grant r = g" "cp_digest r = blake3_hash K secret"
      by (auto simp: broker_after_snoc caps_mint_proxy)
    with c m show ?thesis by (intro exI [of _ cs] exI [of _ "[]"] exI [of _ secret] exI [of _ now] exI [of _ req] exI [of _ token]) simp
  next
    case False
    have "cap_evolves (b_proxy_caps (broker_after A K cs)) (b_proxy_caps (broker_after A K (cs @ [c]))) i"
      unfolding broker_after_snoc by (rule proxy_evolves [OF ok]) (use False in \<open>metis sum.exhaust\<close>)
    with snoc.prems obtain r0 where r0: "map_of (b_proxy_caps (broker_after A K cs)) i = Some r0" "cp_grant r = cp_grant r0"
      "cp_digest r = cp_digest r0" "cp_revoked r0 \<longrightarrow> cp_revoked r" by (auto simp: cap_evolves_def)
    have rv: "revokes_proxy (cp_grant r) i c \<Longrightarrow> cp_revoked r"
      using proxy_revoked snoc.prems by (simp add: broker_after_snoc)
    from snoc.IH [OF r0(1)] obtain before after secret now req token where
      h: "cs = before @ BMintProxy i secret now req # after"
      "snd (mint_proxy_capability K i secret now req (broker_after A K before)) = Inr (token, cp_grant r0)"
      "cp_digest r0 = blake3_hash K secret" "\<not> cp_revoked r0 \<longrightarrow> (\<forall>c\<in>set after. \<not> revokes_proxy (cp_grant r0) i c)"
      by blast
    then show ?thesis using r0 rv
      by (intro exI [of _ before] exI [of _ "after @ [c]"] exI [of _ secret] exI [of _ now] exI [of _ req] exI [of _ token]) auto
  qed
qed

text \<open>What an accepted mint says of the grant, and an accepted redemption of the record and the values.\<close>

lemma mint_Inr:
  assumes "snd (mint K i secret now req b) = Inr (token, g)"
  shows "may_receive_secrets (rq_author req) \<and> token = fst (cap_token_mint K i secret) \<and> cg_cap_id g = i \<and>
    cg_tenant g = rq_tenant req \<and> cg_job g = rq_job req \<and> cg_node g = rq_node req \<and>
    set (cg_names g) = set (rq_declared req) \<and> cg_author g = rq_author req \<and>
    cg_expires_at g = saturating_add now (b_ttl_secs b)"
  using assms
  by (auto simp: mint_def cap_token_mint_def bearer_mint_def Let_def split: if_splits sum.splits)

lemma mint_proxy_Inr:
  assumes "snd (mint_proxy_capability K i secret now req b) = Inr (token, g)"
  shows "may_receive_secrets (pr_author req) \<and> token = fst (cap_token_mint K i secret) \<and> pg_cap_id g = i \<and>
    pg_tenant g = pr_tenant req \<and> pg_job g = pr_job req \<and> pg_proxy g = pr_proxy req \<and>
    set (pg_names g) = set (pr_declared req) \<and> pg_author g = pr_author req \<and> pg_expires_at g = pr_expires_at req"
  using assms
  by (auto simp: mint_proxy_capability_def cap_token_mint_def bearer_mint_def Let_def split: if_splits sum.splits)

lemma gate_Inr:
  assumes "redeem_gate K ex ho wr token who now m = (m', Inr g)"
  obtains i d r where "cap_token_parse K token = Inr (i, d)" and "map_of m i = Some r" and "ct_eq K (cp_digest r) d"
    and "\<not> cp_revoked r" and "\<not> cp_consumed r" and "now < ex g" and "ho g = who" and "g = cp_grant r"
    and "m' = hm_modify i (\<lambda>r. r\<lparr>cp_consumed := True\<rparr>) m"
  using assms
  by (auto simp: redeem_gate_def cap_authenticates_def split: sum.splits option.splits if_splits)

lemma open_values_Inr:
  "open_values A km rows t ns = Inr vs \<Longrightarrow> map fst vs = ns \<and> list_all (\<lambda>(n, v). opened A km rows (t, n) = Some v) vs"
  by (induction ns arbitrary: vs) (auto simp: opened_def sealed_get_def split: option.splits sum.splits)

lemma redeem_Inr:
  assumes "redeem A K token node requested now b = (b', Inr d)"
  obtains m g where "redeem_gate K cg_expires_at cg_node WrongNode token node now (b_caps b) = (m, Inr g)"
    and "may_receive_secrets (cg_author g)" and "set (delivered_names d) \<subseteq> set (cg_names g)"
    and "dl_tenant d = cg_tenant g" and "dl_job d = cg_job g"
    and "list_all (\<lambda>(n, v). secret_value A b (cg_tenant g, n) = Some v) (dl_values d)"
proof -
  from assms obtain m g where gate: "redeem_gate K cg_expires_at cg_node WrongNode token node now (b_caps b) = (m, Inr g)"
    by (auto simp: redeem_def split: prod.splits sum.splits)
  define wanted where "wanted = (if requested = [] then cg_names g else requested)"
  from gate assms have m: "may_receive_secrets (cg_author g)"
    and sub: "find (\<lambda>n. n \<notin> set (cg_names g)) requested = None"
    and d: "\<exists>vs. open_values A (v_keys b) (v_rows b) (cg_tenant g) wanted = Inr vs \<and>
      d = \<lparr>dl_tenant = cg_tenant g, dl_job = cg_job g, dl_values = vs\<rparr>"
    by (auto simp: redeem_def wanted_def Let_def split: sum.splits option.splits if_splits)
  from d obtain vs where vs: "open_values A (v_keys b) (v_rows b) (cg_tenant g) wanted = Inr vs"
    "d = \<lparr>dl_tenant = cg_tenant g, dl_job = cg_job g, dl_values = vs\<rparr>" by blast
  have "set wanted \<subseteq> set (cg_names g)" using sub by (auto simp: wanted_def find_None_iff)
  with open_values_Inr [OF vs(1)] vs(2) show thesis
    by (intro that [OF gate m]) (simp_all add: delivered_names_def secret_value_opened)
qed

lemma redeem_proxy_Inr:
  assumes "redeem_proxy_capability A K token proxy now b = (b', Inr d)"
  obtains m g where "redeem_gate K pg_expires_at pg_proxy WrongProxy token proxy now (b_proxy_caps b) = (m, Inr g)"
    and "may_receive_secrets (pg_author g)" and "delivered_names d = pg_names g"
    and "dl_tenant d = pg_tenant g" and "dl_job d = pg_job g"
    and "list_all (\<lambda>(n, v). secret_value A b (pg_tenant g, n) = Some v) (dl_values d)"
proof -
  from assms obtain m g where gate: "redeem_gate K pg_expires_at pg_proxy WrongProxy token proxy now (b_proxy_caps b) = (m, Inr g)"
    by (auto simp: redeem_proxy_capability_def split: prod.splits sum.splits)
  with assms have m: "may_receive_secrets (pg_author g)"
    and d: "\<exists>vs. open_values A (v_keys b) (v_rows b) (pg_tenant g) (pg_names g) = Inr vs \<and>
      d = \<lparr>dl_tenant = pg_tenant g, dl_job = pg_job g, dl_values = vs\<rparr>"
    by (auto simp: redeem_proxy_capability_def Let_def split: sum.splits if_splits)
  then obtain vs where vs: "open_values A (v_keys b) (v_rows b) (pg_tenant g) (pg_names g) = Inr vs"
    "d = \<lparr>dl_tenant = pg_tenant g, dl_job = pg_job g, dl_values = vs\<rparr>" by blast
  with open_values_Inr [OF vs(1)] show thesis
    by (intro that [OF gate m]) (simp_all add: delivered_names_def secret_value_opened)
qed

lemma ttl_step: "b_ttl_secs (fst (broker_step A K c b)) = b_ttl_secs b"
  by (cases c)
    (auto simp: mint_def mint_proxy_capability_def redeem_def redeem_proxy_capability_def revoke_cap_def
      revoke_proxy_capability_def revoke_job_proxy_capabilities_def revoke_tenant_def shred_tenant_def shred_vault_def
      Let_def split: sum.splits prod.splits option.splits if_splits)

lemma ttl_after: "b_ttl_secs (broker_after A K cs) = DEFAULT_TTL_SECS"
  unfolding broker_after_def
  by (rule run_invariant [where P = "\<lambda>b. b_ttl_secs b = DEFAULT_TTL_SECS"]) (simp_all add: ttl_step broker_new_def)

section \<open>A concrete run\<close>

definition demo_request :: capability_request where
  "demo_request = \<lparr>rq_tenant = lit ''acme'', rq_job = lit ''job_1'', rq_node = lit ''n1'', rq_declared = [lit ''T''], rq_author = Member\<rparr>"

definition cap_id :: bytes where "cap_id = replicate 16 3"
definition cap_secret :: bytes where "cap_secret = replicate 32 4"

definition demo_cap_token :: str where
  "demo_cap_token = fst (cap_token_mint demo_crates cap_id cap_secret)"

definition demo_broker_calls :: "broker_call list" where
  "demo_broker_calls = map BVault (take 3 demo_vault_calls) @ [BMint cap_id cap_secret 100 demo_request]"

lemma demo_cap_parses: "cap_token_parse demo_crates demo_cap_token = Inr (cap_id, cap_secret)"
  unfolding demo_cap_token_def cap_token_mint_def cap_token_parse_def
  by (subst bearer_parse_mint [OF demo_crates_ok])
    (simp_all add: cap_id_def cap_secret_def ID_LEN_def SECRET_LEN_def demo_crates_def list_all_iff)

lemma demo_mint_parts: "cap_token_mint demo_crates cap_id cap_secret = (demo_cap_token, cap_id, cap_secret)"
  by (simp add: demo_cap_token_def cap_token_mint_def bearer_mint_def demo_crates_def)

lemmas broker_eval = broker_after_def broker_new_def demo_broker_calls_def demo_vault_calls_def demo_request_def
  mint_def demo_mint_parts redeem_def redeem_gate_def demo_cap_parses cap_authenticates_def saturating_add_def
  DEFAULT_TTL_SECS_def hm_modify_def hm_map_def

lemma demo_redeemed:
  "snd (redeem demo_aead demo_crates demo_cap_token (lit ''n1'') [] 120 (broker_after demo_aead demo_crates demo_broker_calls)) =
     Inr \<lparr>dl_tenant = lit ''acme'', dl_job = lit ''job_1'', dl_values = [(lit ''T'', [9])]\<rparr>"
  by (simp add: broker_eval vault_eval) (simp add: demo_crates_def)

section \<open>Properties\<close>

text \<open>C6. The broker's gate. After any history of calls on the broker, if a redemption from a node discloses
  values, then the history holds the mint of that very capability (the token parses to its id, with an
  authenticator that passes the comparison): minted for a member-authored job, bound to the redeeming
  node, less than the lifetime ago; since then neither the capability nor its tenant was revoked or
  shredded; and what is disclosed are names the job declared, each with the value the vault holds at that
  moment under the mint's own tenant.
\<close>

theorem redeem_as_minted:
  assumes "snd (redeem A K token node requested now (broker_after A K calls)) = Inr d"
  shows "\<exists>before after i secret minted req digest. calls = before @ BMint i secret minted req # after \<and>
    cap_token_parse K token = Inr (i, digest) \<and> ct_eq K (blake3_hash K secret) digest \<and>
    rq_author req = Member \<and> rq_node req = node \<and> now < minted + DEFAULT_TTL_SECS \<and>
    dl_tenant d = rq_tenant req \<and> dl_job d = rq_job req \<and> set (delivered_names d) \<subseteq> set (rq_declared req) \<and>
    (\<forall>c\<in>set after. c \<noteq> BRevoke i \<and> c \<noteq> BRevokeTenant (rq_tenant req) \<and> c \<noteq> BShred (rq_tenant req)) \<and>
    (\<forall>(n, v)\<in>set (dl_values d). secret_value A (broker_after A K calls) (rq_tenant req, n) = Some v)"
proof -
  let ?b = "broker_after A K calls"
  from assms obtain b' where "redeem A K token node requested now ?b = (b', Inr d)" by (metis prod.collapse)
  from redeem_Inr [OF this] obtain m g where
    gate: "redeem_gate K cg_expires_at cg_node WrongNode token node now (b_caps ?b) = (m, Inr g)"
    and g: "may_receive_secrets (cg_author g)" "set (delivered_names d) \<subseteq> set (cg_names g)" "dl_tenant d = cg_tenant g"
      "dl_job d = cg_job g" "list_all (\<lambda>(n, v). secret_value A ?b (cg_tenant g, n) = Some v) (dl_values d)" .
  from gate_Inr [OF gate] obtain i digest r where p: "cap_token_parse K token = Inr (i, digest)"
    and r: "map_of (b_caps ?b) i = Some r" "ct_eq K (cp_digest r) digest" "\<not> cp_revoked r" "now < cg_expires_at g"
      "cg_node g = node" "g = cp_grant r" by metis
  from node_history [OF r(1)] r(3,6) obtain before after secret minted req tok where
    h: "calls = before @ BMint i secret minted req # after" "snd (mint K i secret minted req (broker_after A K before)) = Inr (tok, g)"
      "cp_digest r = blake3_hash K secret" "\<forall>c\<in>set after. \<not> revokes_node g i c" by blast
  from mint_Inr [OF h(2)] have q: "may_receive_secrets (rq_author req)" "cg_tenant g = rq_tenant req" "cg_job g = rq_job req"
    "cg_node g = rq_node req" "set (cg_names g) = set (rq_declared req)"
    "cg_expires_at g = saturating_add minted DEFAULT_TTL_SECS" by (simp_all add: ttl_after)
  have "rq_author req = Member" using q(1) by (cases "rq_author req") auto
  moreover have "now < minted + DEFAULT_TTL_SECS" using r(4) q(6) by (simp add: saturating_add_def)
  moreover have "\<forall>c\<in>set after. c \<noteq> BRevoke i \<and> c \<noteq> BRevokeTenant (rq_tenant req) \<and> c \<noteq> BShred (rq_tenant req)"
    using h(4) q(2) by auto
  ultimately show ?thesis using h(1,3) p r(2,5) g q
    by (intro exI [of _ before] exI [of _ after] exI [of _ i] exI [of _ secret] exI [of _ minted] exI [of _ req] exI [of _ digest])
      (simp add: list_all_iff)
qed

theorem redeem_as_minted_witness:
  "\<exists>before after i secret minted req digest. demo_broker_calls = before @ BMint i secret minted req # after \<and>
    cap_token_parse demo_crates demo_cap_token = Inr (i, digest) \<and> ct_eq demo_crates (blake3_hash demo_crates secret) digest \<and>
    rq_author req = Member \<and> rq_node req = lit ''n1'' \<and> 120 < minted + DEFAULT_TTL_SECS \<and>
    lit ''acme'' = rq_tenant req \<and> lit ''job_1'' = rq_job req \<and> {lit ''T''} \<subseteq> set (rq_declared req) \<and>
    (\<forall>c\<in>set after. c \<noteq> BRevoke i \<and> c \<noteq> BRevokeTenant (rq_tenant req) \<and> c \<noteq> BShred (rq_tenant req)) \<and>
    (\<forall>(n, v)\<in>{(lit ''T'', [9])}.
       secret_value demo_aead (broker_after demo_aead demo_crates demo_broker_calls) (rq_tenant req, n) = Some v)"
  using redeem_as_minted [OF demo_redeemed] by (simp add: delivered_names_def)

text \<open>Disclosures of one capability among the answers of a run, in each family.\<close>

definition node_disclosures :: "bytes \<Rightarrow> broker_answer list \<Rightarrow> nat" where
  "node_disclosures i as = length (filter (\<lambda>a. \<exists>d. a = ANode i (Inr d)) as)"

definition proxy_disclosures :: "bytes \<Rightarrow> broker_answer list \<Rightarrow> nat" where
  "proxy_disclosures i as = length (filter (\<lambda>a. \<exists>d. a = AProxy i (Inr d)) as)"

fun mints_cap :: "bytes \<Rightarrow> broker_call \<Rightarrow> bool" where
  "mints_cap i (BMint j _ _ _) \<longleftrightarrow> j = i"
| "mints_cap i (BMintProxy j _ _ _) \<longleftrightarrow> j = i"
| "mints_cap i _ \<longleftrightarrow> False"

definition unspent :: "'g caps \<Rightarrow> bytes \<Rightarrow> nat" where
  "unspent m i = (case map_of m i of Some r \<Rightarrow> of_bool (\<not> cp_consumed r) | None \<Rightarrow> 0)"

lemma unspent_le: "unspent m i \<le> 1"
  by (simp add: unspent_def split: option.splits)

lemma unspent_evolves: "cap_evolves m m' i \<Longrightarrow> unspent m' i \<le> unspent m i"
  by (auto simp: cap_evolves_def unspent_def split: option.splits)

lemma unspent_gate:
  assumes "redeem_gate K ex ho wr token who now m = (m', Inr g)" and "presented K token = i"
  shows "unspent m i = 1 \<and> unspent m' i = 0"
proof -
  from gate_Inr [OF assms(1)] obtain j d r where "cap_token_parse K token = Inr (j, d)" "map_of m j = Some r"
    "\<not> cp_consumed r" "m' = hm_modify j (\<lambda>r. r\<lparr>cp_consumed := True\<rparr>) m" .
  with assms(2) show ?thesis by (simp add: presented_def unspent_def)
qed

lemma node_step_pays:
  assumes "registries_ok b" and "\<not> mints_cap i c"
  shows "of_bool (\<exists>d. snd (broker_step A K c b) = ANode i (Inr d)) + unspent (b_caps (fst (broker_step A K c b))) i \<le> unspent (b_caps b) i"
proof (cases "\<exists>d. snd (broker_step A K c b) = ANode i (Inr d)")
  case True
  then obtain token node requested now d where c: "c = BRedeem token node requested now"
    and "snd (redeem A K token node requested now b) = Inr d" and pr: "presented K token = i" by (cases c) auto
  then obtain b' where red: "redeem A K token node requested now b = (b', Inr d)" by (metis prod.collapse)
  from redeem_Inr [OF this] obtain m g where
    gate: "redeem_gate K cg_expires_at cg_node WrongNode token node now (b_caps b) = (m, Inr g)" by metis
  from unspent_gate [OF gate pr] caps_redeem(1) [of A K token node requested now b] gate c show ?thesis by simp
next
  case False
  have "cap_evolves (b_caps b) (b_caps (fst (broker_step A K c b))) i"
    by (rule node_evolves [OF assms(1)]) (use assms(2) in auto)
  with False show ?thesis using unspent_evolves by simp
qed

lemma proxy_step_pays:
  assumes "registries_ok b" and "\<not> mints_cap i c"
  shows "of_bool (\<exists>d. snd (broker_step A K c b) = AProxy i (Inr d)) + unspent (b_proxy_caps (fst (broker_step A K c b))) i \<le> unspent (b_proxy_caps b) i"
proof (cases "\<exists>d. snd (broker_step A K c b) = AProxy i (Inr d)")
  case True
  then obtain token proxy now d where c: "c = BRedeemProxy token proxy now"
    and "snd (redeem_proxy_capability A K token proxy now b) = Inr d" and pr: "presented K token = i" by (cases c) auto
  then obtain b' where red: "redeem_proxy_capability A K token proxy now b = (b', Inr d)" by (metis prod.collapse)
  from redeem_proxy_Inr [OF this] obtain m g where
    gate: "redeem_gate K pg_expires_at pg_proxy WrongProxy token proxy now (b_proxy_caps b) = (m, Inr g)" by metis
  from unspent_gate [OF gate pr] caps_redeem_proxy(1) [of A K token proxy now b] gate c show ?thesis by simp
next
  case False
  have "cap_evolves (b_proxy_caps b) (b_proxy_caps (fst (broker_step A K c b))) i"
    by (rule proxy_evolves [OF assms(1)]) (use assms(2) in auto)
  with False show ?thesis using unspent_evolves by simp
qed

text \<open>C9. A capability is single-use: in any stretch of calls on the broker, from any reachable state, in which
  its id is not minted again, at most one redemption from a node and at most one from the package proxy
  disclose values under that id, however the calls are ordered and whatever else happens between them.
\<close>

theorem capability_single_use:
  assumes "list_all (\<lambda>c. \<not> mints_cap i c) calls"
  shows "node_disclosures i (snd (run (broker_step A K) calls (broker_after A K before))) \<le> 1 \<and>
    proxy_disclosures i (snd (run (broker_step A K) calls (broker_after A K before))) \<le> 1"
proof -
  let ?b = "broker_after A K before"
  have sums: "node_disclosures i as = sum_list (map (\<lambda>a. of_bool (\<exists>d. a = ANode i (Inr d))) as)"
    "proxy_disclosures i as = sum_list (map (\<lambda>a. of_bool (\<exists>d. a = AProxy i (Inr d))) as)" for as
    by (induction as) (simp_all add: node_disclosures_def proxy_disclosures_def)
  have nm: "c \<in> set calls \<Longrightarrow> \<not> mints_cap i c" for c using assms by (auto simp: list_all_iff)
  have "sum_list (map (\<lambda>a. of_bool (\<exists>d. a = ANode i (Inr d))) (snd (run (broker_step A K) calls ?b))) \<le> unspent (b_caps ?b) i"
    by (rule run_potential [where P = registries_ok and phi = "\<lambda>b. unspent (b_caps b) i"])
      (simp_all add: registries_ok_after registries_ok_step node_step_pays nm del: of_bool_eq_1_iff)
  moreover have "sum_list (map (\<lambda>a. of_bool (\<exists>d. a = AProxy i (Inr d))) (snd (run (broker_step A K) calls ?b))) \<le> unspent (b_proxy_caps ?b) i"
    by (rule run_potential [where P = registries_ok and phi = "\<lambda>b. unspent (b_proxy_caps b) i"])
      (simp_all add: registries_ok_after registries_ok_step proxy_step_pays nm)
  moreover note unspent_le [of "b_caps ?b" i] unspent_le [of "b_proxy_caps ?b" i]
  ultimately show ?thesis by (simp add: sums)
qed

theorem capability_single_use_witness:
  "node_disclosures cap_id (snd (run (broker_step demo_aead demo_crates)
     [BRedeem demo_cap_token (lit ''n1'') [] 120, BRedeem demo_cap_token (lit ''n1'') [lit ''T''] 121]
     (broker_after demo_aead demo_crates demo_broker_calls))) \<le> 1 \<and>
   proxy_disclosures cap_id (snd (run (broker_step demo_aead demo_crates)
     [BRedeem demo_cap_token (lit ''n1'') [] 120, BRedeem demo_cap_token (lit ''n1'') [lit ''T''] 121]
     (broker_after demo_aead demo_crates demo_broker_calls))) \<le> 1"
  by (rule capability_single_use) simp

end
