(* ===== verification/Ci_Services.thy ===== *)
theory Ci_Services
  imports Ci_Broker
begin

text \<open>
  Who may redeem: the enrolment of public keys and the signed requests of nodes
  (\<open>src/crates/hull-ci-secrets/src/identity.rs\<close>) and of the package proxy (\<open>package.rs\<close>), and the two
  services that verify a request before they hand it to the broker (\<open>service.rs\<close>, \<open>package.rs\<close>). The
  signature scheme and hexadecimal are parameters. Shown: each node has one key and each key one node
  under every enrolment history; two different requests are never signed as the same bytes; and what a
  service discloses was signed for by the enrolled holder of the capability.
\<close>

definition MAX_SKEW_SECS :: nat where "MAX_SKEW_SECS = 60"

text \<open>Ed25519: the public key of a seed, signing, and a verification that refuses a malformed key too.\<close>

record sigs =
  sg_public :: "bytes \<Rightarrow> bytes"
  sg_sign :: "bytes \<Rightarrow> bytes \<Rightarrow> bytes"
  sg_verify :: "bytes \<Rightarrow> bytes \<Rightarrow> bytes \<Rightarrow> bool"

record signed_redemption =
  sr_token :: str
  sr_job :: job_id
  sr_requested :: "str list"
  sr_nonce :: bytes
  sr_issued_at :: nat
  sr_key :: bytes
  sr_signature :: bytes

record signed_proxy_redemption =
  sp_token :: str
  sp_tenant :: str
  sp_job :: job_id
  sp_nonce :: bytes
  sp_issued_at :: nat
  sp_key :: bytes
  sp_signature :: bytes

record reassertion =
  ra_token :: str
  ra_tenant :: str
  ra_job :: job_id
  ra_key :: bytes

definition NODE_DOMAIN :: str where "NODE_DOMAIN = lit ''hull-ci/node-redemption/v1''"
definition PROXY_DOMAIN :: str where "PROXY_DOMAIN = lit ''hull-ci/proxy-credential-redemption/v1''"

definition signing_payload :: "crates \<Rightarrow> str \<Rightarrow> job_id \<Rightarrow> str list \<Rightarrow> bytes \<Rightarrow> nat \<Rightarrow> bytes \<Rightarrow> bytes" where
  "signing_payload K token job requested nonce issued key =
     associated_data NODE_DOMAIN ([token, job, hex_encode K nonce, show_nat issued, hex_encode K key] @ requested)"

definition proxy_signing_payload :: "crates \<Rightarrow> str \<Rightarrow> str \<Rightarrow> job_id \<Rightarrow> bytes \<Rightarrow> nat \<Rightarrow> bytes \<Rightarrow> bytes" where
  "proxy_signing_payload K token t job nonce issued key =
     associated_data PROXY_DOMAIN [token, t, job, hex_encode K nonce, show_nat issued, hex_encode K key]"

definition node_sign :: "crates \<Rightarrow> sigs \<Rightarrow> bytes \<Rightarrow> bytes \<Rightarrow> str \<Rightarrow> job_id \<Rightarrow> str list \<Rightarrow> nat \<Rightarrow> signed_redemption" where
  "node_sign K S seed nonce token job requested now =
     (let key = sg_public S seed in
      \<lparr>sr_token = token, sr_job = job, sr_requested = requested, sr_nonce = nonce, sr_issued_at = now, sr_key = key,
       sr_signature = sg_sign S seed (signing_payload K token job requested nonce now key)\<rparr>)"

definition proxy_sign :: "crates \<Rightarrow> sigs \<Rightarrow> bytes \<Rightarrow> bytes \<Rightarrow> str \<Rightarrow> str \<Rightarrow> job_id \<Rightarrow> nat \<Rightarrow> signed_proxy_redemption" where
  "proxy_sign K S seed nonce token t job now =
     (let key = sg_public S seed in
      \<lparr>sp_token = token, sp_tenant = t, sp_job = job, sp_nonce = nonce, sp_issued_at = now, sp_key = key,
       sp_signature = sg_sign S seed (proxy_signing_payload K token t job nonce now key)\<rparr>)"

section \<open>Enrolment\<close>

text \<open>\<open>NodeRegistry\<close>, which \<open>ProxyRegistry\<close> wraps.\<close>

type_synonym enrolled = "(bytes \<times> str) list"

definition enrol :: "str \<Rightarrow> bytes \<Rightarrow> enrolled \<Rightarrow> enrolled \<times> (secret_error + unit)" where
  "enrol node key m =
     (case map_of m key of
        Some existing \<Rightarrow> if existing \<noteq> node then (m, Inl (KeyAlreadyEnrolled existing node)) else (m, Inr ())
      | None \<Rightarrow> (AList.update key node (filter (\<lambda>(_, n). n \<noteq> node) m), Inr ()))"

definition revoke_node :: "str \<Rightarrow> enrolled \<Rightarrow> enrolled \<times> bool" where
  "revoke_node node m =
     (let kept = filter (\<lambda>(_, n). n \<noteq> node) m in (kept, length kept \<noteq> length m))"

definition is_enrolled :: "bytes \<Rightarrow> enrolled \<Rightarrow> bool" where
  "is_enrolled key m \<longleftrightarrow> map_of m key \<noteq> None"

definition resolve_key :: "bytes \<Rightarrow> enrolled \<Rightarrow> str option" where
  "resolve_key key m = map_of m key"

definition abs_diff :: "nat \<Rightarrow> nat \<Rightarrow> nat" where
  "abs_diff a b = (if a < b then b - a else a - b)"

definition verify_node :: "crates \<Rightarrow> sigs \<Rightarrow> signed_redemption \<Rightarrow> nat \<Rightarrow> enrolled \<Rightarrow> secret_error + str" where
  "verify_node K S req now m =
     (let payload = signing_payload K (sr_token req) (sr_job req) (sr_requested req) (sr_nonce req) (sr_issued_at req) (sr_key req);
          skew = abs_diff now (sr_issued_at req)
      in if \<not> sg_verify S (sr_key req) payload (sr_signature req) then Inl BadNodeSignature
         else if skew > MAX_SKEW_SECS then Inl (StaleRedemption skew)
         else case map_of m (sr_key req) of
           None \<Rightarrow> Inl (UnenrolledNode (hex_encode K (sr_key req)))
         | Some node \<Rightarrow> Inr node)"

definition verify_proxy :: "crates \<Rightarrow> sigs \<Rightarrow> signed_proxy_redemption \<Rightarrow> nat \<Rightarrow> enrolled \<Rightarrow> secret_error + str" where
  "verify_proxy K S req now m =
     (let payload = proxy_signing_payload K (sp_token req) (sp_tenant req) (sp_job req) (sp_nonce req) (sp_issued_at req) (sp_key req);
          skew = abs_diff now (sp_issued_at req)
      in if \<not> sg_verify S (sp_key req) payload (sp_signature req) then Inl BadNodeSignature
         else if skew > MAX_SKEW_SECS then Inl (StaleRedemption skew)
         else case resolve_key (sp_key req) m of
           None \<Rightarrow> Inl (UnenrolledProxy (hex_encode K (sp_key req)))
         | Some proxy \<Rightarrow> Inr proxy)"

section \<open>The services\<close>

definition service_redeem :: "aead \<Rightarrow> crates \<Rightarrow> sigs \<Rightarrow> enrolled \<Rightarrow> signed_redemption \<Rightarrow> nat \<Rightarrow> broker \<Rightarrow>
    broker \<times> (secret_error + delivered)" where
  "service_redeem A K S nodes req now b =
     (case verify_node K S req now nodes of
        Inl e \<Rightarrow> (b, Inl e)
      | Inr node \<Rightarrow>
          (case redeem A K (sr_token req) node (sr_requested req) now b of
             (b, Inl e) \<Rightarrow> (b, Inl e)
           | (b, Inr d) \<Rightarrow> (b, if dl_job d \<noteq> sr_job req then Inl (WrongJob (dl_job d) (sr_job req)) else Inr d)))"

definition proxy_service_redeem :: "aead \<Rightarrow> crates \<Rightarrow> sigs \<Rightarrow> enrolled \<Rightarrow> signed_proxy_redemption \<Rightarrow> nat \<Rightarrow> broker \<Rightarrow>
    broker \<times> (secret_error + delivered)" where
  "proxy_service_redeem A K S proxies req now b =
     (case verify_proxy K S req now proxies of
        Inl e \<Rightarrow> (b, Inl e)
      | Inr proxy \<Rightarrow>
          (case redeem_proxy_capability A K (sp_token req) proxy now b of
             (b, Inl e) \<Rightarrow> (b, Inl e)
           | (b, Inr d) \<Rightarrow>
               (b, if dl_tenant d \<noteq> sp_tenant req then Inl (WrongTenant (dl_tenant d) (sp_tenant req))
                   else if dl_job d \<noteq> sp_job req then Inl (WrongJob (dl_job d) (sp_job req))
                   else Inr d)))"

definition proxy_service_reassert :: "crates \<Rightarrow> enrolled \<Rightarrow> reassertion \<Rightarrow> nat \<Rightarrow> broker \<Rightarrow> secret_error + unit" where
  "proxy_service_reassert K proxies req now b =
     (case resolve_key (ra_key req) proxies of
        None \<Rightarrow> Inl (UnenrolledProxy (hex_encode K (ra_key req)))
      | Some proxy \<Rightarrow>
          (case reassert_proxy_capability K (ra_token req) proxy now b of
             Inl e \<Rightarrow> Inl e
           | Inr g \<Rightarrow>
               if pg_tenant g \<noteq> ra_tenant req then Inl (WrongTenant (pg_tenant g) (ra_tenant req))
               else if pg_job g \<noteq> ra_job req then Inl (WrongJob (pg_job g) (ra_job req))
               else Inr ()))"

section \<open>One key per node\<close>

definition enrolled_ok :: "enrolled \<Rightarrow> bool" where
  "enrolled_ok m \<longleftrightarrow> hm_ok m \<and> distinct (map snd m)"

datatype enrol_call = Enrol str bytes | RevokeNode str

fun enrol_step :: "enrol_call \<Rightarrow> enrolled \<Rightarrow> enrolled \<times> bool" where
  "enrol_step (Enrol node key) m = (fst (enrol node key m), \<not> isl (snd (enrol node key m)))"
| "enrol_step (RevokeNode node) m = revoke_node node m"

definition enrolled_after :: "enrol_call list \<Rightarrow> enrolled" where
  "enrolled_after calls = fst (run enrol_step calls [])"

lemma distinct_snd_filter: "distinct (map snd m) \<Longrightarrow> distinct (map snd (filter p m))"
  by (simp add: distinct_map_filter)

lemma update_absent: "map_of m k = None \<Longrightarrow> AList.update k v m = m @ [(k, v)]"
  by (induction m) (auto split: if_splits)

lemma enrolled_ok_step: "enrolled_ok m \<Longrightarrow> enrolled_ok (fst (enrol_step c m))"
proof (cases c)
  case (Enrol node key)
  assume ok: "enrolled_ok m"
  have "map_of (filter (\<lambda>(_, n). n \<noteq> node) m) key = None" if "map_of m key = None"
    using that by (auto simp: map_of_eq_None_iff)
  moreover have "node \<notin> snd ` set (filter (\<lambda>(_, n). n \<noteq> node) m)" by auto
  ultimately show ?thesis using ok Enrol
    by (auto simp: enrolled_ok_def enrol_def update_absent distinct_map_filter map_of_eq_None_iff split: option.splits)
next
  case (RevokeNode node)
  then show "enrolled_ok m \<Longrightarrow> ?thesis"
    by (simp add: enrolled_ok_def revoke_node_def Let_def distinct_map_filter)
qed

lemma enrolled_ok_after: "enrolled_ok (enrolled_after calls)"
  unfolding enrolled_after_def
  by (rule run_invariant [where P = enrolled_ok, OF _ enrolled_ok_step]) (simp_all add: enrolled_ok_def)

lemma one_key: "enrolled_ok m \<Longrightarrow> resolve_key k m = Some n \<Longrightarrow> resolve_key k' m = Some n \<Longrightarrow> k = k'"
  by (fastforce simp: resolve_key_def enrolled_ok_def distinct_map inj_on_def dest!: map_of_SomeD)

text \<open>The enrolment table is injective both ways under every history of enrolments and withdrawals: two
  keys never name the same node; an accepted enrolment makes its key name its node and drops the node's
  former key; a refused one (a key held by another node) changes nothing; and a withdrawn node is named
  by no key.
\<close>

theorem one_key_per_node:
  "inj_on (map_of (enrolled_after calls)) (dom (map_of (enrolled_after calls))) \<and>
   (if snd (enrol_step (Enrol node key) (enrolled_after calls))
    then \<forall>k. resolve_key k (fst (enrol_step (Enrol node key) (enrolled_after calls))) = Some node \<longleftrightarrow> k = key
    else fst (enrol_step (Enrol node key) (enrolled_after calls)) = enrolled_after calls) \<and>
   (\<forall>k. resolve_key k (fst (enrol_step (RevokeNode node) (enrolled_after calls))) \<noteq> Some node)"
proof (intro conjI)
  let ?m = "enrolled_after calls"
  have ok: "enrolled_ok ?m" by (rule enrolled_ok_after)
  then show "inj_on (map_of ?m) (dom (map_of ?m))"
    using one_key [OF ok] by (auto simp: inj_on_def resolve_key_def)
  show "\<forall>k. resolve_key k (fst (enrol_step (RevokeNode node) ?m)) \<noteq> Some node"
    using ok by (auto simp: resolve_key_def revoke_node_def Let_def enrolled_ok_def map_of_filter_ok split: option.splits)
  have "resolve_key key (fst (enrol node key ?m)) = Some node" if "\<not> isl (snd (enrol node key ?m))"
    using that by (auto simp: enrol_def resolve_key_def split: option.splits if_splits)
  moreover have "fst (enrol node key ?m) = ?m" if "isl (snd (enrol node key ?m))"
    using that by (auto simp: enrol_def split: option.splits if_splits)
  ultimately show "if snd (enrol_step (Enrol node key) ?m)
    then \<forall>k. resolve_key k (fst (enrol_step (Enrol node key) ?m)) = Some node \<longleftrightarrow> k = key
    else fst (enrol_step (Enrol node key) ?m) = ?m"
    using one_key [OF enrolled_ok_step [OF ok, of "Enrol node key"]] by auto
qed

section \<open>Framing\<close>

text \<open>A string whose encoding's length fits the four bytes it is framed with.\<close>

definition framed :: "str \<Rightarrow> bool" where
  "framed s \<longleftrightarrow> list_all scalar s \<and> length (utf8 s) < 2 ^ 32"

lemma length_be_u32 [simp]: "length (be_u32 n) = 4"
  by (simp add: be_u32_def)

lemma be_u32_inj: "n < 2 ^ 32 \<Longrightarrow> m < 2 ^ 32 \<Longrightarrow> be_u32 n = be_u32 m \<Longrightarrow> n = m"
proof -
  assume n: "n < 2 ^ 32" and m: "m < 2 ^ 32" and "be_u32 n = be_u32 m"
  then have e: "n div 16777216 mod 256 = m div 16777216 mod 256" "n div 65536 mod 256 = m div 65536 mod 256"
    "n div 256 mod 256 = m div 256 mod 256" "n mod 256 = m mod 256" by (simp_all add: be_u32_def)
  have d: "x div 65536 = x div 256 div 256" "x div 16777216 = x div 65536 div 256" for x :: nat
    by (simp_all add: div_mult2_eq [symmetric])
  have "n div 16777216 = m div 16777216" using e(1) n m by simp
  then have "n div 65536 = m div 65536" using e(2) d(2) div_mod_eq by metis
  then have "n div 256 = m div 256" using e(3) d(1) div_mod_eq by metis
  then show "n = m" using e(4) div_mod_eq by metis
qed

definition frame :: "str \<Rightarrow> bytes" where
  "frame s = be_u32 (length (utf8 s)) @ utf8 s"

lemma frame_front: "framed s \<Longrightarrow> framed t \<Longrightarrow> frame s @ xs = frame t @ ys \<Longrightarrow> s = t \<and> xs = ys"
proof -
  assume s: "framed s" and t: "framed t" and "frame s @ xs = frame t @ ys"
  then have "be_u32 (length (utf8 s)) = be_u32 (length (utf8 t))" and r: "utf8 s @ xs = utf8 t @ ys"
    by (simp_all add: frame_def append_eq_append_conv)
  then have "length (utf8 s) = length (utf8 t)" using be_u32_inj s t by (simp add: framed_def)
  with r have "utf8 s = utf8 t" "xs = ys" by simp_all
  with s t show "s = t \<and> xs = ys" using utf8_inj by (simp add: framed_def)
qed

lemma frames_inj:
  "list_all framed as \<Longrightarrow> list_all framed bs \<Longrightarrow> concat (map frame as) = concat (map frame bs) \<Longrightarrow> as = bs"
proof (induction as arbitrary: bs)
  case Nil
  then show ?case by (cases bs) (auto simp: frame_def be_u32_def)
next
  case (Cons a as)
  show ?case
  proof (cases bs)
    case Nil
    with Cons.prems show ?thesis by (simp add: frame_def be_u32_def)
  next
    case (Cons b bs')
    with Cons.prems have "framed a" "framed b" "frame a @ concat (map frame as) = frame b @ concat (map frame bs')" by simp_all
    from frame_front [OF this] have "a = b" "concat (map frame as) = concat (map frame bs')" by simp_all
    with Cons.IH [of bs'] Cons.prems \<open>bs = b # bs'\<close> show ?thesis by simp
  qed
qed

lemma associated_data_inj:
  "list_all framed (d # as) \<Longrightarrow> list_all framed (e # bs) \<Longrightarrow> associated_data d as = associated_data e bs \<Longrightarrow> d = e \<and> as = bs"
  using frames_inj [of "d # as" "e # bs"] unfolding associated_data_def frame_def [abs_def] by blast

lemma show_nat_value: "foldl (\<lambda>v c. v * 10 + (c - 48)) 0 (show_nat n) = n"
proof (induction n rule: show_nat.induct)
  case (1 n)
  show ?case
  proof (cases "n < 10")
    case True
    then show ?thesis by (subst show_nat.simps) simp
  next
    case False
    then show ?thesis using 1 by (subst show_nat.simps) simp
  qed
qed

lemma show_nat_inj: "show_nat n = show_nat m \<Longrightarrow> n = m"
  by (metis show_nat_value)

lemma hex_encode_inj: "crates_ok K \<Longrightarrow> u8s a \<Longrightarrow> u8s b \<Longrightarrow> hex_encode K a = hex_encode K b \<Longrightarrow> a = b"
  unfolding crates_ok_def by (metis option.inject)

definition node_payload :: "crates \<Rightarrow> signed_redemption \<Rightarrow> bytes" where
  "node_payload K r = signing_payload K (sr_token r) (sr_job r) (sr_requested r) (sr_nonce r) (sr_issued_at r) (sr_key r)"

definition proxy_payload :: "crates \<Rightarrow> signed_proxy_redemption \<Rightarrow> bytes" where
  "proxy_payload K r = proxy_signing_payload K (sp_token r) (sp_tenant r) (sp_job r) (sp_nonce r) (sp_issued_at r) (sp_key r)"

text \<open>Every field is text whose encoding is shorter than 4 GiB, and nonces and keys are bytes.\<close>

definition node_fields_ok :: "crates \<Rightarrow> signed_redemption \<Rightarrow> bool" where
  "node_fields_ok K r \<longleftrightarrow> u8s (sr_nonce r) \<and> u8s (sr_key r) \<and>
     list_all framed ([sr_token r, sr_job r, hex_encode K (sr_nonce r), show_nat (sr_issued_at r), hex_encode K (sr_key r)] @ sr_requested r)"

definition proxy_fields_ok :: "crates \<Rightarrow> signed_proxy_redemption \<Rightarrow> bool" where
  "proxy_fields_ok K r \<longleftrightarrow>
     list_all framed [sp_token r, sp_tenant r, sp_job r, hex_encode K (sp_nonce r), show_nat (sp_issued_at r), hex_encode K (sp_key r)]"

lemma domains: "framed NODE_DOMAIN" "framed PROXY_DOMAIN" "NODE_DOMAIN \<noteq> PROXY_DOMAIN"
  by (simp_all add: NODE_DOMAIN_def PROXY_DOMAIN_def framed_def scalar_def utf8_def utf8_char_def)

text \<open>A signature covers the whole request and nothing else: two node redemptions are signed as the same
  bytes exactly when their token, job, requested names, nonce, time and key are all equal, so no
  character can move from one field to the next; and the bytes a node signs are never the bytes the
  package proxy signs.
\<close>

theorem signature_covers_request:
  assumes "crates_ok K" and "node_fields_ok K r" and "node_fields_ok K r'" and "proxy_fields_ok K p"
  shows "(node_payload K r = node_payload K r' \<longleftrightarrow> r\<lparr>sr_signature := []\<rparr> = r'\<lparr>sr_signature := []\<rparr>) \<and>
    node_payload K r \<noteq> proxy_payload K p"
proof -
  define fs where "fs r = [sr_token r, sr_job r, hex_encode K (sr_nonce r), show_nat (sr_issued_at r), hex_encode K (sr_key r)] @ sr_requested r" for r :: signed_redemption
  have p: "node_payload K r = associated_data NODE_DOMAIN (fs r)" for r
    by (simp add: node_payload_def signing_payload_def fs_def)
  have ok: "list_all framed (NODE_DOMAIN # fs r)" "list_all framed (NODE_DOMAIN # fs r')"
    using assms(2,3) domains by (simp_all add: node_fields_ok_def fs_def)
  have "r\<lparr>sr_signature := []\<rparr> = r'\<lparr>sr_signature := []\<rparr>" if "node_payload K r = node_payload K r'"
  proof -
    from associated_data_inj [OF ok] that have "fs r = fs r'" by (simp add: p)
    then have e: "sr_token r = sr_token r'" "sr_job r = sr_job r'" "hex_encode K (sr_nonce r) = hex_encode K (sr_nonce r')"
      "show_nat (sr_issued_at r) = show_nat (sr_issued_at r')" "hex_encode K (sr_key r) = hex_encode K (sr_key r')"
      "sr_requested r = sr_requested r'" by (simp_all add: fs_def)
    have "sr_nonce r = sr_nonce r'" "sr_key r = sr_key r'"
      using hex_encode_inj [OF assms(1)] e assms(2,3) by (simp_all add: node_fields_ok_def)
    with e show_nat_inj show ?thesis by simp
  qed
  moreover have "node_payload K r = node_payload K r'" if "r\<lparr>sr_signature := []\<rparr> = r'\<lparr>sr_signature := []\<rparr>"
  proof -
    have "node_payload K (r\<lparr>sr_signature := []\<rparr>) = node_payload K (r'\<lparr>sr_signature := []\<rparr>)" by (simp only: that)
    then show ?thesis by (simp add: node_payload_def)
  qed
  moreover have "node_payload K r \<noteq> proxy_payload K p"
  proof
    assume "node_payload K r = proxy_payload K p"
    then have e: "associated_data NODE_DOMAIN (fs r) = associated_data PROXY_DOMAIN
        [sp_token p, sp_tenant p, sp_job p, hex_encode K (sp_nonce p), show_nat (sp_issued_at p), hex_encode K (sp_key p)]"
      by (simp add: p proxy_payload_def proxy_signing_payload_def)
    have "list_all framed (PROXY_DOMAIN # [sp_token p, sp_tenant p, sp_job p, hex_encode K (sp_nonce p), show_nat (sp_issued_at p), hex_encode K (sp_key p)])"
      using assms(4) domains by (simp add: proxy_fields_ok_def)
    from associated_data_inj [OF ok(1) this e] have "NODE_DOMAIN = PROXY_DOMAIN" by simp
    then show False using domains by simp
  qed
  ultimately show ?thesis by blast
qed

definition demo_redemption :: signed_redemption where
  "demo_redemption = \<lparr>sr_token = lit ''t'', sr_job = lit ''job_1'', sr_requested = [lit ''A''], sr_nonce = [1], sr_issued_at = 7,
     sr_key = [2], sr_signature = []\<rparr>"

definition demo_proxy_redemption :: signed_proxy_redemption where
  "demo_proxy_redemption = \<lparr>sp_token = lit ''t'', sp_tenant = lit ''acme'', sp_job = lit ''job_1'', sp_nonce = [1], sp_issued_at = 7,
     sp_key = [2], sp_signature = []\<rparr>"

theorem signature_covers_request_witness:
  "node_payload demo_crates demo_redemption \<noteq>
     node_payload demo_crates (demo_redemption\<lparr>sr_job := lit ''job_1A'', sr_requested := []\<rparr>) \<and>
   node_payload demo_crates demo_redemption \<noteq> proxy_payload demo_crates demo_proxy_redemption"
proof -
  have ok: "node_fields_ok demo_crates demo_redemption"
    "node_fields_ok demo_crates (demo_redemption\<lparr>sr_job := lit ''job_1A'', sr_requested := []\<rparr>)"
    "proxy_fields_ok demo_crates demo_proxy_redemption"
    by (simp_all add: node_fields_ok_def proxy_fields_ok_def demo_redemption_def demo_proxy_redemption_def framed_def scalar_def
      utf8_def utf8_char_def demo_crates_def hex_def hex_digit_def show_nat.simps)
  from signature_covers_request [OF demo_crates_ok ok] show ?thesis
    by (simp add: demo_redemption_def)
qed

end
