(* ===== verification/Ci_Grant.thy ===== *)
theory Ci_Grant
  imports Ci_Text
begin

text \<open>
  The package proxy's bearer: the token bucket (\<open>src/crates/hull-ci-proxy/src/ratelimit.rs\<close>) and the
  registry of per-job grants (\<open>grant.rs\<close>). \<open>u32\<close> and \<open>u64\<close> are naturals with the saturating operations
  of the code written out; the registry is a \<open>BTreeMap\<close> by grant id, and each method that takes its lock
  is one step. Shown: whatever the clock does, the requests a grant is allowed in a window of time are at
  most its burst and its rate times the window; and a token authorises only as what it was minted for,
  before its expiry and as long as neither it nor its job was revoked.
\<close>

definition U32_MAX :: nat where "U32_MAX = 4294967295"
definition U64_MAX :: nat where "U64_MAX = 18446744073709551615"

section \<open>The token bucket\<close>

record rate_limit =
  rl_per_second :: nat
  rl_burst :: nat

definition rate_limit_default :: rate_limit where
  "rate_limit_default = \<lparr>rl_per_second = 20, rl_burst = 200\<rparr>"

record token_bucket =
  tb_limit :: rate_limit
  tb_tokens :: nat
  tb_last_refill :: "nat option"

definition bucket_new :: "rate_limit \<Rightarrow> token_bucket" where
  "bucket_new limit = \<lparr>tb_limit = limit, tb_tokens = rl_burst limit, tb_last_refill = None\<rparr>"

definition refill :: "nat \<Rightarrow> token_bucket \<Rightarrow> token_bucket" where
  "refill now b =
     (case tb_last_refill b of
        None \<Rightarrow> b\<lparr>tb_last_refill := Some now\<rparr>
      | Some prev \<Rightarrow>
          let elapsed = now - prev in
          if elapsed = 0 then b
          else let gained = min (elapsed * rl_per_second (tb_limit b)) U64_MAX in
            b\<lparr>tb_last_refill := Some now,
              tb_tokens := min (min (tb_tokens b + min gained U32_MAX) U32_MAX) (rl_burst (tb_limit b))\<rparr>)"

definition take_token :: "nat \<Rightarrow> token_bucket \<Rightarrow> token_bucket \<times> bool" where
  "take_token now b =
     (let b = refill now b in
      if tb_tokens b = 0 then (b, False) else (b\<lparr>tb_tokens := tb_tokens b - 1\<rparr>, True))"

section \<open>Grants\<close>

definition GRANT_PREFIX :: str where "GRANT_PREFIX = lit ''hpkg_''"

definition grant_token_mint :: "crates \<Rightarrow> bytes \<Rightarrow> bytes \<Rightarrow> str \<times> bytes \<times> bytes" where
  "grant_token_mint K i secret = bearer_mint K GRANT_PREFIX i secret"

definition grant_token_parse :: "crates \<Rightarrow> str \<Rightarrow> (bytes \<times> bytes) option" where
  "grant_token_parse K token = bearer_parse K GRANT_PREFIX token"

record pkg_grant =
  gt_id :: bytes
  gt_tenant :: str
  gt_job :: job_id
  gt_upstreams :: "str set"
  gt_expires_at :: nat
  gt_rate :: rate_limit

datatype grant_error = GrantInvalid | GrantExpired | GrantRevoked | RateLimited nat nat

record grant_record =
  gr_grant :: pkg_grant
  gr_digest :: bytes
  gr_revoked :: bool
  gr_bucket :: token_bucket

definition grant_authenticates :: "crates \<Rightarrow> grant_record \<Rightarrow> bytes \<Rightarrow> bool" where
  "grant_authenticates K r presented \<longleftrightarrow> ct_eq K (gr_digest r) presented"

type_synonym registry = "(bytes \<times> grant_record) list"

definition mint_grant :: "crates \<Rightarrow> bytes \<Rightarrow> bytes \<Rightarrow> str \<Rightarrow> job_id \<Rightarrow> str set \<Rightarrow> nat \<Rightarrow> rate_limit \<Rightarrow> registry \<Rightarrow>
    registry \<times> str \<times> pkg_grant" where
  "mint_grant K i secret tn job upstreams expires_at rate m =
     (let (token, grant_id, digest) = grant_token_mint K i secret;
          g = \<lparr>gt_id = grant_id, gt_tenant = tn, gt_job = job, gt_upstreams = upstreams,
               gt_expires_at = expires_at, gt_rate = rate\<rparr>;
          r = \<lparr>gr_grant = g, gr_digest = digest, gr_revoked = False, gr_bucket = bucket_new rate\<rparr>
      in (bt_insert grant_id r m, token, g))"

definition authorise :: "crates \<Rightarrow> str \<Rightarrow> nat \<Rightarrow> registry \<Rightarrow> registry \<times> (grant_error + pkg_grant)" where
  "authorise K token now m =
     (case grant_token_parse K token of
        None \<Rightarrow> (m, Inl GrantInvalid)
      | Some (i, digest) \<Rightarrow>
          (case map_of m i of
             None \<Rightarrow> (m, Inl GrantInvalid)
           | Some r \<Rightarrow>
               if \<not> grant_authenticates K r digest then (m, Inl GrantInvalid)
               else if gr_revoked r then (m, Inl GrantRevoked)
               else if gt_expires_at (gr_grant r) \<le> now then (m, Inl GrantExpired)
               else
                 let (b, ok) = take_token now (gr_bucket r);
                     m = hm_modify i (\<lambda>r. r\<lparr>gr_bucket := b\<rparr>) m
                 in if ok then (m, Inr (gr_grant r))
                    else (m, Inl (RateLimited (rl_per_second (gt_rate (gr_grant r))) (rl_burst (gt_rate (gr_grant r)))))))"

definition revoke_grant :: "bytes \<Rightarrow> registry \<Rightarrow> registry \<times> bool" where
  "revoke_grant i m =
     (case map_of m i of
        Some r \<Rightarrow> if \<not> gr_revoked r then (hm_modify i (\<lambda>r. r\<lparr>gr_revoked := True\<rparr>) m, True) else (m, False)
      | None \<Rightarrow> (m, False))"

definition revoke_job :: "job_id \<Rightarrow> registry \<Rightarrow> registry \<times> nat" where
  "revoke_job job m =
     (let ids = map (\<lambda>(_, r). gt_id (gr_grant r)) (filter (\<lambda>(_, r). gt_job (gr_grant r) = job) m)
      in (fold AList.delete ids m, length ids))"

definition sweep_grants :: "nat \<Rightarrow> registry \<Rightarrow> registry \<times> nat" where
  "sweep_grants now m =
     (let kept = filter (\<lambda>(_, r). now < gt_expires_at (gr_grant r)) m in (kept, length m - length kept))"

text \<open>The calls a registry sees, in the order its lock serialises them. \<open>None\<close> answers a call other than
  \<open>authorise\<close>.\<close>

datatype grant_call =
    Mint bytes bytes str job_id "str set" nat rate_limit
  | Authorise str nat
  | Revoke bytes
  | RevokeJob job_id
  | Sweep nat

fun registry_step :: "crates \<Rightarrow> grant_call \<Rightarrow> registry \<Rightarrow> registry \<times> pkg_grant option" where
  "registry_step K (Mint i secret tn job ups e rate) m = (fst (mint_grant K i secret tn job ups e rate m), None)"
| "registry_step K (Authorise token now) m =
     (fst (authorise K token now m), case snd (authorise K token now m) of Inl _ \<Rightarrow> None | Inr g \<Rightarrow> Some g)"
| "registry_step K (Revoke i) m = (fst (revoke_grant i m), None)"
| "registry_step K (RevokeJob job) m = (fst (revoke_job job m), None)"
| "registry_step K (Sweep now) m = (fst (sweep_grants now m), None)"

definition grants_after :: "crates \<Rightarrow> grant_call list \<Rightarrow> registry" where
  "grants_after K calls = fst (run (registry_step K) calls [])"

text \<open>How many requests the calls let through on the grant \<open>i\<close>.\<close>

definition let_through :: "bytes \<Rightarrow> pkg_grant option list \<Rightarrow> nat" where
  "let_through i as = length (filter (\<lambda>a. \<exists>g. a = Some g \<and> gt_id g = i) as)"

fun mints :: "bytes \<Rightarrow> grant_call \<Rightarrow> bool" where
  "mints i (Mint j _ _ _ _ _ _) \<longleftrightarrow> j = i"
| "mints i _ \<longleftrightarrow> False"

fun within :: "nat \<Rightarrow> nat \<Rightarrow> grant_call \<Rightarrow> bool" where
  "within lo hi (Authorise _ now) \<longleftrightarrow> lo \<le> now \<and> now \<le> hi"
| "within lo hi _ \<longleftrightarrow> True"

section \<open>Credit\<close>

text \<open>What a bucket can still give to requests made between \<open>lo\<close> and \<open>hi\<close>.\<close>

definition credit :: "nat \<Rightarrow> nat \<Rightarrow> token_bucket \<Rightarrow> nat" where
  "credit lo hi b =
     (let r = rl_per_second (tb_limit b) in
      case tb_last_refill b of
        None \<Rightarrow> tb_tokens b + r * (hi - lo)
      | Some l \<Rightarrow> if l < lo then rl_burst (tb_limit b) + r * (hi - lo) else tb_tokens b + r * (hi - l))"

definition bucket_ok :: "token_bucket \<Rightarrow> bool" where
  "bucket_ok b \<longleftrightarrow> tb_tokens b \<le> rl_burst (tb_limit b)"

lemma refill_limit [simp]: "tb_limit (refill now b) = tb_limit b"
  by (simp add: refill_def Let_def split: option.splits)

lemma take_limit [simp]: "tb_limit (fst (take_token now b)) = tb_limit b"
  by (simp add: take_token_def Let_def)

lemma refill_ok: "bucket_ok b \<Longrightarrow> bucket_ok (refill now b)"
  by (simp add: bucket_ok_def refill_def Let_def split: option.splits)

lemma take_ok: "bucket_ok b \<Longrightarrow> bucket_ok (fst (take_token now b))"
  using refill_ok [of b now] by (auto simp: take_token_def bucket_ok_def Let_def)

lemma refill_credit:
  assumes "bucket_ok b" and "lo \<le> now" and "now \<le> hi"
  shows "credit lo hi (refill now b) \<le> credit lo hi b \<and> (\<exists>l\<ge>lo. tb_last_refill (refill now b) = Some l)"
proof (cases "tb_last_refill b")
  case None
  from assms have "hi - now \<le> hi - lo" by simp
  then have "rl_per_second (tb_limit b) * (hi - now) \<le> rl_per_second (tb_limit b) * (hi - lo)" by (rule mult_le_mono2)
  with None assms show ?thesis by (simp add: refill_def credit_def)
next
  case (Some l)
  let ?r = "rl_per_second (tb_limit b)"
  consider "now \<le> l" | "l < now" "l < lo" | "l < now" "lo \<le> l" by linarith
  then show ?thesis
  proof cases
    case 1
    with Some assms show ?thesis by (simp add: refill_def credit_def)
  next
    case 2
    with Some assms show ?thesis by (auto simp: refill_def credit_def Let_def intro!: add_mono mult_le_mono2)
  next
    case 3
    from 3 assms have "(hi - now) + (now - l) = hi - l" by simp
    then have e: "?r * (hi - now) + (now - l) * ?r = ?r * (hi - l)" by (metis distrib_left mult.commute)
    define gain where "gain = min (min ((now - l) * ?r) U64_MAX) U32_MAX"
    have r: "refill now b = b\<lparr>tb_last_refill := Some now,
        tb_tokens := min (min (tb_tokens b + gain) U32_MAX) (rl_burst (tb_limit b))\<rparr>"
      using Some 3 by (simp add: refill_def gain_def Let_def min.assoc)
    have "min (min (tb_tokens b + gain) U32_MAX) (rl_burst (tb_limit b)) \<le> tb_tokens b + gain" by simp
    moreover have "gain \<le> (now - l) * ?r" by (simp add: gain_def min.coboundedI1)
    ultimately have "min (min (tb_tokens b + gain) U32_MAX) (rl_burst (tb_limit b)) + ?r * (hi - now) \<le> tb_tokens b + ?r * (hi - l)"
      using e by linarith
    then show ?thesis using Some 3 assms by (simp add: r credit_def del: min_less_iff_conj min.bounded_iff)
  qed
qed

lemma take_credit:
  assumes "bucket_ok b" and "lo \<le> now" and "now \<le> hi"
  shows "of_bool (snd (take_token now b)) + credit lo hi (fst (take_token now b)) \<le> credit lo hi b"
proof -
  from refill_credit [OF assms] obtain l where "lo \<le> l" "tb_last_refill (refill now b) = Some l"
    and "credit lo hi (refill now b) \<le> credit lo hi b" by auto
  then show ?thesis by (auto simp: take_token_def credit_def Let_def)
qed

lemma credit_bound:
  assumes "bucket_ok b"
  shows "credit lo hi b \<le> rl_burst (tb_limit b) + rl_per_second (tb_limit b) * (hi - lo)"
proof (cases "tb_last_refill b")
  case None
  with assms show ?thesis by (simp add: credit_def bucket_ok_def)
next
  case (Some l)
  with assms show ?thesis by (auto simp: credit_def bucket_ok_def Let_def intro!: add_mono mult_le_mono2)
qed

section \<open>The registry\<close>

definition registry_ok :: "registry \<Rightarrow> bool" where
  "registry_ok m \<longleftrightarrow> bt_ok m \<and>
     (\<forall>i r. map_of m i = Some r \<longrightarrow>
        gt_id (gr_grant r) = i \<and> bucket_ok (gr_bucket r) \<and> tb_limit (gr_bucket r) = gt_rate (gr_grant r))"

lemma registry_ok_Nil: "registry_ok []"
  by (simp add: registry_ok_def)

lemma bucket_new_ok: "bucket_ok (bucket_new l)" "tb_limit (bucket_new l) = l"
  by (simp_all add: bucket_ok_def bucket_new_def)

lemma map_of_mint:
  "bt_ok m \<Longrightarrow> map_of (fst (mint_grant K i secret t j ups e rate m)) =
     (map_of m)(i \<mapsto> \<lparr>gr_grant = \<lparr>gt_id = i, gt_tenant = t, gt_job = j, gt_upstreams = ups, gt_expires_at = e, gt_rate = rate\<rparr>,
        gr_digest = blake3_hash K secret, gr_revoked = False, gr_bucket = bucket_new rate\<rparr>)"
  by (simp add: mint_grant_def grant_token_mint_def bearer_mint_def Let_def)

text \<open>What one call leaves of the record of a grant: itself, with its bucket or its mark changed.\<close>

lemma map_of_authorise:
  "map_of (fst (authorise K token now m)) i = map_option
     (\<lambda>r. if grant_token_parse K token = Some (i, d) \<and> grant_authenticates K r d \<and> \<not> gr_revoked r \<and>
            now < gt_expires_at (gr_grant r)
          then r\<lparr>gr_bucket := fst (take_token now (gr_bucket r))\<rparr> else r) (map_of m i)"
  if "d = snd (the (grant_token_parse K token))"
  using that
  by (cases "map_of m i")
    (auto simp: authorise_def Let_def case_prod_unfold split: option.splits)

lemma map_of_revoke:
  "map_of (fst (revoke_grant i m)) k =
     map_option (\<lambda>r. if k = i then r\<lparr>gr_revoked := True\<rparr> else r) (map_of m k)"
  by (cases "map_of m k") (auto simp: revoke_grant_def split: option.splits)

lemma map_of_revoke_job:
  assumes "registry_ok m"
  shows "map_of (fst (revoke_job job m)) k =
     (case map_of m k of Some r \<Rightarrow> if gt_job (gr_grant r) = job then None else Some r | None \<Rightarrow> None)"
proof -
  from assms have ok: "hm_ok m" by (simp add: registry_ok_def bt_ok_distinct)
  have ids: "gt_id (gr_grant r) = i" if "(i, r) \<in> set m" for i r
    using that assms hm_mem_iff [OF ok] by (simp add: registry_ok_def)
  have "k \<in> set (map (\<lambda>(_, r). gt_id (gr_grant r)) (filter (\<lambda>(_, r). gt_job (gr_grant r) = job) m)) \<longleftrightarrow>
      (\<exists>r. (k, r) \<in> set m \<and> gt_job (gr_grant r) = job)"
    using ids by force
  also have "\<dots> \<longleftrightarrow> (\<exists>r. map_of m k = Some r \<and> gt_job (gr_grant r) = job)"
    using hm_mem_iff [OF ok] by simp
  finally show ?thesis by (simp add: revoke_job_def Let_def map_of_fold_delete split: option.splits)
qed

lemma map_of_sweep:
  "registry_ok m \<Longrightarrow> map_of (fst (sweep_grants now m)) k =
     (case map_of m k of Some r \<Rightarrow> if now < gt_expires_at (gr_grant r) then Some r else None | None \<Rightarrow> None)"
  by (simp add: sweep_grants_def Let_def registry_ok_def bt_ok_distinct map_of_filter_ok split: option.splits)

lemma bt_ok_step: "registry_ok m \<Longrightarrow> bt_ok (fst (registry_step K c m))"
  by (cases c)
    (auto simp: registry_ok_def mint_grant_def grant_token_mint_def bearer_mint_def authorise_def revoke_grant_def
      revoke_job_def sweep_grants_def Let_def bt_ok_insert bt_ok_fold_delete bt_ok_filter case_prod_unfold
      split: option.splits)

text \<open>One call keeps a record, its grant and its digest, or drops it; only a mint makes a new one.\<close>

lemma step_record:
  assumes "registry_ok m" and "map_of (fst (registry_step K c m)) i = Some r'" and "\<not> mints i c"
  obtains r where "map_of m i = Some r" and "gr_grant r' = gr_grant r" and "gr_digest r' = gr_digest r"
    and "gr_revoked r \<Longrightarrow> gr_revoked r'" and "c = Revoke i \<Longrightarrow> gr_revoked r'"
    and "c \<noteq> RevokeJob (gt_job (gr_grant r))" and "\<And>now. c = Sweep now \<Longrightarrow> now < gt_expires_at (gr_grant r)"
    and "gr_bucket r' = gr_bucket r \<or> (\<exists>token now. c = Authorise token now \<and> gr_bucket r' = fst (take_token now (gr_bucket r)))"
proof -
  from assms(1) have bt: "bt_ok m" by (simp add: registry_ok_def)
  show thesis
  proof (cases c)
    case (Mint j secret t jb ups e rate)
    with assms bt that show ?thesis by (simp add: map_of_mint)
  next
    case (Authorise token now)
    with assms that show ?thesis
      by (auto simp: map_of_authorise [OF refl] split: if_splits)
  next
    case (Revoke k)
    with assms obtain r where "map_of m i = Some r" "r' = (if i = k then r\<lparr>gr_revoked := True\<rparr> else r)"
      by (auto simp: map_of_revoke)
    with Revoke show ?thesis by (intro that [of r]) auto
  next
    case (RevokeJob job)
    with assms that show ?thesis by (auto simp: map_of_revoke_job split: if_splits option.splits)
  next
    case (Sweep now)
    with assms that show ?thesis by (auto simp: map_of_sweep split: if_splits option.splits)
  qed
qed

lemma registry_ok_step: "registry_ok m \<Longrightarrow> registry_ok (fst (registry_step K c m))"
proof -
  assume ok: "registry_ok m"
  have "gt_id (gr_grant r') = i \<and> bucket_ok (gr_bucket r') \<and> tb_limit (gr_bucket r') = gt_rate (gr_grant r')"
    if r': "map_of (fst (registry_step K c m)) i = Some r'" for i r'
  proof (cases "mints i c")
    case True
    then obtain secret t jb ups e rate where "c = Mint i secret t jb ups e rate" by (cases c) auto
    with r' ok show ?thesis by (auto simp: registry_ok_def map_of_mint bucket_new_ok)
  next
    case False
    from step_record [OF ok r' False] obtain r where "map_of m i = Some r" "gr_grant r' = gr_grant r"
      "gr_bucket r' = gr_bucket r \<or> (\<exists>token now. c = Authorise token now \<and> gr_bucket r' = fst (take_token now (gr_bucket r)))"
      by metis
    with ok show ?thesis by (auto simp: registry_ok_def take_ok)
  qed
  with bt_ok_step [OF ok] show ?thesis by (simp add: registry_ok_def)
qed

lemma grants_after_snoc: "grants_after K (cs @ [c]) = fst (registry_step K c (grants_after K cs))"
  by (simp add: grants_after_def run_snoc)

lemma registry_ok_after: "registry_ok (grants_after K cs)"
  unfolding grants_after_def by (rule run_invariant [OF registry_ok_Nil registry_ok_step])

text \<open>A call pays for the request it lets through from the credit of the grant's bucket.\<close>

lemma step_credit:
  assumes ok: "registry_ok m" and "within lo hi c" and nm: "\<not> mints i c"
  shows "of_bool (\<exists>g. snd (registry_step K c m) = Some g \<and> gt_id g = i) +
      (case map_of (fst (registry_step K c m)) i of None \<Rightarrow> 0 | Some r \<Rightarrow> credit lo hi (gr_bucket r)) \<le>
    (case map_of m i of None \<Rightarrow> 0 | Some r \<Rightarrow> credit lo hi (gr_bucket r))"
proof (cases "\<exists>token now. c = Authorise token now")
  case True
  then obtain token now where c: "c = Authorise token now" by blast
  with assms have t: "lo \<le> now" "now \<le> hi" by simp_all
  show ?thesis
  proof (cases "\<exists>d r. grant_token_parse K token = Some (i, d) \<and> map_of m i = Some r \<and> grant_authenticates K r d \<and>
      \<not> gr_revoked r \<and> now < gt_expires_at (gr_grant r)")
    case True
    then obtain d r where r: "grant_token_parse K token = Some (i, d)" "map_of m i = Some r" "grant_authenticates K r d"
      "\<not> gr_revoked r" "now < gt_expires_at (gr_grant r)" by blast
    from ok r(2) have "bucket_ok (gr_bucket r)" by (simp add: registry_ok_def)
    from take_credit [OF this t] c r show ?thesis
      by (auto simp: authorise_def Let_def case_prod_unfold)
  next
    case False
    have "\<not> (\<exists>g. snd (registry_step K c m) = Some g \<and> gt_id g = i)"
      using False ok c
      by (auto simp: authorise_def registry_ok_def Let_def case_prod_unfold grant_authenticates_def split: option.splits if_splits sum.splits)
    moreover have "map_of (fst (registry_step K c m)) i = map_of m i"
      using False c by (cases "map_of m i") (auto simp: authorise_def Let_def case_prod_unfold split: option.splits)
    ultimately show ?thesis by simp
  qed
next
  case False
  then have "snd (registry_step K c m) = None" by (cases c) auto
  moreover have "(case map_of (fst (registry_step K c m)) i of None \<Rightarrow> 0 | Some r \<Rightarrow> credit lo hi (gr_bucket r)) \<le>
      (case map_of m i of None \<Rightarrow> 0 | Some r \<Rightarrow> credit lo hi (gr_bucket r))"
  proof (cases "map_of (fst (registry_step K c m)) i")
    case (Some r')
    from step_record [OF ok Some nm] False obtain r where "map_of m i = Some r" "gr_bucket r' = gr_bucket r" by metis
    with Some show ?thesis by simp
  qed simp
  ultimately show ?thesis by simp
qed

section \<open>What a token authorises\<close>

definition mint_of :: "bytes \<Rightarrow> pkg_grant \<Rightarrow> grant_call" where
  "mint_of secret g = Mint (gt_id g) secret (gt_tenant g) (gt_job g) (gt_upstreams g) (gt_expires_at g) (gt_rate g)"

text \<open>Calls that leave the grant \<open>g\<close> usable.\<close>

definition spares :: "pkg_grant \<Rightarrow> grant_call \<Rightarrow> bool" where
  "spares g c \<longleftrightarrow> \<not> mints (gt_id g) c \<and> c \<noteq> RevokeJob (gt_job g) \<and> (\<forall>now. c = Sweep now \<longrightarrow> now < gt_expires_at g)"

lemma record_history:
  assumes "map_of (grants_after K cs) i = Some r"
  shows "\<exists>before after secret. cs = before @ mint_of secret (gr_grant r) # after \<and> gr_digest r = blake3_hash K secret \<and>
    (\<forall>c\<in>set after. spares (gr_grant r) c) \<and> (\<not> gr_revoked r \<longrightarrow> Revoke i \<notin> set after)"
  using assms
proof (induction cs arbitrary: r rule: rev_induct)
  case Nil
  then show ?case by (simp add: grants_after_def)
next
  case (snoc c cs)
  note ok = registry_ok_after [of K cs]
  have gid: "gt_id (gr_grant r) = i"
    using registry_ok_after [of K "cs @ [c]"] snoc.prems by (simp add: registry_ok_def)
  show ?case
  proof (cases "mints i c")
    case True
    then obtain secret t j ups e rate where c: "c = Mint i secret t j ups e rate" by (cases c) auto
    with snoc.prems ok have "c = mint_of secret (gr_grant r)" "gr_digest r = blake3_hash K secret"
      by (auto simp: grants_after_snoc registry_ok_def map_of_mint mint_of_def)
    then show ?thesis by (intro exI [of _ cs] exI [of _ "[]"] exI [of _ secret]) simp
  next
    case False
    from step_record [OF ok snoc.prems [unfolded grants_after_snoc] False]
    obtain r0 where r0: "map_of (grants_after K cs) i = Some r0" and g: "gr_grant r = gr_grant r0"
      and d: "gr_digest r = gr_digest r0" and rv: "gr_revoked r0 \<Longrightarrow> gr_revoked r" "c = Revoke i \<Longrightarrow> gr_revoked r"
      and c: "c \<noteq> RevokeJob (gt_job (gr_grant r0))" "\<And>now. c = Sweep now \<Longrightarrow> now < gt_expires_at (gr_grant r0)"
      by metis
    from snoc.IH [OF r0] obtain before after secret
      where h: "cs = before @ mint_of secret (gr_grant r0) # after" "gr_digest r0 = blake3_hash K secret"
        "\<forall>c\<in>set after. spares (gr_grant r0) c" "\<not> gr_revoked r0 \<longrightarrow> Revoke i \<notin> set after" by blast
    from False c gid g have "spares (gr_grant r) c" by (auto simp: spares_def)
    with h g d rv show ?thesis
      by (intro exI [of _ before] exI [of _ "after @ [c]"] exI [of _ secret]) auto
  qed
qed

lemma authorise_Inr:
  assumes "snd (authorise K token now m) = Inr g"
  obtains r d where "grant_token_parse K token = Some (gt_id (gr_grant r), d) \<or> \<not> registry_ok m"
    and "map_of m (fst (the (grant_token_parse K token))) = Some r" and "grant_token_parse K token \<noteq> None"
    and "d = snd (the (grant_token_parse K token))" and "ct_eq K (gr_digest r) d" and "\<not> gr_revoked r"
    and "now < gt_expires_at g" and "g = gr_grant r"
proof -
  from assms obtain i d where p: "grant_token_parse K token = Some (i, d)"
    by (auto simp: authorise_def split: option.splits)
  with assms obtain r where "map_of m i = Some r" "ct_eq K (gr_digest r) d" "\<not> gr_revoked r"
    "now < gt_expires_at g" "g = gr_grant r"
    by (auto simp: authorise_def grant_authenticates_def Let_def case_prod_unfold split: option.splits if_splits)
  with p show thesis by (intro that [of r d]) (auto simp: registry_ok_def)
qed

text \<open>C18. A package grant authorises only as what it was minted for: after any history of calls on the
  registry, a token that is let through parses to the id of a grant minted earlier in that history, whose
  job, tenant, upstreams, expiry and rate are the ones returned, with an authenticator that passes the
  constant-time comparison; since that mint the id was not minted again, neither it nor its job was
  revoked, no sweep ran at or past its expiry, and the expiry has not come.
\<close>

theorem authorise_as_minted:
  assumes "snd (authorise K token now (grants_after K calls)) = Inr g"
  shows "\<exists>before after secret d. calls = before @ mint_of secret g # after \<and>
    grant_token_parse K token = Some (gt_id g, d) \<and> ct_eq K (blake3_hash K secret) d \<and>
    now < gt_expires_at g \<and> Revoke (gt_id g) \<notin> set after \<and> list_all (spares g) after"
proof -
  note ok = registry_ok_after [of K calls]
  from authorise_Inr [OF assms] obtain r d where
    r: "grant_token_parse K token = Some (gt_id (gr_grant r), d)" "g = gr_grant r" "ct_eq K (gr_digest r) d"
    "\<not> gr_revoked r" "now < gt_expires_at g" "map_of (grants_after K calls) (gt_id g) = Some r"
    using ok by (metis fst_conv option.sel)
  from record_history [OF r(6)] obtain before after secret
    where "calls = before @ mint_of secret g # after" "gr_digest r = blake3_hash K secret"
      "\<forall>c\<in>set after. spares g c" "Revoke (gt_id g) \<notin> set after"
    using r(2,4) by auto
  with r show ?thesis
    by (intro exI [of _ before] exI [of _ after] exI [of _ secret] exI [of _ d]) (simp add: list_all_iff)
qed

definition demo_id :: bytes where "demo_id = replicate 16 7"
definition demo_secret :: bytes where "demo_secret = replicate 32 9"
definition demo_rate :: rate_limit where "demo_rate = \<lparr>rl_per_second = 1, rl_burst = 2\<rparr>"

definition demo_grant :: pkg_grant where
  "demo_grant = \<lparr>gt_id = demo_id, gt_tenant = lit ''acme'', gt_job = lit ''job_1'', gt_upstreams = {lit ''npm''},
     gt_expires_at = 1000, gt_rate = demo_rate\<rparr>"

definition demo_token :: str where
  "demo_token = fst (grant_token_mint demo_crates demo_id demo_secret)"

lemma demo_token_parses: "grant_token_parse demo_crates demo_token = Some (demo_id, demo_secret)"
  unfolding demo_token_def grant_token_mint_def grant_token_parse_def
  by (subst bearer_parse_mint [OF demo_crates_ok])
    (simp_all add: demo_id_def demo_secret_def ID_LEN_def SECRET_LEN_def demo_crates_def list_all_iff)

lemma demo_after_mint:
  "grants_after demo_crates [mint_of demo_secret demo_grant] =
     [(demo_id, \<lparr>gr_grant = demo_grant, gr_digest = demo_secret, gr_revoked = False, gr_bucket = bucket_new demo_rate\<rparr>)]"
  by (simp add: grants_after_def mint_of_def demo_grant_def mint_grant_def grant_token_mint_def bearer_mint_def
    demo_crates_def Let_def)

lemma demo_authorised:
  "authorise demo_crates demo_token 500 (grants_after demo_crates [mint_of demo_secret demo_grant]) =
     ([(demo_id, \<lparr>gr_grant = demo_grant, gr_digest = demo_secret, gr_revoked = False,
         gr_bucket = \<lparr>tb_limit = demo_rate, tb_tokens = 1, tb_last_refill = Some 500\<rparr>\<rparr>)], Inr demo_grant)"
  unfolding authorise_def demo_token_parses demo_after_mint
  by (simp add: grant_authenticates_def demo_crates_def demo_grant_def
      take_token_def refill_def bucket_new_def demo_rate_def hm_modify_def hm_map_def)

theorem authorise_as_minted_witness:
  "snd (authorise demo_crates demo_token 500 (grants_after demo_crates [mint_of demo_secret demo_grant])) = Inr demo_grant \<and>
   (\<exists>before after secret d. [mint_of demo_secret demo_grant] = before @ mint_of secret demo_grant # after \<and>
     grant_token_parse demo_crates demo_token = Some (gt_id demo_grant, d) \<and>
     ct_eq demo_crates (blake3_hash demo_crates secret) d \<and> 500 < gt_expires_at demo_grant \<and>
     Revoke (gt_id demo_grant) \<notin> set after \<and> list_all (spares demo_grant) after)"
proof -
  have a: "snd (authorise demo_crates demo_token 500 (grants_after demo_crates [mint_of demo_secret demo_grant])) = Inr demo_grant"
    by (simp add: demo_authorised)
  show ?thesis using a authorise_as_minted [OF a] by blast
qed

section \<open>The rate limit\<close>

text \<open>C19. The rate limit of a grant, whatever the clock does: in any stretch of calls on the registry in
  which the grant's id is not minted anew and every request carries a clock reading between \<open>lo\<close> and
  \<open>hi\<close> (in any order, backwards steps included), the requests let through on the grant are at most its
  burst plus its rate times the length of the window, before saturation and at any counter value.
\<close>

theorem grant_request_budget:
  assumes "map_of (grants_after K before) i = Some r"
    and "list_all (\<lambda>c. within lo hi c \<and> \<not> mints i c) calls"
  shows "let_through i (snd (run (registry_step K) calls (grants_after K before))) \<le>
    rl_burst (gt_rate (gr_grant r)) + rl_per_second (gt_rate (gr_grant r)) * (hi - lo)"
proof -
  define w where "w a = (of_bool (\<exists>g. a = Some g \<and> gt_id g = i) :: nat)" for a :: "pkg_grant option"
  define phi where "phi m = (case map_of m i of None \<Rightarrow> 0 | Some r \<Rightarrow> credit lo hi (gr_bucket r))" for m :: registry
  have "w (snd (registry_step K c m)) + phi (fst (registry_step K c m)) \<le> phi m"
    if "c \<in> set calls" and ok: "registry_ok m" for c m
    unfolding w_def phi_def
    by (rule step_credit [OF ok]) (use that assms(2) in \<open>auto simp: list_all_iff\<close>)
  then have "sum_list (map w (snd (run (registry_step K) calls (grants_after K before)))) \<le> phi (grants_after K before)"
    by (intro run_potential [of registry_ok] registry_ok_after registry_ok_step) simp_all
  moreover have "let_through i as = sum_list (map w as)" for as
    by (induction as) (simp_all add: let_through_def w_def)
  moreover have "phi (grants_after K before) \<le> rl_burst (gt_rate (gr_grant r)) + rl_per_second (gt_rate (gr_grant r)) * (hi - lo)"
    using assms(1) registry_ok_after [of K before] credit_bound [of "gr_bucket r" lo hi]
    by (auto simp: phi_def registry_ok_def)
  ultimately show ?thesis by simp
qed

theorem grant_request_budget_witness:
  "let_through demo_id (snd (run (registry_step demo_crates)
     [Authorise demo_token 500, RevokeJob (lit ''other''), Authorise demo_token 500, Authorise demo_token 400,
      Authorise demo_token 501, Authorise demo_token 500]
     (grants_after demo_crates [mint_of demo_secret demo_grant]))) \<le> 2 + 1 * (501 - 400)"
proof -
  let ?r = "\<lparr>gr_grant = demo_grant, gr_digest = demo_secret, gr_revoked = False, gr_bucket = bucket_new demo_rate\<rparr>"
  have a: "map_of (grants_after demo_crates [mint_of demo_secret demo_grant]) demo_id = Some ?r"
    by (simp add: demo_after_mint)
  have b: "list_all (\<lambda>c. within 400 501 c \<and> \<not> mints demo_id c)
      [Authorise demo_token 500, RevokeJob (lit ''other''), Authorise demo_token 500, Authorise demo_token 400,
       Authorise demo_token 501, Authorise demo_token 500]"
    by simp
  have c: "rl_burst (gt_rate (gr_grant ?r)) = 2" "rl_per_second (gt_rate (gr_grant ?r)) = 1"
    by (simp_all add: demo_grant_def demo_rate_def)
  show ?thesis using grant_request_budget [OF a b] unfolding c .
qed

end
