(* ===== verification/Ci_Allowlist.thy ===== *)
theory Ci_Allowlist
  imports Ci_Grant
begin

text \<open>
  Where the package proxy may go and with what: the allowlist
  (\<open>src/crates/hull-ci-proxy/src/allowlist.rs\<close>), its configuration string (\<open>config.rs\<close>), the upstream
  credential put into a request (\<open>credentials.rs\<close>) and the job's environment (\<open>jobenv.rs\<close>). The \<open>url\<close>
  crate is a record of its accessors over a type of URLs. Shown: what a resolved URL satisfies, that
  \<open>base64\<close> loses nothing, what an injected header looks like, and that the screen for traversal stands
  at the mirror door only.
\<close>

section \<open>The url crate\<close>

record 'u url_crate =
  url_parse :: "str \<Rightarrow> str + 'u"
  url_join :: "'u \<Rightarrow> str \<Rightarrow> 'u option"
  url_scheme :: "'u \<Rightarrow> str"
  url_host :: "'u \<Rightarrow> str option"
  url_port :: "'u \<Rightarrow> nat option"
  url_port_or_default :: "'u \<Rightarrow> nat option"
  url_path :: "'u \<Rightarrow> str"
  url_set_path :: "'u \<Rightarrow> str \<Rightarrow> 'u"
  url_username :: "'u \<Rightarrow> str"
  url_password :: "'u \<Rightarrow> str option"
  url_query :: "'u \<Rightarrow> str option"
  url_fragment :: "'u \<Rightarrow> str option"
  url_string :: "'u \<Rightarrow> str"

section \<open>Upstreams\<close>

datatype auth_scheme = Bearer | Basic str | Header str

record 'u upstream =
  u_name :: str
  u_base :: 'u
  u_credential :: "str option"
  u_auth :: auth_scheme

datatype allowlist_error = BadLabel str | BadBase str str | DuplicateLabel str

datatype deny_reason =
    UnknownUpstream str
  | NotGranted str
  | NotAbsolute str
  | HostNotAllowlisted str
  | PathEscape str
  | OriginEscape str
  | MethodNotAllowed str

definition ascii_lower :: "nat \<Rightarrow> bool" where "ascii_lower c \<longleftrightarrow> 97 \<le> c \<and> c \<le> 122"
definition ascii_upper :: "nat \<Rightarrow> bool" where "ascii_upper c \<longleftrightarrow> 65 \<le> c \<and> c \<le> 90"
definition ascii_digit :: "nat \<Rightarrow> bool" where "ascii_digit c \<longleftrightarrow> 48 \<le> c \<and> c \<le> 57"

definition validated_label :: "str \<Rightarrow> allowlist_error + str" where
  "validated_label label =
     (let ok = label \<noteq> [] \<and> length (utf8 label) \<le> 64 \<and>
               (ascii_lower (hd label) \<or> ascii_digit (hd label)) \<and>
               list_all (\<lambda>c. ascii_lower c \<or> ascii_digit c \<or> c \<in> set (lit ''._-'')) label
      in if ok then Inr label else Inl (BadLabel label))"

definition parse_base :: "'u url_crate \<Rightarrow> str \<Rightarrow> allowlist_error + 'u" where
  "parse_base U raw =
     (case url_parse U raw of
        Inl e \<Rightarrow> Inl (BadBase raw e)
      | Inr url \<Rightarrow>
          if url_scheme U url \<notin> {lit ''https'', lit ''http''} then Inl (BadBase raw (lit ''scheme must be https or http''))
          else if url_host U url = None then Inl (BadBase raw (lit ''no host''))
          else if url_username U url \<noteq> [] \<or> url_password U url \<noteq> None
          then Inl (BadBase raw (lit ''credentials belong in the secret broker, not in the base URL''))
          else if url_query U url \<noteq> None \<or> url_fragment U url \<noteq> None
          then Inl (BadBase raw (lit ''a base URL may not carry a query or fragment''))
          else Inr (if \<not> ends_with (url_path U url) (lit ''/'') then url_set_path U url (url_path U url @ lit ''/'') else url))"

definition upstream_public :: "'u url_crate \<Rightarrow> str \<Rightarrow> str \<Rightarrow> allowlist_error + 'u upstream" where
  "upstream_public U name bs =
     (case validated_label name of
        Inl e \<Rightarrow> Inl e
      | Inr name \<Rightarrow>
          (case parse_base U bs of
             Inl e \<Rightarrow> Inl e
           | Inr b \<Rightarrow> Inr \<lparr>u_name = name, u_base = b, u_credential = None, u_auth = Bearer\<rparr>))"

definition upstream_authenticated :: "'u url_crate \<Rightarrow> str \<Rightarrow> str \<Rightarrow> str \<Rightarrow> auth_scheme \<Rightarrow> allowlist_error + 'u upstream" where
  "upstream_authenticated U name bs cred auth =
     (case validated_label name of
        Inl e \<Rightarrow> Inl e
      | Inr name \<Rightarrow>
          (case parse_base U bs of
             Inl e \<Rightarrow> Inl e
           | Inr b \<Rightarrow> Inr \<lparr>u_name = name, u_base = b, u_credential = Some cred, u_auth = auth\<rparr>))"

section \<open>The allowlist\<close>

type_synonym 'u allowlist = "(str \<times> 'u upstream) list"

definition origin_of :: "'u url_crate \<Rightarrow> 'u \<Rightarrow> str \<times> str \<times> nat" where
  "origin_of U url =
     (map to_ascii_lower (url_scheme U url),
      map to_ascii_lower (case url_host U url of Some h \<Rightarrow> h | None \<Rightarrow> []),
      case url_port_or_default U url of Some p \<Rightarrow> p | None \<Rightarrow> 0)"

definition host_port :: "'u url_crate \<Rightarrow> 'u \<Rightarrow> str" where
  "host_port U url =
     (let h = (case url_host U url of Some h \<Rightarrow> h | None \<Rightarrow> []) in
      case url_port U url of Some p \<Rightarrow> h @ lit '':'' @ show_nat p | None \<Rightarrow> h)"

definition from_upstreams :: "'u upstream list \<Rightarrow> allowlist_error + 'u allowlist" where
  "from_upstreams us =
     fold (\<lambda>u r. case r of
         Inl e \<Rightarrow> Inl e
       | Inr al \<Rightarrow> if map_of al (u_name u) \<noteq> None then Inl (DuplicateLabel (u_name u)) else Inr (bt_insert (u_name u) u al))
       us (Inr [])"

definition allowlist_labels :: "'u allowlist \<Rightarrow> str list" where
  "allowlist_labels al = map fst al"

definition credential_names_for :: "'u allowlist \<Rightarrow> str list \<Rightarrow> str list" where
  "credential_names_for al labels =
     remdups_adj (sort (List.map_filter u_credential (List.map_filter (map_of al) labels)))"

definition has_authenticated_upstream :: "'u allowlist \<Rightarrow> bool" where
  "has_authenticated_upstream al \<longleftrightarrow> list_ex (\<lambda>(_, u). u_credential u \<noteq> None) al"

text \<open>\<open>u8::from_str_radix\<close> on two bytes: it takes a leading plus sign too.\<close>

definition hex_value :: "nat \<Rightarrow> nat option" where
  "hex_value c =
     (if ascii_digit c then Some (c - 48)
      else if 97 \<le> c \<and> c \<le> 102 then Some (c - 87)
      else if 65 \<le> c \<and> c \<le> 70 then Some (c - 55)
      else None)"

definition hex_byte :: "nat \<Rightarrow> nat \<Rightarrow> nat option" where
  "hex_byte a b =
     (case hex_value b of
        None \<Rightarrow> None
      | Some lo \<Rightarrow> if a = of_char CHR ''+'' then Some lo else map_option (\<lambda>hi. hi * 16 + lo) (hex_value a))"

fun percent_decode_bytes :: "bytes \<Rightarrow> bytes option" where
  "percent_decode_bytes [] = Some []"
| "percent_decode_bytes (c # rest) =
     (if c = of_char CHR ''%'' then
        (case rest of
           a # b # rest' \<Rightarrow>
             (case hex_byte a b of Some v \<Rightarrow> map_option ((#) v) (percent_decode_bytes rest') | None \<Rightarrow> None)
         | _ \<Rightarrow> None)
      else map_option ((#) c) (percent_decode_bytes rest))"

definition percent_decode :: "str \<Rightarrow> str option" where
  "percent_decode s = (case percent_decode_bytes (utf8 s) of Some bs \<Rightarrow> from_utf8 bs | None \<Rightarrow> None)"

definition slashed :: "str \<Rightarrow> str" where
  "slashed s = map (\<lambda>c. if c = of_char CHR 0x5C then of_char CHR ''/'' else c) s"

text \<open>Splitting at both slashes is splitting at \<open>/\<close> once every backslash has become one.\<close>

definition bad_view :: "str \<Rightarrow> bool" where
  "bad_view view \<longleftrightarrow>
     list_ex (\<lambda>seg. seg = lit ''..'' \<or> seg = lit ''%2e%2e'') (split_on (of_char CHR ''/'') (slashed view)) \<or>
     list_ex (\<lambda>b. b < 0x20 \<or> b = 0x7f) (utf8 view)"

definition reject_traversal :: "str \<Rightarrow> deny_reason + unit" where
  "reject_traversal tail =
     (if starts_with tail (lit ''//'') \<or> starts_with tail [of_char CHR ''/'', 0x5C] \<or> starts_with tail [0x5C]
      then Inl (PathEscape tail)
      else if contains_str tail (lit ''://'') then Inl (PathEscape tail)
      else case percent_decode tail of
        None \<Rightarrow> Inl (PathEscape tail)
      | Some decoded \<Rightarrow> if bad_view tail \<or> bad_view decoded then Inl (PathEscape tail) else Inr ())"

definition resolve_label :: "'u url_crate \<Rightarrow> 'u allowlist \<Rightarrow> str \<Rightarrow> str \<Rightarrow> deny_reason + 'u upstream \<times> 'u" where
  "resolve_label U al label tail =
     (case map_of al label of
        None \<Rightarrow> Inl (UnknownUpstream label)
      | Some u \<Rightarrow>
          (case reject_traversal tail of
             Inl e \<Rightarrow> Inl e
           | Inr _ \<Rightarrow>
               (case url_join U (u_base u) (dropWhile (\<lambda>c. c = of_char CHR ''/'') tail) of
                  None \<Rightarrow> Inl (PathEscape tail)
                | Some joined \<Rightarrow>
                    if origin_of U joined \<noteq> origin_of U (u_base u) then Inl (OriginEscape (url_string U joined))
                    else if \<not> starts_with (url_path U joined) (url_path U (u_base u))
                    then Inl (PathEscape (url_path U joined))
                    else Inr (u, joined))))"

definition resolve_absolute :: "'u url_crate \<Rightarrow> 'u allowlist \<Rightarrow> str \<Rightarrow> deny_reason + 'u upstream \<times> 'u" where
  "resolve_absolute U al raw =
     (case url_parse U raw of
        Inl _ \<Rightarrow> Inl (NotAbsolute raw)
      | Inr url \<Rightarrow>
          if url_host U url = None then Inl (NotAbsolute raw)
          else (case find (\<lambda>u. origin_of U (u_base u) = origin_of U url \<and> starts_with (url_path U url) (url_path U (u_base u)))
                       (map snd al) of
                  None \<Rightarrow> Inl (HostNotAllowlisted (host_port U url))
                | Some u \<Rightarrow>
                    if url_username U url \<noteq> [] \<or> url_password U url \<noteq> None
                    then Inl (HostNotAllowlisted (host_port U url))
                    else Inr (u, url)))"

definition ALLOWED_METHODS :: "str list" where "ALLOWED_METHODS = [lit ''GET'', lit ''HEAD'']"

definition check_method :: "str \<Rightarrow> deny_reason + unit" where
  "check_method m = (if m \<in> set ALLOWED_METHODS then Inr () else Inl (MethodNotAllowed m))"

section \<open>Credentials\<close>

datatype credential_error =
    CredMissing str str
  | CredNoSource str str
  | CredNoAuthority job_id str str
  | CredUnregistered job_id
  | CredInvalidated job_id str str
  | CredTenantMismatch job_id str str
  | CredUnavailable str str
  | CredNotUtf8
  | CredNotHeaderSafe str

fun is_policy_refusal :: "credential_error \<Rightarrow> bool" where
  "is_policy_refusal (CredNoAuthority _ _ _) = True"
| "is_policy_refusal (CredTenantMismatch _ _ _) = True"
| "is_policy_refusal (CredInvalidated _ _ _) = True"
| "is_policy_refusal (CredMissing _ _) = False"
| "is_policy_refusal (CredNoSource _ _) = False"
| "is_policy_refusal (CredUnregistered _) = False"
| "is_policy_refusal (CredUnavailable _ _) = False"
| "is_policy_refusal CredNotUtf8 = False"
| "is_policy_refusal (CredNotHeaderSafe _) = False"

record credential_request =
  cr_tenant :: str
  cr_job :: job_id
  cr_upstream :: str
  cr_secret :: str

text \<open>A source of credentials: \<open>UpstreamCredentials::credential\<close> over the source's own state.\<close>

type_synonym 's credential_source = "credential_request \<Rightarrow> 's \<Rightarrow> 's \<times> (credential_error + bytes)"

definition no_credentials :: "'s credential_source" where
  "no_credentials req s = (s, Inl (CredNoSource (cr_upstream req) (cr_secret req)))"

definition static_credentials :: "((str \<times> str) \<times> bytes) list \<Rightarrow> 's credential_source" where
  "static_credentials by_tenant req s =
     (s, case map_of by_tenant (cr_tenant req, cr_secret req) of
           Some v \<Rightarrow> Inr v
         | None \<Rightarrow> Inl (CredMissing (cr_upstream req) (cr_secret req)))"

text \<open>\<open>n\<close> is the 24-bit value of a chunk, so the shifts and masks are quotients and remainders.\<close>

definition BASE64_TABLE :: bytes where
  "BASE64_TABLE = lit ''ABCDEFGHIJKLMNOPQRSTUVWXYZabcdefghijklmnopqrstuvwxyz0123456789+/''"

fun base64 :: "bytes \<Rightarrow> str" where
  "base64 [] = []"
| "base64 [a] =
     (let n = a * 65536 in
      [BASE64_TABLE ! (n div 262144 mod 64), BASE64_TABLE ! (n div 4096 mod 64)] @ lit ''=='')"
| "base64 [a, b] =
     (let n = a * 65536 + b * 256 in
      [BASE64_TABLE ! (n div 262144 mod 64), BASE64_TABLE ! (n div 4096 mod 64), BASE64_TABLE ! (n div 64 mod 64)] @ lit ''='')"
| "base64 (a # b # c # rest) =
     (let n = a * 65536 + b * 256 + c in
      [BASE64_TABLE ! (n div 262144 mod 64), BASE64_TABLE ! (n div 4096 mod 64),
       BASE64_TABLE ! (n div 64 mod 64), BASE64_TABLE ! (n mod 64)] @ base64 rest)"

record injected =
  in_header :: str
  in_value :: bytes

definition inject :: "'s credential_source \<Rightarrow> 'u upstream \<Rightarrow> pkg_grant \<Rightarrow> 's \<Rightarrow> 's \<times> (credential_error + injected option)" where
  "inject cred u g s =
     (case u_credential u of
        None \<Rightarrow> (s, Inr None)
      | Some name \<Rightarrow>
          (case cred \<lparr>cr_tenant = gt_tenant g, cr_job = gt_job g, cr_upstream = u_name u, cr_secret = name\<rparr> s of
             (s, Inl e) \<Rightarrow> (s, Inl e)
           | (s, Inr secret) \<Rightarrow>
               let built = (case u_auth u of
                     Bearer \<Rightarrow> map_option (\<lambda>token. utf8 (lit ''Bearer '' @ token)) (from_utf8 secret)
                   | Basic user \<Rightarrow> map_option (\<lambda>pass. utf8 (lit ''Basic '' @ base64 (utf8 (user @ lit '':'' @ pass)))) (from_utf8 secret)
                   | Header _ \<Rightarrow> Some secret)
               in (s, case built of
                        None \<Rightarrow> Inl CredNotUtf8
                      | Some v \<Rightarrow>
                          if list_ex (\<lambda>b. b < 0x20 \<or> b = 0x7f) v then Inl (CredNotHeaderSafe (u_name u))
                          else Inr (Some \<lparr>in_header = (case u_auth u of
                                                Header name \<Rightarrow> map to_ascii_lower name
                                              | _ \<Rightarrow> lit ''authorization''),
                                        in_value = v\<rparr>))))"

section \<open>Configuration\<close>

datatype proxy_mode = ProxyOff | ProxyOn
datatype config_error = ConfigValue str str | ConfigUpstreams allowlist_error

definition proxy_mode_parse :: "str \<Rightarrow> config_error + proxy_mode" where
  "proxy_mode_parse raw =
     (let m = map to_ascii_lower (trim raw) in
      if m \<in> {lit ''off'', lit ''none'', lit ''disabled''} then Inr ProxyOff
      else if m \<in> {lit ''on'', lit ''enabled''} then Inr ProxyOn
      else Inl (ConfigValue (lit ''HULL_CI_PROXY'') (lit ''expected `off` or `on`, got `'' @ m @ lit ''`'')))"

definition UPSTREAMS_VAR :: str where "UPSTREAMS_VAR = lit ''HULL_CI_PROXY_UPSTREAMS''"

text \<open>One option of an entry: the secret and the scheme read so far, updated.\<close>

definition upstream_option :: "str \<Rightarrow> str \<Rightarrow> str option \<times> auth_scheme \<Rightarrow> config_error + str option \<times> auth_scheme" where
  "upstream_option entry opt sa =
     (case split_once (of_char CHR ''='') opt of
        None \<Rightarrow> Inl (ConfigValue UPSTREAMS_VAR (lit ''option `'' @ opt @ lit ''` is not `key=value`''))
      | Some (key, value) \<Rightarrow>
          if key = lit ''secret'' then Inr (Some value, snd sa)
          else if key = lit ''auth'' then
            (let refused = Inl (ConfigValue UPSTREAMS_VAR
                             (lit ''auth `'' @ value @ lit ''` is not `bearer`, `basic:<user>` or `header:<Name>`''))
             in case split_once (of_char CHR '':'') value of
                  Some (scheme, arg) \<Rightarrow>
                    if scheme = lit ''basic'' then Inr (fst sa, Basic arg)
                    else if scheme = lit ''header'' then Inr (fst sa, Header arg)
                    else refused
                | None \<Rightarrow> if value = lit ''bearer'' then Inr (fst sa, Bearer) else refused)
          else Inl (ConfigValue UPSTREAMS_VAR (lit ''unknown option `'' @ key @ lit ''` in entry `'' @ entry @ lit ''`'')))"

fun upstream_options :: "str \<Rightarrow> str list \<Rightarrow> str option \<times> auth_scheme \<Rightarrow> config_error + str option \<times> auth_scheme" where
  "upstream_options entry [] sa = Inr sa"
| "upstream_options entry (opt # opts) sa =
     (case upstream_option entry opt sa of Inl e \<Rightarrow> Inl e | Inr sa \<Rightarrow> upstream_options entry opts sa)"

definition parse_upstream_entry :: "'u url_crate \<Rightarrow> str \<Rightarrow> config_error + 'u upstream" where
  "parse_upstream_entry U entry =
     (let parts = map trim (split_on (of_char CHR '','') entry) in
      case split_once (of_char CHR ''='') (hd parts) of
        None \<Rightarrow> Inl (ConfigValue UPSTREAMS_VAR (lit ''entry `'' @ entry @ lit ''` is not `label=url`''))
      | Some (label, url) \<Rightarrow>
          (case upstream_options entry (tl parts) (None, Bearer) of
             Inl e \<Rightarrow> Inl e
           | Inr (secret, auth) \<Rightarrow>
               (case (case secret of
                        Some name \<Rightarrow> upstream_authenticated U label url name auth
                      | None \<Rightarrow> upstream_public U label url) of
                  Inl e \<Rightarrow> Inl (ConfigUpstreams e)
                | Inr u \<Rightarrow> Inr u)))"

fun parse_entries :: "'u url_crate \<Rightarrow> str list \<Rightarrow> config_error + 'u upstream list" where
  "parse_entries U [] = Inr []"
| "parse_entries U (e # es) =
     (case parse_upstream_entry U e of
        Inl err \<Rightarrow> Inl err
      | Inr u \<Rightarrow> (case parse_entries U es of Inl err \<Rightarrow> Inl err | Inr us \<Rightarrow> Inr (u # us)))"

definition parse_upstreams :: "'u url_crate \<Rightarrow> str \<Rightarrow> config_error + 'u allowlist" where
  "parse_upstreams U raw =
     (case parse_entries U (filter (\<lambda>e. e \<noteq> []) (map trim (split_on (of_char CHR '';'') raw))) of
        Inl e \<Rightarrow> Inl e
      | Inr us \<Rightarrow> (case from_upstreams us of Inl e \<Rightarrow> Inl (ConfigUpstreams e) | Inr al \<Rightarrow> Inr al))"

text \<open>\<open>str::parse::<u32>\<close>: an optional plus sign, at least one digit, no overflow.\<close>

definition parse_u32 :: "str \<Rightarrow> nat option" where
  "parse_u32 s =
     (let ds = (if starts_with s (lit ''+'') then tl s else s);
          v = foldl (\<lambda>v c. v * 10 + (c - 48)) 0 ds
      in if ds \<noteq> [] \<and> list_all ascii_digit ds \<and> v \<le> U32_MAX then Some v else None)"

definition RATE_VAR :: str where "RATE_VAR = lit ''HULL_CI_PROXY_RATE''"

definition parse_rate :: "str \<Rightarrow> config_error + rate_limit" where
  "parse_rate raw =
     (case split_once (of_char CHR ''/'') (trim raw) of
        None \<Rightarrow> Inl (ConfigValue RATE_VAR (lit ''`'' @ raw @ lit ''` is not `requests-per-second/burst`''))
      | Some (p, q) \<Rightarrow>
          (case parse_u32 (trim p) of
             None \<Rightarrow> Inl (ConfigValue RATE_VAR (lit ''`'' @ p @ lit ''` is not a number''))
           | Some per_second \<Rightarrow>
               (case parse_u32 (trim q) of
                  None \<Rightarrow> Inl (ConfigValue RATE_VAR (lit ''`'' @ q @ lit ''` is not a number''))
                | Some b \<Rightarrow>
                    if b = 0 then Inl (ConfigValue RATE_VAR (lit ''burst must be at least 1''))
                    else Inr \<lparr>rl_per_second = per_second, rl_burst = b\<rparr>)))"

section \<open>The environment of a job\<close>

record proxy_endpoint =
  pe_base_url :: str
  pe_grant :: str

definition into_base :: "str \<Rightarrow> str" where
  "into_base s = rev (dropWhile (\<lambda>c. c = of_char CHR ''/'') (rev s))"

definition endpoint_new :: "str \<Rightarrow> str \<Rightarrow> proxy_endpoint" where
  "endpoint_new url g = \<lparr>pe_base_url = into_base url, pe_grant = g\<rparr>"

definition upstream_url :: "proxy_endpoint \<Rightarrow> str \<Rightarrow> str" where
  "upstream_url e label = pe_base_url e @ lit ''/j/'' @ pe_grant e @ lit ''/u/'' @ label @ lit ''/''"

definition endpoint_host :: "proxy_endpoint \<Rightarrow> str option" where
  "endpoint_host e =
     (case (case strip_prefix (pe_base_url e) (lit ''http://'') of
              Some r \<Rightarrow> Some r
            | None \<Rightarrow> strip_prefix (pe_base_url e) (lit ''https://'')) of
        None \<Rightarrow> None
      | Some r \<Rightarrow> Some (hd (split_on (of_char CHR ''/'') r)))"

definition env_vars :: "proxy_endpoint \<Rightarrow> str list \<Rightarrow> (str \<times> str) list" where
  "env_vars e labels =
     (if lit ''npm'' \<in> set labels
      then [(lit ''npm_config_registry'', upstream_url e (lit ''npm'')), (lit ''NPM_CONFIG_REGISTRY'', upstream_url e (lit ''npm''))]
      else []) @
     (if lit ''pypi'' \<in> set labels
      then [(lit ''PIP_INDEX_URL'', upstream_url e (lit ''pypi'') @ lit ''simple/''),
            (lit ''PIP_TRUSTED_HOST'', case endpoint_host e of Some h \<Rightarrow> h | None \<Rightarrow> [])]
      else []) @
     (if lit ''crates'' \<in> set labels
      then [(lit ''CARGO_REGISTRIES_HULL_INDEX'', lit ''sparse+'' @ upstream_url e (lit ''crates''))]
      else [])"

section \<open>What a configured allowlist looks like\<close>

definition label_ok :: "str \<Rightarrow> bool" where
  "label_ok l \<longleftrightarrow> 1 \<le> length l \<and> length l \<le> 64 \<and> hd l \<notin> set (lit ''._-'') \<and>
     set l \<subseteq> set (lit ''abcdefghijklmnopqrstuvwxyz0123456789._-'')"

definition base_ok :: "'u url_crate \<Rightarrow> 'u \<Rightarrow> bool" where
  "base_ok U b \<longleftrightarrow> url_scheme U b \<in> {lit ''https'', lit ''http''} \<and> url_host U b \<noteq> None \<and>
     url_username U b = [] \<and> url_password U b = None \<and> url_query U b = None \<and> url_fragment U b = None \<and>
     ends_with (url_path U b) (lit ''/'')"

definition allowlist_ok :: "'u url_crate \<Rightarrow> 'u allowlist \<Rightarrow> bool" where
  "allowlist_ok U al \<longleftrightarrow> bt_ok al \<and>
     (\<forall>l u. map_of al l = Some u \<longrightarrow> u_name u = l \<and> label_ok l \<and> base_ok U (u_base u))"

text \<open>What the code relies on \<open>Url::set_path\<close> for: it replaces the path and nothing else.\<close>

definition set_path_ok :: "'u url_crate \<Rightarrow> bool" where
  "set_path_ok U \<longleftrightarrow> (\<forall>u p. ends_with p (lit ''/'') \<longrightarrow>
     ends_with (url_path U (url_set_path U u p)) (lit ''/'') \<and>
     url_scheme U (url_set_path U u p) = url_scheme U u \<and> url_host U (url_set_path U u p) = url_host U u \<and>
     url_username U (url_set_path U u p) = url_username U u \<and> url_password U (url_set_path U u p) = url_password U u \<and>
     url_query U (url_set_path U u p) = url_query U u \<and> url_fragment U (url_set_path U u p) = url_fragment U u)"

lemma ends_with_append [simp]: "ends_with (a @ p) p"
  by (simp add: ends_with_def)

lemma parse_base_ok:
  assumes "set_path_ok U" and "parse_base U raw = Inr b"
  shows "base_ok U b"
proof -
  from assms(2) obtain url where url: "url_scheme U url \<in> {lit ''https'', lit ''http''}" "url_host U url \<noteq> None"
    "url_username U url = []" "url_password U url = None" "url_query U url = None" "url_fragment U url = None"
    and b: "b = (if \<not> ends_with (url_path U url) (lit ''/'') then url_set_path U url (url_path U url @ lit ''/'') else url)"
    by (auto simp: parse_base_def split: sum.splits if_splits)
  have "ends_with (url_path U url @ lit ''/'') (lit ''/'')" by (rule ends_with_append)
  note p = assms(1) [unfolded set_path_ok_def, rule_format, OF this, of url]
  show ?thesis
  proof (cases "ends_with (url_path U url) (lit ''/'')")
    case True
    then have "b = url" by (simp only: b not_True_eq_False if_False)
    then show ?thesis unfolding base_ok_def using True url by (simp only: simp_thms)
  next
    case False
    then have "b = url_set_path U url (url_path U url @ lit ''/'')" by (simp only: b if_True not_False_eq_True)
    then show ?thesis unfolding base_ok_def using url by (simp only: p simp_thms)
  qed
qed

lemma utf8_ascii: "list_all (\<lambda>c. c < 128) s \<Longrightarrow> utf8 s = s"
  by (induction s) (simp_all add: utf8_def utf8_char_def)

lemma label_chars:
  "ascii_lower c \<or> ascii_digit c \<or> c \<in> set (lit ''._-'') \<longleftrightarrow>
   c \<in> set (lit ''abcdefghijklmnopqrstuvwxyz0123456789._-'')"
proof -
  have e: "lit ''abcdefghijklmnopqrstuvwxyz0123456789._-'' = [97..<123] @ [48..<58] @ lit ''._-''"
    by simp
  have "c \<in> set (lit ''abcdefghijklmnopqrstuvwxyz0123456789._-'') \<longleftrightarrow>
      (97 \<le> c \<and> c < 123) \<or> (48 \<le> c \<and> c < 58) \<or> c \<in> set (lit ''._-'')"
    unfolding e set_append set_upt by (simp only: Un_iff atLeastLessThan_iff)
  then show ?thesis unfolding ascii_lower_def ascii_digit_def by (auto simp del: lit_simps)
qed

lemma validated_label_ok:
  assumes "validated_label raw = Inr l"
  shows "label_ok l \<and> l = raw"
proof -
  from assms have l: "l = raw" "raw \<noteq> []" "length (utf8 raw) \<le> 64"
    "ascii_lower (hd raw) \<or> ascii_digit (hd raw)"
    "list_all (\<lambda>c. ascii_lower c \<or> ascii_digit c \<or> c \<in> set (lit ''._-'')) raw"
    by (auto simp: validated_label_def Let_def split: if_splits)
  have "list_all (\<lambda>c. c < 128) raw"
    using l(5) by (auto simp: list_all_iff ascii_lower_def ascii_digit_def)
  then have "length raw \<le> 64" using l(3) by (simp add: utf8_ascii)
  moreover have "hd raw \<notin> set (lit ''._-'')" using l(4) by (auto simp: ascii_lower_def ascii_digit_def)
  moreover have "set raw \<subseteq> set (lit ''abcdefghijklmnopqrstuvwxyz0123456789._-'')"
    using l(5) label_chars unfolding list_all_iff by blast
  moreover have "1 \<le> length raw" using l(2) by (cases raw) auto
  ultimately show ?thesis using l(1) by (simp add: label_ok_def del: lit_simps)
qed

lemma length_bt_insert_absent: "map_of m k = None \<Longrightarrow> length (bt_insert k v m) = Suc (length m)"
  by (induction k v m rule: bt_insert.induct) (auto split: if_splits)

lemma from_upstreams_ok:
  assumes "from_upstreams us = Inr al"
  shows "bt_ok al \<and> (\<forall>l u. map_of al l = Some u \<longrightarrow> u_name u = l \<and> u \<in> set us) \<and> length al = length us"
  using assms
proof (induction us arbitrary: al rule: rev_induct)
  case Nil
  then show ?case by (simp add: from_upstreams_def)
next
  case (snoc u us)
  from snoc.prems obtain al0 where al0: "from_upstreams us = Inr al0" and "map_of al0 (u_name u) = None"
    and al: "al = bt_insert (u_name u) u al0"
    by (auto simp: from_upstreams_def simp del: not_None_eq split: sum.splits if_splits)
  from snoc.IH [OF al0] al \<open>map_of al0 (u_name u) = None\<close> show ?case
    by (auto simp: bt_ok_insert length_bt_insert_absent)
qed

lemma upstream_public_ok:
  "set_path_ok U \<Longrightarrow> upstream_public U n b = Inr u \<Longrightarrow> label_ok (u_name u) \<and> base_ok U (u_base u)"
  using validated_label_ok parse_base_ok by (fastforce simp: upstream_public_def split: sum.splits)

lemma upstream_authenticated_ok:
  "set_path_ok U \<Longrightarrow> upstream_authenticated U n b s a = Inr u \<Longrightarrow> label_ok (u_name u) \<and> base_ok U (u_base u)"
  using validated_label_ok parse_base_ok by (fastforce simp: upstream_authenticated_def split: sum.splits)

lemma parse_upstream_entry_ok:
  assumes "set_path_ok U" and "parse_upstream_entry U entry = Inr u"
  shows "label_ok (u_name u) \<and> base_ok U (u_base u)"
  using assms(2) upstream_public_ok [OF assms(1)] upstream_authenticated_ok [OF assms(1)]
  by (auto simp: parse_upstream_entry_def Let_def split: option.splits sum.splits)

lemma parse_entries_ok:
  "set_path_ok U \<Longrightarrow> parse_entries U es = Inr us \<Longrightarrow> u \<in> set us \<Longrightarrow> label_ok (u_name u) \<and> base_ok U (u_base u)"
  by (induction es arbitrary: us) (auto simp: parse_upstream_entry_ok split: sum.splits)

section \<open>A concrete instance\<close>

text \<open>URLs \<open>https://host/path\<close> as host and path.\<close>

definition demo_url_parse :: "str \<Rightarrow> str + str \<times> str" where
  "demo_url_parse s =
     (case strip_prefix s (lit ''https://'') of
        None \<Rightarrow> Inl (lit ''relative URL without a base'')
      | Some r \<Rightarrow> (case split_once 47 r of None \<Rightarrow> Inr (r, [47]) | Some (h, p) \<Rightarrow> Inr (h, 47 # p)))"

definition demo_url :: "(str \<times> str) url_crate" where
  "demo_url = \<lparr>url_parse = demo_url_parse, url_join = (\<lambda>(h, p) t. Some (h, p @ t)),
     url_scheme = (\<lambda>_. lit ''https''), url_host = (\<lambda>(h, _). Some h), url_port = (\<lambda>_. None),
     url_port_or_default = (\<lambda>_. Some 443), url_path = snd, url_set_path = (\<lambda>(h, _) p. (h, p)),
     url_username = (\<lambda>_. []), url_password = (\<lambda>_. None), url_query = (\<lambda>_. None), url_fragment = (\<lambda>_. None),
     url_string = (\<lambda>(h, p). lit ''https://'' @ h @ p)\<rparr>"

lemma demo_set_path_ok: "set_path_ok demo_url"
  by (auto simp: set_path_ok_def demo_url_def)

lemmas parse_eval = parse_upstreams_def parse_upstream_entry_def upstream_option_def upstream_public_def
  upstream_authenticated_def validated_label_def parse_base_def from_upstreams_def demo_url_def demo_url_parse_def
  trim_def is_whitespace_def ascii_lower_def ascii_digit_def utf8_def utf8_char_def strip_prefix_def
  starts_with_def ends_with_def Let_def

definition demo_upstream :: "(str \<times> str) upstream" where
  "demo_upstream = \<lparr>u_name = lit ''a'', u_base = (lit ''h'', lit ''/p/''), u_credential = Some (lit ''T''), u_auth = Bearer\<rparr>"

lemma demo_allowlist: "parse_upstreams demo_url (lit ''a=https://h/p,secret=T'') = Inr [(lit ''a'', demo_upstream)]"
  by (simp add: parse_eval demo_upstream_def)

section \<open>Properties\<close>

text \<open>C35. The type of a configured allowlist: whatever the configuration string, an allowlist that is
  accepted has its labels sorted and distinct, each one the name of its upstream, of 1 to 64 lower-case
  letters, digits, dots, dashes and underscores and not starting with punctuation; every base is an
  \<open>http\<close> or \<open>https\<close> URL with a host, no userinfo, query or fragment, and a path that ends in a slash.
\<close>

theorem configured_allowlist_ok:
  assumes "set_path_ok U" and "parse_upstreams U raw = Inr al"
  shows "allowlist_ok U al"
proof -
  from assms(2) obtain es us where us: "parse_entries U es = Inr us" and al: "from_upstreams us = Inr al"
    by (auto simp: parse_upstreams_def split: sum.splits)
  from from_upstreams_ok [OF al] parse_entries_ok [OF assms(1) us] show ?thesis
    by (auto simp: allowlist_ok_def)
qed

theorem configured_allowlist_ok_witness: "allowlist_ok demo_url [(lit ''a'', demo_upstream)]"
  by (rule configured_allowlist_ok [OF demo_set_path_ok demo_allowlist])

text \<open>What the base64 printed by the code decodes to, by RFC 4648.\<close>

definition base64_value :: "nat \<Rightarrow> nat option" where
  "base64_value c =
     (if 65 \<le> c \<and> c \<le> 90 then Some (c - 65)
      else if 97 \<le> c \<and> c \<le> 122 then Some (c - 71)
      else if 48 \<le> c \<and> c \<le> 57 then Some (c + 4)
      else if c = 43 then Some 62 else if c = 47 then Some 63 else None)"

fun base64_decode :: "str \<Rightarrow> bytes option" where
  "base64_decode [] = Some []"
| "base64_decode (a # b # c # d # rest) =
     (case (base64_value a, base64_value b) of
        (Some x, Some y) \<Rightarrow>
          if c = 61 then (if d = 61 \<and> rest = [] \<and> y mod 16 = 0 then Some [x * 4 + y div 16] else None)
          else (case base64_value c of
                  None \<Rightarrow> None
                | Some z \<Rightarrow>
                    if d = 61
                    then (if rest = [] \<and> z mod 4 = 0 then Some [x * 4 + y div 16, y mod 16 * 16 + z div 4] else None)
                    else (case base64_value d of
                            None \<Rightarrow> None
                          | Some v \<Rightarrow>
                              map_option (\<lambda>bs. (x * 4 + y div 16) # (y mod 16 * 16 + z div 4) # (z mod 4 * 64 + v) # bs)
                                (base64_decode rest)))
      | _ \<Rightarrow> None)"
| "base64_decode _ = None"

lemma base64_table: "k < 64 \<Longrightarrow> base64_value (BASE64_TABLE ! k) = Some k \<and> BASE64_TABLE ! k \<noteq> 61"
proof -
  assume k: "k < 64"
  have v: "map base64_value BASE64_TABLE = map Some [0..<64]" by code_simp
  have eq: "61 \<notin> set BASE64_TABLE" by (simp add: BASE64_TABLE_def)
  have len: "length BASE64_TABLE = 64" by (simp add: BASE64_TABLE_def)
  have "map base64_value BASE64_TABLE ! k = map Some [0..<64] ! k" by (simp only: v)
  then have "base64_value (BASE64_TABLE ! k) = Some k" using k len by (simp del: upt_rec_numeral)
  moreover have "BASE64_TABLE ! k \<in> set BASE64_TABLE" using k len by simp
  ultimately show ?thesis using eq by metis
qed

text \<open>The four sextets of a 24-bit chunk.\<close>

lemma sextets:
  assumes "x < 64" and "y < 64" and "z < 64" and "w < (64::nat)"
  defines "n \<equiv> x * 262144 + y * 4096 + z * 64 + w"
  shows "n div 262144 mod 64 = x \<and> n div 4096 mod 64 = y \<and> n div 64 mod 64 = z \<and> n mod 64 = w"
proof -
  have n: "n = ((x * 64 + y) * 64 + z) * 64 + w" by (simp add: n_def algebra_simps)
  have md: "(m * 64 + v) mod 64 = v \<and> (m * 64 + v) div 64 = m" if "v < 64" for m v :: nat using that by simp
  have a: "n div 64 = (x * 64 + y) * 64 + z" "n mod 64 = w" by (simp_all only: n md [OF assms(4)])
  then have b: "n div 4096 = x * 64 + y" using assms(1-4) div_mult2_eq [of n 64 64] by simp
  then have c: "n div 262144 = x" using assms(1-4) div_mult2_eq [of n 4096 64] by simp
  have "n div 64 mod 64 = z" "n div 4096 mod 64 = y" by (simp_all only: a b md [OF assms(3)] md [OF assms(2)])
  with a c assms(1) show ?thesis by simp
qed

lemma chunk_sextets:
  assumes "a < 256" and "b < 256" and "c < (256::nat)"
  defines "n \<equiv> a * 65536 + b * 256 + c"
  shows "n div 262144 mod 64 = a div 4 \<and> n div 4096 mod 64 = a mod 4 * 16 + b div 16 \<and>
    n div 64 mod 64 = b mod 16 * 4 + c div 64 \<and> n mod 64 = c mod 64"
proof -
  have split: "(q * 4 + r) * 65536 + (s * 16 + t) * 256 + (u * 64 + v) =
      q * 262144 + (r * 16 + s) * 4096 + (t * 4 + u) * 64 + v" for q r s t u v :: nat by simp
  have "n = (a div 4) * 262144 + (a mod 4 * 16 + b div 16) * 4096 + (b mod 16 * 4 + c div 64) * 64 + c mod 64"
    using split [of "a div 4" "a mod 4" "b div 16" "b mod 16" "c div 64" "c mod 64"]
    by (simp only: n_def div_mult_mod_eq)
  moreover have "a mod 4 < 4" "b div 16 < 16" "b mod 16 < 16" "c div 64 < 4" "a div 4 < 64"
    using assms by auto
  then have "a mod 4 * 16 + b div 16 < 64" "b mod 16 * 4 + c div 64 < 64" by linarith+
  ultimately show ?thesis using sextets [of "a div 4" "a mod 4 * 16 + b div 16" "b mod 16 * 4 + c div 64" "c mod 64"]
    \<open>a div 4 < 64\<close> by simp
qed

lemma sextet_bounds:
  assumes "a < (256::nat)" and "b < 256" and "c < (256::nat)"
  shows "a div 4 < 64" and "a mod 4 * 16 + b div 16 < 64" and "b mod 16 * 4 + c div 64 < 64" and "c mod 64 < 64"
proof -
  have "a mod 4 < 4" "b div 16 < 16" "b mod 16 < 16" "c div 64 < 4" using assms by auto
  then show "a mod 4 * 16 + b div 16 < 64" "b mod 16 * 4 + c div 64 < 64" by linarith+
qed (use assms in auto)

text \<open>The hand-rolled base64 of the Basic scheme loses nothing: on every byte string, of each length
  modulo three, an RFC 4648 decoder reads back exactly the bytes, and the text is a whole number of
  four-character groups, one for each started group of three bytes.
\<close>

theorem base64_roundtrip:
  assumes "u8s b"
  shows "base64_decode (base64 b) = Some b \<and> length (base64 b) = 4 * ((length b + 2) div 3)"
  using assms
proof (induction b rule: base64.induct)
  case (2 a)
  then have "a < 256" by simp
  with chunk_sextets [of a 0 0] sextet_bounds [of a 0 0] show ?case
    using div_mult_mod_eq [of a 4] by (simp add: base64_table Let_def)
next
  case (3 a b)
  then have "a < 256" "b < 256" by simp_all
  with chunk_sextets [of a b 0] sextet_bounds [of a b 0] show ?case
    using div_mult_mod_eq [of a 4] div_mult_mod_eq [of b 16] by (simp add: base64_table Let_def)
next
  case (4 a b c rest)
  then have "a < 256" "b < 256" "c < 256" by simp_all
  note ch = chunk_sextets [OF this] and bd = sextet_bounds [OF this]
  have e: "base64 (a # b # c # rest) = [BASE64_TABLE ! (a div 4), BASE64_TABLE ! (a mod 4 * 16 + b div 16),
      BASE64_TABLE ! (b mod 16 * 4 + c div 64), BASE64_TABLE ! (c mod 64)] @ base64 rest"
    by (simp only: base64.simps Let_def ch)
  have "a div 4 * 4 + (a mod 4 * 16 + b div 16) div 16 = a" "(a mod 4 * 16 + b div 16) mod 16 * 16 + (b mod 16 * 4 + c div 64) div 4 = b"
    "(b mod 16 * 4 + c div 64) mod 4 * 64 + c mod 64 = c"
    using \<open>a < 256\<close> \<open>b < 256\<close> \<open>c < 256\<close> div_mult_mod_eq [of a 4] div_mult_mod_eq [of b 16] div_mult_mod_eq [of c 64]
    by simp_all
  moreover have "base64_decode (base64 rest) = Some rest \<and> length (base64 rest) = 4 * ((length rest + 2) div 3)"
    using 4 by simp
  moreover have "(length (a # b # c # rest) + 2) div 3 = Suc ((length rest + 2) div 3)" by simp
  ultimately show ?case unfolding e by (simp add: base64_table [OF bd(1)] base64_table [OF bd(2)] base64_table [OF bd(3)] base64_table [OF bd(4)])
qed simp

theorem base64_roundtrip_witness:
  "base64_decode (base64 (lit ''ci:hunter2'')) = Some (lit ''ci:hunter2'') \<and>
   length (base64 (lit ''ci:hunter2'')) = 4 * ((length (lit ''ci:hunter2'') + 2) div 3)"
  by (rule base64_roundtrip) simp

text \<open>C37. The two doors of the proxy are not equally strict: under a label whose upstream is the only one on
  the list, a tail the traversal screen refuses is refused at the mirror door; at the absolute-form door
  the screen is not run, and a URL at that upstream's origin, at its base path followed by that same tail,
  is accepted as it stands. So \<open>..%2f..%2fadmin\<close> below a path prefix, which the module says is screened
  on the decoded view, goes out through the second door.
\<close>

theorem absolute_door_unscreened:
  assumes "reject_traversal tail \<noteq> Inr ()"
    and "url_parse U raw = Inr url" and "url_host U url \<noteq> None" and "url_username U url = []"
    and "url_password U url = None" and "origin_of U url = origin_of U (u_base u)"
    and "url_path U url = url_path U (u_base u) @ tail"
  shows "resolve_label U [(label, u)] label tail = Inl (PathEscape tail) \<and>
    resolve_absolute U [(label, u)] raw = Inr (u, url)"
proof -
  from assms(1) have "reject_traversal tail = Inl (PathEscape tail)"
    by (auto simp: reject_traversal_def split: option.splits if_splits)
  then have "resolve_label U [(label, u)] label tail = Inl (PathEscape tail)"
    by (simp add: resolve_label_def)
  moreover have "resolve_absolute U [(label, u)] raw = Inr (u, url)"
    using assms(2-7) by (simp add: resolve_absolute_def)
  ultimately show ?thesis by simp
qed

theorem absolute_door_unscreened_witness:
  "resolve_label demo_url [(lit ''a'', demo_upstream)] (lit ''a'') (lit ''..%2f..%2fadmin'') =
     Inl (PathEscape (lit ''..%2f..%2fadmin'')) \<and>
   resolve_absolute demo_url [(lit ''a'', demo_upstream)] (lit ''https://h/p/..%2f..%2fadmin'') =
     Inr (demo_upstream, (lit ''h'', lit ''/p/..%2f..%2fadmin''))"
  by (rule absolute_door_unscreened)
    (simp_all add: reject_traversal_def starts_with_def percent_decode_def hex_byte_def hex_value_def ascii_digit_def
      utf8_def utf8_char_def bad_view_def slashed_def demo_url_def demo_url_parse_def strip_prefix_def
      origin_of_def demo_upstream_def)

section \<open>What resolution and injection promise their callers\<close>

text \<open>A URL is at an upstream when the upstream is on the list and the URL at its origin, below its base path.\<close>

definition at_upstream :: "'u url_crate \<Rightarrow> 'u allowlist \<Rightarrow> 'u upstream \<Rightarrow> 'u \<Rightarrow> bool" where
  "at_upstream U al u url \<longleftrightarrow> u \<in> snd ` set al \<and> origin_of U url = origin_of U (u_base u) \<and>
     starts_with (url_path U url) (url_path U (u_base u))"

lemma resolve_at: "resolve_label U al label tail = Inr (u, url) \<Longrightarrow> at_upstream U al u url"
  by (auto simp: resolve_label_def at_upstream_def split: option.splits sum.splits if_splits dest!: map_of_SomeD)
    force+

lemma resolve_absolute_at: "resolve_absolute U al raw = Inr (u, url) \<Longrightarrow> at_upstream U al u url"
  by (auto simp: resolve_absolute_def at_upstream_def split: option.splits sum.splits if_splits
    dest!: find_Some_in)

definition header_safe :: "bytes \<Rightarrow> bool" where
  "header_safe v \<longleftrightarrow> list_all (\<lambda>b. 0x20 \<le> b \<and> b \<noteq> 0x7f) v"

lemma inject_Inr:
  assumes "inject cred u g s = (s', Inr (Some i))"
  obtains name secret where "u_credential u = Some name"
    and "cred \<lparr>cr_tenant = gt_tenant g, cr_job = gt_job g, cr_upstream = u_name u, cr_secret = name\<rparr> s = (s', Inr secret)"
    and "header_safe (in_value i)"
  using assms
  by (auto simp: inject_def Let_def header_safe_def list_all_iff list_ex_iff not_le [symmetric] split: option.splits sum.splits prod.splits if_splits)

end
