(* ===== verification/Ci_Brokered.thy ===== *)
theory Ci_Brokered
  imports Ci_Services Ci_Allowlist
begin

text \<open>
  The package proxy's production source of credentials
  (\<open>src/crates/hull-ci-proxy/src/brokered.rs\<close>): the table of jobs, the one redemption of a job's
  capability, and the re-assertion before every use. What it needs of the broker is the interface
  \<open>redeemer\<close>, in which the source's properties are proved once; the broker's service provides it. A call
  that holds a job's lock is one step. Shown: a credential is served only while the broker still answers
  for the capability it was redeemed with, so a revocation or a crypto-shred reaches the copy the proxy
  already holds.
\<close>

section \<open>Errors as text\<close>

definition tick :: "str \<Rightarrow> str" where "tick s = lit ''`'' @ s @ lit ''`''"

fun secret_error_to_string :: "secret_error \<Rightarrow> str" where
  "secret_error_to_string (InvalidName n) = tick n @ lit '' is not a valid secret name (expected `[A-Z_][A-Z0-9_]*`)''"
| "secret_error_to_string (ReservedName n) = tick n @ lit '' is reserved by the job environment and may not be used as a secret name''"
| "secret_error_to_string EmptyValue = lit ''secret value is empty''"
| "secret_error_to_string (NoTenantKey t) = lit ''no key material for tenant '' @ tick t @ lit '' (never provisioned, or crypto-shredded)''"
| "secret_error_to_string (NoKekVersion t v) = lit ''tenant '' @ tick t @ lit '' has no KEK version '' @ show_nat v"
| "secret_error_to_string Decrypt = lit ''authenticated decryption failed''"
| "secret_error_to_string (ContextMismatch e f) = lit ''record is labelled '' @ tick f @ lit '' but was opened as '' @ tick e"
| "secret_error_to_string (UnknownSecret t n) = lit ''tenant '' @ tick t @ lit '' has no secret named '' @ tick n"
| "secret_error_to_string OutsiderRefused = lit ''author class `outsider` may not receive tenant secrets''"
| "secret_error_to_string BadCapability = lit ''capability is not valid''"
| "secret_error_to_string CapabilityExpired = lit ''capability expired''"
| "secret_error_to_string CapabilityConsumed = lit ''capability has already been redeemed''"
| "secret_error_to_string CapabilityRevoked = lit ''capability was revoked''"
| "secret_error_to_string WrongNode = lit ''capability is bound to another node''"
| "secret_error_to_string WrongProxy = lit ''capability is bound to another package proxy''"
| "secret_error_to_string (WrongJob b p) = lit ''capability is bound to job '' @ tick b @ lit '' but was presented for '' @ tick p"
| "secret_error_to_string (WrongTenant b p) = lit ''capability is bound to tenant '' @ tick b @ lit '' but was presented for '' @ tick p"
| "secret_error_to_string BadNodeSignature = lit ''node signature is not valid''"
| "secret_error_to_string (UnenrolledNode k) = lit ''node public key '' @ tick k @ lit '' is not enrolled''"
| "secret_error_to_string (UnenrolledProxy k) = lit ''package-proxy public key '' @ tick k @ lit '' is not enrolled''"
| "secret_error_to_string (StaleRedemption s) = lit ''redemption is '' @ show_nat s @ lit ''s away from this clock''"
| "secret_error_to_string (KeyAlreadyEnrolled e r) = lit ''public key is already enrolled to node '' @ tick e @ lit '' and may not also be '' @ tick r"
| "secret_error_to_string (Undeclared n) = tick n @ lit '' is not in this job'' @ [39] @ lit ''s declared secret set''"
| "secret_error_to_string (StoreFailure d) = lit ''secret store failure: '' @ d"
| "secret_error_to_string (KeyService d) = lit ''key service failure: '' @ d"

section \<open>The source\<close>

datatype slot_state =
    Pending str
  | Held str "(str \<times> bytes) list"
  | NoAuthority str
  | Failed str
  | Invalidated str

record job_slot =
  js_tenant :: str
  js_state :: slot_state

type_synonym job_table = "(job_id \<times> job_slot) list"

text \<open>The broker as the proxy sees it: \<open>ProxyCredentialRedeemer\<close>, over the broker's state \<open>'s\<close> at a time.\<close>

type_synonym 's redeem_fn = "signed_proxy_redemption \<Rightarrow> nat \<Rightarrow> 's \<Rightarrow> 's \<times> (secret_error + delivered)"
type_synonym 's reassert_fn = "reassertion \<Rightarrow> nat \<Rightarrow> 's \<Rightarrow> secret_error + unit"

definition put_job :: "str \<Rightarrow> job_id \<Rightarrow> slot_state \<Rightarrow> job_table \<Rightarrow> job_table" where
  "put_job t job st js = bt_insert job \<lparr>js_tenant = t, js_state = st\<rparr> js"

definition authorise_job :: "str \<Rightarrow> job_id \<Rightarrow> str \<Rightarrow> job_table \<Rightarrow> job_table" where
  "authorise_job t job capability js = put_job t job (Pending capability) js"

definition deny_job :: "str \<Rightarrow> job_id \<Rightarrow> str \<Rightarrow> job_table \<Rightarrow> job_table" where
  "deny_job t job reason js = put_job t job (NoAuthority reason) js"

definition release_job :: "job_id \<Rightarrow> job_table \<Rightarrow> job_table" where
  "release_job job js = AList.delete job js"

text \<open>\<open>values\<close> is a \<open>BTreeMap\<close> collected from the delivered pairs.\<close>

definition held_values :: "delivered \<Rightarrow> (str \<times> bytes) list" where
  "held_values d = fold (\<lambda>n m. case delivered_get d n of Some v \<Rightarrow> bt_insert n v m | None \<Rightarrow> m) (delivered_names d) []"

definition redeem_slot :: "'s redeem_fn \<Rightarrow> crates \<Rightarrow> sigs \<Rightarrow> bytes \<Rightarrow> bytes \<Rightarrow> nat \<Rightarrow> str \<Rightarrow> job_id \<Rightarrow> slot_state \<Rightarrow> 's \<Rightarrow> 's \<times> slot_state" where
  "redeem_slot red K S seed nonce now t job st s =
     (case st of
        Pending token \<Rightarrow>
          (case red (proxy_sign K S seed nonce token t job now) now s of
             (s, Inr d) \<Rightarrow>
               (s, if dl_tenant d \<noteq> t \<or> dl_job d \<noteq> job
                   then Failed (lit ''the broker answered for a different job or tenant'')
                   else Held token (held_values d))
           | (s, Inl e) \<Rightarrow> (s, Failed (secret_error_to_string e)))
      | _ \<Rightarrow> (s, st))"

definition reassert_slot :: "'s reassert_fn \<Rightarrow> sigs \<Rightarrow> bytes \<Rightarrow> nat \<Rightarrow> str \<Rightarrow> job_id \<Rightarrow> slot_state \<Rightarrow> 's \<Rightarrow> slot_state" where
  "reassert_slot rea S seed now t job st s =
     (case st of
        Held token vs \<Rightarrow>
          (case rea \<lparr>ra_token = token, ra_tenant = t, ra_job = job, ra_key = sg_public S seed\<rparr> now s of
             Inl e \<Rightarrow> Invalidated (secret_error_to_string e)
           | Inr _ \<Rightarrow> st)
      | _ \<Rightarrow> st)"

definition answer_of :: "credential_request \<Rightarrow> slot_state \<Rightarrow> credential_error + bytes" where
  "answer_of req st =
     (case st of
        Pending _ \<Rightarrow> Inl (CredUnavailable (cr_upstream req) (lit ''capability was not redeemed''))
      | NoAuthority reason \<Rightarrow> Inl (CredNoAuthority (cr_job req) (cr_upstream req) reason)
      | Failed detail \<Rightarrow> Inl (CredUnavailable (cr_upstream req) detail)
      | Invalidated detail \<Rightarrow> Inl (CredInvalidated (cr_job req) (cr_upstream req) detail)
      | Held _ vs \<Rightarrow>
          (case map_of vs (cr_secret req) of
             Some v \<Rightarrow> Inr v
           | None \<Rightarrow> Inl (CredMissing (cr_upstream req) (cr_secret req))))"

definition brokered_credential :: "'s redeem_fn \<Rightarrow> 's reassert_fn \<Rightarrow> crates \<Rightarrow> sigs \<Rightarrow> bytes \<Rightarrow> bytes \<Rightarrow> nat \<Rightarrow>
    (job_table \<times> 's) credential_source" where
  "brokered_credential red rea K S seed nonce now req w =
     (case map_of (fst w) (cr_job req) of
        None \<Rightarrow> (w, Inl (CredUnregistered (cr_job req)))
      | Some slot \<Rightarrow>
          if js_tenant slot \<noteq> cr_tenant req
          then (w, Inl (CredTenantMismatch (cr_job req) (js_tenant slot) (cr_tenant req)))
          else
            let (s, st) = redeem_slot red K S seed nonce now (js_tenant slot) (cr_job req) (js_state slot) (snd w);
                st = reassert_slot rea S seed now (js_tenant slot) (cr_job req) st s
            in ((hm_modify (cr_job req) (\<lambda>j. j\<lparr>js_state := st\<rparr>) (fst w), s), answer_of req st))"

definition masker_for_job :: "job_id \<Rightarrow> job_table \<Rightarrow> masker" where
  "masker_for_job job js =
     (case map_of js job of
        Some slot \<Rightarrow> (case js_state slot of Held _ vs \<Rightarrow> masker_of (map snd vs) | _ \<Rightarrow> masker_new)
      | None \<Rightarrow> masker_new)"

section \<open>Histories of the source\<close>

datatype 'm source_call =
    SAuthorise str job_id str
  | SDeny str job_id str
  | SRelease job_id
  | SCredential bytes nat credential_request
  | SBroker 'm

text \<open>\<open>SBroker\<close> is what happens at the broker in between, by the broker's own step function \<open>bs\<close>.\<close>

fun source_step :: "'s redeem_fn \<Rightarrow> 's reassert_fn \<Rightarrow> ('m \<Rightarrow> 's \<Rightarrow> 's) \<Rightarrow> crates \<Rightarrow> sigs \<Rightarrow> bytes \<Rightarrow> 'm source_call \<Rightarrow>
    job_table \<times> 's \<Rightarrow> (job_table \<times> 's) \<times> (credential_error + bytes) option" where
  "source_step red rea bs K S seed (SAuthorise t job cap) w = ((authorise_job t job cap (fst w), snd w), None)"
| "source_step red rea bs K S seed (SDeny t job reason) w = ((deny_job t job reason (fst w), snd w), None)"
| "source_step red rea bs K S seed (SRelease job) w = ((release_job job (fst w), snd w), None)"
| "source_step red rea bs K S seed (SCredential nonce now req) w =
     (let (w, a) = brokered_credential red rea K S seed nonce now req w in (w, Some a))"
| "source_step red rea bs K S seed (SBroker m) w = ((fst w, bs m (snd w)), None)"

definition source_after :: "'s redeem_fn \<Rightarrow> 's reassert_fn \<Rightarrow> ('m \<Rightarrow> 's \<Rightarrow> 's) \<Rightarrow> crates \<Rightarrow> sigs \<Rightarrow> bytes \<Rightarrow> 's \<Rightarrow>
    'm source_call list \<Rightarrow> job_table \<times> 's" where
  "source_after red rea bs K S seed s0 calls = fst (run (source_step red rea bs K S seed) calls ([], s0))"

section \<open>The interface to the broker\<close>

text \<open>
  \<open>ok\<close> is an invariant of the broker; \<open>spendable token t job now s\<close> says the broker stands by the
  capability; \<open>disclosed token t n v s\<close> that it once gave out \<open>v\<close> as the tenant's secret \<open>n\<close> under it,
  which no later call takes back.
\<close>

locale redeemer =
  fixes red :: "'s redeem_fn"
    and rea :: "'s reassert_fn"
    and bs :: "'m \<Rightarrow> 's \<Rightarrow> 's"
    and ok :: "'s \<Rightarrow> bool"
    and spendable :: "str \<Rightarrow> str \<Rightarrow> job_id \<Rightarrow> nat \<Rightarrow> 's \<Rightarrow> bool"
    and disclosed :: "str \<Rightarrow> str \<Rightarrow> str \<Rightarrow> bytes \<Rightarrow> 's \<Rightarrow> bool"
  assumes ok_redeem: "ok s \<Longrightarrow> ok (fst (red req now s))"
    and ok_step: "ok s \<Longrightarrow> ok (bs m s)"
    and disclosed_redeem: "ok s \<Longrightarrow> disclosed tok t n v s \<Longrightarrow> disclosed tok t n v (fst (red req now s))"
    and disclosed_step: "ok s \<Longrightarrow> disclosed tok t n v s \<Longrightarrow> disclosed tok t n v (bs m s)"
    and redeem_discloses: "ok s \<Longrightarrow> red req now s = (s', Inr d) \<Longrightarrow> delivered_get d n = Some v \<Longrightarrow>
      disclosed (sp_token req) (sp_tenant req) n v s'"
    and reassert_spendable: "ok s \<Longrightarrow> rea ra now s = Inr () \<Longrightarrow> spendable (ra_token ra) (ra_tenant ra) (ra_job ra) now s"
begin

text \<open>The values a job holds were disclosed under the token it holds, for the tenant it is registered with.\<close>

definition table_ok :: "job_table \<times> 's \<Rightarrow> bool" where
  "table_ok w \<longleftrightarrow> bt_ok (fst w) \<and> ok (snd w) \<and>
     (\<forall>job slot token vs n v. map_of (fst w) job = Some slot \<longrightarrow> js_state slot = Held token vs \<longrightarrow> map_of vs n = Some v \<longrightarrow>
        disclosed token (js_tenant slot) n v (snd w))"

lemma redeem_slot_mono:
  assumes "ok s" and "redeem_slot red K S seed nonce now t job st s = (s', st')"
  shows "ok s' \<and> (disclosed tok t' n v s \<longrightarrow> disclosed tok t' n v s')"
proof (cases st)
  case (Pending token)
  then show ?thesis
    using assms ok_redeem [OF assms(1)] disclosed_redeem [OF assms(1)]
    by (auto simp: redeem_slot_def split: prod.splits sum.splits) (metis fst_conv)+
qed (use assms in \<open>simp_all add: redeem_slot_def\<close>)

lemma map_of_held_values: "map_of (held_values d) n = Some v \<Longrightarrow> delivered_get d n = Some v"
proof -
  have "bt_ok m \<Longrightarrow> bt_ok (fold (\<lambda>n m. case delivered_get d n of Some v \<Rightarrow> bt_insert n v m | None \<Rightarrow> m) ns m) \<and>
      (map_of (fold (\<lambda>n m. case delivered_get d n of Some v \<Rightarrow> bt_insert n v m | None \<Rightarrow> m) ns m) n = Some v \<longrightarrow>
       map_of m n = Some v \<or> delivered_get d n = Some v)" for ns m
  proof (induction ns arbitrary: m)
    case (Cons x ns)
    show ?case
    proof (cases "delivered_get d x")
      case (Some y)
      with Cons.IH [of "bt_insert x y m"] Cons.prems show ?thesis by (auto simp: bt_ok_insert split: if_splits)
    qed (use Cons in simp)
  qed simp
  from this [of "[]"] show "map_of (held_values d) n = Some v \<Longrightarrow> delivered_get d n = Some v"
    by (simp add: held_values_def)
qed

lemma redeem_slot_held:
  assumes "ok s" and "redeem_slot red K S seed nonce now t job st s = (s', Held token vs)" and "map_of vs n = Some v"
    and "\<And>tok ws. st = Held tok ws \<Longrightarrow> map_of ws n = Some v \<Longrightarrow> disclosed tok t n v s"
  shows "disclosed token t n v s'"
proof (cases st)
  case (Pending tok)
  with assms(2) obtain d where red: "red (proxy_sign K S seed nonce tok t job now) now s = (s', Inr d)"
    and "token = tok" "vs = held_values d"
    by (auto simp: redeem_slot_def split: prod.splits sum.splits if_splits)
  with redeem_discloses [OF assms(1) red map_of_held_values] assms(3) show ?thesis
    by (simp add: proxy_sign_def Let_def)
qed (use assms in \<open>auto simp: redeem_slot_def\<close>)

lemma reassert_slot_held: "reassert_slot rea S seed now t job st s = Held token vs \<Longrightarrow> st = Held token vs \<and>
    rea \<lparr>ra_token = token, ra_tenant = t, ra_job = job, ra_key = sg_public S seed\<rparr> now s = Inr ()"
  by (auto simp: reassert_slot_def split: slot_state.splits sum.splits)

lemma table_ok_credential:
  assumes "table_ok w"
  shows "table_ok (fst (brokered_credential red rea K S seed nonce now req w))"
proof (cases "\<exists>slot. map_of (fst w) (cr_job req) = Some slot \<and> js_tenant slot = cr_tenant req")
  case True
  then obtain slot where slot: "map_of (fst w) (cr_job req) = Some slot" "js_tenant slot = cr_tenant req" by blast
  obtain s st where rs: "redeem_slot red K S seed nonce now (js_tenant slot) (cr_job req) (js_state slot) (snd w) = (s, st)"
    by force
  define st' where "st' = reassert_slot rea S seed now (js_tenant slot) (cr_job req) st s"
  from assms have ok: "ok (snd w)" and bt: "bt_ok (fst w)" by (simp_all add: table_ok_def)
  have w': "fst (brokered_credential red rea K S seed nonce now req w) =
      (hm_modify (cr_job req) (\<lambda>j. j\<lparr>js_state := st'\<rparr>) (fst w), s)"
    using slot rs by (simp add: brokered_credential_def st'_def Let_def)
  have "disclosed token (js_tenant slot') n v s"
    if m: "map_of (hm_modify (cr_job req) (\<lambda>j. j\<lparr>js_state := st'\<rparr>) (fst w)) job = Some slot'"
      and h: "js_state slot' = Held token vs" and v: "map_of vs n = Some v" for job slot' token vs n v
  proof (cases "job = cr_job req")
    case True
    with m slot have "slot' = slot\<lparr>js_state := st'\<rparr>" by simp
    with h have "st' = Held token vs" and t: "js_tenant slot' = js_tenant slot" by simp_all
    then have "st = Held token vs" using reassert_slot_held st'_def by metis
    with rs have "redeem_slot red K S seed nonce now (js_tenant slot) (cr_job req) (js_state slot) (snd w) = (s, Held token vs)" by simp
    from redeem_slot_held [OF ok this v] assms slot(1) show ?thesis by (auto simp: t table_ok_def)
  next
    case False
    with m have "map_of (fst w) job = Some slot'" by simp
    with assms h v have "disclosed token (js_tenant slot') n v (snd w)" by (auto simp: table_ok_def)
    with redeem_slot_mono [OF ok rs] show ?thesis by blast
  qed
  with redeem_slot_mono [OF ok rs] bt show ?thesis by (auto simp: w' table_ok_def)
next
  case False
  then have "fst (brokered_credential red rea K S seed nonce now req w) = w"
    by (auto simp: brokered_credential_def split: option.splits)
  with assms show ?thesis by simp
qed

lemma table_ok_step: "table_ok w \<Longrightarrow> table_ok (fst (source_step red rea bs K S seed c w))"
proof (cases c)
  case (SCredential nonce now req)
  then show "table_ok w \<Longrightarrow> ?thesis" using table_ok_credential by (simp add: case_prod_unfold Let_def)
next
  case (SRelease job)
  then show "table_ok w \<Longrightarrow> ?thesis"
    by (auto simp: table_ok_def release_job_def bt_ok_delete split: if_splits)
qed (auto simp: table_ok_def authorise_job_def deny_job_def put_job_def bt_ok_insert ok_step intro: disclosed_step split: if_splits)

lemma table_ok_after: "ok s0 \<Longrightarrow> table_ok (source_after red rea bs K S seed s0 calls)"
  unfolding source_after_def
  by (rule run_invariant [where P = table_ok, OF _ table_ok_step]) (simp_all add: table_ok_def)

text \<open>A credential that is served was disclosed to this source, and the broker stands by it now.\<close>

lemma served:
  assumes "table_ok w" and "brokered_credential red rea K S seed nonce now req w = (w', Inr v)"
  shows "\<exists>token. disclosed token (cr_tenant req) (cr_secret req) v (snd w') \<and>
    spendable token (cr_tenant req) (cr_job req) now (snd w')"
proof -
  from assms(2) obtain slot where slot: "map_of (fst w) (cr_job req) = Some slot" "js_tenant slot = cr_tenant req"
    by (auto simp: brokered_credential_def split: option.splits if_splits)
  obtain s st where rs: "redeem_slot red K S seed nonce now (js_tenant slot) (cr_job req) (js_state slot) (snd w) = (s, st)"
    by force
  define st' where "st' = reassert_slot rea S seed now (js_tenant slot) (cr_job req) st s"
  from assms(2) slot rs have a: "answer_of req st' = Inr v" and w': "snd w' = s"
    by (auto simp: brokered_credential_def st'_def Let_def)
  then obtain token vs where st': "st' = Held token vs" and v: "map_of vs (cr_secret req) = Some v"
    by (auto simp: answer_of_def split: slot_state.splits option.splits)
  from reassert_slot_held [OF st' [unfolded st'_def]] have st: "st = Held token vs"
    and rea: "rea \<lparr>ra_token = token, ra_tenant = js_tenant slot, ra_job = cr_job req, ra_key = sg_public S seed\<rparr> now s = Inr ()"
    by simp_all
  from assms(1) have ok: "ok (snd w)" by (simp add: table_ok_def)
  then have "ok s" using redeem_slot_mono [OF ok rs] by blast
  from reassert_spendable [OF this rea] slot have "spendable token (cr_tenant req) (cr_job req) now s" by simp
  moreover have "disclosed token (js_tenant slot) (cr_secret req) v s"
    by (rule redeem_slot_held [OF ok rs [unfolded st] v]) (use assms(1) slot(1) in \<open>auto simp: table_ok_def\<close>)
  ultimately show ?thesis using slot(2) w' by auto
qed

end

end
