(* ===== verification/Ci_Site.thy ===== *)
theory Ci_Site
  imports Ci_Brokered
begin

text \<open>
  The package proxy's source of credentials on the broker's own service: the state is the table of
  enrolled proxies and the broker, with the log of the calls the broker has executed beside it, which
  only the statements read. Here the interface \<open>redeemer\<close> is interpreted on the service
  (\<open>package.rs\<close>) and on the broker (\<open>broker.rs\<close>), and the break-glass property of the pair is stated.
\<close>

section \<open>The pair\<close>

type_synonym site = "enrolled \<times> broker \<times> broker_call list"

datatype site_call = SiteBroker broker_call | SiteEnrol enrol_call

definition site_new :: site where "site_new = ([], broker_new, [])"

text \<open>A request that does not verify never reaches the broker; one that does is one redemption there.\<close>

definition site_redeem :: "aead \<Rightarrow> crates \<Rightarrow> sigs \<Rightarrow> site redeem_fn" where
  "site_redeem A K S req now = (\<lambda>(proxies, b, log).
     let (b', a) = proxy_service_redeem A K S proxies req now b;
         calls = (case verify_proxy K S req now proxies of Inl _ \<Rightarrow> [] | Inr proxy \<Rightarrow> [BRedeemProxy (sp_token req) proxy now])
     in ((proxies, b', log @ calls), a))"

definition site_reassert :: "crates \<Rightarrow> site reassert_fn" where
  "site_reassert K ra now = (\<lambda>(proxies, b, log). proxy_service_reassert K proxies ra now b)"

fun site_step :: "aead \<Rightarrow> crates \<Rightarrow> site_call \<Rightarrow> site \<Rightarrow> site" where
  "site_step A K (SiteBroker c) (proxies, b, log) = (proxies, fst (broker_step A K c b), log @ [c])"
| "site_step A K (SiteEnrol c) (proxies, b, log) = (fst (enrol_step c proxies), b, log)"

definition site_after :: "aead \<Rightarrow> crates \<Rightarrow> sigs \<Rightarrow> bytes \<Rightarrow> site_call source_call list \<Rightarrow> job_table \<times> site" where
  "site_after A K S seed calls = source_after (site_redeem A K S) (site_reassert K) (site_step A K) K S seed site_new calls"

definition site_credential :: "aead \<Rightarrow> crates \<Rightarrow> sigs \<Rightarrow> bytes \<Rightarrow> bytes \<Rightarrow> nat \<Rightarrow> (job_table \<times> site) credential_source" where
  "site_credential A K S seed nonce now = brokered_credential (site_redeem A K S) (site_reassert K) K S seed nonce now"

definition site_log :: "site \<Rightarrow> broker_call list" where "site_log s = snd (snd s)"

section \<open>What the broker promises\<close>

definition site_ok :: "aead \<Rightarrow> crates \<Rightarrow> site \<Rightarrow> bool" where
  "site_ok A K s \<longleftrightarrow> fst (snd s) = broker_after A K (site_log s)"

text \<open>The log holds a live mint of the token for the job, in date, that nothing since has revoked.\<close>

definition live_mint :: "crates \<Rightarrow> str \<Rightarrow> str \<Rightarrow> job_id \<Rightarrow> nat \<Rightarrow> broker_call list \<Rightarrow> bool" where
  "live_mint K token t job now log \<longleftrightarrow> (\<exists>before after i secret minted req digest.
     log = before @ BMintProxy i secret minted req # after \<and>
     cap_token_parse K token = Inr (i, digest) \<and> ct_eq K (blake3_hash K secret) digest \<and>
     pr_author req = Member \<and> pr_tenant req = t \<and> pr_job req = job \<and> now < pr_expires_at req \<and>
     (\<forall>c\<in>set after. c \<noteq> BRevokeProxy i \<and> c \<noteq> BRevokeJobProxy job \<and> c \<noteq> BRevokeTenant t \<and> c \<noteq> BShred t))"

text \<open>The log holds a redemption of the token at which the vault held the value, by a name a member's mint declared.\<close>

definition was_disclosed :: "aead \<Rightarrow> crates \<Rightarrow> str \<Rightarrow> str \<Rightarrow> str \<Rightarrow> bytes \<Rightarrow> broker_call list \<Rightarrow> bool" where
  "was_disclosed A K token t n v log \<longleftrightarrow> (\<exists>before after proxy now i secret minted req.
     log = before @ BRedeemProxy token proxy now # after \<and>
     BMintProxy i secret minted req \<in> set before \<and> presented K token = i \<and>
     pr_author req = Member \<and> pr_tenant req = t \<and> pr_proxy req = proxy \<and> now < pr_expires_at req \<and> n \<in> set (pr_declared req) \<and>
     secret_value A (broker_after A K before) (t, n) = Some v)"

lemma was_disclosed_append: "was_disclosed A K token t n v log \<Longrightarrow> was_disclosed A K token t n v (log @ extra)"
  unfolding was_disclosed_def by (metis append.assoc append_Cons)

lemma member: "may_receive_secrets a \<Longrightarrow> a = Member"
  by (cases a) auto

lemma site_redeem_log: "site_log (fst (site_redeem A K S req now s)) = site_log s \<or>
    (\<exists>c. site_log (fst (site_redeem A K S req now s)) = site_log s @ [c])"
  by (auto simp: site_redeem_def site_log_def case_prod_unfold Let_def split: sum.splits)

lemma site_redeem_ok: "site_ok A K s \<Longrightarrow> site_ok A K (fst (site_redeem A K S req now s))"
  by (cases s) (auto simp: site_ok_def site_redeem_def site_log_def proxy_service_redeem_def Let_def broker_after_snoc
    split: sum.splits prod.splits)

lemma site_step_ok: "site_ok A K s \<Longrightarrow> site_ok A K (site_step A K c s)"
  by (cases s; cases c) (auto simp: site_ok_def site_log_def broker_after_snoc)

lemma site_redeem_discloses:
  assumes ok: "site_ok A K s" and red: "site_redeem A K S req now s = (s', Inr d)" and get: "delivered_get d n = Some v"
  shows "was_disclosed A K (sp_token req) (sp_tenant req) n v (site_log s')"
proof -
  obtain proxies b log where s: "s = (proxies, b, log)" by (cases s)
  from red s obtain proxy b' where ver: "verify_proxy K S req now proxies = Inr proxy"
    and rp: "redeem_proxy_capability A K (sp_token req) proxy now b = (b', Inr d)"
    and t: "dl_tenant d = sp_tenant req" and log': "site_log s' = log @ [BRedeemProxy (sp_token req) proxy now]"
    by (auto simp: site_redeem_def proxy_service_redeem_def Let_def site_log_def split: sum.splits prod.splits if_splits)
  from redeem_proxy_Inr [OF rp] obtain m g where
    gate: "redeem_gate K pg_expires_at pg_proxy WrongProxy (sp_token req) proxy now (b_proxy_caps b) = (m, Inr g)"
    and g: "delivered_names d = pg_names g" "dl_tenant d = pg_tenant g"
      "list_all (\<lambda>(n, v). secret_value A b (pg_tenant g, n) = Some v) (dl_values d)" by metis
  from gate_Inr [OF gate] obtain i digest r where p: "cap_token_parse K (sp_token req) = Inr (i, digest)"
    and r: "map_of (b_proxy_caps b) i = Some r" "now < pg_expires_at g" "pg_proxy g = proxy" "g = cp_grant r" by metis
  from ok s have b: "b = broker_after A K log" by (simp add: site_ok_def site_log_def)
  from proxy_history [OF r(1) [unfolded b]] r(4) obtain before after secret minted q tok where
    h: "log = before @ BMintProxy i secret minted q # after"
      "snd (mint_proxy_capability K i secret minted q (broker_after A K before)) = Inr (tok, g)" by blast
  note q = mint_proxy_Inr [OF h(2)]
  from get have x: "(n, v) \<in> set (dl_values d)"
    by (auto simp: delivered_get_def find_Some_iff case_prod_unfold) (metis nth_mem prod.collapse snd_conv)
  then have "n \<in> set (delivered_names d)" by (force simp: delivered_names_def)
  with x g t have "n \<in> set (pg_names g)" and "secret_value A b (sp_tenant req, n) = Some v"
    by (auto simp: list_all_iff)
  then show ?thesis unfolding was_disclosed_def log'
    using h(1) p q r t g(2) b member
    by (intro exI [of _ log] exI [of _ "[]"] exI [of _ proxy] exI [of _ now] exI [of _ i] exI [of _ secret] exI [of _ minted]
      exI [of _ q]) (simp add: presented_def)
qed

lemma site_reassert_live:
  assumes ok: "site_ok A K s" and "site_reassert K ra now s = Inr ()"
  shows "live_mint K (ra_token ra) (ra_tenant ra) (ra_job ra) now (site_log s)"
proof -
  obtain proxies b log where s: "s = (proxies, b, log)" by (cases s)
  with assms obtain proxy g where rc: "reassert_proxy_capability K (ra_token ra) proxy now b = Inr g"
    and g: "pg_tenant g = ra_tenant ra" "pg_job g = ra_job ra"
    by (auto simp: site_reassert_def proxy_service_reassert_def split: option.splits sum.splits if_splits)
  from rc obtain i digest r where p: "cap_token_parse K (ra_token ra) = Inr (i, digest)"
    and r: "map_of (b_proxy_caps b) i = Some r" "ct_eq K (cp_digest r) digest" "\<not> cp_revoked r" "now < pg_expires_at g" "g = cp_grant r"
    by (auto simp: reassert_proxy_capability_def cap_authenticates_def split: sum.splits option.splits if_splits)
  from ok s have b: "b = broker_after A K log" by (simp add: site_ok_def site_log_def)
  from proxy_history [OF r(1) [unfolded b]] r(3,5) obtain before after secret minted q tok where
    h: "log = before @ BMintProxy i secret minted q # after"
      "snd (mint_proxy_capability K i secret minted q (broker_after A K before)) = Inr (tok, g)"
      "cp_digest r = blake3_hash K secret" "\<forall>c\<in>set after. \<not> revokes_proxy g i c" by blast
  from h(4) g have "\<forall>c\<in>set after. c \<noteq> BRevokeProxy i \<and> c \<noteq> BRevokeJobProxy (ra_job ra) \<and> c \<noteq> BRevokeTenant (ra_tenant ra) \<and>
      c \<noteq> BShred (ra_tenant ra)" by auto
  then show ?thesis unfolding live_mint_def
    using h(1,3) p r g mint_proxy_Inr [OF h(2)] member s
    by (intro exI [of _ before] exI [of _ after] exI [of _ i] exI [of _ secret] exI [of _ minted] exI [of _ q] exI [of _ digest])
      (simp add: site_log_def)
qed

interpretation svc: redeemer "site_redeem A K S" "site_reassert K" "site_step A K" "site_ok A K"
    "\<lambda>token t job now s. live_mint K token t job now (site_log s)"
    "\<lambda>token t n v s. was_disclosed A K token t n v (site_log s)" for A K S
proof (unfold_locales)
  fix tok t n v s m assume "was_disclosed A K tok t n v (site_log s)"
  then show "was_disclosed A K tok t n v (site_log (site_step A K m s))"
    by (cases s; cases m) (simp_all add: site_log_def was_disclosed_append)
next
  fix tok t n v s req now assume "was_disclosed A K tok t n v (site_log s)"
  then show "was_disclosed A K tok t n v (site_log (fst (site_redeem A K S req now s)))"
    using site_redeem_log [of A K S req now s] was_disclosed_append by metis
qed (simp_all add: site_redeem_ok site_step_ok site_redeem_discloses site_reassert_live)

section \<open>A concrete run\<close>

definition demo_sigs :: sigs where
  "demo_sigs = \<lparr>sg_public = id, sg_sign = (\<lambda>seed msg. seed @ msg), sg_verify = (\<lambda>key msg sig. sig = key @ msg)\<rparr>"

definition demo_proxy_request :: proxy_request where
  "demo_proxy_request = \<lparr>pr_tenant = lit ''acme'', pr_job = lit ''job_1'', pr_proxy = lit ''p1'', pr_declared = [lit ''T''],
     pr_author = Member, pr_expires_at = 3700\<rparr>"

definition demo_source_calls :: "site_call source_call list" where
  "demo_source_calls = map (SBroker \<circ> SiteBroker) (map BVault (take 3 demo_vault_calls) @ [BMintProxy cap_id cap_secret 100 demo_proxy_request])
     @ [SBroker (SiteEnrol (Enrol (lit ''p1'') [2])), SAuthorise (lit ''acme'') (lit ''job_1'') demo_cap_token]"

definition demo_credential_request :: credential_request where
  "demo_credential_request = \<lparr>cr_tenant = lit ''acme'', cr_job = lit ''job_1'', cr_upstream = lit ''npm'', cr_secret = lit ''T''\<rparr>"

lemmas site_eval = site_after_def source_after_def site_new_def demo_source_calls_def site_credential_def brokered_credential_def
  demo_credential_request_def demo_proxy_request_def redeem_slot_def reassert_slot_def site_redeem_def site_reassert_def
  proxy_service_redeem_def proxy_service_reassert_def verify_proxy_def resolve_key_def proxy_sign_def demo_sigs_def abs_diff_def
  MAX_SKEW_SECS_def enrol_def authorise_job_def put_job_def redeem_proxy_capability_def reassert_proxy_capability_def
  mint_proxy_capability_def broker_eval held_values_def delivered_names_def delivered_get_def answer_of_def Let_def

lemma demo_served:
  "snd (site_credential demo_aead demo_crates demo_sigs [2] [7] 120 demo_credential_request
     (site_after demo_aead demo_crates demo_sigs [2] demo_source_calls)) = Inr [9]"
  by (simp add: site_eval vault_eval) (simp add: demo_crates_def)

section \<open>Property\<close>

text \<open>C5. Break glass reaches the copy the package proxy holds. Take any history of the pair: jobs registered,
  denied and released at the proxy, credentials asked for, and any calls on the broker and on the table of
  enrolled proxies in between. If the proxy then serves a credential for a job, the broker has executed a
  redemption at which the vault held exactly that value under the job's tenant, by a name that a member's
  mint declared and for the proxy it was minted for; and at this moment a mint of the capability for that
  tenant and that job, by a member, is in date, with no revocation of the capability, the job or the
  tenant and no crypto-shred of the tenant since.
\<close>

theorem held_credential_authority:
  assumes "snd (site_credential A K S seed nonce now req (site_after A K S seed calls)) = Inr v"
  shows "\<exists>token. was_disclosed A K token (cr_tenant req) (cr_secret req) v
      (site_log (snd (fst (site_credential A K S seed nonce now req (site_after A K S seed calls))))) \<and>
    live_mint K token (cr_tenant req) (cr_job req) now
      (site_log (snd (fst (site_credential A K S seed nonce now req (site_after A K S seed calls)))))"
proof -
  have "site_ok A K site_new" by (simp add: site_ok_def site_new_def site_log_def broker_after_def)
  from svc.table_ok_after [OF this] have ok: "svc.table_ok A K (site_after A K S seed calls)"
    by (simp add: site_after_def)
  from assms obtain w' where "site_credential A K S seed nonce now req (site_after A K S seed calls) = (w', Inr v)"
    by (metis prod.collapse)
  with svc.served [OF ok this [unfolded site_credential_def]] show ?thesis by simp
qed

theorem held_credential_authority_witness:
  "\<exists>token. was_disclosed demo_aead demo_crates token (lit ''acme'') (lit ''T'') [9]
      (site_log (snd (fst (site_credential demo_aead demo_crates demo_sigs [2] [7] 120 demo_credential_request
        (site_after demo_aead demo_crates demo_sigs [2] demo_source_calls))))) \<and>
    live_mint demo_crates token (lit ''acme'') (lit ''job_1'') 120
      (site_log (snd (fst (site_credential demo_aead demo_crates demo_sigs [2] [7] 120 demo_credential_request
        (site_after demo_aead demo_crates demo_sigs [2] demo_source_calls)))))"
  using held_credential_authority [OF demo_served] by (simp add: demo_credential_request_def)

end
