(* ===== verification/Ci_Proxy.thy ===== *)
theory Ci_Proxy
  imports Ci_Brokered
begin

text \<open>
  The package proxy's handler (\<open>src/crates/hull-ci-proxy/src/server.rs\<close>) and its audit records
  (\<open>audit.rs\<close>): the two request shapes, the checks in their order, the outbound request rebuilt from a
  literal list of headers, the loop over redirects and the answer. What an upstream answers is an oracle
  of the hop and the outbound request; the \<open>http\<close> crate's conversions are fields of a record. Shown: what
  leaves the proxy and what does not, that the URL a job is configured with is read back as it was
  written and never logged with its token, and how far the answer to a refused request hides the
  allowlist.
\<close>

section \<open>The http crate\<close>

type_synonym headers = "(str \<times> bytes) list"

text \<open>\<open>HeaderValue::to_str\<close> and \<open>HeaderValue::from_bytes\<close>, and the status code's predicates.\<close>

record http_crate =
  hc_to_str :: "bytes \<Rightarrow> str option"
  hc_from_bytes :: "bytes \<Rightarrow> bytes option"
  hc_is_redirection :: "nat \<Rightarrow> bool"
  hc_status_ok :: "nat \<Rightarrow> bool"

record request_uri =
  uri_scheme :: "str option"
  uri_authority :: "str option"
  uri_path_and_query :: "str option"
  uri_string :: str

record http_request =
  hq_method :: str
  hq_uri :: request_uri
  hq_headers :: headers

definition REQUEST_HEADERS :: "str list" where
  "REQUEST_HEADERS = [lit ''accept'', lit ''accept-encoding'', lit ''user-agent'', lit ''if-none-match'', lit ''if-modified-since'',
     lit ''range'', lit ''npm-command'', lit ''npm-session'']"

definition RESPONSE_HEADERS :: "str list" where
  "RESPONSE_HEADERS = [lit ''content-type'', lit ''content-length'', lit ''content-encoding'', lit ''etag'', lit ''last-modified'',
     lit ''cache-control'', lit ''accept-ranges'', lit ''content-range'', lit ''vary'']"

definition MAX_REDIRECTS :: nat where "MAX_REDIRECTS = 5"

section \<open>Targets\<close>

datatype target = Mirror str str str | Absolute str str

fun target_token :: "target \<Rightarrow> str" where
  "target_token (Mirror token _ _) = token"
| "target_token (Absolute token _) = token"

definition bearer_of :: "http_crate \<Rightarrow> headers \<Rightarrow> str \<Rightarrow> str option" where
  "bearer_of H hs name =
     (case Option.bind (map_of hs name) (hc_to_str H) of
        None \<Rightarrow> None
      | Some v \<Rightarrow>
          (case strip_prefix v (lit ''Bearer '') of
             Some rest \<Rightarrow> Some (trim rest)
           | None \<Rightarrow> map_option trim (strip_prefix v (lit ''bearer ''))))"

definition bearer :: "http_crate \<Rightarrow> headers \<Rightarrow> str option" where
  "bearer H hs =
     (case bearer_of H hs (lit ''proxy-authorization'') of
        Some t \<Rightarrow> Some t
      | None \<Rightarrow> bearer_of H hs (lit ''authorization''))"

definition NOT_A_PROXY_URL :: str where
  "NOT_A_PROXY_URL = lit ''not a package-proxy URL (expected /j/<grant>/u/<upstream>/'' @ [0x2026] @ lit '')''"

definition path_of :: "request_uri \<Rightarrow> str" where
  "path_of uri = (case uri_path_and_query uri of Some p \<Rightarrow> p | None \<Rightarrow> lit ''/'')"

definition parse_target :: "http_crate \<Rightarrow> request_uri \<Rightarrow> headers \<Rightarrow> str + target" where
  "parse_target H uri hs =
     (if uri_scheme uri \<noteq> None \<and> uri_authority uri \<noteq> None then
        (case bearer H hs of
           None \<Rightarrow> Inl (lit ''absolute-form request without a Proxy-Authorization grant'')
         | Some token \<Rightarrow> Inr (Absolute token (uri_string uri)))
      else case strip_prefix (path_of uri) (lit ''/j/'') of
        None \<Rightarrow> Inl NOT_A_PROXY_URL
      | Some rest \<Rightarrow>
          (case split_once (of_char CHR ''/'') rest of
             None \<Rightarrow> Inl NOT_A_PROXY_URL
           | Some (token, rest) \<Rightarrow>
               (case strip_prefix rest (lit ''u/'') of
                  None \<Rightarrow> Inl NOT_A_PROXY_URL
                | Some rest \<Rightarrow>
                    (case split_once (of_char CHR ''/'') rest of
                       Some (label, tail) \<Rightarrow> Inr (Mirror token label tail)
                     | None \<Rightarrow> Inr (Mirror token rest [])))))"

section \<open>Audit\<close>

record fetch =
  fe_tenant :: str
  fe_job :: job_id
  fe_upstream :: str
  fe_url :: str
  fe_method :: str
  fe_status :: nat
  fe_bytes :: nat
  fe_authenticated :: bool
  fe_redirects :: nat

record refusal =
  rf_job :: "job_id option"
  rf_method :: str
  rf_path :: str
  rf_reason :: str
  rf_status :: nat

datatype audit_record = Fetched fetch | Refused refusal

text \<open>\<open>splitn(3, '/')\<close>: the first two pieces and what follows them, if anything does.\<close>

definition redact_path :: "str \<Rightarrow> str" where
  "redact_path path =
     (case split_once (of_char CHR ''/'') (case strip_prefix path (lit ''/'') of Some r \<Rightarrow> r | None \<Rightarrow> path) of
        None \<Rightarrow> path
      | Some (a, rest) \<Rightarrow>
          if a = lit ''j''
          then lit ''/j/<redacted>/'' @ (case split_once (of_char CHR ''/'') rest of Some (_, r) \<Rightarrow> r | None \<Rightarrow> [])
          else path)"

section \<open>Refusals\<close>

record denied =
  dn_status :: nat
  dn_reason :: str
  dn_public :: str

definition denied_new :: "nat \<Rightarrow> str \<Rightarrow> denied" where
  "denied_new status reason = \<lparr>dn_status = status, dn_reason = reason, dn_public = reason\<rparr>"

definition denied_opaque :: "nat \<Rightarrow> str \<Rightarrow> str \<Rightarrow> denied" where
  "denied_opaque status reason public = \<lparr>dn_status = status, dn_reason = reason, dn_public = public\<rparr>"

definition UPSTREAM_UNAVAILABLE :: str where
  "UPSTREAM_UNAVAILABLE = lit ''that upstream is not available to this job''"

fun deny_reason_to_string :: "deny_reason \<Rightarrow> str" where
  "deny_reason_to_string (UnknownUpstream l) = lit ''no upstream named '' @ tick l @ lit '' is allowlisted''"
| "deny_reason_to_string (NotGranted l) = lit ''upstream '' @ tick l @ lit '' is not in this job'' @ [39] @ lit ''s grant''"
| "deny_reason_to_string (NotAbsolute u) = tick u @ lit '' is not an absolute URL''"
| "deny_reason_to_string (HostNotAllowlisted h) = lit ''host '' @ tick h @ lit '' is not allowlisted''"
| "deny_reason_to_string (PathEscape p) = lit ''path '' @ tick p @ lit '' escapes the upstream'' @ [39] @ lit ''s base path''"
| "deny_reason_to_string (OriginEscape u) = lit ''resolved URL '' @ tick u @ lit '' left the upstream'' @ [39] @ lit ''s origin''"
| "deny_reason_to_string (MethodNotAllowed m) =
     lit ''method '' @ tick m @ lit '' is not permitted; a package proxy resolves, it does not publish''"

fun denied_of_reason :: "deny_reason \<Rightarrow> denied" where
  "denied_of_reason (UnknownUpstream l) = denied_opaque 403 (deny_reason_to_string (UnknownUpstream l)) UPSTREAM_UNAVAILABLE"
| "denied_of_reason (NotGranted l) = denied_opaque 403 (deny_reason_to_string (NotGranted l)) UPSTREAM_UNAVAILABLE"
| "denied_of_reason (HostNotAllowlisted h) = denied_opaque 403 (deny_reason_to_string (HostNotAllowlisted h)) UPSTREAM_UNAVAILABLE"
| "denied_of_reason (MethodNotAllowed m) = denied_new 405 (deny_reason_to_string (MethodNotAllowed m))"
| "denied_of_reason (NotAbsolute u) = denied_new 403 (deny_reason_to_string (NotAbsolute u))"
| "denied_of_reason (PathEscape p) = denied_new 403 (deny_reason_to_string (PathEscape p))"
| "denied_of_reason (OriginEscape u) = denied_new 403 (deny_reason_to_string (OriginEscape u))"

fun grant_error_to_string :: "grant_error \<Rightarrow> str" where
  "grant_error_to_string GrantInvalid = lit ''package grant is not valid''"
| "grant_error_to_string GrantExpired = lit ''package grant expired''"
| "grant_error_to_string GrantRevoked = lit ''package grant was revoked''"
| "grant_error_to_string (RateLimited limit burst) =
     lit ''package grant is over its rate limit ('' @ show_nat limit @ lit '' requests/s, burst '' @ show_nat burst @ lit '')''"

fun denied_of_grant :: "grant_error \<Rightarrow> denied" where
  "denied_of_grant (RateLimited limit burst) = denied_new 429 (grant_error_to_string (RateLimited limit burst))"
| "denied_of_grant e = denied_new 401 (grant_error_to_string e)"

fun credential_error_to_string :: "credential_error \<Rightarrow> str" where
  "credential_error_to_string (CredMissing u n) =
     lit ''upstream '' @ tick u @ lit '' needs secret '' @ tick n @ lit '', which this tenant does not have''"
| "credential_error_to_string (CredNoSource u n) =
     lit ''upstream '' @ tick u @ lit '' needs secret '' @ tick n @
     lit '' but this proxy has no credential source configured; it will not make an unauthenticated request in its place''"
| "credential_error_to_string (CredNoAuthority j u r) =
     lit ''job '' @ tick j @ lit '' may not spend a tenant credential for upstream '' @ tick u @ lit '': '' @ r"
| "credential_error_to_string (CredUnregistered j) =
     lit ''job '' @ tick j @ lit '' has no upstream-credential capability registered with this proxy; control minted a package grant without one''"
| "credential_error_to_string (CredInvalidated j u d) =
     lit ''job '' @ tick j @ lit '' may no longer spend a tenant credential for upstream '' @ tick u @
     lit ''; the one it was holding has been dropped: '' @ d"
| "credential_error_to_string (CredTenantMismatch j r p) =
     lit ''job '' @ tick j @ lit '' is registered under tenant '' @ tick r @ lit '' but its grant says '' @ tick p"
| "credential_error_to_string (CredUnavailable u d) =
     lit ''upstream credential for '' @ tick u @ lit '' could not be obtained: '' @ d"
| "credential_error_to_string CredNotUtf8 = lit ''credential is not valid UTF-8 and cannot be put in a header''"
| "credential_error_to_string (CredNotHeaderSafe u) =
     lit ''credential for upstream '' @ tick u @ lit '' contains bytes that are not header-safe''"

definition denied_of_credential :: "credential_error \<Rightarrow> denied" where
  "denied_of_credential c = denied_new (if is_policy_refusal c then 403 else 502) (credential_error_to_string c)"

section \<open>The outbound request\<close>

record 'u outbound =
  ob_method :: str
  ob_url :: 'u
  ob_headers :: headers

record transport_error =
  te_timeout :: bool
  te_connect :: bool
  te_decode :: bool

text \<open>An upstream's answer; the body is the stream's items, chunks or failures.\<close>

record reply =
  rp_status :: nat
  rp_headers :: headers
  rp_length :: "nat option"
  rp_body :: "(str + bytes) list"

text \<open>The network: what comes back at a hop for an outbound request.\<close>

type_synonym 'u net = "nat \<Rightarrow> 'u outbound \<Rightarrow> transport_error + reply"

record ('u, 's) proxy_env =
  en_crates :: crates
  en_url :: "'u url_crate"
  en_http :: http_crate
  en_allowlist :: "'u allowlist"
  en_credential :: "'s credential_source"
  en_max_redirects :: nat

definition host_of :: "'u url_crate \<Rightarrow> 'u \<Rightarrow> str" where
  "host_of U url = (case url_host U url of Some h \<Rightarrow> h | None \<Rightarrow> lit ''<none>'')"

definition transport_reason :: "transport_error \<Rightarrow> str" where
  "transport_reason e =
     (if te_timeout e then lit ''timed out''
      else if te_connect e then lit ''connection failed''
      else if te_decode e then lit ''response could not be decoded''
      else lit ''request failed'')"

definition forwarded_headers :: "headers \<Rightarrow> headers" where
  "forwarded_headers hs = List.map_filter (\<lambda>n. map_option (Pair n) (map_of hs n)) REQUEST_HEADERS"

text \<open>What \<open>send\<close> builds before it goes out.\<close>

definition build_request :: "http_crate \<Rightarrow> str \<Rightarrow> 'u \<Rightarrow> headers \<Rightarrow> injected option \<Rightarrow> denied + 'u outbound" where
  "build_request H method url hs ij =
     (if method \<noteq> lit ''GET'' \<and> method \<noteq> lit ''HEAD'' then Inl (denied_of_reason (MethodNotAllowed method))
      else case ij of
        None \<Rightarrow> Inr \<lparr>ob_method = method, ob_url = url, ob_headers = forwarded_headers hs\<rparr>
      | Some i \<Rightarrow>
          (case hc_from_bytes H (in_value i) of
             None \<Rightarrow> Inl (denied_new 502 (lit ''credential is not a valid header value''))
           | Some v \<Rightarrow> Inr \<lparr>ob_method = method, ob_url = url, ob_headers = forwarded_headers hs @ [(in_header i, v)]\<rparr>))"

definition send_failure :: "'u url_crate \<Rightarrow> 'u \<Rightarrow> transport_error \<Rightarrow> denied" where
  "send_failure U url e =
     denied_new 502 (lit ''upstream '' @ tick (host_of U url) @ lit '' could not be reached: '' @ transport_reason e)"

definition redirect_target :: "http_crate \<Rightarrow> reply \<Rightarrow> str option" where
  "redirect_target H r =
     (if \<not> hc_is_redirection H (rp_status r) then None
      else Option.bind (map_of (rp_headers r) (lit ''location'')) (hc_to_str H))"

definition response_headers :: "http_crate \<Rightarrow> headers \<Rightarrow> headers" where
  "response_headers H hs =
     List.map_filter (\<lambda>n. map_option (Pair n) (Option.bind (map_of hs n) (hc_from_bytes H))) RESPONSE_HEADERS"

text \<open>One allowlisted hop to the next: where a redirect leads, or why it is refused.\<close>

definition next_hop :: "('u, 's) proxy_env \<Rightarrow> pkg_grant \<Rightarrow> 'u \<Rightarrow> str \<Rightarrow> denied + 'u upstream \<times> 'u" where
  "next_hop E g url location =
     (case url_join (en_url E) url location of
        None \<Rightarrow> Inl (denied_new 502 (lit ''upstream sent an unusable redirect to '' @ tick location))
      | Some next \<Rightarrow>
          (case resolve_absolute (en_url E) (en_allowlist E) (url_string (en_url E) next) of
             Inl e \<Rightarrow> Inl (denied_of_reason e)
           | Inr (u, url) \<Rightarrow>
               if u_name u \<notin> gt_upstreams g then Inl (denied_of_reason (NotGranted (u_name u))) else Inr (u, url)))"

text \<open>
  The loop, at \<open>n\<close> redirects: the credential source's state, the requests sent and the answer with its
  audit record.
\<close>

function forward_loop :: "('u, 's) proxy_env \<Rightarrow> 'u net \<Rightarrow> pkg_grant \<Rightarrow> str \<Rightarrow> headers \<Rightarrow> 'u upstream \<Rightarrow> 'u \<Rightarrow> nat \<Rightarrow> 's \<Rightarrow>
    's \<times> 'u outbound list \<times> (denied + reply \<times> fetch)" where
  "forward_loop E net g m hs u url n s =
     (case inject (en_credential E) u g s of
        (s, Inl e) \<Rightarrow> (s, [], Inl (denied_of_credential e))
      | (s, Inr ij) \<Rightarrow>
          (case build_request (en_http E) m url hs ij of
             Inl d \<Rightarrow> (s, [], Inl d)
           | Inr ob \<Rightarrow>
               (case net n ob of
                  Inl e \<Rightarrow> (s, [ob], Inl (send_failure (en_url E) url e))
                | Inr r \<Rightarrow>
                    (case redirect_target (en_http E) r of
                       None \<Rightarrow>
                         (s, [ob], Inr (r, \<lparr>fe_tenant = gt_tenant g, fe_job = gt_job g, fe_upstream = u_name u,
                            fe_url = url_string (en_url E) url, fe_method = m, fe_status = rp_status r,
                            fe_bytes = (case rp_length r of Some k \<Rightarrow> k | None \<Rightarrow> 0),
                            fe_authenticated = (ij \<noteq> None), fe_redirects = n\<rparr>))
                     | Some location \<Rightarrow>
                         if n \<ge> en_max_redirects E
                         then (s, [ob], Inl (denied_new 502 (lit ''upstream redirected more than '' @
                                 show_nat (en_max_redirects E) @ lit '' times'')))
                         else (case next_hop E g url location of
                                 Inl d \<Rightarrow> (s, [ob], Inl d)
                               | Inr (u', url') \<Rightarrow>
                                   let (s, obs, a) = forward_loop E net g m hs u' url' (Suc n) s in (s, ob # obs, a))))))"
  by pat_completeness auto
termination
  by (relation "measure (\<lambda>(E, _, _, _, _, _, _, n, _). en_max_redirects E - n)") auto

declare forward_loop.simps [simp del]

section \<open>The handler\<close>

datatype answer = Text nat str | Streamed nat headers "(str + bytes) list" fetch

record 's proxy_state =
  px_grants :: registry
  px_credentials :: 's
  px_audit :: "audit_record list"

definition CONNECT_REFUSED :: str where
  "CONNECT_REFUSED = lit ''CONNECT is not served: this proxy terminates requests so it can authenticate outbound and record what was fetched ('' @
     [0xA7] @ lit ''14.3, D'' @ [0xA7] @ lit ''7.4)''"

definition refuse :: "http_request \<Rightarrow> job_id option \<Rightarrow> denied \<Rightarrow> 's proxy_state \<Rightarrow> 's proxy_state \<times> answer" where
  "refuse req job d st =
     (st\<lparr>px_audit := px_audit st @ [Refused \<lparr>rf_job = job, rf_method = hq_method req, rf_path = redact_path (path_of (hq_uri req)),
        rf_reason = dn_reason d, rf_status = dn_status d\<rparr>]\<rparr>,
      Text (dn_status d) (lit ''hull-ci package proxy: '' @ dn_public d @ [10]))"

definition resolve_target :: "('u, 's) proxy_env \<Rightarrow> target \<Rightarrow> deny_reason + 'u upstream \<times> 'u" where
  "resolve_target E t =
     (case t of
        Mirror _ label tail \<Rightarrow> resolve_label (en_url E) (en_allowlist E) label tail
      | Absolute _ url \<Rightarrow> resolve_absolute (en_url E) (en_allowlist E) url)"

text \<open>The body's record goes out when the body is dropped (\<open>drop_body\<close>), with what crossed by then.\<close>

definition to_response :: "http_crate \<Rightarrow> reply \<Rightarrow> fetch \<Rightarrow> answer" where
  "to_response H r record =
     Streamed (if hc_status_ok H (rp_status r) then rp_status r else 502) (response_headers H (rp_headers r)) (rp_body r) record"

definition handle :: "('u, 's) proxy_env \<Rightarrow> 'u net \<Rightarrow> nat \<Rightarrow> http_request \<Rightarrow> 's proxy_state \<Rightarrow>
    's proxy_state \<times> 'u outbound list \<times> answer" where
  "handle E net now req st =
     (let no = (\<lambda>(st, a). (st, [], a)) in
      if hq_method req = lit ''CONNECT'' then no (refuse req None (denied_new 405 CONNECT_REFUSED) st)
      else case parse_target (en_http E) (hq_uri req) (hq_headers req) of
        Inl e \<Rightarrow> no (refuse req None (denied_new 400 e) st)
      | Inr t \<Rightarrow>
          (case authorise (en_crates E) (target_token t) now (px_grants st) of
             (m, Inl e) \<Rightarrow> no (refuse req None (denied_of_grant e) (st\<lparr>px_grants := m\<rparr>))
           | (m, Inr g) \<Rightarrow>
               let st = st\<lparr>px_grants := m\<rparr>; job = Some (gt_job g) in
               (case check_method (hq_method req) of
                  Inl e \<Rightarrow> no (refuse req job (denied_of_reason e) st)
                | Inr _ \<Rightarrow>
                    (case resolve_target E t of
                       Inl e \<Rightarrow> no (refuse req job (denied_of_reason e) st)
                     | Inr (u, url) \<Rightarrow>
                         if u_name u \<notin> gt_upstreams g then no (refuse req job (denied_of_reason (NotGranted (u_name u))) st)
                         else
                           let (s, obs, a) = forward_loop E net g (hq_method req) (hq_headers req) u url 0 (px_credentials st);
                               st = st\<lparr>px_credentials := s\<rparr>
                           in (case a of
                                 Inl d \<Rightarrow> (let (st, a) = refuse req job d st in (st, obs, a))
                               | Inr (r, record) \<Rightarrow> (st, obs, to_response (en_http E) r record))))))"

definition drop_body :: "nat \<Rightarrow> answer \<Rightarrow> 's proxy_state \<Rightarrow> 's proxy_state" where
  "drop_body polled a st =
     (case a of
        Text _ _ \<Rightarrow> st
      | Streamed _ _ body record \<Rightarrow>
          st\<lparr>px_audit := px_audit st @
            [Fetched (record\<lparr>fe_bytes := sum_list (map (case_sum (\<lambda>_. 0) length) (take polled body))\<rparr>)]\<rparr>)"

text \<open>\<open>PackageProxy::release_job\<close>, over the brokered source.\<close>

definition proxy_release_job :: "job_id \<Rightarrow> (job_table \<times> 'b) proxy_state \<Rightarrow> (job_table \<times> 'b) proxy_state \<times> nat" where
  "proxy_release_job job st =
     (let (m, dropped) = revoke_job job (px_grants st); (js, b) = px_credentials st
      in (st\<lparr>px_grants := m, px_credentials := (release_job job js, b)\<rparr>, dropped))"

section \<open>What leaves the proxy\<close>

text \<open>
  An outbound request under a grant: the job's own method, at an upstream the grant names, with the
  headers of the literal list and, when the upstream is authenticated, one more: what the source holds
  for the grant's tenant and job.
\<close>

definition outbound_ok :: "('u, 's) proxy_env \<Rightarrow> pkg_grant \<Rightarrow> str \<Rightarrow> headers \<Rightarrow> 'u outbound \<Rightarrow> bool" where
  "outbound_ok E g m hs ob \<longleftrightarrow> ob_method ob = m \<and>
     (\<exists>u extra. at_upstream (en_url E) (en_allowlist E) u (ob_url ob) \<and> u_name u \<in> gt_upstreams g \<and>
        ob_headers ob = forwarded_headers hs @ extra \<and>
        (case u_credential u of
           None \<Rightarrow> extra = []
         | Some name \<Rightarrow>
             (\<exists>s s' secret i v.
                en_credential E \<lparr>cr_tenant = gt_tenant g, cr_job = gt_job g, cr_upstream = u_name u, cr_secret = name\<rparr> s = (s', Inr secret) \<and>
                inject (en_credential E) u g s = (s', Inr (Some i)) \<and> header_safe (in_value i) \<and>
                hc_from_bytes (en_http E) (in_value i) = Some v \<and> extra = [(in_header i, v)])))"

lemma build_request_ok:
  assumes "inject (en_credential E) u g s = (s', Inr ij)" and "build_request (en_http E) m url hs ij = Inr ob"
    and "at_upstream (en_url E) (en_allowlist E) u url" and "u_name u \<in> gt_upstreams g"
  shows "outbound_ok E g m hs ob"
proof (cases ij)
  case None
  with assms(1) have "u_credential u = None"
    by (auto simp: inject_def Let_def split: option.splits prod.splits sum.splits if_splits)
  with None assms show ?thesis by (auto simp: outbound_ok_def build_request_def split: if_splits)
next
  case (Some i)
  with assms(2) obtain v where v: "hc_from_bytes (en_http E) (in_value i) = Some v"
    and ob: "ob = \<lparr>ob_method = m, ob_url = url, ob_headers = forwarded_headers hs @ [(in_header i, v)]\<rparr>"
    by (auto simp: build_request_def split: if_splits option.splits)
  from assms(1) Some obtain name secret where "u_credential u = Some name"
    and "en_credential E \<lparr>cr_tenant = gt_tenant g, cr_job = gt_job g, cr_upstream = u_name u, cr_secret = name\<rparr> s = (s', Inr secret)"
    and "header_safe (in_value i)" by (auto elim: inject_Inr)
  with assms Some v ob show ?thesis unfolding outbound_ok_def
    by (intro conjI exI [of _ u] exI [of _ "[(in_header i, v)]"]) auto
qed

lemma next_hop_Inr: "next_hop E g url location = Inr (u, url') \<Longrightarrow>
    at_upstream (en_url E) (en_allowlist E) u url' \<and> u_name u \<in> gt_upstreams g"
  by (auto simp: next_hop_def resolve_absolute_at split: option.splits sum.splits prod.splits if_splits)

text \<open>One turn of the loop: nothing sent, one request and an answer, or one request and a hop.\<close>

lemma forward_loop_turn:
  assumes "inject (en_credential E) u g s = (s1, r1)"
  shows "(\<exists>d. forward_loop E net g m hs u url n s = (s1, [], Inl d)) \<or>
    (\<exists>ij ob a. r1 = Inr ij \<and> build_request (en_http E) m url hs ij = Inr ob \<and> forward_loop E net g m hs u url n s = (s1, [ob], a)) \<or>
    (\<exists>ij ob r location u' url' s2 obs a. r1 = Inr ij \<and> build_request (en_http E) m url hs ij = Inr ob \<and> net n ob = Inr r \<and>
       redirect_target (en_http E) r = Some location \<and> \<not> en_max_redirects E \<le> n \<and> next_hop E g url location = Inr (u', url') \<and>
       forward_loop E net g m hs u' url' (Suc n) s1 = (s2, obs, a) \<and> forward_loop E net g m hs u url n s = (s2, ob # obs, a))"
  using assms
  by (subst (1 2 4) forward_loop.simps)
    (auto split: sum.splits option.splits prod.splits simp: Let_def)

lemma forward_loop_sends:
  assumes "at_upstream (en_url E) (en_allowlist E) u url" and "u_name u \<in> gt_upstreams g" and "n \<le> en_max_redirects E"
  shows "length (fst (snd (forward_loop E net g m hs u url n s))) \<le> Suc (en_max_redirects E - n) \<and>
    list_all (outbound_ok E g m hs) (fst (snd (forward_loop E net g m hs u url n s)))"
  using assms
proof (induction "en_max_redirects E - n" arbitrary: u url n s rule: less_induct)
  case less
  obtain s1 r1 where i: "inject (en_credential E) u g s = (s1, r1)" by force
  from forward_loop_turn [OF i, of net m hs url n] consider
      (none) d where "forward_loop E net g m hs u url n s = (s1, [], Inl d)"
    | (one) ij ob a where "r1 = Inr ij" "build_request (en_http E) m url hs ij = Inr ob"
        "forward_loop E net g m hs u url n s = (s1, [ob], a)"
    | (hop) ij ob location u' url' s2 obs a where "r1 = Inr ij" "build_request (en_http E) m url hs ij = Inr ob"
        "\<not> en_max_redirects E \<le> n" "next_hop E g url location = Inr (u', url')"
        "forward_loop E net g m hs u' url' (Suc n) s1 = (s2, obs, a)" "forward_loop E net g m hs u url n s = (s2, ob # obs, a)"
    by blast
  then show ?case
  proof cases
    case one
    then show ?thesis using build_request_ok [OF i [unfolded one(1)] one(2) less.prems(1,2)] by simp
  next
    case hop
    have "outbound_ok E g m hs ob" by (rule build_request_ok [OF i [unfolded hop(1)] hop(2) less.prems(1,2)])
    then show ?thesis
      using less.hyps [of "Suc n" u' url' s1] next_hop_Inr [OF hop(4)] hop(3,5,6) by (simp add: Suc_diff_Suc)
  qed simp
qed

lemma forwarded: "list_all (\<lambda>(n, v). n \<in> set REQUEST_HEADERS \<and> map_of hs n = Some v) (forwarded_headers hs)"
  by (auto simp: list_all_iff forwarded_headers_def in_set_map_filter)

text \<open>A request that goes out was granted, had an allowed method and named an upstream of the grant.\<close>

lemma resolve_target_at: "resolve_target E t = Inr (u, url) \<Longrightarrow> at_upstream (en_url E) (en_allowlist E) u url"
  by (cases t) (simp_all add: resolve_target_def resolve_at resolve_absolute_at)

lemma handle_sends:
  assumes "handle E net now req st = (st', obs, a)" and "obs \<noteq> []"
  obtains t g u url where "parse_target (en_http E) (hq_uri req) (hq_headers req) = Inr t"
    and "snd (authorise (en_crates E) (target_token t) now (px_grants st)) = Inr g"
    and "hq_method req \<in> set ALLOWED_METHODS" and "resolve_target E t = Inr (u, url)" and "u_name u \<in> gt_upstreams g"
    and "obs = fst (snd (forward_loop E net g (hq_method req) (hq_headers req) u url 0 (px_credentials st)))"
  using assms
  by (auto simp: handle_def Let_def check_method_def split: if_splits sum.splits prod.splits)

section \<open>A concrete proxy\<close>

definition demo_http :: http_crate where
  "demo_http = \<lparr>hc_to_str = Some, hc_from_bytes = Some, hc_is_redirection = (\<lambda>c. 300 \<le> c \<and> c < 400), hc_status_ok = (\<lambda>_. True)\<rparr>"

definition demo_npm :: "(str \<times> str) upstream" where
  "demo_npm = \<lparr>u_name = lit ''npm'', u_base = (lit ''r'', lit ''/''), u_credential = Some (lit ''NPM''), u_auth = Bearer\<rparr>"

definition demo_env :: "(str \<times> str, unit) proxy_env" where
  "demo_env = \<lparr>en_crates = demo_crates, en_url = demo_url, en_http = demo_http,
     en_allowlist = [(lit ''a'', demo_upstream), (lit ''npm'', demo_npm)],
     en_credential = static_credentials [((lit ''acme'', lit ''NPM''), lit ''s3'')], en_max_redirects = MAX_REDIRECTS\<rparr>"

text \<open>The registry moves \<open>x\<close> to \<open>xy\<close>, which it serves.\<close>

definition demo_net :: "(str \<times> str) net" where
  "demo_net n ob =
     (if n = 0 then Inr \<lparr>rp_status = 302, rp_headers = [(lit ''location'', lit ''y'')], rp_length = None, rp_body = []\<rparr>
      else Inr \<lparr>rp_status = 200, rp_headers = [(lit ''set-cookie'', lit ''c''), (lit ''etag'', lit ''e'')], rp_length = Some 9,
        rp_body = [Inr [1, 2], Inl (lit ''reset''), Inr [3]]\<rparr>)"

definition mirror_request :: "str \<Rightarrow> str \<Rightarrow> headers \<Rightarrow> http_request" where
  "mirror_request m p hs =
     \<lparr>hq_method = m, hq_uri = \<lparr>uri_scheme = None, uri_authority = None, uri_path_and_query = Some p, uri_string = p\<rparr>, hq_headers = hs\<rparr>"

definition job_path :: "str \<Rightarrow> str \<Rightarrow> str \<Rightarrow> str" where
  "job_path token label rest = lit ''/j/'' @ token @ lit ''/u/'' @ label @ lit ''/'' @ rest"

definition demo_proxy :: "unit proxy_state" where
  "demo_proxy = \<lparr>px_grants = grants_after demo_crates [mint_of demo_secret demo_grant], px_credentials = (), px_audit = []\<rparr>"

definition demo_fetch_request :: http_request where
  "demo_fetch_request = mirror_request (lit ''GET'') (job_path demo_token (lit ''npm'') (lit ''x''))
     [(lit ''cookie'', lit ''k''), (lit ''accept'', lit ''z'')]"

lemma slash_split: "47 \<notin> set a \<Longrightarrow> split_once 47 (a @ lit ''/'' @ b) = Some (a, b)"
  using split_once_append [of 47 a b] by simp

lemma parse_job_path:
  assumes "47 \<notin> set token" and "47 \<notin> set label"
  shows "parse_target H (hq_uri (mirror_request m (job_path token label rest) hs)) hs = Inr (Mirror token label rest)"
proof -
  have a: "strip_prefix (job_path token label rest) (lit ''/j/'') = Some (token @ lit ''/'' @ lit ''u/'' @ label @ lit ''/'' @ rest)"
    unfolding job_path_def by (subst strip_prefix_append) simp
  show ?thesis
    unfolding parse_target_def
    by (simp add: mirror_request_def path_of_def a slash_split [OF assms(1)] slash_split [OF assms(2)] del: lit_simps)
qed

lemma demo_token_plain: "47 \<notin> set demo_token"
  by code_simp

lemma demo_parsed: "parse_target demo_http (hq_uri demo_fetch_request) (hq_headers demo_fetch_request) =
    Inr (Mirror demo_token (lit ''npm'') (lit ''x''))"
  unfolding demo_fetch_request_def using parse_job_path [OF demo_token_plain, of "lit ''npm''"]
  by (simp add: mirror_request_def)

definition demo_outbound :: "str \<Rightarrow> (str \<times> str) outbound" where
  "demo_outbound p = \<lparr>ob_method = lit ''GET'', ob_url = (lit ''r'', p),
     ob_headers = [(lit ''accept'', lit ''z''), (lit ''authorization'', lit ''Bearer s3'')]\<rparr>"

lemmas url_eval = demo_url_def demo_url_parse_def strip_prefix_def starts_with_def origin_of_def reject_traversal_def
  percent_decode_def utf8_def utf8_char_def bad_view_def slashed_def

lemma demo_bearer: "inject (static_credentials [((lit ''acme'', lit ''NPM''), lit ''s3'')]) demo_npm demo_grant s =
    (s, Inr (Some \<lparr>in_header = lit ''authorization'', in_value = lit ''Bearer s3''\<rparr>))"
  by (simp add: inject_def static_credentials_def demo_npm_def demo_grant_def utf8_def utf8_char_def from_utf8.simps)

lemma demo_resolved:
  "resolve_target demo_env (Mirror demo_token (lit ''npm'') (lit ''x'')) = Inr (demo_npm, (lit ''r'', lit ''/x''))"
  by (simp add: resolve_target_def demo_env_def resolve_label_def demo_npm_def url_eval)

lemma demo_forward:
  "forward_loop demo_env demo_net demo_grant (lit ''GET'') [(lit ''cookie'', lit ''k''), (lit ''accept'', lit ''z'')] demo_npm
     (lit ''r'', lit ''/x'') 0 () =
   ((), [demo_outbound (lit ''/x''), demo_outbound (lit ''/xy'')],
    Inr (\<lparr>rp_status = 200, rp_headers = [(lit ''set-cookie'', lit ''c''), (lit ''etag'', lit ''e'')], rp_length = Some 9,
        rp_body = [Inr [1, 2], Inl (lit ''reset''), Inr [3]]\<rparr>,
      \<lparr>fe_tenant = lit ''acme'', fe_job = lit ''job_1'', fe_upstream = lit ''npm'', fe_url = lit ''https://r/xy'', fe_method = lit ''GET'',
       fe_status = 200, fe_bytes = 9, fe_authenticated = True, fe_redirects = 1\<rparr>))"
proof -
  have b: "build_request demo_http (lit ''GET'') (h, p) [(lit ''cookie'', lit ''k''), (lit ''accept'', lit ''z'')]
      (Some \<lparr>in_header = lit ''authorization'', in_value = lit ''Bearer s3''\<rparr>) =
    Inr \<lparr>ob_method = lit ''GET'', ob_url = (h, p), ob_headers = [(lit ''accept'', lit ''z''), (lit ''authorization'', lit ''Bearer s3'')]\<rparr>" for h p
    by (simp add: build_request_def demo_http_def forwarded_headers_def REQUEST_HEADERS_def List.map_filter_simps)
  have i: "inject (en_credential demo_env) demo_npm demo_grant s =
    (s, Inr (Some \<lparr>in_header = lit ''authorization'', in_value = lit ''Bearer s3''\<rparr>))" for s
    using demo_bearer by (simp add: demo_env_def)
  have e: "en_http demo_env = demo_http" "en_url demo_env = demo_url" "en_max_redirects demo_env = 5"
    by (simp_all add: demo_env_def MAX_REDIRECTS_def)
  have n: "next_hop demo_env demo_grant (lit ''r'', lit ''/x'') (lit ''y'') = Inr (demo_npm, (lit ''r'', lit ''/xy''))"
    by (simp add: next_hop_def demo_env_def resolve_absolute_def demo_npm_def demo_upstream_def demo_grant_def url_eval)
  have r: "redirect_target demo_http \<lparr>rp_status = 302, rp_headers = [(lit ''location'', lit ''y'')], rp_length = l, rp_body = bs\<rparr> = Some (lit ''y'')"
    "redirect_target demo_http \<lparr>rp_status = 200, rp_headers = hs, rp_length = l, rp_body = bs\<rparr> = None" for l bs hs
    by (simp_all add: redirect_target_def demo_http_def)
  have f: "gt_tenant demo_grant = lit ''acme''" "gt_job demo_grant = lit ''job_1''" "u_name demo_npm = lit ''npm''"
    "url_string demo_url (lit ''r'', lit ''/xy'') = lit ''https://r/xy''"
    by (simp_all add: demo_grant_def demo_npm_def demo_url_def)
  have l: "forward_loop demo_env demo_net demo_grant (lit ''GET'') [(lit ''cookie'', lit ''k''), (lit ''accept'', lit ''z'')] demo_npm
     (lit ''r'', lit ''/xy'') (Suc 0) () = ((), [demo_outbound (lit ''/xy'')],
    Inr (\<lparr>rp_status = 200, rp_headers = [(lit ''set-cookie'', lit ''c''), (lit ''etag'', lit ''e'')], rp_length = Some 9,
        rp_body = [Inr [1, 2], Inl (lit ''reset''), Inr [3]]\<rparr>,
      \<lparr>fe_tenant = lit ''acme'', fe_job = lit ''job_1'', fe_upstream = lit ''npm'', fe_url = lit ''https://r/xy'', fe_method = lit ''GET'',
       fe_status = 200, fe_bytes = 9, fe_authenticated = True, fe_redirects = 1\<rparr>))"
    by (subst forward_loop.simps) (simp add: i e b demo_net_def r demo_outbound_def f del: lit_simps)
  show ?thesis
    by (subst forward_loop.simps) (simp add: i e b demo_net_def r n l demo_outbound_def del: lit_simps)
qed

lemma demo_handled:
  "snd (handle demo_env demo_net 500 demo_fetch_request demo_proxy) = ([demo_outbound (lit ''/x''), demo_outbound (lit ''/xy'')],
     Streamed 200 [(lit ''etag'', lit ''e'')] [Inr [1, 2], Inl (lit ''reset''), Inr [3]]
       \<lparr>fe_tenant = lit ''acme'', fe_job = lit ''job_1'', fe_upstream = lit ''npm'', fe_url = lit ''https://r/xy'', fe_method = lit ''GET'',
        fe_status = 200, fe_bytes = 9, fe_authenticated = True, fe_redirects = 1\<rparr>)"
proof -
  have m: "hq_method demo_fetch_request = lit ''GET''" "hq_headers demo_fetch_request = [(lit ''cookie'', lit ''k''), (lit ''accept'', lit ''z'')]"
    by (simp_all add: demo_fetch_request_def mirror_request_def)
  have e: "en_http demo_env = demo_http" "en_crates demo_env = demo_crates" by (simp_all add: demo_env_def)
  have u: "u_name demo_npm \<in> gt_upstreams demo_grant" "lit ''GET'' \<noteq> lit ''CONNECT''" "check_method (lit ''GET'') = Inr ()"
    by (simp_all add: demo_npm_def demo_grant_def check_method_def ALLOWED_METHODS_def)
  have r: "response_headers demo_http [(lit ''set-cookie'', lit ''c''), (lit ''etag'', lit ''e'')] = [(lit ''etag'', lit ''e'')]"
    by (simp add: response_headers_def RESPONSE_HEADERS_def demo_http_def List.map_filter_simps)
  show ?thesis
    unfolding handle_def
    by (simp add: demo_parsed [unfolded m] m e u demo_proxy_def demo_authorised demo_resolved demo_forward to_response_def r Let_def del: lit_simps)
      (simp add: demo_http_def)
qed

section \<open>Properties\<close>

text \<open>C7. The proxy is not a hole in the sandbox. Whatever a request asks and whatever upstreams answer, redirects
  included: if anything is sent, the request carried a token the registry authorised as a grant; at most one
  request goes out per allowed redirect and one more; and each one has the job's own \<open>GET\<close> or \<open>HEAD\<close>, goes to
  an allowlisted upstream of that grant, at its origin and below its base path, and carries only headers of
  the literal list with the job's values, and for an authenticated upstream one more, header-safe: the
  credential the source gave for the grant's own tenant and job. The job's \<open>authorization\<close>, \<open>cookie\<close> and
  \<open>host\<close> headers never go out.
\<close>

theorem proxy_egress_confined:
  assumes "handle E net now req st = (st', obs, a)" and "obs \<noteq> []"
  shows "\<exists>t g. parse_target (en_http E) (hq_uri req) (hq_headers req) = Inr t \<and>
    snd (authorise (en_crates E) (target_token t) now (px_grants st)) = Inr g \<and>
    length obs \<le> Suc (en_max_redirects E) \<and> hq_method req \<in> {lit ''GET'', lit ''HEAD''} \<and>
    list_all (outbound_ok E g (hq_method req) (hq_headers req)) obs \<and>
    list_all (\<lambda>(n, v). n \<in> set REQUEST_HEADERS \<and> map_of (hq_headers req) n = Some v \<and>
      n \<notin> {lit ''authorization'', lit ''proxy-authorization'', lit ''cookie'', lit ''host''}) (forwarded_headers (hq_headers req))"
proof -
  from handle_sends [OF assms] obtain t g u url where h: "parse_target (en_http E) (hq_uri req) (hq_headers req) = Inr t"
    "snd (authorise (en_crates E) (target_token t) now (px_grants st)) = Inr g" "hq_method req \<in> set ALLOWED_METHODS"
    "resolve_target E t = Inr (u, url)" "u_name u \<in> gt_upstreams g"
    "obs = fst (snd (forward_loop E net g (hq_method req) (hq_headers req) u url 0 (px_credentials st)))" .
  have "hq_method req \<in> {lit ''GET'', lit ''HEAD''}" using h(3) by (simp only: ALLOWED_METHODS_def list.set)
  moreover have "set REQUEST_HEADERS \<inter> {lit ''authorization'', lit ''proxy-authorization'', lit ''cookie'', lit ''host''} = {}"
    by (simp add: REQUEST_HEADERS_def)
  then have "list_all (\<lambda>(n, v). n \<in> set REQUEST_HEADERS \<and> map_of (hq_headers req) n = Some v \<and>
      n \<notin> {lit ''authorization'', lit ''proxy-authorization'', lit ''cookie'', lit ''host''}) (forwarded_headers (hq_headers req))"
    using forwarded [of "hq_headers req"] unfolding list_all_iff by blast
  ultimately show ?thesis
    using h(1,2,6) forward_loop_sends [OF resolve_target_at [OF h(4)] h(5), of 0] by auto
qed

theorem proxy_egress_confined_witness:
  "\<exists>t g. parse_target demo_http (hq_uri demo_fetch_request) (hq_headers demo_fetch_request) = Inr t \<and>
    snd (authorise demo_crates (target_token t) 500 (px_grants demo_proxy)) = Inr g \<and> 2 \<le> Suc MAX_REDIRECTS \<and>
    list_all (outbound_ok demo_env g (lit ''GET'') (hq_headers demo_fetch_request))
      [demo_outbound (lit ''/x''), demo_outbound (lit ''/xy'')]"
proof -
  obtain st' where h: "handle demo_env demo_net 500 demo_fetch_request demo_proxy = (st', snd (handle demo_env demo_net 500 demo_fetch_request demo_proxy))"
    by (metis prod.collapse)
  have e: "en_http demo_env = demo_http" "en_crates demo_env = demo_crates" "en_max_redirects demo_env = MAX_REDIRECTS"
    "hq_method demo_fetch_request = lit ''GET''"
    by (simp_all add: demo_env_def demo_fetch_request_def mirror_request_def)
  show ?thesis
    using proxy_egress_confined [OF h [unfolded demo_handled]] unfolding e by (auto simp del: lit_simps simp: e)
qed

text \<open>The URL a job is configured with is read back as it was written: for a base URL, a grant token and a
  label without slashes, the mirror URL of the job's environment is the base followed by a path which,
  with any tail the package manager appends, parses to exactly that token, that label and that tail; and
  the path as it is logged does not depend on the token.
\<close>

theorem job_url_roundtrip:
  assumes "47 \<notin> set token" and "47 \<notin> set label"
  shows "\<exists>p. upstream_url (endpoint_new url token) label @ rest = into_base url @ p \<and>
    parse_target H (hq_uri (mirror_request m p hs)) hs = Inr (Mirror token label rest) \<and>
    redact_path p = lit ''/j/<redacted>/u/'' @ label @ lit ''/'' @ rest"
proof (intro exI [of _ "job_path token label rest"] conjI)
  show "upstream_url (endpoint_new url token) label @ rest = into_base url @ job_path token label rest"
    by (simp add: upstream_url_def endpoint_new_def job_path_def)
  show "parse_target H (hq_uri (mirror_request m (job_path token label rest) hs)) hs = Inr (Mirror token label rest)"
    by (rule parse_job_path [OF assms])
  have "strip_prefix (job_path token label rest) (lit ''/'') = Some (lit ''j'' @ lit ''/'' @ token @ lit ''/'' @ lit ''u/'' @ label @ lit ''/'' @ rest)"
    unfolding strip_prefix_Some by (simp add: job_path_def)
  moreover have "split_once 47 (lit ''j'' @ lit ''/'' @ b) = Some (lit ''j'', b)" for b by (rule slash_split) simp
  ultimately show "redact_path (job_path token label rest) = lit ''/j/<redacted>/u/'' @ label @ lit ''/'' @ rest"
    by (simp add: redact_path_def slash_split [OF assms(1)] del: lit_simps) (simp)
qed

theorem job_url_roundtrip_witness:
  "\<exists>p. upstream_url (endpoint_new (lit ''http://p:3128/'') demo_token) (lit ''npm'') @ lit ''x?a=1'' = into_base (lit ''http://p:3128/'') @ p \<and>
    parse_target demo_http (hq_uri (mirror_request (lit ''GET'') p [])) [] = Inr (Mirror demo_token (lit ''npm'') (lit ''x?a=1'')) \<and>
    redact_path p = lit ''/j/<redacted>/u/'' @ lit ''npm'' @ lit ''/'' @ lit ''x?a=1''"
  by (rule job_url_roundtrip [OF demo_token_plain]) simp

lemma handle_refused:
  assumes "47 \<notin> set token" and "47 \<notin> set label" and "snd (authorise (en_crates E) token now (px_grants st)) = Inr g"
    and "m \<in> set ALLOWED_METHODS" and "resolve_label (en_url E) (en_allowlist E) label rest = Inl e"
  shows "snd (snd (handle E net now (mirror_request m (job_path token label rest) hs) st)) =
    Text (dn_status (denied_of_reason e)) (lit ''hull-ci package proxy: '' @ dn_public (denied_of_reason e) @ [10])"
proof -
  have "m \<noteq> lit ''CONNECT''" using assms(4) by (auto simp: ALLOWED_METHODS_def)
  moreover obtain st1 where "authorise (en_crates E) token now (px_grants st) = (st1, Inr g)"
    using assms(3) by (metis prod.collapse)
  moreover have "parse_target (en_http E) (hq_uri (mirror_request m (job_path token label rest) hs)) hs = Inr (Mirror token label rest)"
    by (rule parse_job_path [OF assms(1,2)])
  moreover have "hq_method (mirror_request m p hs) = m" "hq_headers (mirror_request m p hs) = hs" for p
    by (simp_all add: mirror_request_def)
  ultimately show ?thesis using assms(4,5)
    by (simp add: handle_def check_method_def resolve_target_def refuse_def Let_def del: lit_simps)
qed

lemma handle_not_granted:
  assumes "47 \<notin> set token" and "47 \<notin> set label" and "snd (authorise (en_crates E) token now (px_grants st)) = Inr g"
    and "m \<in> set ALLOWED_METHODS" and "resolve_label (en_url E) (en_allowlist E) label rest = Inr (u, url)"
    and "u_name u \<notin> gt_upstreams g"
  shows "snd (snd (handle E net now (mirror_request m (job_path token label rest) hs) st)) =
    Text 403 (lit ''hull-ci package proxy: '' @ UPSTREAM_UNAVAILABLE @ [10])"
proof -
  have "m \<noteq> lit ''CONNECT''" using assms(4) by (auto simp: ALLOWED_METHODS_def)
  moreover obtain st1 where "authorise (en_crates E) token now (px_grants st) = (st1, Inr g)"
    using assms(3) by (metis prod.collapse)
  moreover have "parse_target (en_http E) (hq_uri (mirror_request m (job_path token label rest) hs)) hs = Inr (Mirror token label rest)"
    by (rule parse_job_path [OF assms(1,2)])
  moreover have "hq_method (mirror_request m p hs) = m" "hq_headers (mirror_request m p hs) = hs" for p
    by (simp_all add: mirror_request_def)
  ultimately show ?thesis using assms(4-6)
    by (simp add: handle_def check_method_def resolve_target_def refuse_def Let_def denied_opaque_def del: lit_simps)
qed

text \<open>C38. The allowlist is hidden from a job only for well-behaved paths. With a live grant, a job asks for the
  same path under two labels: one that no upstream has, and one that exists but that its grant does not
  name. The two answers are the same bytes exactly when the path resolves under the hidden upstream; with
  any path that upstream refuses (a \<open>..\<close> segment, say), the hidden label is answered with the path's own
  refusal and the absent one with the shared text, so the difference tells the job that the label exists.
\<close>

theorem refusal_reveals_label:
  assumes "47 \<notin> set token" and "47 \<notin> set hidden" and "47 \<notin> set absent"
    and "snd (authorise (en_crates E) token now (px_grants st)) = Inr g" and "m \<in> set ALLOWED_METHODS"
    and "map_of (en_allowlist E) hidden = Some u" and "u_name u \<notin> gt_upstreams g"
    and "map_of (en_allowlist E) absent = None"
  shows "snd (snd (handle E net now (mirror_request m (job_path token hidden rest) hs) st)) =
      snd (snd (handle E net now (mirror_request m (job_path token absent rest) hs) st)) \<longleftrightarrow>
    (\<exists>url. resolve_label (en_url E) (en_allowlist E) hidden rest = Inr (u, url))"
proof -
  have absent: "resolve_label (en_url E) (en_allowlist E) absent rest = Inl (UnknownUpstream absent)"
    using assms(8) by (simp add: resolve_label_def)
  note [simp] = handle_refused [OF assms(1,3,4,5) absent] denied_opaque_def denied_new_def
  show ?thesis
  proof (cases "resolve_label (en_url E) (en_allowlist E) hidden rest")
    case (Inl e)
    then have "(\<exists>x. e = PathEscape x) \<or> (\<exists>x. e = OriginEscape x)"
      using assms(6) by (auto simp: resolve_label_def reject_traversal_def split: sum.splits option.splits if_splits)
    then have "dn_public (denied_of_reason e) \<noteq> UPSTREAM_UNAVAILABLE"
      by (auto simp: UPSTREAM_UNAVAILABLE_def)
    with Inl handle_refused [OF assms(1,2,4,5) Inl] show ?thesis by (simp del: lit_simps)
  next
    case (Inr p)
    then obtain url where p: "p = (u, url)"
      using assms(6) by (auto simp: resolve_label_def split: sum.splits option.splits if_splits)
    with Inr handle_not_granted [OF assms(1,2,4,5) _ assms(7), of rest url net hs] show ?thesis by (simp del: lit_simps)
  qed
qed

theorem refusal_reveals_label_witness:
  "snd (snd (handle demo_env demo_net 500 (mirror_request (lit ''GET'') (job_path demo_token (lit ''a'') (lit ''..'')) []) demo_proxy)) \<noteq>
     snd (snd (handle demo_env demo_net 500 (mirror_request (lit ''GET'') (job_path demo_token (lit ''b'') (lit ''..'')) []) demo_proxy)) \<and>
   snd (snd (handle demo_env demo_net 500 (mirror_request (lit ''GET'') (job_path demo_token (lit ''a'') (lit ''x'')) []) demo_proxy)) =
     snd (snd (handle demo_env demo_net 500 (mirror_request (lit ''GET'') (job_path demo_token (lit ''b'') (lit ''x'')) []) demo_proxy))"
proof -
  have a: "47 \<notin> set (lit ''a'')" "47 \<notin> set (lit ''b'')" by simp_all
  have g: "snd (authorise (en_crates demo_env) demo_token 500 (px_grants demo_proxy)) = Inr demo_grant"
    by (simp add: demo_env_def demo_proxy_def demo_authorised)
  have m: "lit ''GET'' \<in> set ALLOWED_METHODS" by (simp add: ALLOWED_METHODS_def)
  have l: "map_of (en_allowlist demo_env) (lit ''a'') = Some demo_upstream" "map_of (en_allowlist demo_env) (lit ''b'') = None"
    by (simp_all add: demo_env_def)
  have u: "u_name demo_upstream \<notin> gt_upstreams demo_grant" by (simp add: demo_upstream_def demo_grant_def)
  have r: "resolve_label (en_url demo_env) (en_allowlist demo_env) (lit ''a'') (lit ''..'') = Inl (PathEscape (lit ''..''))"
    "resolve_label (en_url demo_env) (en_allowlist demo_env) (lit ''a'') (lit ''x'') = Inr (demo_upstream, (lit ''h'', lit ''/p/x''))"
    by (simp_all add: demo_env_def resolve_label_def demo_upstream_def url_eval)
  note reveals = refusal_reveals_label [OF demo_token_plain a g m l(1) u l(2), where net = demo_net and hs = "[]"]
  from reveals [of "lit ''..''"] reveals [of "lit ''x''"] r show ?thesis by (simp del: lit_simps)
qed

end
