(* ===== verification/Ci_Shape.thy ===== *)
theory Ci_Shape
  imports Ci_Text
begin

text \<open>
  The measure taken of a pipeline file before the parser sees it
  (\<open>src/crates/hull-ci-plan/src/shape.rs\<close>), a scan over the bytes. A position is the rest of the
  input with the byte before it. Shown: on source without strings and comments the two counts of nested
  brackets agree; in general the raw count, meant as a backstop, can be far below the other; and a comment
  line between the branches of a ladder hides the ladder from the count of its branches.
\<close>

section \<open>The scan\<close>

record shape =
  sh_code_nesting :: nat
  sh_raw_nesting :: nat
  sh_statement_weight :: nat
  sh_indent_columns :: nat
  sh_block_chain :: nat

fun raw_nesting_loop :: "bytes \<Rightarrow> nat \<Rightarrow> nat \<Rightarrow> nat" where
  "raw_nesting_loop [] depth m = m"
| "raw_nesting_loop (b # bs) depth m =
     (if b \<in> set (lit ''([{'') then raw_nesting_loop bs (Suc depth) (max m (Suc depth))
      else if b \<in> set (lit '')]}'') then raw_nesting_loop bs (depth - 1) m
      else raw_nesting_loop bs depth m)"

definition raw_nesting :: "bytes \<Rightarrow> nat" where
  "raw_nesting bs = raw_nesting_loop bs 0 0"

text \<open>\<open>skip_string\<close> past the opening delimiter: the byte before the position it returns, and the rest.\<close>

fun skip_literal :: "nat \<Rightarrow> bool \<Rightarrow> nat \<Rightarrow> bytes \<Rightarrow> nat \<times> bytes" where
  "skip_literal quote triple p [] = (p, [])"
| "skip_literal quote triple p (c # cs) =
     (if c = 0x5C then (case cs of [] \<Rightarrow> (c, []) | d # ds \<Rightarrow> skip_literal quote triple d ds)
      else if c = 10 \<and> \<not> triple then (p, c # cs)
      else if c = quote then
        (if \<not> triple then (c, cs)
         else if starts_with (c # cs) [quote, quote, quote] then (quote, drop 2 cs)
         else skip_literal quote triple c cs)
      else skip_literal quote triple c cs)"

definition skip_string :: "nat \<Rightarrow> bytes \<Rightarrow> nat \<times> bytes" where
  "skip_string quote xs =
     (if starts_with (quote # xs) [quote, quote, quote] then skip_literal quote True quote (drop 2 xs)
      else skip_literal quote False quote xs)"

record scan_state =
  sc_shape :: shape
  sc_chain_at :: "(nat \<times> nat) list"
  sc_depth :: nat
  sc_weight :: nat
  sc_line_start :: bool
  sc_indent :: nat

definition scan_init :: scan_state where
  "scan_init = \<lparr>sc_shape = \<lparr>sh_code_nesting = 0, sh_raw_nesting = 0, sh_statement_weight = 0, sh_indent_columns = 0, sh_block_chain = 0\<rparr>,
     sc_chain_at = [], sc_depth = 0, sc_weight = 0, sc_line_start = True, sc_indent = 0\<rparr>"

text \<open>The first byte of a line that is not blank settles its indentation and the chain open there.\<close>

definition settle_line :: "bytes \<Rightarrow> scan_state \<Rightarrow> scan_state" where
  "settle_line rest st =
     (let sh = sc_shape st;
          sh = sh\<lparr>sh_indent_columns := max (sh_indent_columns sh) (sc_indent st)\<rparr>;
          n = (case map_of (sc_chain_at st) (sc_indent st) of Some n \<Rightarrow> n | None \<Rightarrow> 0);
          (n, sh) =
            (if starts_with rest (lit ''elif'') then (Suc n, sh\<lparr>sh_block_chain := max (sh_block_chain sh) (Suc n)\<rparr>)
             else if starts_with rest (lit ''if '') \<or> starts_with rest (lit ''if('')
             then (1, sh\<lparr>sh_block_chain := max (sh_block_chain sh) 1\<rparr>)
             else if \<not> starts_with rest (lit ''else'') then (0, sh)
             else (n, sh))
      in st\<lparr>sc_shape := sh, sc_chain_at := AList.update (sc_indent st) n (sc_chain_at st), sc_line_start := False\<rparr>)"

definition weigh :: "scan_state \<Rightarrow> scan_state" where
  "weigh st = st\<lparr>sc_weight := Suc (sc_weight st)\<rparr>"

definition open_bracket :: "scan_state \<Rightarrow> scan_state" where
  "open_bracket st =
     (let d = Suc (sc_depth st); sh = sc_shape st in
      weigh (st\<lparr>sc_depth := d, sc_shape := sh\<lparr>sh_code_nesting := max (sh_code_nesting sh) d\<rparr>\<rparr>))"

definition close_statement :: "scan_state \<Rightarrow> scan_state" where
  "close_statement st =
     (let sh = sc_shape st in
      st\<lparr>sc_shape := sh\<lparr>sh_statement_weight := max (sh_statement_weight sh) (sc_weight st)\<rparr>, sc_weight := 0\<rparr>)"

definition end_line :: "nat \<Rightarrow> nat \<Rightarrow> scan_state \<Rightarrow> scan_state" where
  "end_line p b st =
     (let st = (if sc_depth st = 0 \<and> \<not> (b = 10 \<and> p = 0x5C) then close_statement st else st)
      in if b = 10 then st\<lparr>sc_line_start := True, sc_indent := 0\<rparr> else st)"

definition word_byte :: "nat \<Rightarrow> bool" where
  "word_byte b \<longleftrightarrow> (48 \<le> b \<and> b \<le> 57) \<or> (65 \<le> b \<and> b \<le> 90) \<or> (97 \<le> b \<and> b \<le> 122) \<or> b = of_char CHR ''_'' \<or> b = of_char CHR ''.''"

text \<open>The byte before what is left once a prefix of \<open>b # xs\<close> satisfying \<open>q\<close> is passed, and what is left.\<close>

definition pass_while :: "(nat \<Rightarrow> bool) \<Rightarrow> nat \<Rightarrow> bytes \<Rightarrow> nat \<times> bytes" where
  "pass_while q b xs = (last (b # takeWhile q xs), dropWhile q xs)"

lemma length_skip_literal: "length (snd (skip_literal q t p cs)) \<le> length cs"
proof (induction q t p cs rule: skip_literal.induct)
  case (2 q t p c cs)
  show ?case
  proof (cases "c = 0x5C")
    case True
    with 2(1) show ?thesis by (cases cs) fastforce+
  next
    case False
    with 2(2,3) show ?thesis by auto
  qed
qed simp

lemma length_skip_string: "length (snd (skip_string q xs)) \<le> length xs"
  using le_trans [OF length_skip_literal [of q True q "drop 2 xs"]] length_skip_literal [of q False q xs] by (simp add: skip_string_def)

lemma length_pass_while: "length (snd (pass_while q b xs)) \<le> length xs"
  by (simp add: pass_while_def length_dropWhile_le)

text \<open>The loop at a position: \<open>p\<close> is the byte before it.\<close>

function scan :: "nat \<Rightarrow> bytes \<Rightarrow> scan_state \<Rightarrow> scan_state" where
  "scan p [] st = st"
| "scan p (b # xs) st =
     (if sc_line_start st \<and> (b = 32 \<or> b = 9) then scan b xs (st\<lparr>sc_indent := Suc (sc_indent st)\<rparr>)
      else
        let st = (if sc_line_start st \<and> b \<noteq> 10 then settle_line (b # xs) st else st) in
        if b = of_char CHR ''#'' then (let r = pass_while (\<lambda>c. c \<noteq> 10) b xs in scan (fst r) (snd r) st)
        else if b = of_char CHR 0x22 \<or> b = of_char CHR 0x27 then (let r = skip_string b xs in scan (fst r) (snd r) (weigh st))
        else if b \<in> set (lit ''([{'') then scan b xs (open_bracket st)
        else if b \<in> set (lit '')]}'') then scan b xs (weigh (st\<lparr>sc_depth := sc_depth st - 1\<rparr>))
        else if b = 10 \<or> b = of_char CHR '';'' then scan b xs (end_line p b st)
        else if b = 32 \<or> b = 9 \<or> b = 13 then scan b xs st
        else if word_byte b then (let r = pass_while word_byte b xs in scan (fst r) (snd r) (weigh st))
        else scan b xs (weigh st))"
  by pat_completeness auto
termination
  by (relation "measure (\<lambda>(_, xs, _). length xs)")
    (auto simp: less_Suc_eq_le length_skip_string length_pass_while)

definition scan_shape :: "bytes \<Rightarrow> shape" where
  "scan_shape bs = sc_shape (close_statement (scan 0 bs scan_init))"

definition measure_shape :: "bytes \<Rightarrow> shape" where
  "measure_shape bs = (scan_shape bs)\<lparr>sh_raw_nesting := raw_nesting bs\<rparr>"

section \<open>Where the two counts of brackets agree\<close>

lemma settle_line_simps [simp]:
  "sc_depth (settle_line r st) = sc_depth st" "sc_weight (settle_line r st) = sc_weight st"
  "sh_code_nesting (sc_shape (settle_line r st)) = sh_code_nesting (sc_shape st)"
  "sh_statement_weight (sc_shape (settle_line r st)) = sh_statement_weight (sc_shape st)"
  "\<not> sc_line_start (settle_line r st)"
  by (simp_all add: settle_line_def Let_def case_prod_unfold)

lemma weigh_simps [simp]:
  "sc_depth (weigh st) = sc_depth st" "sc_shape (weigh st) = sc_shape st" "sc_line_start (weigh st) = sc_line_start st"
  by (simp_all add: weigh_def)

lemma end_line_simps [simp]:
  "sc_depth (end_line p b st) = sc_depth st" "sh_code_nesting (sc_shape (end_line p b st)) = sh_code_nesting (sc_shape st)"
  by (simp_all add: end_line_def close_statement_def Let_def)

definition bracket :: "nat \<Rightarrow> bool" where
  "bracket b \<longleftrightarrow> b \<in> set (lit ''([{)]}'')"

lemma raw_nesting_pass: "list_all (\<lambda>b. \<not> bracket b) as \<Longrightarrow> raw_nesting_loop (as @ bs) d m = raw_nesting_loop bs d m"
  by (induction as) (auto simp: bracket_def)

lemma raw_nesting_words: "raw_nesting_loop (dropWhile word_byte xs) d m = raw_nesting_loop xs d m"
proof -
  have "list_all (\<lambda>b. \<not> bracket b) (takeWhile word_byte xs)"
    by (auto simp: list_all_iff bracket_def word_byte_def dest!: set_takeWhileD)
  from raw_nesting_pass [OF this, of "dropWhile word_byte xs"] show ?thesis by simp
qed

lemma scan_code_nesting:
  assumes "list_all (\<lambda>b. b \<notin> {34, 35, 39}) xs"
  shows "sh_code_nesting (sc_shape (scan p xs st)) = raw_nesting_loop xs (sc_depth st) (sh_code_nesting (sc_shape st))"
  using assms
proof (induction "length xs" arbitrary: p xs st rule: less_induct)
  case less
  show ?case
  proof (cases xs)
    case (Cons b ys)
    let ?st = "if sc_line_start st \<and> b \<noteq> 10 then settle_line (b # ys) st else st"
    from less.prems Cons have b: "b \<noteq> 34" "b \<noteq> 35" "b \<noteq> 39" and ys: "list_all (\<lambda>b. b \<notin> {34, 35, 39}) ys" by auto
    have IH: "sh_code_nesting (sc_shape (scan p ys st)) = raw_nesting_loop ys (sc_depth st) (sh_code_nesting (sc_shape st))" for p st
      using less.hyps ys Cons by simp
    have words: "sh_code_nesting (sc_shape (scan p (dropWhile word_byte ys) st)) =
        raw_nesting_loop ys (sc_depth st) (sh_code_nesting (sc_shape st))" for p st
    proof -
      have "list_all (\<lambda>b. b \<notin> {34, 35, 39}) (dropWhile word_byte ys)"
        using ys by (auto simp: list_all_iff dest: set_dropWhileD)
      moreover have "length (dropWhile word_byte ys) < length xs" using Cons length_dropWhile_le [of word_byte ys] by simp
      ultimately show ?thesis using less.hyps raw_nesting_words by simp
    qed
    show ?thesis
      using b unfolding Cons
      by (subst scan.simps) (auto simp: IH words Let_def open_bracket_def pass_while_def bracket_def)
  qed simp
qed

section \<open>Two inputs the measure is blind to\<close>

text \<open>An opening bracket, then a closing one in a string literal: \<open>[')',\<close>, over and over.\<close>

definition masked_bracket :: bytes where
  "masked_bracket = lit ''['' @ [39] @ lit '')'' @ [39] @ lit '',''"

definition masked_brackets :: "nat \<Rightarrow> bytes" where
  "masked_brackets n = concat (replicate n masked_bracket)"

lemma raw_masked: "raw_nesting_loop (masked_bracket @ xs) 0 m = raw_nesting_loop xs 0 (max m 1)"
  by (simp add: masked_bracket_def)

lemma raw_masked_brackets: "raw_nesting_loop (masked_brackets n) 0 m = (if n = 0 then m else max m 1)"
  unfolding masked_brackets_def by (induction n arbitrary: m) (simp_all add: raw_masked)

lemma scan_masked: "\<exists>st'. scan p (masked_bracket @ xs) st = scan 44 xs st' \<and> sc_depth st' = Suc (sc_depth st) \<and>
    sh_code_nesting (sc_shape st') = max (sh_code_nesting (sc_shape st)) (Suc (sc_depth st))"
  by (intro exI [of _ "weigh (weigh (open_bracket (if sc_line_start st then settle_line (masked_bracket @ xs) st else st)))"])
    (simp add: masked_bracket_def skip_string_def starts_with_def open_bracket_def word_byte_def Let_def)

lemma scan_masked_brackets: "sh_code_nesting (sc_shape (scan p (masked_brackets n) st)) =
    max (sh_code_nesting (sc_shape st)) (if n = 0 then 0 else sc_depth st + n)"
proof (induction n arbitrary: p st)
  case 0
  then show ?case by (simp add: masked_brackets_def)
next
  case (Suc n)
  obtain st' where "scan p (masked_brackets (Suc n)) st = scan 44 (masked_brackets n) st'" "sc_depth st' = Suc (sc_depth st)"
    "sh_code_nesting (sc_shape st') = max (sh_code_nesting (sc_shape st)) (Suc (sc_depth st))"
    using scan_masked [of p "masked_brackets n" st] by (auto simp: masked_brackets_def)
  with Suc show ?case by auto
qed

text \<open>A ladder of branches, without and with a comment line before each \<open>elif\<close>.\<close>

definition if_branch :: bytes where "if_branch = lit ''if x:'' @ [10] @ lit '' p'' @ [10]"
definition elif_branch :: bytes where "elif_branch = lit ''elif x:'' @ [10] @ lit '' p'' @ [10]"
definition comment_line :: bytes where "comment_line = lit ''#'' @ [10]"

definition ladder :: "nat \<Rightarrow> bytes" where
  "ladder n = if_branch @ concat (replicate n elif_branch)"

definition commented_ladder :: "nat \<Rightarrow> bytes" where
  "commented_ladder n = if_branch @ concat (replicate n (comment_line @ elif_branch))"

text \<open>Between two lines of a ladder: \<open>k\<close> branches counted at column 0, \<open>m\<close> the longest chain so far.\<close>

definition between :: "nat \<Rightarrow> nat \<Rightarrow> scan_state \<Rightarrow> bool" where
  "between k m st \<longleftrightarrow> sc_line_start st \<and> sc_indent st = 0 \<and> sc_depth st = 0 \<and> sc_weight st = 0 \<and>
     map_of (sc_chain_at st) 0 = Some k \<and> sh_block_chain (sc_shape st) = m \<and> 1 \<le> m \<and>
     sh_code_nesting (sc_shape st) = 0 \<and> sh_statement_weight (sc_shape st) = 3 \<and> sh_indent_columns (sc_shape st) = 1"

lemmas ladder_eval = if_branch_def elif_branch_def comment_line_def pass_while_def word_byte_def settle_line_def starts_with_def
  weigh_def end_line_def close_statement_def Let_def

lemma scan_if_branch: "\<exists>st. scan 0 (if_branch @ xs) scan_init = scan 10 xs st \<and> between 1 1 st"
  by (simp add: ladder_eval scan_init_def) (rule exI, rule conjI, rule refl, simp add: between_def)

lemma scan_elif_branch: "between k m st \<Longrightarrow>
    \<exists>st'. scan 10 (elif_branch @ xs) st = scan 10 xs st' \<and> between (Suc k) (max m (Suc k)) st'"
  by (simp add: ladder_eval between_def) (rule exI, rule conjI, rule refl, simp add: between_def)

lemma scan_comment_line: "between k m st \<Longrightarrow>
    \<exists>st'. scan 10 (comment_line @ xs) st = scan 10 xs st' \<and> between 0 m st'"
  by (simp add: ladder_eval between_def) (rule exI, rule conjI, rule refl, simp add: between_def)

lemma scan_elif_branches: "between k m st \<Longrightarrow> k \<le> m \<Longrightarrow> between (k + n) (max m (k + n)) (scan 10 (concat (replicate n elif_branch)) st)"
proof (induction n arbitrary: k m st)
  case (Suc n)
  from scan_elif_branch [OF Suc.prems(1)] obtain st' where
    "scan 10 (concat (replicate (Suc n) elif_branch)) st = scan 10 (concat (replicate n elif_branch)) st'"
    "between (Suc k) (max m (Suc k)) st'" by auto
  with Suc.IH [of "Suc k" "max m (Suc k)" st'] show ?case by (simp add: max.assoc)
qed simp

lemma scan_commented: "between 1 1 st \<Longrightarrow> between 1 1 (scan 10 (concat (replicate n (comment_line @ elif_branch))) st)"
proof (induction n arbitrary: st)
  case (Suc n)
  let ?rest = "concat (replicate n (comment_line @ elif_branch))"
  from scan_comment_line [OF Suc.prems, of "elif_branch @ ?rest"] obtain st1 where
    st1: "scan 10 (comment_line @ elif_branch @ ?rest) st = scan 10 (elif_branch @ ?rest) st1" "between 0 1 st1" by auto
  from scan_elif_branch [OF st1(2), of ?rest] obtain st2 where
    "scan 10 (elif_branch @ ?rest) st1 = scan 10 ?rest st2" "between 1 1 st2" by auto
  with st1 Suc.IH [of st2] show ?case by simp
qed simp

lemma raw_ladders: "raw_nesting (ladder n) = 0" "raw_nesting (commented_ladder n) = 0"
proof -
  have "list_all (\<lambda>b. \<not> bracket b) (ladder n)" "list_all (\<lambda>b. \<not> bracket b) (commented_ladder n)"
    by (auto simp: list_all_iff ladder_def commented_ladder_def if_branch_def elif_branch_def comment_line_def bracket_def)
  from this [THEN raw_nesting_pass, of "[]" 0 0] show "raw_nesting (ladder n) = 0" "raw_nesting (commented_ladder n) = 0"
    by (simp_all add: raw_nesting_def)
qed

lemma measure_between:
  assumes "between k m (scan 0 bs scan_init)" and "raw_nesting bs = 0"
  shows "measure_shape bs = \<lparr>sh_code_nesting = 0, sh_raw_nesting = 0, sh_statement_weight = 3, sh_indent_columns = 1, sh_block_chain = m\<rparr>"
proof -
  have "shape.more sh = ()" for sh :: shape by simp
  then show ?thesis using assms
    by (cases "sc_shape (scan 0 bs scan_init)") (auto simp: between_def measure_shape_def scan_shape_def close_statement_def Let_def)
qed

lemma measure_ladder: "measure_shape (ladder n) =
    \<lparr>sh_code_nesting = 0, sh_raw_nesting = 0, sh_statement_weight = 3, sh_indent_columns = 1, sh_block_chain = Suc n\<rparr>"
proof -
  from scan_if_branch obtain st where "scan 0 (ladder n) scan_init = scan 10 (concat (replicate n elif_branch)) st" "between 1 1 st"
    unfolding ladder_def by blast
  with scan_elif_branches [of 1 1 st n] have "between (1 + n) (max 1 (1 + n)) (scan 0 (ladder n) scan_init)" by simp
  from measure_between [OF this raw_ladders(1)] show ?thesis by simp
qed

lemma measure_commented_ladder: "measure_shape (commented_ladder n) =
    \<lparr>sh_code_nesting = 0, sh_raw_nesting = 0, sh_statement_weight = 3, sh_indent_columns = 1, sh_block_chain = 1\<rparr>"
proof -
  from scan_if_branch obtain st where
    "scan 0 (commented_ladder n) scan_init = scan 10 (concat (replicate n (comment_line @ elif_branch))) st" "between 1 1 st"
    unfolding commented_ladder_def by blast
  with scan_commented [of st n] have "between 1 1 (scan 0 (commented_ladder n) scan_init)" by simp
  from measure_between [OF this raw_ladders(2)] show ?thesis .
qed

lemma length_ladder: "length (ladder n) = 9 + 11 * n"
  by (simp add: ladder_def if_branch_def elif_branch_def length_concat sum_list_replicate)

lemma length_commented_ladder: "length (commented_ladder n) = 9 + 13 * n"
  by (simp add: commented_ladder_def if_branch_def elif_branch_def comment_line_def length_concat sum_list_replicate)

section \<open>Properties\<close>

text \<open>The backstop is not one. On source without strings and comments the raw count of nested brackets is the
  count of the code's own brackets; but the scan documents the raw count as never the lower of the two, and
  on \<open>n\<close> opening brackets, each followed by a string literal that holds a closing one, it is one where the
  code nests \<open>n\<close> deep.
\<close>

theorem raw_nesting_falls_behind:
  assumes "list_all (\<lambda>b. b \<notin> {34, 35, 39}) bs"
  shows "sh_raw_nesting (measure_shape bs) = sh_code_nesting (measure_shape bs) \<and>
    sh_code_nesting (measure_shape (masked_brackets (Suc n))) = Suc n \<and>
    sh_raw_nesting (measure_shape (masked_brackets (Suc n))) = 1"
  using scan_code_nesting [OF assms, of 0 scan_init]
  by (simp add: measure_shape_def scan_shape_def close_statement_def Let_def raw_nesting_def scan_masked_brackets
    raw_masked_brackets scan_init_def)

theorem raw_nesting_falls_behind_witness:
  "sh_raw_nesting (measure_shape (lit ''f(g(1))'')) = sh_code_nesting (measure_shape (lit ''f(g(1))'')) \<and>
   sh_code_nesting (measure_shape (masked_brackets (Suc 99))) = Suc 99 \<and>
   sh_raw_nesting (measure_shape (masked_brackets (Suc 99))) = 1"
  by (rule raw_nesting_falls_behind) simp

end
