(* ===== verification/Ci_Plan.thy ===== *)
theory Ci_Plan
  imports Ci_Shape Ci_Detect Ci_Graph Ci_Grant
begin

text \<open>
  The pipeline of a repository, \<open>.hull/ci.star\<close> (\<open>src/crates/hull-ci-plan/src/\<close>): the rules for what a
  pipeline may say (\<open>validate.rs\<close>), the pipeline and its depth (\<open>pipeline.rs\<close>), the limits (\<open>lib.rs\<close>) and the
  recorder behind the five builtins with the checks before the parser (\<open>eval.rs\<close>), and the translation of
  a recorded step into the control plane's (\<open>src/crates/hull-ci-server/src/pipeline.rs\<close>). The Starlark
  interpreter is a parameter: the calls a module makes, and how its run ends. Shown: whatever the module
  does, an accepted pipeline is within its limits and its edges point backwards, so that the step graph
  of the control plane never has to break it.
\<close>

section \<open>The pipeline\<close>

datatype trust = Trusted | Untrusted
datatype shard = Auto | Fixed nat
datatype step_kind = Run str | Action str

definition requested_tier :: "trust \<Rightarrow> isolation_tier" where
  "requested_tier t = (case t of Trusted \<Rightarrow> Container | Untrusted \<Rightarrow> MicroVm)"

definition effective_tier :: "trust \<Rightarrow> isolation_tier \<Rightarrow> isolation_tier" where
  "effective_tier t floor_tier =
     (case (floor_tier, requested_tier t) of (Container, Container) \<Rightarrow> Container | _ \<Rightarrow> MicroVm)"

definition trust_as_str :: "trust \<Rightarrow> str" where
  "trust_as_str t = (case t of Trusted \<Rightarrow> lit ''trusted'' | Untrusted \<Rightarrow> lit ''untrusted'')"

record plan_step =
  ps_name :: str
  ps_kind :: step_kind
  ps_inputs :: "str list"
  ps_cache :: "str list"
  ps_secrets :: "str list"
  ps_needs :: "str list"
  ps_shard :: "shard option"
  ps_timeout :: "duration option"
  ps_image :: "str option"
  ps_continue_on_error :: bool

record pipeline =
  pl_image :: "str option"
  pl_trust :: "trust option"
  pl_cache_scope :: "str option"
  pl_steps :: "plan_step list"

definition effective_image :: "plan_step \<Rightarrow> pipeline \<Rightarrow> str option" where
  "effective_image s p = (case ps_image s of Some i \<Rightarrow> Some i | None \<Rightarrow> pl_image p)"

definition pipeline_step :: "pipeline \<Rightarrow> str \<Rightarrow> plan_step option" where
  "pipeline_step p name = find (\<lambda>s. ps_name s = name) (pl_steps p)"

text \<open>\<open>depth\<close>: the depths of the steps so far, by name, and the largest.\<close>

definition depth_pass :: "plan_step \<Rightarrow> (str \<times> nat) list \<times> nat \<Rightarrow> (str \<times> nat) list \<times> nat" where
  "depth_pass s = (\<lambda>(depths, m).
     let d = 1 + foldl max 0 (List.map_filter (map_of depths) (ps_needs s))
     in (depths @ [(ps_name s, d)], max m d))"

definition pipeline_depth :: "pipeline \<Rightarrow> nat" where
  "pipeline_depth p = snd (fold depth_pass (pl_steps p) ([], 0))"

section \<open>Rules\<close>

datatype invalid =
    NameLength nat nat
  | NameCharset str
  | DuplicateName str
  | DanglingNeeds str str
  | NeedsNotAHandle str
  | InvalidTier str
  | InvalidShard str nat
  | InvalidCacheScope nat
  | InvalidImageRef nat
  | UnknownAction str
  | NothingToRun str
  | TimeoutSyntax str
  | TimeoutTooLong str nat
  | ListTooLong str str nat
  | StringTooLong str str nat
  | ControlCharacters str str
  | Redeclared str

definition MAX_NAME_LEN :: nat where "MAX_NAME_LEN = 64"
definition MAX_CACHE_SCOPE_LEN :: nat where "MAX_CACHE_SCOPE_LEN = 64"
definition MAX_IMAGE_REF_LEN :: nat where "MAX_IMAGE_REF_LEN = 512"
definition MAX_SHARD :: nat where "MAX_SHARD = 256"
definition MAX_RUN_LEN :: nat where "MAX_RUN_LEN = 8192"
definition MAX_LIST_ITEM_LEN :: nat where "MAX_LIST_ITEM_LEN = 1024"
definition MAX_LIST_LEN :: nat where "MAX_LIST_LEN = 1024"
definition MAX_TIMEOUT_HOURS :: nat where "MAX_TIMEOUT_HOURS = 24"
definition BUILTIN_ACTIONS :: "str list" where "BUILTIN_ACTIONS = [lit ''hull/secret-scan'']"

definition ascii_alphanumeric :: "nat \<Rightarrow> bool" where
  "ascii_alphanumeric c \<longleftrightarrow> (48 \<le> c \<and> c \<le> 57) \<or> (65 \<le> c \<and> c \<le> 90) \<or> (97 \<le> c \<and> c \<le> 122)"

definition check_step_name :: "str \<Rightarrow> invalid + unit" where
  "check_step_name name =
     (if name = [] \<or> length name > MAX_NAME_LEN then Inl (NameLength (length name) MAX_NAME_LEN)
      else if \<not> list_all (\<lambda>c. ascii_alphanumeric c \<or> c \<in> set (lit ''_-/'')) name then Inl (NameCharset name)
      else Inr ())"

definition check_cache_scope :: "str \<Rightarrow> invalid + unit" where
  "check_cache_scope name =
     (if name = [] \<or> length name > MAX_CACHE_SCOPE_LEN then Inl (InvalidCacheScope MAX_CACHE_SCOPE_LEN)
      else if \<not> list_all (\<lambda>c. ascii_alphanumeric c \<or> c \<in> set (lit ''_-'')) name then Inl (InvalidCacheScope MAX_CACHE_SCOPE_LEN)
      else Inr ())"

definition check_image_ref :: "str \<Rightarrow> invalid + unit" where
  "check_image_ref ref =
     (if ref = [] \<or> length ref > MAX_IMAGE_REF_LEN \<or> list_ex is_control ref then Inl (InvalidImageRef MAX_IMAGE_REF_LEN) else Inr ())"

definition check_action :: "str \<Rightarrow> str list \<Rightarrow> invalid + unit" where
  "check_action uses registry = (if uses \<in> set registry then Inr () else Inl (UnknownAction uses))"

text \<open>\<open>str::parse::<u64>\<close>: an optional plus sign, at least one digit, no overflow.\<close>

definition parse_u64 :: "str \<Rightarrow> nat option" where
  "parse_u64 s =
     (let ds = (if starts_with s (lit ''+'') then tl s else s);
          v = foldl (\<lambda>v c. v * 10 + (c - 48)) 0 ds
      in if ds \<noteq> [] \<and> list_all (\<lambda>c. 48 \<le> c \<and> c \<le> 57) ds \<and> v \<le> U64_MAX then Some v else None)"

definition unit_secs :: "nat \<Rightarrow> nat option" where
  "unit_secs u =
     (if u = of_char CHR ''s'' then Some 1
      else if u = of_char CHR ''m'' then Some 60
      else if u = of_char CHR ''h'' then Some 3600
      else None)"

definition parse_timeout :: "str \<Rightarrow> invalid + nat" where
  "parse_timeout raw =
     (if raw = [] then Inl (TimeoutSyntax raw)
      else case parse_u64 (butlast raw) of
        None \<Rightarrow> Inl (TimeoutSyntax raw)
      | Some n \<Rightarrow>
          if n = 0 then Inl (TimeoutSyntax raw)
          else case unit_secs (last raw) of
            None \<Rightarrow> Inl (TimeoutSyntax raw)
          | Some k \<Rightarrow>
              if n * k > U64_MAX then Inl (TimeoutSyntax raw)
              else if n * k > MAX_TIMEOUT_HOURS * 3600 then Inl (TimeoutTooLong raw MAX_TIMEOUT_HOURS)
              else Inr (n * k))"

definition check_list_item :: "str \<Rightarrow> str \<Rightarrow> str \<Rightarrow> invalid + unit" where
  "check_list_item fld step item =
     (if length item > MAX_LIST_ITEM_LEN then Inl (StringTooLong fld step MAX_LIST_ITEM_LEN)
      else if list_ex is_control item then Inl (ControlCharacters fld step)
      else Inr ())"

definition check_run :: "str \<Rightarrow> str \<Rightarrow> invalid + unit" where
  "check_run step script =
     (if length script > MAX_RUN_LEN then Inl (StringTooLong (lit ''run'') step MAX_RUN_LEN)
      else if list_ex (\<lambda>c. is_control c \<and> c \<noteq> 10 \<and> c \<noteq> 9) script then Inl (ControlCharacters (lit ''run'') step)
      else Inr ())"

section \<open>Limits and errors\<close>

record limits =
  lm_max_steps :: nat
  lm_max_depth :: nat
  lm_max_source_bytes :: nat
  lm_max_nesting :: nat
  lm_max_raw_nesting :: nat
  lm_max_statement_weight :: nat
  lm_max_indent_columns :: nat
  lm_max_block_chain :: nat
  lm_stack_bytes :: nat
  lm_max_callstack :: nat
  lm_max_ticks :: nat
  lm_max_heap_bytes :: nat
  lm_eval_timeout_ms :: nat

definition limits_default :: limits where
  "limits_default = \<lparr>lm_max_steps = 1000, lm_max_depth = 64, lm_max_source_bytes = 32768, lm_max_nesting = 32,
     lm_max_raw_nesting = 512, lm_max_statement_weight = 1024, lm_max_indent_columns = 256, lm_max_block_chain = 256,
     lm_stack_bytes = 134217728, lm_max_callstack = 64, lm_max_ticks = 10000000, lm_max_heap_bytes = 67108864,
     lm_eval_timeout_ms = 15000\<rparr>"

definition clamped :: "limits \<Rightarrow> limits" where
  "clamped L = \<lparr>lm_max_steps = max (lm_max_steps L) 1, lm_max_depth = max (lm_max_depth L) 1,
     lm_max_source_bytes = max (lm_max_source_bytes L) 1, lm_max_nesting = max (lm_max_nesting L) 1,
     lm_max_raw_nesting = max (lm_max_raw_nesting L) (max (lm_max_nesting L) 1),
     lm_max_statement_weight = max (lm_max_statement_weight L) 1, lm_max_indent_columns = max (lm_max_indent_columns L) 1,
     lm_max_block_chain = max (lm_max_block_chain L) 1, lm_stack_bytes = max (lm_stack_bytes L) 16777216,
     lm_max_callstack = max (lm_max_callstack L) 1, lm_max_ticks = max (lm_max_ticks L) 1,
     lm_max_heap_bytes = max (lm_max_heap_bytes L) 1, lm_eval_timeout_ms = max (lm_eval_timeout_ms L) 1\<rparr>"

datatype bound =
    BSteps nat
  | BDepth nat
  | BSourceBytes nat
  | BNesting nat
  | BStatementSize nat
  | BIndent nat
  | BBlockChain nat
  | BWork nat
  | BMemory nat
  | BCallStack nat
  | BTime nat

datatype plan_error_kind = Language str | Invalid invalid | Exhausted bound | Internal

record pipeline_error =
  pe_line :: "nat option"
  pe_kind :: plan_error_kind

section \<open>The recorder\<close>

record recorder =
  rc_limits :: limits
  rc_actions :: "str list"
  rc_image :: "str option"
  rc_trust :: "trust option"
  rc_cache_scope :: "str option"
  rc_steps :: "plan_step list"
  rc_depths :: "nat list"
  rc_index :: "(str \<times> nat) list"
  rc_failure :: "plan_error_kind option"

definition recorder_new :: "limits \<Rightarrow> str list \<Rightarrow> recorder" where
  "recorder_new L actions = \<lparr>rc_limits = L, rc_actions = actions, rc_image = None, rc_trust = None, rc_cache_scope = None,
     rc_steps = [], rc_depths = [], rc_index = [], rc_failure = None\<rparr>"

definition into_pipeline :: "recorder \<Rightarrow> pipeline" where
  "into_pipeline r = \<lparr>pl_image = rc_image r, pl_trust = rc_trust r, pl_cache_scope = rc_cache_scope r, pl_steps = rc_steps r\<rparr>"

definition truncate_str :: "str \<Rightarrow> str" where
  "truncate_str s = take 32 s @ (if length (take 32 s) < length s then [0x2026] else [])"

definition set_image :: "str \<Rightarrow> recorder \<Rightarrow> plan_error_kind + recorder" where
  "set_image ref r =
     (if rc_image r \<noteq> None then Inl (Invalid (Redeclared (lit ''image'')))
      else case check_image_ref ref of Inl e \<Rightarrow> Inl (Invalid e) | Inr _ \<Rightarrow> Inr (r\<lparr>rc_image := Some ref\<rparr>))"

definition set_trust :: "str \<Rightarrow> recorder \<Rightarrow> plan_error_kind + recorder" where
  "set_trust tier r =
     (if rc_trust r \<noteq> None then Inl (Invalid (Redeclared (lit ''trust'')))
      else if tier = lit ''trusted'' then Inr (r\<lparr>rc_trust := Some Trusted\<rparr>)
      else if tier = lit ''untrusted'' then Inr (r\<lparr>rc_trust := Some Untrusted\<rparr>)
      else Inl (Invalid (InvalidTier (truncate_str tier))))"

definition set_cache_scope :: "str \<Rightarrow> recorder \<Rightarrow> plan_error_kind + recorder" where
  "set_cache_scope name r =
     (if rc_cache_scope r \<noteq> None then Inl (Invalid (Redeclared (lit ''cache_scope'')))
      else case check_cache_scope name of Inl e \<Rightarrow> Inl (Invalid e) | Inr _ \<Rightarrow> Inr (r\<lparr>rc_cache_scope := Some name\<rparr>))"

fun check_items :: "str \<Rightarrow> str \<Rightarrow> str list \<Rightarrow> invalid + unit" where
  "check_items fld step [] = Inr ()"
| "check_items fld step (i # is) = (case check_list_item fld step i of Inl e \<Rightarrow> Inl e | Inr _ \<Rightarrow> check_items fld step is)"

fun check_fields :: "str \<Rightarrow> (str \<times> str list) list \<Rightarrow> invalid + unit" where
  "check_fields step [] = Inr ()"
| "check_fields step ((fld, xs) # fs) =
     (if length xs > MAX_LIST_LEN then Inl (ListTooLong fld step MAX_LIST_LEN)
      else case check_items fld step xs of Inl e \<Rightarrow> Inl e | Inr _ \<Rightarrow> check_fields step fs)"

fun needs_depth :: "str \<Rightarrow> (str \<times> nat) list \<Rightarrow> nat list \<Rightarrow> str list \<Rightarrow> nat \<Rightarrow> invalid + nat" where
  "needs_depth name index depths [] d = Inr d"
| "needs_depth name index depths (n # ns) d =
     (case map_of index n of
        None \<Rightarrow> Inl (DanglingNeeds name (truncate_str n))
      | Some i \<Rightarrow> needs_depth name index depths ns (max d (depths ! i + 1)))"

definition check_kind :: "recorder \<Rightarrow> plan_step \<Rightarrow> invalid + unit" where
  "check_kind r s = (case ps_kind s of Run script \<Rightarrow> check_run (ps_name s) script | Action uses \<Rightarrow> check_action uses (rc_actions r))"

definition check_step_image :: "plan_step \<Rightarrow> invalid + unit" where
  "check_step_image s = (case ps_image s of None \<Rightarrow> Inr () | Some ref \<Rightarrow> check_image_ref ref)"

definition push_step :: "plan_step \<Rightarrow> recorder \<Rightarrow> plan_error_kind + recorder \<times> str" where
  "push_step s r =
     (case check_step_name (ps_name s) of
        Inl e \<Rightarrow> Inl (Invalid e)
      | Inr _ \<Rightarrow>
          if map_of (rc_index r) (ps_name s) \<noteq> None then Inl (Invalid (DuplicateName (ps_name s)))
          else if length (rc_steps r) \<ge> lm_max_steps (rc_limits r) then Inl (Exhausted (BSteps (lm_max_steps (rc_limits r))))
          else case check_kind r s of
            Inl e \<Rightarrow> Inl (Invalid e)
          | Inr _ \<Rightarrow>
              (case check_fields (ps_name s) [(lit ''inputs'', ps_inputs s), (lit ''cache'', ps_cache s),
                      (lit ''secrets'', ps_secrets s), (lit ''needs'', ps_needs s)] of
                 Inl e \<Rightarrow> Inl (Invalid e)
               | Inr _ \<Rightarrow>
                   (case check_step_image s of
                      Inl e \<Rightarrow> Inl (Invalid e)
                    | Inr _ \<Rightarrow>
                        (case needs_depth (ps_name s) (rc_index r) (rc_depths r) (ps_needs s) 1 of
                           Inl e \<Rightarrow> Inl (Invalid e)
                         | Inr d \<Rightarrow>
                             if d > lm_max_depth (rc_limits r) then Inl (Exhausted (BDepth (lm_max_depth (rc_limits r))))
                             else Inr (r\<lparr>rc_index := AList.update (ps_name s) (length (rc_steps r)) (rc_index r),
                                        rc_depths := rc_depths r @ [d], rc_steps := rc_steps r @ [s]\<rparr>, ps_name s)))))"

section \<open>The builtins\<close>

text \<open>A \<open>shard\<close> value as Starlark unpacks it, with its representation for the message.\<close>

datatype shard_value = ShardStr str | ShardBool | ShardInt int | ShardOther

definition unpack_shard :: "shard_value \<times> str \<Rightarrow> invalid + shard" where
  "unpack_shard = (\<lambda>(v, repr).
     let bad = Inl (InvalidShard (truncate_str repr) MAX_SHARD) in
     case v of
       ShardStr s \<Rightarrow> if s = lit ''auto'' then Inr Auto else bad
     | ShardBool \<Rightarrow> bad
     | ShardInt n \<Rightarrow> if 1 \<le> n \<and> n \<le> int MAX_SHARD then Inr (Fixed (nat n)) else bad
     | ShardOther \<Rightarrow> bad)"

record step_args =
  ba_inputs :: "str list"
  ba_cache :: "str list"
  ba_secrets :: "str list"
  ba_needs :: "str list"
  ba_shard :: "(shard_value \<times> str) option"
  ba_timeout :: "str option"
  ba_image :: "str option"
  ba_continue_on_error :: bool

datatype builtin =
    BImage str
  | BTrust str
  | BCacheScope str
  | BStep str "str option" step_args
  | BAction str str "str list" "str option" bool

definition build_step :: "str \<Rightarrow> step_kind \<Rightarrow> step_args \<Rightarrow> plan_error_kind + plan_step" where
  "build_step name kind a =
     (case (case ba_shard a of None \<Rightarrow> Inr None | Some v \<Rightarrow> (case unpack_shard v of Inl e \<Rightarrow> Inl e | Inr s \<Rightarrow> Inr (Some s))) of
        Inl e \<Rightarrow> Inl (Invalid e)
      | Inr shard \<Rightarrow>
          (case (case ba_timeout a of None \<Rightarrow> Inr None | Some raw \<Rightarrow> (case parse_timeout raw of Inl e \<Rightarrow> Inl e | Inr t \<Rightarrow> Inr (Some (secs t)))) of
             Inl e \<Rightarrow> Inl (Invalid e)
           | Inr timeout \<Rightarrow>
               Inr \<lparr>ps_name = name, ps_kind = kind, ps_inputs = ba_inputs a, ps_cache = ba_cache a, ps_secrets = ba_secrets a,
                    ps_needs = ba_needs a, ps_shard = shard, ps_timeout = timeout, ps_image = ba_image a,
                    ps_continue_on_error = ba_continue_on_error a\<rparr>))"

definition do_step :: "str \<Rightarrow> step_kind \<Rightarrow> step_args \<Rightarrow> recorder \<Rightarrow> plan_error_kind + recorder" where
  "do_step name kind a r =
     (case build_step name kind a of
        Inl e \<Rightarrow> Inl e
      | Inr s \<Rightarrow> (case push_step s r of Inl e \<Rightarrow> Inl e | Inr (r, _) \<Rightarrow> Inr r))"

fun do_builtin :: "builtin \<Rightarrow> recorder \<Rightarrow> plan_error_kind + recorder" where
  "do_builtin (BImage ref) r = set_image ref r"
| "do_builtin (BTrust tier) r = set_trust tier r"
| "do_builtin (BCacheScope name) r = set_cache_scope name r"
| "do_builtin (BStep name script a) r =
     (case script of
        None \<Rightarrow> Inl (Invalid (NothingToRun (truncate_str name)))
      | Some sc \<Rightarrow> do_step name (Run sc) a r)"
| "do_builtin (BAction name uses needs timeout cont) r =
     do_step name (Action uses)
       \<lparr>ba_inputs = [], ba_cache = [], ba_secrets = [], ba_needs = needs, ba_shard = None, ba_timeout = timeout,
        ba_image = None, ba_continue_on_error = cont\<rparr> r"

text \<open>\<open>fail\<close> keeps the first failure; the error it returns unwinds the evaluation.\<close>

fun record_calls :: "builtin list \<Rightarrow> recorder \<Rightarrow> recorder" where
  "record_calls [] r = r"
| "record_calls (c # cs) r =
     (case do_builtin c r of
        Inl e \<Rightarrow> r\<lparr>rc_failure := Some (case rc_failure r of Some k \<Rightarrow> k | None \<Rightarrow> e)\<rparr>
      | Inr r \<Rightarrow> record_calls cs r)"

section \<open>The evaluation\<close>

record run_error =
  re_line :: "nat option"
  re_stack_overflow :: bool
  re_heap_used :: nat
  re_ticks :: nat
  re_text :: str

record run_trace =
  rt_calls :: "builtin list"
  rt_error :: "run_error option"

text \<open>
  The interpreter: whether its thread starts, a parse error's text or a module, and what a module does
  under the limits, \<open>None\<close> for a panic.
\<close>

record 'm starlark =
  sk_thread :: bool
  sk_parse :: "str \<Rightarrow> str + 'm"
  sk_run :: "limits \<Rightarrow> 'm \<Rightarrow> run_trace option"

fun message_tokens :: "str list \<Rightarrow> str \<Rightarrow> str" where
  "message_tokens [] out = out"
| "message_tokens (t # ts) out =
     (let t = (if starts_with t (lit ''/'') \<or> contains_str t [of_char CHR '':'', 0x5C] then lit ''<path>'' else t);
          out = (if out \<noteq> [] then out @ lit '' '' else out) @ t
      in if length out \<ge> 300 then out else message_tokens ts out)"

definition sanitize_message :: "str \<Rightarrow> str" where
  "sanitize_message raw = trim (take 300 (filter (\<lambda>c. \<not> is_control c) (message_tokens (split_whitespace raw) [])))"

definition preflight :: "limits \<Rightarrow> bytes \<Rightarrow> bound + unit" where
  "preflight L src =
     (if length src > lm_max_source_bytes L then Inl (BSourceBytes (lm_max_source_bytes L))
      else let sh = measure_shape src in
        if sh_code_nesting sh > lm_max_nesting L \<or> sh_raw_nesting sh > lm_max_raw_nesting L then Inl (BNesting (lm_max_nesting L))
        else if sh_statement_weight sh > lm_max_statement_weight L then Inl (BStatementSize (lm_max_statement_weight L))
        else if sh_block_chain sh > lm_max_block_chain L then Inl (BBlockChain (lm_max_block_chain L))
        else if sh_indent_columns sh > lm_max_indent_columns L then Inl (BIndent (lm_max_indent_columns L))
        else Inr ())"

definition classify :: "limits \<Rightarrow> recorder \<Rightarrow> run_error \<Rightarrow> pipeline_error" where
  "classify L r e =
     \<lparr>pe_line = map_option Suc (re_line e),
      pe_kind =
        (case rc_failure r of
           Some k \<Rightarrow> k
         | None \<Rightarrow>
             if re_stack_overflow e then Exhausted (BCallStack (lm_max_callstack L))
             else if re_heap_used e > lm_max_heap_bytes L then Exhausted (BMemory (lm_max_heap_bytes L))
             else if re_ticks e > lm_max_ticks L then Exhausted (BWork (lm_max_ticks L))
             else Language (sanitize_message (re_text e)))\<rparr>"

definition plan_error_new :: "plan_error_kind \<Rightarrow> pipeline_error" where
  "plan_error_new k = \<lparr>pe_line = None, pe_kind = k\<rparr>"

definition evaluate_on_this_stack :: "'m starlark \<Rightarrow> limits \<Rightarrow> str list \<Rightarrow> str \<Rightarrow> pipeline_error + pipeline" where
  "evaluate_on_this_stack S L actions src =
     (case preflight L (utf8 src) of
        Inl b \<Rightarrow> Inl (plan_error_new (Exhausted b))
      | Inr _ \<Rightarrow>
          (case sk_parse S src of
             Inl msg \<Rightarrow> Inl (plan_error_new (Language (sanitize_message msg)))
           | Inr m \<Rightarrow>
               (case sk_run S L m of
                  None \<Rightarrow> Inl (plan_error_new Internal)
                | Some t \<Rightarrow>
                    let r = record_calls (rt_calls t) (recorder_new L actions)
                    in case rt_error t of
                         Some e \<Rightarrow> Inl (classify L r e)
                       | None \<Rightarrow> Inr (into_pipeline r))))"

definition evaluate_in_process :: "'m starlark \<Rightarrow> limits \<Rightarrow> str list \<Rightarrow> str \<Rightarrow> pipeline_error + pipeline" where
  "evaluate_in_process S L actions src =
     (if sk_thread S then evaluate_on_this_stack S L actions src else Inl (plan_error_new Internal))"

section \<open>The control plane's steps\<close>

definition to_step_spec :: "pipeline \<Rightarrow> str \<Rightarrow> plan_step \<Rightarrow> step_spec" where
  "to_step_spec p default_image s =
     (let argv = (case ps_kind s of
            Run script \<Rightarrow> [lit ''/bin/sh'', lit ''-c'', script]
          | Action i \<Rightarrow> [lit ''/bin/false'', i])
      in (step_spec_new (ps_name s) argv (case effective_image s p of Some i \<Rightarrow> i | None \<Rightarrow> default_image))
         \<lparr>sp_needs := ps_needs s, sp_secrets := ps_secrets s, sp_inputs := ps_inputs s, sp_timeout := ps_timeout s,
          sp_continue_on_error := ps_continue_on_error s\<rparr>)"


section \<open>What the recorder keeps\<close>

definition step_valid :: "str list \<Rightarrow> plan_step \<Rightarrow> bool" where
  "step_valid actions s \<longleftrightarrow> check_step_name (ps_name s) = Inr () \<and>
     (case ps_kind s of Run script \<Rightarrow> check_run (ps_name s) script = Inr () | Action uses \<Rightarrow> uses \<in> set actions)"

text \<open>Steps by name and needs: the edges of each name steps before it.\<close>

fun backward :: "str list \<Rightarrow> (str \<times> str list) list \<Rightarrow> bool" where
  "backward seen [] \<longleftrightarrow> True"
| "backward seen ((name, needs) # ss) \<longleftrightarrow> list_all (\<lambda>n. n \<in> set seen) needs \<and> backward (seen @ [name]) ss"

definition plan_edges :: "plan_step \<Rightarrow> str \<times> str list" where
  "plan_edges s = (ps_name s, ps_needs s)"

lemma backward_append: "backward seen (xs @ ys) \<longleftrightarrow> backward seen xs \<and> backward (seen @ map fst xs) ys"
  by (induction seen xs rule: backward.induct) auto

definition rec_ok :: "recorder \<Rightarrow> bool" where
  "rec_ok r \<longleftrightarrow>
     rc_index r = zip (map ps_name (rc_steps r)) [0..<length (rc_steps r)] \<and> distinct (map ps_name (rc_steps r)) \<and>
     length (rc_depths r) = length (rc_steps r) \<and>
     fold depth_pass (rc_steps r) ([], 0) = (zip (map ps_name (rc_steps r)) (rc_depths r), foldl max 0 (rc_depths r)) \<and>
     list_all (\<lambda>d. d \<le> lm_max_depth (rc_limits r)) (rc_depths r) \<and> length (rc_steps r) \<le> lm_max_steps (rc_limits r) \<and>
     backward [] (map plan_edges (rc_steps r)) \<and> list_all (step_valid (rc_actions r)) (rc_steps r)"

lemma rec_ok_new: "rec_ok (recorder_new L actions)"
  by (simp add: rec_ok_def recorder_new_def)

lemma update_fresh: "map_of al k = None \<Longrightarrow> AList.update k v al = al @ [(k, v)]"
  by (induction al) (auto split: if_splits)

lemma foldl_max_suc: "foldl max (Suc d) (map Suc xs) = Suc (foldl max d (xs :: nat list))"
  by (induction xs arbitrary: d) simp_all

lemma foldl_max_le: "(d :: nat) \<le> m \<Longrightarrow> list_all (\<lambda>x. x \<le> m) xs \<Longrightarrow> foldl max d xs \<le> m"
  by (induction xs arbitrary: d) auto

lemma map_of_zip_index:
  assumes "length ds = length ns"
  shows "map_of (zip ns ds) k = map_option ((!) ds) (map_of (zip ns [0..<length ns]) k)"
proof -
  have "zip ns ds = zip ns (map ((!) ds) [0..<length ns])" using map_nth [of ds] assms by simp
  also have "\<dots> = map (\<lambda>(k, i). (k, ds ! i)) (zip ns [0..<length ns])" by (rule zip_map2)
  finally have "zip ns ds = map (\<lambda>(k, i). (k, ds ! i)) (zip ns [0..<length ns])" .
  then show ?thesis by (simp add: map_of_map)
qed

lemma needs_depth_ok:
  assumes "needs_depth name (zip ns [0..<length ns]) ds needs d = Inr e" and "length ds = length ns"
  shows "list_all (\<lambda>n. n \<in> set ns) needs \<and> e = foldl max d (map Suc (List.map_filter (map_of (zip ns ds)) needs))"
  using assms(1)
proof (induction needs arbitrary: d)
  case (Cons n needs)
  then obtain i where i: "map_of (zip ns [0..<length ns]) n = Some i"
    "needs_depth name (zip ns [0..<length ns]) ds needs (max d (ds ! i + 1)) = Inr e" by (auto split: option.splits)
  from map_of_SomeD [OF i(1)] have "n \<in> set ns" by (auto dest: set_zip_leftD)
  with Cons.IH [OF i(2)] i(1) map_of_zip_index [OF assms(2), of n] show ?case by (simp add: map_filter_simps)
qed (simp add: map_filter_simps)

lemma set_calls_ok:
  "set_image ref r = Inr r' \<Longrightarrow> rec_ok r \<Longrightarrow> rec_ok r'" "set_trust tier r = Inr r' \<Longrightarrow> rec_ok r \<Longrightarrow> rec_ok r'"
  "set_cache_scope name r = Inr r' \<Longrightarrow> rec_ok r \<Longrightarrow> rec_ok r'"
  by (auto simp: set_image_def set_trust_def set_cache_scope_def rec_ok_def split: if_splits sum.splits)

lemma push_step_ok:
  assumes push: "push_step s r = Inr (r', h)" and ok: "rec_ok r"
  shows "rec_ok r'"
proof -
  let ?ns = "map ps_name (rc_steps r)" and ?L = "rc_limits r"
  from push obtain d where
    name: "check_step_name (ps_name s) = Inr ()" and new: "map_of (rc_index r) (ps_name s) = None" and
    room: "length (rc_steps r) < lm_max_steps ?L" and kind: "check_kind r s = Inr ()" and
    d: "needs_depth (ps_name s) (rc_index r) (rc_depths r) (ps_needs s) 1 = Inr d" and deep: "d \<le> lm_max_depth ?L" and
    r': "r' = r\<lparr>rc_index := AList.update (ps_name s) (length (rc_steps r)) (rc_index r),
       rc_depths := rc_depths r @ [d], rc_steps := rc_steps r @ [s]\<rparr>"
    unfolding push_step_def by (auto split: sum.splits if_splits)
  from ok have index: "rc_index r = zip ?ns [0..<length ?ns]" and len: "length (rc_depths r) = length ?ns" by (auto simp: rec_ok_def)
  from needs_depth_ok [OF d [unfolded index] len] have
    behind: "list_all (\<lambda>n. n \<in> set ?ns) (ps_needs s)" and
    depth: "d = 1 + foldl max 0 (List.map_filter (map_of (zip ?ns (rc_depths r))) (ps_needs s))" by (auto simp: foldl_max_suc)
  have fresh: "ps_name s \<notin> set ?ns"
    using new unfolding index by (simp add: map_of_zip_is_None)
  have "step_valid (rc_actions r) s"
    using name kind by (auto simp: step_valid_def check_kind_def check_action_def split: step_kind.splits if_splits)
  with ok index len behind fresh room deep show ?thesis
    unfolding r' by (simp add: rec_ok_def update_fresh [OF new [unfolded index], simplified] backward_append plan_edges_def comp_def depth_pass_def [of s] Let_def depth)
qed

lemma set_calls_const:
  "set_image ref r = Inr r' \<Longrightarrow> rc_limits r' = rc_limits r \<and> rc_actions r' = rc_actions r"
  "set_trust tier r = Inr r' \<Longrightarrow> rc_limits r' = rc_limits r \<and> rc_actions r' = rc_actions r"
  "set_cache_scope name r = Inr r' \<Longrightarrow> rc_limits r' = rc_limits r \<and> rc_actions r' = rc_actions r"
  "push_step s r = Inr (r', h) \<Longrightarrow> rc_limits r' = rc_limits r \<and> rc_actions r' = rc_actions r"
  by (auto simp: set_image_def set_trust_def set_cache_scope_def push_step_def split: if_splits sum.splits)

lemma do_step_pushes: "do_step name kind a r = Inr r' \<Longrightarrow> \<exists>s h. push_step s r = Inr (r', h)"
  by (auto simp: do_step_def split: sum.splits)

lemma do_builtin_cases:
  assumes "do_builtin c r = Inr r'"
  shows "(\<exists>ref. set_image ref r = Inr r') \<or> (\<exists>tier. set_trust tier r = Inr r') \<or> (\<exists>name. set_cache_scope name r = Inr r') \<or>
    (\<exists>s h. push_step s r = Inr (r', h))"
  using assms do_step_pushes by (cases c) (fastforce split: option.splits)+

lemma do_builtin_ok: "do_builtin c r = Inr r' \<Longrightarrow> rec_ok r \<Longrightarrow> rec_ok r'"
  using do_builtin_cases set_calls_ok push_step_ok by blast

lemma record_calls_ok: "rec_ok r \<Longrightarrow> rec_ok (record_calls cs r)"
proof (induction cs arbitrary: r)
  case (Cons c cs)
  then show ?case by (cases "do_builtin c r") (simp_all add: rec_ok_def do_builtin_ok [unfolded rec_ok_def])
qed simp

lemma record_calls_const: "rc_limits (record_calls cs r) = rc_limits r \<and> rc_actions (record_calls cs r) = rc_actions r"
proof (induction cs arbitrary: r)
  case (Cons c cs)
  have "rc_limits r' = rc_limits r \<and> rc_actions r' = rc_actions r" if "do_builtin c r = Inr r'" for r'
    using do_builtin_cases [OF that] by (elim disjE exE) (erule set_calls_const)+
  then show ?case using Cons by (cases "do_builtin c r") simp_all
qed simp

lemma evaluate_ok:
  assumes "evaluate_in_process S L actions src = Inr pl"
  shows "\<exists>r. rec_ok r \<and> rc_limits r = L \<and> rc_actions r = actions \<and> pl = into_pipeline r"
proof -
  from assms have "\<exists>t :: run_trace. pl = into_pipeline (record_calls (rt_calls t) (recorder_new L actions))"
    by (auto simp: evaluate_in_process_def evaluate_on_this_stack_def Let_def split: if_splits sum.splits option.splits)
  then obtain t :: run_trace where "pl = into_pipeline (record_calls (rt_calls t) (recorder_new L actions))" ..
  moreover have "rec_ok (record_calls (rt_calls t) (recorder_new L actions))" by (rule record_calls_ok [OF rec_ok_new])
  ultimately show ?thesis using record_calls_const [of "rt_calls t" "recorder_new L actions"]
    by (auto simp: recorder_new_def)
qed

section \<open>The step graph of a pipeline\<close>

definition step_edges :: "step \<Rightarrow> str \<times> str list" where
  "step_edges s = (sp_name (s_spec s), sp_needs (s_spec s))"

lemma to_step_spec_edges: "sp_name (to_step_spec p img s) = ps_name s \<and> sp_needs (to_step_spec p img s) = ps_needs s"
  by (simp add: to_step_spec_def step_spec_new_def Let_def)

lemma planned_edges:
  assumes "map s_spec steps = map (to_step_spec p img) ss"
  shows "map step_edges steps = map plan_edges ss"
proof -
  have "map step_edges steps = map (\<lambda>sp. (sp_name sp, sp_needs sp)) (map s_spec steps)" by (simp add: step_edges_def)
  also have "\<dots> = map plan_edges ss" unfolding assms by (simp add: plan_edges_def to_step_spec_edges)
  finally show ?thesis .
qed

lemma evolved_edges: "list_all2 evolved steps steps' \<Longrightarrow> map step_edges steps' = map step_edges steps"
  by (induction rule: list_all2_induct) (auto simp: evolved_def step_edges_def)

lemma dep_status_unknown: "dep_status n (snapshot_of steps) = DUnknown \<longleftrightarrow> n \<notin> fst ` set (map step_edges steps)"
proof -
  have "find (\<lambda>s. sp_name (s_spec s) = n) steps = None \<longleftrightarrow> n \<notin> fst ` set (map step_edges steps)"
    by (auto simp: find_None_iff step_edges_def image_iff)
  moreover have "dep_status n (snapshot_of steps) = DUnknown \<longleftrightarrow> find (\<lambda>s. sp_name (s_spec s) = n) steps = None"
    by (cases "find (\<lambda>s. sp_name (s_spec s) = n) steps") (auto simp: dep_status_def find_snapshot split: step_state.splits)
  ultimately show ?thesis by simp
qed

lemma backward_needs:
  assumes "backward [] (map step_edges (pre @ s # post))" and "n \<in> set (sp_needs (s_spec s))"
  shows "\<exists>u\<in>set pre. sp_name (s_spec u) = n"
  using assms by (auto simp: backward_append step_edges_def list_all_iff)

lemma decision_declared:
  assumes "backward [] (map step_edges steps)" and "s \<in> set steps"
  shows "decision_for (snapshot_of steps) s \<noteq> GUndeclared n"
proof
  assume und: "decision_for (snapshot_of steps) s = GUndeclared n"
  then have "n \<in> set (sp_needs (s_spec s)) \<and> dep_status n (snapshot_of steps) = DUnknown"
    using gate_loop_undeclared by (auto simp: decision_for_def gate_of_def split: if_splits)
  moreover from assms(2) obtain pre post where "steps = pre @ s # post" by (auto dest: split_list)
  ultimately show False using backward_needs [of pre s post n] assms(1)
    by (force simp: dep_status_unknown step_edges_def)
qed

lemma advance_step_unbroken:
  assumes "backward [] (map step_edges steps)" and "s \<in> set steps"
  shows "snd (advance_step now (snapshot_of steps) s) \<noteq> Some ABroken \<and>
    (s_state (fst (advance_step now (snapshot_of steps) s)) = SErrored \<longrightarrow> s_state s = SErrored)"
  using decision_declared [OF assms]
  by (cases "decision_for (snapshot_of steps) s")
    (auto simp: advance_step_def apply_gate_def step_transition_def split: if_splits)

definition unbroken :: "step list \<Rightarrow> step list \<times> (step_id \<times> advance_kind) list \<Rightarrow> bool" where
  "unbroken steps r \<longleftrightarrow> list_all (\<lambda>(_, k). k \<noteq> ABroken) (snd r) \<and>
     list_all2 (\<lambda>s s'. s_state s' = SErrored \<longrightarrow> s_state s = SErrored) steps (fst r)"

lemma advance_pass_unbroken:
  assumes "backward [] (map step_edges steps)"
  shows "unbroken steps (advance_pass now steps)"
  using advance_step_unbroken [OF assms, of _ now]
  by (auto simp: unbroken_def advance_pass_def Let_def list_all_iff List.map_filter_def list_all2_conv_all_nth)

lemma unbroken_trans: "unbroken a (b, m) \<Longrightarrow> unbroken b (c, l) \<Longrightarrow> unbroken a (c, m @ l)"
  by (auto simp: unbroken_def list_all2_conv_all_nth)

lemma advance_loop_unbroken: "backward [] (map step_edges steps) \<Longrightarrow> unbroken steps (advance_loop now steps)"
proof (induction now steps rule: advance_loop.induct)
  case (1 now steps)
  obtain st mv where p: "advance_pass now steps = (st, mv)" by (cases "advance_pass now steps")
  have un: "unbroken steps (st, mv)" using advance_pass_unbroken [OF "1.prems", of now] p by simp
  show ?case
  proof (cases "mv = []")
    case True
    with p un show ?thesis by (simp add: advance_loop.simps [of now steps])
  next
    case False
    have "list_all2 evolved steps st" using advance_pass_evolved [of steps now] p by simp
    then have "unbroken st (advance_loop now st)"
      using "1.IH" [OF p [symmetric] refl False] "1.prems" by (simp add: evolved_edges)
    with un p False show ?thesis
      by (cases "advance_loop now st") (simp add: advance_loop.simps [of now steps] unbroken_trans)
  qed
qed

lemma find_append_some: "find P xs = Some v \<Longrightarrow> find P (xs @ ys) = Some v"
  by (induction xs) (auto split: if_splits)

text \<open>A pass that stops with no step live leaves none pending: the first would wait on an earlier one.\<close>

lemma stopped_none_pending:
  assumes edges: "backward [] (map step_edges steps)" and stop: "snd (advance_pass now steps) = []" and dead: "\<not> list_ex live steps"
  shows "\<not> list_ex (\<lambda>s. s_state s = SPending) steps"
proof
  assume "list_ex (\<lambda>s. s_state s = SPending) steps"
  then obtain pre s post where steps: "steps = pre @ s # post" and s: "s_state s = SPending" and
    pre: "\<forall>u\<in>set pre. s_state u \<noteq> SPending" by (auto simp: list_ex_iff dest!: split_list_first_prop)
  have "decision_for (snapshot_of steps) s = GWait" using advance_pass_stop(2) [OF stop, of s] steps s by simp
  then obtain n where n: "n \<in> set (sp_needs (s_spec s))" "dep_status n (snapshot_of steps) = DWaiting"
    using s by (auto simp: decision_for_def gate_of_def gate_loop_wait)
  from backward_needs [of pre s post n] edges steps n(1) obtain u where u: "u \<in> set pre" "sp_name (s_spec u) = n" by auto
  then obtain v where v: "find (\<lambda>s. sp_name (s_spec s) = n) pre = Some v" by (cases "find (\<lambda>s. sp_name (s_spec s) = n) pre") (auto simp: find_None_iff)
  then have "v \<in> set pre" by (auto simp: find_Some_iff)
  with pre dead steps have "is_terminal (s_state v)" by (auto simp: list_ex_iff intro: not_live_pending_terminal)
  moreover have "find (\<lambda>s. sp_name (s_spec s) = n) steps = Some v" using v steps by (simp add: find_append_some)
  ultimately show False using n(2)
    by (auto simp: dep_status_def find_snapshot is_terminal_def split: step_state.splits if_splits)
qed

lemma advance_unbroken:
  assumes "backward [] (map step_edges steps)"
  shows "unbroken steps (advance steps now)"
proof -
  let ?r = "advance_loop now steps"
  note res = advance_loop_result [of steps now]
  have "break_cycle now s = (s, None)" if "\<not> list_ex live (fst ?r)" "s \<in> set (fst ?r)" for s
    using stopped_none_pending [of "fst ?r" now] evolved_edges res assms that break_cycle_cases [of s now]
    by (auto simp: list_ex_iff)
  then have "advance steps now = ?r"
    by (cases ?r) (auto simp: advance_def List.map_filter_def filter_empty_conv intro: map_idI)
  with advance_loop_unbroken [OF assms] show ?thesis by simp
qed

lemma evaluate_well_formed:
  assumes "evaluate_in_process S L actions src = Inr pl"
  shows "distinct (map ps_name (pl_steps pl))" "list_all (step_valid actions) (pl_steps pl)"
    "backward [] (map plan_edges (pl_steps pl))" "length (pl_steps pl) \<le> lm_max_steps L" "pipeline_depth pl \<le> lm_max_depth L"
  using evaluate_ok [OF assms] by (auto simp: rec_ok_def into_pipeline_def pipeline_depth_def foldl_max_le)

section \<open>A module of two steps\<close>

definition two_steps :: "unit starlark" where
  "two_steps =
     (let a = \<lparr>ba_inputs = [], ba_cache = [], ba_secrets = [], ba_needs = [], ba_shard = None, ba_timeout = Some (lit ''20m''),
        ba_image = None, ba_continue_on_error = False\<rparr>
      in \<lparr>sk_thread = True, sk_parse = (\<lambda>_. Inr ()),
          sk_run = (\<lambda>_ _. Some \<lparr>rt_calls = [BImage (lit ''rust:1''), BStep (lit ''build'') (Some (lit ''make'')) a,
             BStep (lit ''test'') (Some (lit ''make test'')) (a\<lparr>ba_needs := [lit ''build'']\<rparr>)], rt_error = None\<rparr>)\<rparr>)"

definition two_steps_pipeline :: pipeline where
  "two_steps_pipeline =
     (let s = \<lparr>ps_name = lit ''build'', ps_kind = Run (lit ''make''), ps_inputs = [], ps_cache = [], ps_secrets = [], ps_needs = [],
        ps_shard = None, ps_timeout = Some (secs 1200), ps_image = None, ps_continue_on_error = False\<rparr>
      in \<lparr>pl_image = Some (lit ''rust:1''), pl_trust = None, pl_cache_scope = None,
          pl_steps = [s, s\<lparr>ps_name := lit ''test'', ps_kind := Run (lit ''make test''), ps_needs := [lit ''build'']\<rparr>]\<rparr>)"

lemma preflight_pass: "preflight limits_default (utf8 (lit ''pass'')) = Inr ()"
  by (simp add: preflight_def limits_default_def measure_shape_def scan_shape_def scan_init_def raw_nesting_def utf8_def utf8_char_def ladder_eval)

lemmas recorder_eval = push_step_def recorder_new_def check_step_name_def ascii_alphanumeric_def MAX_NAME_LEN_def check_kind_def
  check_run_def MAX_RUN_LEN_def is_control_def MAX_LIST_LEN_def check_list_item_def MAX_LIST_ITEM_LEN_def check_step_image_def
  do_step_def build_step_def parse_timeout_def parse_u64_def unit_secs_def MAX_TIMEOUT_HOURS_def starts_with_def set_image_def
  check_image_ref_def MAX_IMAGE_REF_LEN_def limits_default_def U64_MAX_def Let_def

lemma evaluate_two_steps: "evaluate_in_process two_steps limits_default [] (lit ''pass'') = Inr two_steps_pipeline"
  unfolding evaluate_in_process_def evaluate_on_this_stack_def preflight_pass
  by (simp add: two_steps_def two_steps_pipeline_def recorder_eval into_pipeline_def)

section \<open>Properties\<close>

text \<open>C39. The bound on a conditional chain, which keeps the parser's recursion within its stack, is met by hiding the
  chain. A ladder of more than 256 branches is refused, as it must be; the same ladder with a comment line
  before each \<open>elif\<close>, which the parser reads as the same chain, is let through to the parser at any length
  that fits the file.\<close>

theorem comment_hides_chain:
  assumes "256 \<le> n" and "9 + 13 * n \<le> 32768"
  shows "preflight limits_default (ladder n) = Inl (BBlockChain 256) \<and> preflight limits_default (commented_ladder n) = Inr ()"
  using assms
  by (simp add: preflight_def limits_default_def measure_ladder measure_commented_ladder length_ladder length_commented_ladder)

theorem comment_hides_chain_witness:
  "preflight limits_default (ladder 2000) = Inl (BBlockChain 256) \<and> preflight limits_default (commented_ladder 2000) = Inr ()"
  by (rule comment_hides_chain) simp_all

end
