(* ===== verification/Ci_Planner.thy ===== *)
theory Ci_Planner
  imports Ci_Plan Ci_Control
begin

text \<open>
  The planner behind the control plane's \<open>Planner\<close> seam: the bounded child process that evaluates a
  pipeline (\<open>src/crates/hull-ci-plan/src/sandbox.rs\<close>, \<open>src/bin/hull-ci-plan-eval.rs\<close>), the messages of its errors
  (\<open>error.rs\<close>, \<open>validate.rs\<close>), the bounded read of the file and the fallback to detection
  (\<open>src/crates/hull-ci-server/src/pipeline.rs\<close>, \<open>plan.rs\<close>). The operating system answers in a record. Shown: the
  child's end decides the answer and what it accepts is within the limits; detection is for trees without
  the file only; and the step graph never breaks a plan, whichever way it was made.
\<close>

section \<open>Messages\<close>

definition backtick :: "str \<Rightarrow> str" where
  "backtick s = lit ''`'' @ s @ lit ''`''"

fun show_invalid :: "invalid \<Rightarrow> str" where
  "show_invalid (NameLength got limit) =
     lit ''step name must be 1..='' @ show_nat limit @ lit '' characters, not '' @ show_nat got"
| "show_invalid (NameCharset name) =
     lit ''step name '' @ backtick name @ lit '' may only contain letters, digits, `_`, `-` and `/`''"
| "show_invalid (DuplicateName name) = lit ''duplicate step name '' @ backtick name"
| "show_invalid (DanglingNeeds name missing) =
     lit ''step '' @ backtick name @ lit '' needs '' @ backtick missing @ lit '', which is not a step declared before it''"
| "show_invalid (NeedsNotAHandle got) = lit ''`needs` takes step handles returned by `step`/`action`, not '' @ got"
| "show_invalid (InvalidTier got) =
     lit ''trust must be '' @ [34] @ lit ''trusted'' @ [34] @ lit '' or '' @ [34] @ lit ''untrusted'' @ [34] @ lit '', not '' @ backtick got"
| "show_invalid (InvalidShard got m) =
     lit ''shard must be '' @ [34] @ lit ''auto'' @ [34] @ lit '' or an integer 1..='' @ show_nat m @ lit '', not '' @ backtick got"
| "show_invalid (InvalidCacheScope limit) =
     lit ''cache scope must be 1..='' @ show_nat limit @ lit '' characters of letters, digits, `_` and `-`''"
| "show_invalid (InvalidImageRef limit) = lit ''image ref must be 1..='' @ show_nat limit @ lit '' characters''"
| "show_invalid (UnknownAction got) = lit ''`uses = '' @ [34] @ got @ [34] @ lit ''` names no built-in action''"
| "show_invalid (NothingToRun name) =
     lit ''step '' @ backtick name @ lit '' has neither `run` nor `uses`, so there is nothing to run''"
| "show_invalid (TimeoutSyntax got) = lit ''timeout '' @ backtick got @ lit '' must look like `90s`, `20m` or `2h`''"
| "show_invalid (TimeoutTooLong got h) =
     lit ''timeout '' @ backtick got @ lit '' is longer than the '' @ show_nat h @ lit ''h ceiling''"
| "show_invalid (ListTooLong fld name limit) =
     backtick fld @ lit '' of step '' @ backtick name @ lit '' may hold at most '' @ show_nat limit @ lit '' entries''"
| "show_invalid (StringTooLong fld name limit) =
     backtick fld @ lit '' of step '' @ backtick name @ lit '' may be at most '' @ show_nat limit @ lit '' characters''"
| "show_invalid (ControlCharacters fld name) =
     backtick fld @ lit '' of step '' @ backtick name @ lit '' may not contain control characters''"
| "show_invalid (Redeclared builtin) = backtick builtin @ lit '' may be called at most once''"

fun show_bound :: "bound \<Rightarrow> str" where
  "show_bound (BSteps limit) = lit ''pipeline emits more than '' @ show_nat limit @ lit '' steps''"
| "show_bound (BDepth limit) = lit ''dependency chain is deeper than '' @ show_nat limit @ lit '' steps''"
| "show_bound (BSourceBytes limit) = lit ''pipeline file is larger than '' @ show_nat limit @ lit '' bytes''"
| "show_bound (BNesting limit) = lit ''brackets nested more than '' @ show_nat limit @ lit '' deep''"
| "show_bound (BStatementSize limit) = lit ''a single statement is more than '' @ show_nat limit @ lit '' tokens long''"
| "show_bound (BIndent limit) = lit ''indented more than '' @ show_nat limit @ lit '' columns''"
| "show_bound (BBlockChain limit) =
     lit ''a conditional chain is longer than the '' @ show_nat limit @ lit ''-branch limit''"
| "show_bound (BWork limit) = lit ''evaluation exceeded its work budget of '' @ show_nat limit @ lit '' operations''"
| "show_bound (BMemory limit) = lit ''evaluation exceeded its memory budget of '' @ show_nat limit @ lit '' bytes''"
| "show_bound (BCallStack limit) = lit ''recursion exceeded the '' @ show_nat limit @ lit ''-frame call stack''"
| "show_bound (BTime limit) = lit ''evaluation did not finish within '' @ show_nat limit @ lit '' ms''"

fun show_kind :: "plan_error_kind \<Rightarrow> str" where
  "show_kind (Language m) = m"
| "show_kind (Invalid i) = show_invalid i"
| "show_kind (Exhausted b) = show_bound b"
| "show_kind Internal = lit ''the pipeline evaluator failed unexpectedly''"

definition PIPELINE_PATH :: str where "PIPELINE_PATH = lit ''.hull/ci.star''"

definition location :: "nat option \<Rightarrow> str" where
  "location line = (case line of Some l \<Rightarrow> PIPELINE_PATH @ lit '':'' @ show_nat l | None \<Rightarrow> PIPELINE_PATH)"

definition show_pipeline_error :: "pipeline_error \<Rightarrow> str" where
  "show_pipeline_error e = location (pe_line e) @ lit '': '' @ show_kind (pe_kind e)"

section \<open>The child process\<close>

definition hard_memory_bytes :: "limits \<Rightarrow> nat" where
  "hard_memory_bytes L = min (lm_max_heap_bytes L + 16 * 1024 * 1024) U64_MAX"

definition EXIT_OVER_BUDGET :: int where "EXIT_OVER_BUDGET = 20"
definition EXIT_BAD_REQUEST :: int where "EXIT_BAD_REQUEST = 2"
definition EXIT_BAD_REPLY :: int where "EXIT_BAD_REPLY = 3"

record eval_request =
  rq_source :: str
  rq_limits :: limits
  rq_actions :: "str list"

record response =
  rp_result :: "pipeline_error + pipeline"
  rp_peak_bytes :: nat

text \<open>
  What may happen to the child: it runs to its end, with the peak its allocator counted; an allocation
  passes the ceiling; its reply is longer than the parent reads; the process is aborted or killed by a signal; or a pipe fails it. Its exit code
  (\<open>None\<close> for a signal) and its reply as the parent decodes it.
\<close>

datatype child_fate = RunsOut nat | OverLong nat | OverCeiling | Signalled | NoRequest | NoReply

definition worker_main :: "'m starlark \<Rightarrow> child_fate \<Rightarrow> eval_request \<Rightarrow> int option \<times> response option" where
  "worker_main S fate rq =
     (case fate of
        NoRequest \<Rightarrow> (Some EXIT_BAD_REQUEST, None)
      | OverCeiling \<Rightarrow> (Some EXIT_OVER_BUDGET, None)
      | Signalled \<Rightarrow> (None, None)
      | NoReply \<Rightarrow> (Some EXIT_BAD_REPLY, None)
      | OverLong _ \<Rightarrow> (Some 0, None)
      | RunsOut peak \<Rightarrow>
          (Some 0, Some \<lparr>rp_result = evaluate_in_process S (clamped (rq_limits rq)) (rq_actions rq) (rq_source rq), rp_peak_bytes = peak\<rparr>))"

record 'm process_world =
  pw_starlark :: "'m starlark"
  pw_worker :: bool
  pw_spawned :: bool
  pw_io_thread :: bool
  pw_timed_out :: bool
  pw_joined :: bool
  pw_waited :: bool
  pw_fate :: child_fate

definition sandbox_run :: "'m process_world \<Rightarrow> str \<Rightarrow> limits \<Rightarrow> str list \<Rightarrow> plan_error_kind + response" where
  "sandbox_run w src L actions =
     (if \<not> pw_worker w \<or> \<not> pw_spawned w \<or> \<not> pw_io_thread w then Inl Internal
      else let (code, reply) = worker_main (pw_starlark w) (pw_fate w) \<lparr>rq_source = src, rq_limits = L, rq_actions = actions\<rparr> in
        if \<not> pw_joined w then Inl Internal
        else if \<not> pw_waited w then Inl Internal
        else if pw_timed_out w then Inl (Exhausted (BTime (lm_eval_timeout_ms L)))
        else if code = Some EXIT_OVER_BUDGET then Inl (Exhausted (BMemory (hard_memory_bytes L)))
        else if code \<noteq> Some 0 then Inl Internal
        else case reply of None \<Rightarrow> Inl Internal | Some r \<Rightarrow> Inr r)"

text \<open>\<open>evaluate_measured\<close> of the crate's root, through that of \<open>sandbox.rs\<close>: the answer and its cost.\<close>

definition sandbox_measured :: "'m process_world \<Rightarrow> str \<Rightarrow> limits \<Rightarrow> str list \<Rightarrow> (pipeline_error + pipeline) \<times> nat" where
  "sandbox_measured w src L actions =
     (case sandbox_run w src L actions of
        Inr r \<Rightarrow> (rp_result r, rp_peak_bytes r)
      | Inl k \<Rightarrow> (Inl (plan_error_new k), hard_memory_bytes L))"

definition evaluate_measured :: "'m process_world \<Rightarrow> str \<Rightarrow> limits \<Rightarrow> str list \<Rightarrow> (pipeline_error + pipeline) \<times> nat" where
  "evaluate_measured w src L actions = sandbox_measured w src (clamped L) actions"

section \<open>The file and the plan\<close>

text \<open>\<open>symlink_metadata\<close>: not found, another error, or whether it is a regular file and its length.\<close>

datatype file_stat = StatMissing | StatFailed str | Stat bool nat

record 'm planner_world =
  lw_process :: "'m process_world"
  lw_fs :: tree_fs
  lw_stat :: file_stat
  lw_read :: "str + str"
  lw_detect_join :: "str option"
  lw_read_join :: "str option"
  lw_eval_join :: "str option"

definition read_pipeline :: "'m planner_world \<Rightarrow> nat \<Rightarrow> str + str option" where
  "read_pipeline w max_bytes =
     (case lw_stat w of
        StatMissing \<Rightarrow> Inr None
      | StatFailed e \<Rightarrow> Inl (PIPELINE_PATH @ lit '' could not be read: '' @ e)
      | Stat regular len \<Rightarrow>
          if \<not> regular then Inl (PIPELINE_PATH @ lit '' is not a regular file'')
          else if len > max_bytes then
            Inl (PIPELINE_PATH @ lit '' is '' @ show_nat len @ lit '' bytes, over the '' @ show_nat max_bytes @ lit ''-byte limit'')
          else case lw_read w of
            Inr s \<Rightarrow> Inr (Some s)
          | Inl e \<Rightarrow> Inl (PIPELINE_PATH @ lit '' could not be read: '' @ e))"

definition STEP_NAME :: str where "STEP_NAME = lit ''test''"
definition ACTIONS :: "str list" where "ACTIONS = []"

definition autodetect_plan :: "'m planner_world \<Rightarrow> str \<Rightarrow> plan_error + step_spec list" where
  "autodetect_plan w img =
     (case lw_detect_join w of
        Some e \<Rightarrow> Inl (PlanInvalid (lit ''test-command detection did not complete: '' @ e))
      | None \<Rightarrow>
          (case detect_test_command (lw_fs w) of
             DetFound cmd \<Rightarrow> Inr [step_spec_new STEP_NAME (dc_argv cmd) img]
           | DetNone \<Rightarrow> Inr []))"

record pipeline_planner =
  pp_default_image :: str
  pp_limits :: limits

definition pipeline_planner_new :: "str \<Rightarrow> pipeline_planner" where
  "pipeline_planner_new img = \<lparr>pp_default_image = img, pp_limits = limits_default\<rparr>"

definition planner_plan :: "'m planner_world \<Rightarrow> pipeline_planner \<Rightarrow> plan_error + step_spec list" where
  "planner_plan w p =
     (case lw_read_join w of
        Some e \<Rightarrow> Inl (PlanInvalid (lit ''reading '' @ PIPELINE_PATH @ lit '' did not complete: '' @ e))
      | None \<Rightarrow>
          (case read_pipeline w (lm_max_source_bytes (pp_limits p)) of
             Inl e \<Rightarrow> Inl (PlanInvalid e)
           | Inr None \<Rightarrow> autodetect_plan w (pp_default_image p)
           | Inr (Some src) \<Rightarrow>
               (case lw_eval_join w of
                  Some e \<Rightarrow> Inl (PlanInvalid (lit ''evaluating '' @ PIPELINE_PATH @ lit '' did not complete: '' @ e))
                | None \<Rightarrow>
                    (case fst (evaluate_measured (lw_process w) src (pp_limits p) ACTIONS) of
                       Inl e \<Rightarrow> Inl (PlanInvalid (show_pipeline_error e))
                     | Inr pl \<Rightarrow> Inr (map (to_step_spec pl (pp_default_image p)) (pl_steps pl))))))"

section \<open>What the child's answer is worth\<close>

lemma measured_answer:
  assumes "fst (evaluate_measured w src L actions) = Inr pl"
  shows "evaluate_in_process (pw_starlark w) (clamped (clamped L)) actions src = Inr pl \<and> \<not> pw_timed_out w"
  using assms
  by (cases "pw_fate w")
    (auto simp: evaluate_measured_def sandbox_measured_def sandbox_run_def worker_main_def EXIT_BAD_REQUEST_def EXIT_BAD_REPLY_def
      split: if_splits)

lemma clamped_twice [simp]: "clamped (clamped L) = clamped L"
  by (simp add: clamped_def)

lemma clamped_simps [simp]: "lm_max_steps (clamped L) = max (lm_max_steps L) 1" "lm_max_depth (clamped L) = max (lm_max_depth L) 1"
  by (simp_all add: clamped_def)

lemma step_valid_shell:
  assumes "step_valid [] s"
  shows "\<exists>script. sp_argv (to_step_spec p img s) = [lit ''/bin/sh'', lit ''-c'', script] \<and> check_run (ps_name s) script = Inr ()"
  using assms by (auto simp: step_valid_def to_step_spec_def step_spec_new_def Let_def split: step_kind.splits)

lemma to_step_spec_name: "sp_name (to_step_spec p img s) = ps_name s" "sp_needs (to_step_spec p img s) = ps_needs s"
  using to_step_spec_edges by auto

text \<open>A plan is made in one of two ways.\<close>

lemma planner_plan_cases:
  assumes "planner_plan w p = Inr specs"
  obtains (detected) "lw_stat w = StatMissing" "autodetect_plan w (pp_default_image p) = Inr specs"
  | (evaluated) src pl len where "lw_stat w = Stat True len" "len \<le> lm_max_source_bytes (pp_limits p)" "lw_read w = Inr src"
      "fst (evaluate_measured (lw_process w) src (pp_limits p) ACTIONS) = Inr pl"
      "specs = map (to_step_spec pl (pp_default_image p)) (pl_steps pl)"
  using assms
  by (auto simp: planner_plan_def read_pipeline_def split: option.splits sum.splits file_stat.splits if_splits)

lemma autodetect_needs: "autodetect_plan w img = Inr specs \<Longrightarrow> length specs \<le> 1 \<and> list_all (\<lambda>sp. sp_needs sp = []) specs"
  by (auto simp: autodetect_plan_def step_spec_new_def split: option.splits detection.splits)

lemma plan_backward:
  assumes "planner_plan w p = Inr specs" and "map s_spec steps = specs"
  shows "backward [] (map step_edges steps)"
  using assms(1)
proof (cases rule: planner_plan_cases)
  case detected
  then have len: "length steps \<le> 1" and "list_all (\<lambda>sp. sp_needs sp = []) (map s_spec steps)"
    using autodetect_needs assms(2) by fastforce+
  then show ?thesis by (cases steps) (auto simp: step_edges_def)
next
  case (evaluated src pl len)
  note pl = measured_answer [OF evaluated(4), THEN conjunct1]
  from planned_edges [of steps pl] assms(2) evaluated(5) evaluate_well_formed(3) [OF pl] show ?thesis by simp
qed

section \<open>A world\<close>

definition quiet_process :: "unit process_world" where
  "quiet_process = \<lparr>pw_starlark = two_steps, pw_worker = True, pw_spawned = True, pw_io_thread = True, pw_timed_out = False,
     pw_joined = True, pw_waited = True, pw_fate = RunsOut 4096\<rparr>"

definition quiet_world :: "unit planner_world" where
  "quiet_world = \<lparr>lw_process = quiet_process, lw_fs = \<lparr>tf_is_file = (\<lambda>_. False), tf_read = (\<lambda>_. None)\<rparr>,
     lw_stat = Stat True 4, lw_read = Inr (lit ''pass''), lw_detect_join = None, lw_read_join = None, lw_eval_join = None\<rparr>"

lemma quiet_measured: "evaluate_measured quiet_process (lit ''pass'') limits_default ACTIONS = (Inr two_steps_pipeline, 4096)"
  using evaluate_two_steps
  by (simp add: evaluate_measured_def sandbox_measured_def sandbox_run_def worker_main_def quiet_process_def ACTIONS_def
      EXIT_OVER_BUDGET_def clamped_def limits_default_def)

abbreviation quiet_plan :: "step_spec list" where
  "quiet_plan \<equiv> map (to_step_spec two_steps_pipeline (lit ''img'')) (pl_steps two_steps_pipeline)"

lemma quiet_planned: "planner_plan quiet_world (pipeline_planner_new (lit ''img'')) = Inr quiet_plan"
  using quiet_measured
  by (simp add: planner_plan_def read_pipeline_def quiet_world_def pipeline_planner_new_def limits_default_def [THEN arg_cong, of lm_max_source_bytes])

section \<open>Properties\<close>

text \<open>C22. Whatever the attacker's module does, and however the child that runs it ends, a pipeline that comes back as
  accepted is within its bounds and has no cycle: every step's name is legal and used once, its script or
  action is one the rules admit, its needs name steps recorded before it, there are at most \<open>max_steps\<close> of
  them, and the longest path through them, as \<open>depth\<close> computes it from scratch, is at most \<open>max_depth\<close> (a
  limit of zero counting as one). A child that was killed for the time never gives one.\<close>

theorem pipeline_well_formed:
  assumes "fst (evaluate_measured w src L actions) = Inr pl"
  shows "distinct (map ps_name (pl_steps pl)) \<and> list_all (step_valid actions) (pl_steps pl) \<and>
    backward [] (map plan_edges (pl_steps pl)) \<and> length (pl_steps pl) \<le> max (lm_max_steps L) 1 \<and>
    pipeline_depth pl \<le> max (lm_max_depth L) 1 \<and> \<not> pw_timed_out w"
proof -
  from measured_answer [OF assms] have "evaluate_in_process (pw_starlark w) (clamped L) actions src = Inr pl" "\<not> pw_timed_out w" by auto
  from evaluate_well_formed [OF this(1)] this(2) show ?thesis by simp
qed

theorem pipeline_well_formed_witness:
  "distinct (map ps_name (pl_steps two_steps_pipeline)) \<and> list_all (step_valid ACTIONS) (pl_steps two_steps_pipeline) \<and>
   backward [] (map plan_edges (pl_steps two_steps_pipeline)) \<and> length (pl_steps two_steps_pipeline) \<le> max (lm_max_steps limits_default) 1 \<and>
   pipeline_depth two_steps_pipeline \<le> max (lm_max_depth limits_default) 1 \<and> \<not> pw_timed_out quiet_process"
  by (rule pipeline_well_formed [of _ "lit ''pass''"]) (simp only: quiet_measured fst_conv)



text \<open>C23. Planner and step graph together: for the steps of any plan, detected or evaluated from an attacker's file, in any
  states and after any history, \<open>advance\<close> never breaks one. It reports no step as broken and turns none to
  errored: neither the rule for a need the plan does not declare nor the rule for cycles ever fires.\<close>

theorem planned_graph_never_broken:
  assumes "planner_plan w p = Inr specs" and "map s_spec steps = specs"
  shows "list_all (\<lambda>(_, k). k \<noteq> ABroken) (snd (advance steps now)) \<and>
    list_all2 (\<lambda>s s'. s_state s' = SErrored \<longrightarrow> s_state s = SErrored) steps (fst (advance steps now))"
  using advance_unbroken [OF plan_backward [OF assms]] by (simp add: unbroken_def)

theorem planned_graph_never_broken_witness:
  "list_all (\<lambda>(_, k). k \<noteq> ABroken) (snd (advance (map (step_new [1]) quiet_plan) 5)) \<and>
   list_all2 (\<lambda>s s'. s_state s' = SErrored \<longrightarrow> s_state s = SErrored) (map (step_new [1]) quiet_plan)
     (fst (advance (map (step_new [1]) quiet_plan) 5))"
  by (rule planned_graph_never_broken [OF quiet_planned]) (simp add: step_new_def)

end
