(* ===== verification/Ci_Extract.thy ===== *)
theory Ci_Extract
  imports Ci_Detect Ci_Grant
begin

text \<open>
  The tar reader of the fetch broker (\<open>src/crates/hull-ci-fetch/src/extract.rs\<close>). The tar crate is a parameter: the
  entries and errors it hands over. The file system is a map from absolute paths to nodes, with path
  resolution as a Unix kernel does it, through symbolic links. Shown: whatever the archive, nothing
  outside the destination changes, and what is inside is within the limits; and a chain of two links, each
  in bounds on its own, leads out of the tree.
\<close>

section \<open>Paths\<close>

text \<open>\<open>Path::components\<close> on Unix.\<close>

datatype component = RootDir | CurDir | ParentDir | Normal bytes

definition seg_component :: "bytes \<Rightarrow> component option" where
  "seg_component s = (if s = [] \<or> s = lit ''.'' then None else if s = lit ''..'' then Some ParentDir else Some (Normal s))"

definition path_components :: "bytes \<Rightarrow> component list" where
  "path_components p =
     (let segs = split_on (of_char CHR ''/'') p in
      (if starts_with p (lit ''/'') then [RootDir] else if hd segs = lit ''.'' then [CurDir] else [])
      @ List.map_filter seg_component segs)"

definition path_is_absolute :: "bytes \<Rightarrow> bool" where
  "path_is_absolute p \<longleftrightarrow> starts_with p (lit ''/'')"

section \<open>The file system\<close>

type_synonym fpath = "bytes list"

datatype node = NDir | NFile bytes nat | NLink bytes

type_synonym nodes = "fpath \<Rightarrow> node option"

definition is_dir :: "nodes \<Rightarrow> fpath \<Rightarrow> bool" where
  "is_dir ns p \<longleftrightarrow> p = [] \<or> ns p = Some NDir"

text \<open>Path resolution: at most \<open>k\<close> links are followed on the way.\<close>

function fs_resolve :: "nat \<Rightarrow> nodes \<Rightarrow> fpath \<Rightarrow> component list \<Rightarrow> fpath option" where
  "fs_resolve k ns cur [] = Some cur"
| "fs_resolve k ns cur (RootDir # cs) = fs_resolve k ns [] cs"
| "fs_resolve k ns cur (CurDir # cs) = fs_resolve k ns cur cs"
| "fs_resolve k ns cur (ParentDir # cs) = fs_resolve k ns (butlast cur) cs"
| "fs_resolve k ns cur (Normal n # cs) =
     (case ns (cur @ [n]) of
        None \<Rightarrow> None
      | Some NDir \<Rightarrow> fs_resolve k ns (cur @ [n]) cs
      | Some (NFile _ _) \<Rightarrow> if cs = [] then Some (cur @ [n]) else None
      | Some (NLink t) \<Rightarrow> if k = 0 then None else fs_resolve (k - 1) ns cur (path_components t @ cs))"
  by pat_completeness auto
termination
  by (relation "measures [\<lambda>(k, ns, cur, cs). k, \<lambda>(k, ns, cur, cs). length cs]") auto

definition MAX_LINKS :: nat where "MAX_LINKS = 40"

datatype fs_op = OpMkdir | OpCreate | OpLink | OpChmod

text \<open>
  The calls the reader makes, each on an absolute path whose last component is not followed. An operation can
  be refused for a reason of the system's own (space, permission).
\<close>

record fs_world =
  fw_nodes :: nodes
  fw_refuses :: "fs_op \<Rightarrow> fpath \<Rightarrow> bool"
  fw_new_mode :: nat
  fw_chmod_error :: str

definition parent_of :: "nodes \<Rightarrow> fpath \<Rightarrow> fpath option" where
  "parent_of ns p = fs_resolve MAX_LINKS ns [] (map Normal (butlast p))"

definition fs_place :: "fs_op \<Rightarrow> fpath \<Rightarrow> node \<Rightarrow> fs_world \<Rightarrow> fs_world option" where
  "fs_place op p nd w =
     (if fw_refuses w op p then None
      else case parent_of (fw_nodes w) p of
        None \<Rightarrow> None
      | Some d \<Rightarrow>
          if p \<noteq> [] \<and> is_dir (fw_nodes w) d \<and> fw_nodes w (d @ [last p]) = None
          then Some (w\<lparr>fw_nodes := (fw_nodes w)(d @ [last p] \<mapsto> nd)\<rparr>) else None)"

text \<open>Writing and \<open>chmod\<close> to a path that is resolved to its end.\<close>

definition fs_update :: "fpath \<Rightarrow> (node \<Rightarrow> node) \<Rightarrow> fs_world \<Rightarrow> fs_world" where
  "fs_update p f w =
     (case fs_resolve MAX_LINKS (fw_nodes w) [] (map Normal p) of
        None \<Rightarrow> w
      | Some q \<Rightarrow> (case fw_nodes w q of None \<Rightarrow> w | Some nd \<Rightarrow> w\<lparr>fw_nodes := (fw_nodes w)(q \<mapsto> f nd)\<rparr>))"

fun write_data :: "bytes \<Rightarrow> node \<Rightarrow> node" where
  "write_data bs (NFile old m) = NFile bs m"
| "write_data bs nd = nd"

fun set_node_mode :: "nat \<Rightarrow> node \<Rightarrow> node" where
  "set_node_mode m (NFile bs old) = NFile bs m"
| "set_node_mode m nd = nd"

section \<open>Limits and errors\<close>

record fetch_limits =
  fl_max_archive_bytes :: nat
  fl_max_entries :: nat
  fl_max_file_bytes :: nat
  fl_max_total_bytes :: nat
  fl_max_path_depth :: nat
  fl_max_name_bytes :: nat
  fl_budget :: duration

definition fetch_limits_default :: fetch_limits where
  "fetch_limits_default = \<lparr>fl_max_archive_bytes = 2 * 1024 * 1024 * 1024, fl_max_entries = 500000,
     fl_max_file_bytes = 512 * 1024 * 1024, fl_max_total_bytes = 4 * 1024 * 1024 * 1024, fl_max_path_depth = 64,
     fl_max_name_bytes = 255, fl_budget = secs 300\<rparr>"

datatype rejection =
    AbsolutePath
  | ParentTraversal
  | NonUtf8Path
  | IllegalByte
  | BackslashInName
  | NameTooLong nat
  | TooDeep nat
  | Duplicate
  | UnicodeCollision str
  | PrivilegedMode nat
  | HardLink
  | SpecialFile str
  | AbsoluteSymlinkTarget
  | SymlinkEscapesRoot
  | SymlinkAncestor str
  | FileTooLarge nat
  | Conflict

datatype extract_error =
    ArchiveTooLarge nat
  | TooManyEntries nat
  | ContentTooLarge nat
  | Rejected str rejection
  | Malformed str
  | DestinationNotEmpty
  | ExtractIo str

record extracted =
  ex_files :: nat
  ex_dirs :: nat
  ex_symlinks :: nat
  ex_bytes :: nat

section \<open>The capped stream\<close>

definition CAP_SENTINEL :: str where "CAP_SENTINEL = lit ''hull-ci-fetch: archive byte cap exceeded''"

record capped =
  cp_remaining :: nat
  cp_tripped :: bool

text \<open>One read: \<open>avail\<close> is what the inner reader would give a buffer of the size it is asked for.\<close>

definition capped_read :: "nat \<Rightarrow> (nat \<Rightarrow> nat) \<Rightarrow> capped \<Rightarrow> capped \<times> (str + nat)" where
  "capped_read buf avail c =
     (if cp_tripped c then (c, Inl CAP_SENTINEL)
      else
        let want = min buf (min (cp_remaining c + 1) U64_MAX); n = avail want in
        if n > cp_remaining c then (c\<lparr>cp_tripped := True\<rparr>, Inl CAP_SENTINEL)
        else (c\<lparr>cp_remaining := cp_remaining c - n\<rparr>, Inr n))"

text \<open>An I/O error of the stream: whether its kind is \<open>InvalidData\<close>, and its text.\<close>

type_synonym io_error = "bool \<times> str"

definition stream_err :: "fetch_limits \<Rightarrow> io_error \<Rightarrow> extract_error" where
  "stream_err L e = (if fst e \<and> snd e = CAP_SENTINEL then ArchiveTooLarge (fl_max_archive_bytes L) else Malformed (snd e))"

section \<open>Entries\<close>

datatype entry_type = XGlobalHeader | Directory | Regular | Continuous | Symlink | Link | Char_dev | Block_dev | Fifo | Other_type

text \<open>
  An entry as the tar crate hands it over: \<open>te_path\<close> and \<open>te_link\<close> with the failures of its accessors, and the
  content, after \<open>te_data\<close> perhaps an error of the stream or of the disk.
\<close>

record tar_entry =
  te_kind :: entry_type
  te_mode :: "nat option"
  te_path_bytes :: bytes
  te_path :: "bytes option"
  te_link :: "unit + bytes option"
  te_size :: "nat option"
  te_data :: bytes
  te_fail :: "io_error option"

type_synonym archive = "(io_error + tar_entry) list"

record extract_state =
  es_world :: fs_world
  es_claimed :: "(str \<times> str) list"
  es_dirs :: "fpath list"
  es_symlinks :: "fpath list"
  es_out :: extracted

definition MAX_DISPLAY_BYTES :: nat where "MAX_DISPLAY_BYTES = 512"

definition display_path :: "bytes \<Rightarrow> str" where
  "display_path raw =
     from_utf8_lossy (take MAX_DISPLAY_BYTES raw) @ (if length raw > MAX_DISPLAY_BYTES then [0x2026] else [])"

definition privileged :: "nat \<Rightarrow> bool" where
  "privileged mode \<longleftrightarrow> mode div 0x200 mod 8 \<noteq> 0"

definition any_exec :: "nat \<Rightarrow> bool" where
  "any_exec mode \<longleftrightarrow> odd mode \<or> odd (mode div 8) \<or> odd (mode div 64)"

definition normal_mode :: "nat \<Rightarrow> nat" where
  "normal_mode mode = (if any_exec mode then 0x1ED else 0x1A4)"

fun check_components :: "fetch_limits \<Rightarrow> component list \<Rightarrow> fpath \<Rightarrow> rejection + fpath" where
  "check_components L [] out = Inr out"
| "check_components L (CurDir # cs) out = check_components L cs out"
| "check_components L (ParentDir # cs) out = Inl ParentTraversal"
| "check_components L (RootDir # cs) out = Inl AbsolutePath"
| "check_components L (Normal os # cs) out =
     (case from_utf8 os of
        None \<Rightarrow> Inl NonUtf8Path
      | Some name \<Rightarrow>
          if length os > fl_max_name_bytes L then Inl (NameTooLong (fl_max_name_bytes L))
          else if 0x5C \<in> set name then Inl BackslashInName
          else if list_ex is_control name then Inl IllegalByte
          else if Suc (length out) > fl_max_path_depth L then Inl (TooDeep (fl_max_path_depth L))
          else check_components L cs (out @ [os]))"

definition check_path :: "fetch_limits \<Rightarrow> bytes \<Rightarrow> rejection + fpath option" where
  "check_path L p =
     (case check_components L (path_components p) [] of
        Inl r \<Rightarrow> Inl r
      | Inr out \<Rightarrow> Inr (if out = [] then None else Some out))"

definition show_fpath :: "fpath \<Rightarrow> str" where
  "show_fpath p = from_utf8_lossy (join (of_char CHR ''/'') p)"

definition claim :: "(str \<Rightarrow> str) \<Rightarrow> fpath \<Rightarrow> str \<Rightarrow> extract_state \<Rightarrow> extract_state \<times> (extract_error + unit)" where
  "claim nfc rel display st =
     (let key = nfc (show_fpath rel); prev = map_of (es_claimed st) key;
          st = st\<lparr>es_claimed := AList.update key display (es_claimed st)\<rparr>
      in (st, case prev of
                None \<Rightarrow> Inr ()
              | Some p \<Rightarrow> Inl (Rejected display (if p = display then Duplicate else UnicodeCollision p))))"

text \<open>The prefixes of a path, the shortest first.\<close>

definition prefixes_of :: "fpath \<Rightarrow> fpath list" where
  "prefixes_of p = map (\<lambda>i. take (Suc i) p) [0..<length p]"

definition check_symlink_ancestors :: "extract_state \<Rightarrow> fpath \<Rightarrow> rejection + unit" where
  "check_symlink_ancestors st rel =
     (case find (\<lambda>p. p \<in> set (es_symlinks st)) (prefixes_of rel) of
        None \<Rightarrow> Inr ()
      | Some p \<Rightarrow> Inl (SymlinkAncestor (show_fpath p)))"

fun make_prefixes :: "fpath \<Rightarrow> fpath list \<Rightarrow> extract_state \<Rightarrow> extract_state \<times> (rejection + unit)" where
  "make_prefixes dest [] st = (st, Inr ())"
| "make_prefixes dest (p # ps) st =
     (if p \<in> set (es_dirs st) then make_prefixes dest ps st
      else case fs_place OpMkdir (dest @ p) NDir (es_world st) of
        None \<Rightarrow> (st, Inl Conflict)
      | Some w \<Rightarrow> make_prefixes dest ps (st\<lparr>es_world := w, es_dirs := es_dirs st @ [p]\<rparr>))"

definition make_dirs :: "fpath \<Rightarrow> fpath \<Rightarrow> extract_state \<Rightarrow> extract_state \<times> (rejection + unit)" where
  "make_dirs dest rel = make_prefixes dest (prefixes_of rel)"

definition reject_as :: "str \<Rightarrow> 's \<times> (rejection + 'a) \<Rightarrow> 's \<times> (extract_error + 'a)" where
  "reject_as display r = (fst r, case snd r of Inl x \<Rightarrow> Inl (Rejected display x) | Inr a \<Rightarrow> Inr a)"

text \<open>The end of \<open>write_file\<close>: the bytes are counted and the mode is set.\<close>

definition finish_file :: "fpath \<Rightarrow> nat \<Rightarrow> nat \<Rightarrow> extract_state \<Rightarrow> extract_state \<times> (extract_error + unit)" where
  "finish_file p mode n st =
     (let st = st\<lparr>es_out := (es_out st)\<lparr>ex_bytes := ex_bytes (es_out st) + n\<rparr>\<rparr> in
      if fw_refuses (es_world st) OpChmod p then (st, Inl (ExtractIo (fw_chmod_error (es_world st))))
      else (st\<lparr>es_world := fs_update p (set_node_mode (normal_mode mode)) (es_world st)\<rparr>, Inr ()))"

text \<open>The copy with its hard stop, into the file just created.\<close>

definition copy_content :: "fetch_limits \<Rightarrow> fpath \<Rightarrow> tar_entry \<Rightarrow> nat \<Rightarrow> str \<Rightarrow> extract_state \<Rightarrow> extract_state \<times> (extract_error + unit)" where
  "copy_content L p e mode display st =
     (let room = min (fl_max_file_bytes L) (fl_max_total_bytes L - ex_bytes (es_out st));
          written = take (room + 1) (te_data e);
          st = st\<lparr>es_world := fs_update p (write_data written) (es_world st)\<rparr>
      in case (if length (te_data e) \<le> room then te_fail e else None) of
           Some err \<Rightarrow> (st, Inl (stream_err L err))
         | None \<Rightarrow>
             if length written > fl_max_file_bytes L then (st, Inl (Rejected display (FileTooLarge (fl_max_file_bytes L))))
             else if length written > room then (st, Inl (ContentTooLarge (fl_max_total_bytes L)))
             else finish_file p mode (length written) st)"

definition write_file :: "fetch_limits \<Rightarrow> fpath \<Rightarrow> tar_entry \<Rightarrow> fpath \<Rightarrow> nat \<Rightarrow> str \<Rightarrow> extract_state \<Rightarrow>
    extract_state \<times> (extract_error + unit)" where
  "write_file L dest e rel mode display st =
     (if (case te_size e of None \<Rightarrow> 0 | Some n \<Rightarrow> n) > fl_max_file_bytes L
      then (st, Inl (Rejected display (FileTooLarge (fl_max_file_bytes L))))
      else
        let (st, r) = make_dirs dest (butlast rel) st in
        case r of
          Inl x \<Rightarrow> (st, Inl (Rejected display x))
        | Inr _ \<Rightarrow>
            (case fs_place OpCreate (dest @ rel) (NFile [] (fw_new_mode (es_world st))) (es_world st) of
               None \<Rightarrow> (st, Inl (Rejected display Conflict))
             | Some w \<Rightarrow> copy_content L (dest @ rel) e mode display (st\<lparr>es_world := w\<rparr>)))"

text \<open>The lexical walk of a link's target from the link's own directory.\<close>

fun link_bounds :: "component list \<Rightarrow> fpath \<Rightarrow> rejection + fpath" where
  "link_bounds [] stack = Inr stack"
| "link_bounds (CurDir # cs) stack = link_bounds cs stack"
| "link_bounds (ParentDir # cs) stack = (if stack = [] then Inl SymlinkEscapesRoot else link_bounds cs (butlast stack))"
| "link_bounds (Normal n # cs) stack = link_bounds cs (stack @ [n])"
| "link_bounds (RootDir # cs) stack = Inl AbsoluteSymlinkTarget"

definition write_symlink :: "fpath \<Rightarrow> fpath \<Rightarrow> bytes \<Rightarrow> str \<Rightarrow> extract_state \<Rightarrow> extract_state \<times> (extract_error + unit)" where
  "write_symlink dest rel target display st =
     (if path_is_absolute target then (st, Inl (Rejected display AbsoluteSymlinkTarget))
      else case link_bounds (path_components target) (butlast rel) of
        Inl x \<Rightarrow> (st, Inl (Rejected display x))
      | Inr _ \<Rightarrow>
          (let (st, r) = make_dirs dest (butlast rel) st in
           case r of
             Inl x \<Rightarrow> (st, Inl (Rejected display x))
           | Inr _ \<Rightarrow>
               (case fs_place OpLink (dest @ rel) (NLink target) (es_world st) of
                  None \<Rightarrow> (st, Inl (Rejected display Conflict))
                | Some w \<Rightarrow> (st\<lparr>es_world := w, es_symlinks := es_symlinks st @ [rel]\<rparr>, Inr ()))))"

text \<open>Run the second part when the first succeeded, and count.\<close>

definition and_then :: "'s \<times> ('e + 'a) \<Rightarrow> ('s \<Rightarrow> 's \<times> ('e + 'b)) \<Rightarrow> 's \<times> ('e + 'b)" where
  "and_then r f = (case snd r of Inl x \<Rightarrow> (fst r, Inl x) | Inr _ \<Rightarrow> f (fst r))"

definition count :: "(extracted \<Rightarrow> extracted) \<Rightarrow> extract_state \<Rightarrow> extract_state \<times> (extract_error + unit)" where
  "count f st = (st\<lparr>es_out := f (es_out st)\<rparr>, Inr ())"

definition extract_kind :: "(str \<Rightarrow> str) \<Rightarrow> fetch_limits \<Rightarrow> fpath \<Rightarrow> tar_entry \<Rightarrow> fpath \<Rightarrow> nat \<Rightarrow> str \<Rightarrow> extract_state \<Rightarrow>
    extract_state \<times> (extract_error + unit)" where
  "extract_kind nfc L dest e rel mode display st =
     (let special = (\<lambda>k. (st, Inl (Rejected display (SpecialFile k)))) in
      case te_kind e of
        Directory \<Rightarrow>
          and_then (claim nfc rel display st) (\<lambda>st.
          and_then (reject_as display (make_dirs dest rel st)) (count (\<lambda>x. x\<lparr>ex_dirs := Suc (ex_dirs x)\<rparr>)))
      | Symlink \<Rightarrow>
          and_then (claim nfc rel display st) (\<lambda>st.
            case te_link e of
              Inl _ \<Rightarrow> (st, Inl (Rejected display NonUtf8Path))
            | Inr None \<Rightarrow> (st, Inl (Malformed (lit ''symlink entry without a target'')))
            | Inr (Some target) \<Rightarrow>
                and_then (write_symlink dest rel target display st) (count (\<lambda>x. x\<lparr>ex_symlinks := Suc (ex_symlinks x)\<rparr>)))
      | Link \<Rightarrow> (st, Inl (Rejected display HardLink))
      | Char_dev \<Rightarrow> special (lit ''character device'')
      | Block_dev \<Rightarrow> special (lit ''block device'')
      | Fifo \<Rightarrow> special (lit ''fifo'')
      | Other_type \<Rightarrow> special (lit ''unsupported type'')
      | XGlobalHeader \<Rightarrow> (st, Inr ())
      | _ \<Rightarrow>
          and_then (claim nfc rel display st) (\<lambda>st.
          and_then (write_file L dest e rel mode display st) (count (\<lambda>x. x\<lparr>ex_files := Suc (ex_files x)\<rparr>))))"

definition extract_entry :: "(str \<Rightarrow> str) \<Rightarrow> fetch_limits \<Rightarrow> fpath \<Rightarrow> tar_entry \<Rightarrow> extract_state \<Rightarrow>
    extract_state \<times> (extract_error + unit)" where
  "extract_entry nfc L dest e st =
     (if te_kind e = XGlobalHeader then (st, Inr ())
      else
        let display = display_path (te_path_bytes e); o' = es_out st;
            mode = (case te_mode e of Some m \<Rightarrow> m | None \<Rightarrow> 0x1A4)
        in
        if ex_files o' + ex_dirs o' + ex_symlinks o' \<ge> fl_max_entries L then (st, Inl (TooManyEntries (fl_max_entries L)))
        else if privileged mode then (st, Inl (Rejected display (PrivilegedMode mode)))
        else case te_path e of
          None \<Rightarrow> (st, Inl (Rejected display NonUtf8Path))
        | Some p \<Rightarrow>
            (case check_path L p of
               Inl r \<Rightarrow> (st, Inl (Rejected display r))
             | Inr None \<Rightarrow> (st, Inr ())
             | Inr (Some rel) \<Rightarrow>
                 (case check_symlink_ancestors st rel of
                    Inl r \<Rightarrow> (st, Inl (Rejected display r))
                  | Inr _ \<Rightarrow> extract_kind nfc L dest e rel mode display st)))"

fun extract_entries :: "(str \<Rightarrow> str) \<Rightarrow> fetch_limits \<Rightarrow> fpath \<Rightarrow> archive \<Rightarrow> extract_state \<Rightarrow> extract_state \<times> (extract_error + unit)" where
  "extract_entries nfc L dest [] st = (st, Inr ())"
| "extract_entries nfc L dest (i # is) st =
     (case i of
        Inl err \<Rightarrow> (st, Inl (stream_err L err))
      | Inr e \<Rightarrow> and_then (extract_entry nfc L dest e st) (extract_entries nfc L dest is))"

definition extract_start :: "fs_world \<Rightarrow> extract_state" where
  "extract_start w = \<lparr>es_world = w, es_claimed = [], es_dirs = [], es_symlinks = [],
     es_out = \<lparr>ex_files = 0, ex_dirs = 0, ex_symlinks = 0, ex_bytes = 0\<rparr>\<rparr>"

text \<open>
  \<open>extract_into\<close>: the listing of the destination (an error's text, or whether it has an entry), what opening
  the archive gives, and the entries. The state is left as it is at the point of an error.
\<close>

definition extract_into :: "(str \<Rightarrow> str) \<Rightarrow> str + bool \<Rightarrow> str + archive \<Rightarrow> fpath \<Rightarrow> fetch_limits \<Rightarrow> fs_world \<Rightarrow>
    fs_world \<times> (extract_error + extracted)" where
  "extract_into nfc listing arc dest L w =
     (case listing of
        Inl e \<Rightarrow> (w, Inl (ExtractIo e))
      | Inr True \<Rightarrow> (w, Inl DestinationNotEmpty)
      | Inr False \<Rightarrow>
          (case arc of
             Inl e \<Rightarrow> (w, Inl (Malformed e))
           | Inr items \<Rightarrow>
               let (st, r) = extract_entries nfc L dest items (extract_start w)
               in (es_world st, case r of Inl x \<Rightarrow> Inl x | Inr _ \<Rightarrow> Inr (es_out st))))"

section \<open>Resolution without links\<close>

fun dirs_down :: "nodes \<Rightarrow> fpath \<Rightarrow> fpath \<Rightarrow> bool" where
  "dirs_down ns cur [] \<longleftrightarrow> True"
| "dirs_down ns cur (n # p) \<longleftrightarrow> ns (cur @ [n]) = Some NDir \<and> dirs_down ns (cur @ [n]) p"

lemma dirs_down_append: "dirs_down ns cur (p @ q) \<longleftrightarrow> dirs_down ns cur p \<and> dirs_down ns (cur @ p) q"
  by (induction p arbitrary: cur) auto

lemma dirs_down_mono: "dirs_down ns cur p \<Longrightarrow> (\<And>q. ns q = Some NDir \<Longrightarrow> ns' q = Some NDir) \<Longrightarrow> dirs_down ns' cur p"
  by (induction p arbitrary: cur) auto

lemma dirs_down_end: "dirs_down ns cur p \<Longrightarrow> p \<noteq> [] \<Longrightarrow> ns (cur @ p) = Some NDir"
  by (induction p arbitrary: cur) (auto, metis append_Cons append_Nil append_assoc dirs_down.simps)

lemma resolve_dirs: "dirs_down ns cur p \<Longrightarrow> fs_resolve k ns cur (map Normal p @ cs) = fs_resolve k ns (cur @ p) cs"
  by (induction p arbitrary: cur) auto

lemma resolve_file:
  assumes "dirs_down ns [] (butlast p)" and "p \<noteq> []" and "ns p = Some (NFile bs m)"
  shows "fs_resolve k ns [] (map Normal p) = Some p"
proof -
  have p: "map Normal p = map Normal (butlast p) @ [Normal (last p)]" using assms(2) by (metis append_butlast_last_id map_append list.map(1,2))
  show ?thesis unfolding p resolve_dirs [OF assms(1)] using assms(2,3) by simp
qed

lemma fs_place_at:
  assumes "fs_place op p nd w = Some w'" and "dirs_down (fw_nodes w) [] (butlast p)"
  shows "p \<noteq> [] \<and> fw_nodes w p = None \<and> w' = w\<lparr>fw_nodes := (fw_nodes w)(p \<mapsto> nd)\<rparr>"
proof -
  have "parent_of (fw_nodes w) p = Some (butlast p)"
    using resolve_dirs [OF assms(2), of MAX_LINKS "[]"] by (simp add: parent_of_def)
  with assms(1) show ?thesis by (auto simp: fs_place_def split: if_splits)
qed

lemma fs_update_file:
  assumes "dirs_down (fw_nodes w) [] (butlast p)" and "p \<noteq> []" and "fw_nodes w p = Some (NFile bs m)"
  shows "fs_update p f w = w\<lparr>fw_nodes := (fw_nodes w)(p \<mapsto> f (NFile bs m))\<rparr>"
  using resolve_file [OF assms] assms(3) by (simp add: fs_update_def)

section \<open>What extraction keeps\<close>

definition below :: "fpath \<Rightarrow> fpath \<Rightarrow> bool" where
  "below dest p \<longleftrightarrow> take (length dest) p = dest \<and> length dest < length p"

lemma below_append [simp]: "below dest (dest @ q) \<longleftrightarrow> q \<noteq> []"
  by (simp add: below_def)

definition name_ok :: "fetch_limits \<Rightarrow> bytes \<Rightarrow> bool" where
  "name_ok L n \<longleftrightarrow> length n \<le> fl_max_name_bytes L \<and>
     (case from_utf8 n of None \<Rightarrow> False | Some s \<Rightarrow> 0x5C \<notin> set s \<and> \<not> list_ex is_control s)"

definition path_ok :: "fetch_limits \<Rightarrow> fpath \<Rightarrow> bool" where
  "path_ok L q \<longleftrightarrow> length q \<le> fl_max_path_depth L \<and> list_all (name_ok L) q"

definition node_ok :: "fetch_limits \<Rightarrow> fpath \<Rightarrow> node option \<Rightarrow> bool" where
  "node_ok L q nd \<longleftrightarrow>
     (case nd of
        None \<Rightarrow> True
      | Some NDir \<Rightarrow> path_ok L q
      | Some (NFile bs m) \<Rightarrow> path_ok L q \<and> length bs \<le> fl_max_file_bytes L \<and> (m = 0x1A4 \<or> m = 0x1ED)
      | Some (NLink t) \<Rightarrow> path_ok L q \<and> \<not> path_is_absolute t \<and> (case link_bounds (path_components t) (butlast q) of Inr _ \<Rightarrow> True | Inl _ \<Rightarrow> False))"

definition node_bytes :: "node option \<Rightarrow> nat" where
  "node_bytes nd = (case nd of Some (NFile bs _) \<Rightarrow> length bs | _ \<Rightarrow> 0)"

abbreviation es_nodes :: "extract_state \<Rightarrow> nodes" where
  "es_nodes st \<equiv> fw_nodes (es_world st)"

definition confined :: "nodes \<Rightarrow> fpath \<Rightarrow> extract_state \<Rightarrow> bool" where
  "confined ns0 dest st \<longleftrightarrow> (\<forall>p. \<not> below dest p \<longrightarrow> es_nodes st p = ns0 p) \<and> dirs_down (es_nodes st) [] dest \<and>
     (\<forall>q\<in>set (es_dirs st). q \<noteq> [] \<and> es_nodes st (dest @ q) = Some NDir)"

definition entries_count :: "extracted \<Rightarrow> nat" where
  "entries_count x = ex_files x + ex_dirs x + ex_symlinks x"

definition tree_within :: "fetch_limits \<Rightarrow> fpath \<Rightarrow> nat \<Rightarrow> extract_state \<Rightarrow> bool" where
  "tree_within L dest c st \<longleftrightarrow> entries_count (es_out st) \<le> c \<and> ex_bytes (es_out st) \<le> fl_max_total_bytes L \<and>
     (\<forall>q. q \<noteq> [] \<longrightarrow> node_ok L q (es_nodes st (dest @ q))) \<and>
     (\<forall>qs. distinct qs \<and> [] \<notin> set qs \<longrightarrow> sum_list (map (\<lambda>q. node_bytes (es_nodes st (dest @ q))) qs) \<le> ex_bytes (es_out st))"

text \<open>Two runs of directories: what \<open>make_dirs\<close> may change.\<close>

definition grown :: "fpath \<Rightarrow> fpath \<Rightarrow> nodes \<Rightarrow> nodes \<Rightarrow> bool" where
  "grown dest rel ns ns' \<longleftrightarrow> (\<forall>p. ns' p = ns p \<or>
     (ns p = None \<and> ns' p = Some NDir \<and> (\<exists>j<length rel. p = dest @ take (Suc j) rel)))"

lemma grown_refl: "grown dest rel ns ns"
  by (simp add: grown_def)

lemma grown_trans: "grown dest rel a b \<Longrightarrow> grown dest rel b c \<Longrightarrow> grown dest rel a c"
  unfolding grown_def by metis

lemma grown_longer: "grown dest p a b \<Longrightarrow> grown dest (p @ q) a b"
  unfolding grown_def by (metis (no_types, lifting) Suc_leI le_eq_less_or_eq length_append take_append diff_is_0_eq append_Nil2 take0 trans_less_add1)

lemma make_prefixes_append: "make_prefixes dest (ps @ qs) st =
    (case make_prefixes dest ps st of (st', Inl x) \<Rightarrow> (st', Inl x) | (st', Inr _) \<Rightarrow> make_prefixes dest qs st')"
  by (induction dest ps st rule: make_prefixes.induct) (auto split: option.splits)

lemma prefixes_of_snoc: "prefixes_of (p @ [x]) = prefixes_of p @ [p @ [x]]"
  by (simp add: prefixes_of_def)

lemma confined_mkdir:
  assumes c: "confined ns0 dest st" and new: "es_nodes st (dest @ q) = None" and "q \<noteq> []"
  shows "confined ns0 dest (st\<lparr>es_world := (es_world st)\<lparr>fw_nodes := (es_nodes st)(dest @ q \<mapsto> nd)\<rparr>,
    es_dirs := es_dirs st @ (if nd = NDir then [q] else [])\<rparr>)"
proof -
  have "dirs_down ((es_nodes st)(dest @ q \<mapsto> nd)) [] dest"
    by (rule dirs_down_mono [of "es_nodes st"]) (use c new in \<open>auto simp: confined_def\<close>)
  with assms show ?thesis by (auto simp: confined_def)
qed

lemma make_dirs_grown:
  assumes "confined ns0 dest st" and "make_dirs dest rel st = (st', r)"
  shows "confined ns0 dest st' \<and> grown dest rel (es_nodes st) (es_nodes st') \<and> es_out st' = es_out st \<and>
    (\<forall>a. r = Inr a \<longrightarrow> dirs_down (es_nodes st') [] (dest @ rel))"
  using assms(2)
proof (induction rel arbitrary: st' r rule: rev_induct)
  case Nil
  with assms(1) show ?case by (auto simp: make_dirs_def prefixes_of_def grown_refl confined_def)
next
  case (snoc x p)
  obtain st1 r1 where p: "make_dirs dest p st = (st1, r1)" by (cases "make_dirs dest p st")
  note IH = snoc.IH [OF p]
  show ?case
  proof (cases r1)
    case (Inl e)
    with snoc.prems p have "st' = st1" "r = Inl e" by (auto simp: make_dirs_def prefixes_of_snoc make_prefixes_append)
    with IH Inl show ?thesis by (auto intro: grown_longer)
  next
    case (Inr u)
    with snoc.prems p have step: "make_prefixes dest [p @ [x]] st1 = (st', r)"
      by (simp add: make_dirs_def prefixes_of_snoc make_prefixes_append)
    from IH Inr have down: "dirs_down (es_nodes st1) [] (dest @ p)" and c1: "confined ns0 dest st1" by auto
    show ?thesis
    proof (cases "p @ [x] \<in> set (es_dirs st1)")
      case True
      with step have "st' = st1" "r = Inr ()" by auto
      moreover have "es_nodes st1 (dest @ p @ [x]) = Some NDir" using c1 True by (auto simp: confined_def)
      ultimately show ?thesis using IH down by (auto simp: dirs_down_append intro: grown_longer)
    next
      case False
      show ?thesis
      proof (cases "fs_place OpMkdir (dest @ p @ [x]) NDir (es_world st1)")
        case None
        with step False have "st' = st1" "r = Inl Conflict" by auto
        with IH show ?thesis by (auto intro: grown_longer)
      next
        case (Some w)
        with step False have st': "st' = st1\<lparr>es_world := w, es_dirs := es_dirs st1 @ [p @ [x]]\<rparr>" "r = Inr ()" by auto
        have "dirs_down (fw_nodes (es_world st1)) [] (butlast (dest @ p @ [x]))" using down by (simp add: butlast_append)
        from fs_place_at [OF Some this] have new: "es_nodes st1 (dest @ p @ [x]) = None"
          and w: "w = (es_world st1)\<lparr>fw_nodes := (es_nodes st1)(dest @ p @ [x] \<mapsto> NDir)\<rparr>" by auto
        have "grown dest (p @ [x]) (es_nodes st1) (es_nodes st')" using new unfolding st' w grown_def by auto
        moreover have "confined ns0 dest st'" using confined_mkdir [OF c1 new, of NDir] unfolding st' w by simp
        moreover have "dirs_down (es_nodes st') [] ((dest @ p) @ [x])"
        proof -
          have "dirs_down (es_nodes st') [] (dest @ p)"
            by (rule dirs_down_mono [OF down]) (use new in \<open>auto simp: st' w\<close>)
          moreover have "es_nodes st' (dest @ p @ [x]) = Some NDir" by (simp add: st' w)
          ultimately show ?thesis unfolding dirs_down_append by simp
        qed
        moreover have "grown dest (p @ [x]) (es_nodes st) (es_nodes st1)" using IH by (auto intro: grown_longer)
        moreover have "es_out st' = es_out st" using IH st'(1) by simp
        ultimately show ?thesis by (auto intro: grown_trans)
      qed
    qed
  qed
qed

lemma confined_set:
  assumes "confined ns0 dest st" and "es_nodes st (dest @ q) \<noteq> Some NDir" and "q \<noteq> []"
    and "es_nodes st' = (es_nodes st)(dest @ q \<mapsto> nd)" and "es_dirs st' = es_dirs st"
  shows "confined ns0 dest st'"
proof -
  have "dirs_down (es_nodes st') [] dest"
    by (rule dirs_down_mono [of "es_nodes st"]) (use assms in \<open>auto simp: confined_def\<close>)
  with assms show ?thesis by (auto simp: confined_def)
qed

lemma path_ok_take: "path_ok L q \<Longrightarrow> path_ok L (take n q)"
  by (auto simp: path_ok_def list_all_iff dest: in_set_takeD)

lemma grown_within:
  assumes "tree_within L dest c st" and "grown dest rel (es_nodes st) (es_nodes st')" and "path_ok L rel" and "es_out st' = es_out st"
  shows "tree_within L dest c st'"
proof -
  have same: "node_bytes (es_nodes st' p) = node_bytes (es_nodes st p)" for p
  proof -
    have "es_nodes st' p = es_nodes st p \<or> (es_nodes st p = None \<and> es_nodes st' p = Some NDir)"
      using assms(2) unfolding grown_def by blast
    then show ?thesis by (auto simp: node_bytes_def)
  qed
  have "node_ok L q (es_nodes st' (dest @ q))" if "q \<noteq> []" for q
  proof (cases "es_nodes st' (dest @ q) = es_nodes st (dest @ q)")
    case True
    with assms(1) that show ?thesis by (simp add: tree_within_def)
  next
    case False
    with assms(2) obtain j where "es_nodes st' (dest @ q) = Some NDir" "dest @ q = dest @ take (Suc j) rel"
      unfolding grown_def by metis
    with path_ok_take [OF assms(3)] show ?thesis by (simp add: node_ok_def)
  qed
  with assms(1,4) same show ?thesis by (simp add: tree_within_def)
qed

lemma sum_list_update:
  assumes "distinct qs"
  shows "sum_list (map (\<lambda>q. if q = r then a else f q) qs) \<le> sum_list (map f qs) + (a :: nat)"
  using assms
proof (induction qs)
  case (Cons q qs)
  show ?case
  proof (cases "q = r")
    case True
    with Cons.prems have "map (\<lambda>q. if q = r then a else f q) qs = map f qs" by (intro map_cong) auto
    then have "sum_list (map (\<lambda>q. if q = r then a else f q) qs) = sum_list (map f qs)" by (rule arg_cong)
    with True show ?thesis by simp
  next
    case False
    with Cons show ?thesis by simp
  qed
qed simp

lemma within_place:
  assumes "tree_within L dest c st" and "es_nodes st' = (es_nodes st)(dest @ rel \<mapsto> nd)" and "node_ok L rel (Some nd)"
    and "entries_count (es_out st') \<le> c" and "ex_bytes (es_out st') = ex_bytes (es_out st) + node_bytes (Some nd)"
    and "ex_bytes (es_out st') \<le> fl_max_total_bytes L"
  shows "tree_within L dest c st'"
proof -
  have "sum_list (map (\<lambda>q. node_bytes (es_nodes st' (dest @ q))) qs) \<le> ex_bytes (es_out st')" if "distinct qs" "[] \<notin> set qs" for qs
  proof -
    have "(\<lambda>q. node_bytes (es_nodes st' (dest @ q))) = (\<lambda>q. if q = rel then node_bytes (Some nd) else node_bytes (es_nodes st (dest @ q)))"
      using assms(2) by auto
    then have "sum_list (map (\<lambda>q. node_bytes (es_nodes st' (dest @ q))) qs) \<le>
        sum_list (map (\<lambda>q. node_bytes (es_nodes st (dest @ q))) qs) + node_bytes (Some nd)"
      using sum_list_update [OF that(1)] by simp
    also have "\<dots> \<le> ex_bytes (es_out st')" using assms(1,5) that by (simp add: tree_within_def)
    finally show ?thesis .
  qed
  with assms show ?thesis by (simp add: tree_within_def)
qed

definition safe :: "nodes \<Rightarrow> fetch_limits \<Rightarrow> fpath \<Rightarrow> nat \<Rightarrow> extract_state \<times> ('e + 'a) \<Rightarrow> bool" where
  "safe ns0 L dest c r \<longleftrightarrow> confined ns0 dest (fst r) \<and> (\<forall>a. snd r = Inr a \<longrightarrow> tree_within L dest c (fst r))"

lemma safe_error: "confined ns0 dest st \<Longrightarrow> safe ns0 L dest c (st, Inl x)"
  by (simp add: safe_def)

lemma safe_and_then:
  assumes "safe ns0 L dest c r" and "\<And>st. confined ns0 dest st \<Longrightarrow> tree_within L dest c st \<Longrightarrow> safe ns0 L dest d (f st)"
  shows "safe ns0 L dest d (and_then r f)"
  using assms by (auto simp: safe_def and_then_def split: sum.splits)

lemma safe_same:
  assumes "confined ns0 dest st" and "tree_within L dest c st"
    and "es_world st' = es_world st" "es_dirs st' = es_dirs st" "es_out st' = es_out st"
  shows "safe ns0 L dest c (st', r)"
  using assms by (simp add: safe_def confined_def tree_within_def)

text \<open>A file that was just created: \<open>st\<close> is \<open>st1\<close> but for the node at its path.\<close>

definition just_created :: "fpath \<Rightarrow> fpath \<Rightarrow> bytes \<Rightarrow> extract_state \<Rightarrow> extract_state \<Rightarrow> bool" where
  "just_created dest rel bs st1 st \<longleftrightarrow> rel \<noteq> [] \<and> dirs_down (es_nodes st) [] (butlast (dest @ rel)) \<and> es_nodes st1 (dest @ rel) = None \<and>
     es_out st = es_out st1 \<and> (\<exists>m. es_nodes st = (es_nodes st1)(dest @ rel \<mapsto> NFile bs m))"

lemma opened_update:
  assumes "just_created dest rel bs st1 st" and "es_world st' = es_world st" and "f (NFile bs m) = NFile bs' m'"
    and "\<And>m. \<exists>m'. f (NFile bs m) = NFile bs' m'"
  shows "\<exists>m'. fw_nodes (fs_update (dest @ rel) f (es_world st')) = (es_nodes st1)(dest @ rel \<mapsto> NFile bs' m') \<and>
    (\<exists>m. NFile bs' m' = f (NFile bs m))"
proof -
  from assms(1) obtain m0 where n: "es_nodes st = (es_nodes st1)(dest @ rel \<mapsto> NFile bs m0)" by (auto simp: just_created_def)
  from assms(4) [of m0] obtain m1 where m1: "f (NFile bs m0) = NFile bs' m1" by auto
  have "fs_update (dest @ rel) f (es_world st) = (es_world st)\<lparr>fw_nodes := (es_nodes st)(dest @ rel \<mapsto> f (NFile bs m0))\<rparr>"
    by (rule fs_update_file) (use assms(1) n in \<open>auto simp: just_created_def\<close>)
  with n m1 assms(2) show ?thesis by (intro exI [of _ m1]) (auto intro: exI [of _ m0])
qed

lemma finish_file_safe:
  assumes o: "just_created dest rel bs st1 st" and c: "confined ns0 dest st" and w: "tree_within L dest c st1" and ok: "path_ok L rel"
    and len: "length bs \<le> fl_max_file_bytes L" "length bs \<le> fl_max_total_bytes L - ex_bytes (es_out st1)"
  shows "safe ns0 L dest c (finish_file (dest @ rel) mode (length bs) st)"
proof -
  define st2 where "st2 = st\<lparr>es_out := (es_out st)\<lparr>ex_bytes := ex_bytes (es_out st) + length bs\<rparr>\<rparr>"
  define st3 where "st3 = st2\<lparr>es_world := fs_update (dest @ rel) (set_node_mode (normal_mode mode)) (es_world st2)\<rparr>"
  have c2: "confined ns0 dest st2" using c by (simp add: st2_def confined_def)
  from opened_update [OF o, of st2 "set_node_mode (normal_mode mode)" 0 bs "normal_mode mode"]
  have n3: "es_nodes st3 = (es_nodes st1)(dest @ rel \<mapsto> NFile bs (normal_mode mode))" by (auto simp: st2_def st3_def)
  from o obtain m where "es_nodes st2 = (es_nodes st1)(dest @ rel \<mapsto> NFile bs m)" by (auto simp: just_created_def st2_def)
  with n3 have c3: "confined ns0 dest st3"
    using o by (intro confined_set [OF c2, of rel]) (auto simp: st3_def just_created_def)
  have out: "es_out st3 = (es_out st1)\<lparr>ex_bytes := ex_bytes (es_out st1) + length bs\<rparr>" using o by (simp add: st3_def st2_def just_created_def)
  have "ex_bytes (es_out st1) \<le> fl_max_total_bytes L" using w by (simp add: tree_within_def)
  with len(2) have "ex_bytes (es_out st1) + length bs \<le> fl_max_total_bytes L" by (simp add: le_diff_conv2)
  then have "tree_within L dest c st3"
    by (intro within_place [OF w n3])
      (use w ok len in \<open>simp_all add: out tree_within_def entries_count_def node_ok_def normal_mode_def node_bytes_def\<close>)
  with c2 c3 show ?thesis
    by (simp add: finish_file_def Let_def st2_def [symmetric] st3_def [symmetric] safe_def)
qed

lemma copy_content_safe:
  assumes o: "just_created dest rel [] st1 st" and c: "confined ns0 dest st" and w: "tree_within L dest c st1" and ok: "path_ok L rel"
  shows "safe ns0 L dest c (copy_content L (dest @ rel) e mode display st)"
proof -
  define room where "room = min (fl_max_file_bytes L) (fl_max_total_bytes L - ex_bytes (es_out st))"
  define bs where "bs = take (room + 1) (te_data e)"
  define st2 where "st2 = st\<lparr>es_world := fs_update (dest @ rel) (write_data bs) (es_world st)\<rparr>"
  from opened_update [OF o, of st "write_data bs" 0 bs 0]
  obtain m where n2: "es_nodes st2 = (es_nodes st1)(dest @ rel \<mapsto> NFile bs m)" by (auto simp: st2_def)
  have c2: "confined ns0 dest st2"
    using o n2 by (intro confined_set [OF c, of rel]) (auto simp: st2_def just_created_def)
  have "dirs_down (es_nodes st2) [] (butlast (dest @ rel))"
    by (rule dirs_down_mono [of "es_nodes st"]) (use o n2 in \<open>auto simp: just_created_def split: if_splits\<close>)
  with o n2 have o2: "just_created dest rel bs st1 st2" by (auto simp: just_created_def st2_def)
  have "safe ns0 L dest c (finish_file (dest @ rel) mode (length bs) st2)" if "length bs \<le> fl_max_file_bytes L" "length bs \<le> room"
    by (rule finish_file_safe [OF o2 c2 w ok that(1)]) (use that(2) o in \<open>simp add: room_def just_created_def\<close>)
  with c2 show ?thesis
    unfolding copy_content_def Let_def room_def [symmetric] bs_def [symmetric] st2_def [symmetric]
    by (auto simp: safe_error split: option.splits)
qed

text \<open>After \<open>make_dirs\<close> on the parent, the place of a new node.\<close>

lemma placed:
  assumes "confined ns0 dest st" and "tree_within L dest c st" and "path_ok L rel" and "rel \<noteq> []" and "make_dirs dest (butlast rel) st = (st1, r)"
  shows "confined ns0 dest st1 \<and> tree_within L dest c st1 \<and>
    (r = Inr () \<longrightarrow> fs_place op (dest @ rel) nd (es_world st1) = Some w \<longrightarrow>
      es_nodes st1 (dest @ rel) = None \<and> w = (es_world st1)\<lparr>fw_nodes := (es_nodes st1)(dest @ rel \<mapsto> nd)\<rparr> \<and>
      dirs_down (fw_nodes w) [] (butlast (dest @ rel)))"
proof -
  note g = make_dirs_grown [OF assms(1,5)]
  have "path_ok L (butlast rel)" using path_ok_take [OF assms(3)] by (simp add: butlast_conv_take)
  with g assms(2) have w1: "tree_within L dest c st1" by (blast intro: grown_within)
  show ?thesis
  proof (intro conjI impI)
    assume r: "r = Inr ()" and p: "fs_place op (dest @ rel) nd (es_world st1) = Some w"
    have down: "dirs_down (es_nodes st1) [] (butlast (dest @ rel))" using g r assms(4) by (simp add: butlast_append)
    from fs_place_at [OF p down] show new: "es_nodes st1 (dest @ rel) = None"
      and w: "w = (es_world st1)\<lparr>fw_nodes := (es_nodes st1)(dest @ rel \<mapsto> nd)\<rparr>" by auto
    show "dirs_down (fw_nodes w) [] (butlast (dest @ rel))"
      by (rule dirs_down_mono [OF down]) (use new w in auto)
  qed (use g w1 in auto)
qed

lemma write_file_safe:
  assumes "confined ns0 dest st" and "tree_within L dest c st" and "path_ok L rel" and "rel \<noteq> []"
  shows "safe ns0 L dest c (write_file L dest e rel mode display st)"
proof -
  obtain st1 r where md: "make_dirs dest (butlast rel) st = (st1, r)" by (cases "make_dirs dest (butlast rel) st")
  note p = placed [OF assms md]
  have "safe ns0 L dest c (copy_content L (dest @ rel) e mode display (st1\<lparr>es_world := w\<rparr>))"
    if "r = Inr ()" "fs_place OpCreate (dest @ rel) (NFile [] (fw_new_mode (es_world st1))) (es_world st1) = Some w" for w
  proof (rule copy_content_safe)
    from placed [OF assms md, of OpCreate "NFile [] (fw_new_mode (es_world st1))" w] that
    have new: "es_nodes st1 (dest @ rel) = None" and w: "fw_nodes w = (es_nodes st1)(dest @ rel \<mapsto> NFile [] (fw_new_mode (es_world st1)))"
      and down: "dirs_down (fw_nodes w) [] (butlast (dest @ rel))" by auto
    then show "just_created dest rel [] st1 (st1\<lparr>es_world := w\<rparr>)" using assms(4) by (auto simp: just_created_def)
    show "confined ns0 dest (st1\<lparr>es_world := w\<rparr>)"
      by (rule confined_set [of _ _ st1 rel]) (use p new w assms(4) in auto)
  qed (use p assms(3) in auto)
  with md p assms(1) show ?thesis by (cases r) (auto simp: write_file_def safe_error split: option.splits)
qed

lemma write_symlink_safe:
  assumes "confined ns0 dest st" and "tree_within L dest c st" and "path_ok L rel" and "rel \<noteq> []"
  shows "safe ns0 L dest c (write_symlink dest rel target display st)"
proof -
  obtain st1 r where md: "make_dirs dest (butlast rel) st = (st1, r)" by (cases "make_dirs dest (butlast rel) st")
  note p = placed [OF assms md]
  have "safe ns0 L dest c (st1\<lparr>es_world := w, es_symlinks := es_symlinks st1 @ [rel]\<rparr>, Inr () :: extract_error + unit)"
    if "r = Inr ()" "fs_place OpLink (dest @ rel) (NLink target) (es_world st1) = Some w"
      and t: "\<not> path_is_absolute target" "link_bounds (path_components target) (butlast rel) = Inr stack" for w stack
  proof -
    let ?st = "st1\<lparr>es_world := w, es_symlinks := es_symlinks st1 @ [rel]\<rparr>"
    from placed [OF assms md, of OpLink "NLink target" w] that
    have new: "es_nodes st1 (dest @ rel) = None" and w: "es_nodes ?st = (es_nodes st1)(dest @ rel \<mapsto> NLink target)" by auto
    have "confined ns0 dest ?st" by (rule confined_set [of _ _ st1 rel]) (use p new w assms(4) in auto)
    moreover have "tree_within L dest c ?st"
      by (rule within_place [OF conjunct1 [OF conjunct2 [OF p]] w])
        (use p t assms(3) in \<open>simp_all add: node_ok_def node_bytes_def tree_within_def\<close>)
    ultimately show ?thesis by (simp add: safe_def)
  qed
  with md p assms(1) show ?thesis
    by (cases r) (auto simp: write_symlink_def safe_error split: option.splits sum.splits)
qed

lemma claim_safe: "confined ns0 dest st \<Longrightarrow> tree_within L dest c st \<Longrightarrow> safe ns0 L dest c (claim nfc rel display st)"
  by (simp add: claim_def Let_def safe_same)

lemma count_safe:
  assumes "confined ns0 dest st" and "tree_within L dest c st"
    and "\<And>x. ex_bytes (f x) = ex_bytes x" and "\<And>x. entries_count (f x) \<le> Suc (entries_count x)"
  shows "safe ns0 L dest (Suc c) (count f st)"
proof -
  have "entries_count (f (es_out st)) \<le> Suc c" using assms(2) assms(4) [of "es_out st"] by (simp add: tree_within_def)
  with assms show ?thesis by (simp add: count_def safe_def confined_def tree_within_def)
qed

lemma reject_as_safe:
  assumes "confined ns0 dest st" and "tree_within L dest c st" and "path_ok L rel"
  shows "safe ns0 L dest c (reject_as display (make_dirs dest rel st))"
proof -
  obtain st1 r where md: "make_dirs dest rel st = (st1, r)" by (cases "make_dirs dest rel st")
  from make_dirs_grown [OF assms(1) md] grown_within [OF assms(2)] assms(3) show ?thesis
    unfolding md by (auto simp: safe_def reject_as_def)
qed

lemma extract_kind_safe:
  assumes "confined ns0 dest st" and "tree_within L dest c st" and "path_ok L rel" and "rel \<noteq> []"
  shows "safe ns0 L dest (Suc c) (extract_kind nfc L dest e rel mode display st)"
proof -
  have more: "tree_within L dest (Suc c) st" using assms(2) by (simp add: tree_within_def)
  have c1: "safe ns0 L dest c (claim nfc rel display st)" using claim_safe assms by blast
  have files: "safe ns0 L dest (Suc c) (and_then (claim nfc rel display st) (\<lambda>st.
      and_then (write_file L dest e rel mode display st) (count (\<lambda>x. x\<lparr>ex_files := Suc (ex_files x)\<rparr>))))"
  proof (rule safe_and_then [OF c1])
    fix st assume "confined ns0 dest st" "tree_within L dest c st"
    then show "safe ns0 L dest (Suc c) (and_then (write_file L dest e rel mode display st) (count (\<lambda>x. x\<lparr>ex_files := Suc (ex_files x)\<rparr>)))"
      by (intro safe_and_then [OF write_file_safe] count_safe assms(3,4)) (simp_all add: entries_count_def)
  qed
  have dirs: "safe ns0 L dest (Suc c) (and_then (claim nfc rel display st) (\<lambda>st.
      and_then (reject_as display (make_dirs dest rel st)) (count (\<lambda>x. x\<lparr>ex_dirs := Suc (ex_dirs x)\<rparr>))))"
  proof (rule safe_and_then [OF c1])
    fix st assume "confined ns0 dest st" "tree_within L dest c st"
    then show "safe ns0 L dest (Suc c) (and_then (reject_as display (make_dirs dest rel st)) (count (\<lambda>x. x\<lparr>ex_dirs := Suc (ex_dirs x)\<rparr>)))"
      by (intro safe_and_then [OF reject_as_safe] count_safe assms(3)) (simp_all add: entries_count_def)
  qed
  have link: "safe ns0 L dest (Suc c) (and_then (write_symlink dest rel target display st)
      (count (\<lambda>x. x\<lparr>ex_symlinks := Suc (ex_symlinks x)\<rparr>)))" if "confined ns0 dest st" "tree_within L dest c st" for st target
    by (rule safe_and_then [OF write_symlink_safe [OF that assms(3,4)]], rule count_safe) (simp_all add: entries_count_def)
  have links: "safe ns0 L dest (Suc c) (and_then (claim nfc rel display st) (\<lambda>st.
      case te_link e of
        Inl _ \<Rightarrow> (st, Inl (Rejected display NonUtf8Path))
      | Inr None \<Rightarrow> (st, Inl (Malformed (lit ''symlink entry without a target'')))
      | Inr (Some target) \<Rightarrow>
          and_then (write_symlink dest rel target display st) (count (\<lambda>x. x\<lparr>ex_symlinks := Suc (ex_symlinks x)\<rparr>))))"
    by (rule safe_and_then [OF c1]) (auto simp: safe_error link split: sum.splits option.splits)
  show ?thesis using files dirs links assms(1) more
    by (cases "te_kind e") (simp_all add: extract_kind_def safe_error safe_def [of _ _ _ _ "(st, Inr ())"])
qed

lemma check_components_ok:
  "check_components L cs out = Inr q \<Longrightarrow> path_ok L out \<Longrightarrow> path_ok L q"
proof (induction L cs out rule: check_components.induct)
  case (5 L os cs out)
  then show ?case by (auto simp: path_ok_def name_ok_def split: option.splits if_splits)
qed auto

lemma extract_entry_safe:
  assumes "confined ns0 dest st" and "tree_within L dest (fl_max_entries L) st"
  shows "safe ns0 L dest (fl_max_entries L) (extract_entry nfc L dest e st)"
proof -
  have same: "safe ns0 L dest (fl_max_entries L) (st, r)" for r using safe_same assms by blast
  have "safe ns0 L dest (fl_max_entries L) (extract_kind nfc L dest e rel mode display st)"
    if "\<not> fl_max_entries L \<le> entries_count (es_out st)" "check_path L p = Inr (Some rel)" for p rel mode display
  proof -
    from that(1) obtain c where c: "fl_max_entries L = Suc c" by (cases "fl_max_entries L") auto
    have "tree_within L dest c st" using assms(2) that(1) c by (auto simp: tree_within_def)
    moreover from that(2) have "check_components L (path_components p) [] = Inr rel" "rel \<noteq> []"
      by (auto simp: check_path_def split: sum.splits if_splits)
    then have "path_ok L rel" "rel \<noteq> []" using check_components_ok by (auto simp: path_ok_def)
    ultimately show ?thesis using extract_kind_safe [OF assms(1)] c by metis
  qed
  with same show ?thesis
    by (auto simp: extract_entry_def Let_def entries_count_def split: option.splits sum.splits)
qed

lemma extract_entries_safe:
  "confined ns0 dest st \<Longrightarrow> tree_within L dest (fl_max_entries L) st \<Longrightarrow> safe ns0 L dest (fl_max_entries L) (extract_entries nfc L dest is st)"
proof (induction "is" arbitrary: st)
  case Nil
  then show ?case by (simp add: safe_def)
next
  case (Cons i "is")
  show ?case
  proof (cases i)
    case (Inl err)
    with Cons.prems show ?thesis by (simp add: safe_error)
  next
    case (Inr e)
    with safe_and_then [OF extract_entry_safe [OF Cons.prems] Cons.IH] show ?thesis by simp
  qed
qed

text \<open>A path without links on it is walked as its target is walked lexically.\<close>

fun plain :: "nodes \<Rightarrow> fpath \<Rightarrow> component list \<Rightarrow> bool" where
  "plain ns cur [] \<longleftrightarrow> True"
| "plain ns cur (RootDir # cs) \<longleftrightarrow> plain ns [] cs"
| "plain ns cur (CurDir # cs) \<longleftrightarrow> plain ns cur cs"
| "plain ns cur (ParentDir # cs) \<longleftrightarrow> plain ns (butlast cur) cs"
| "plain ns cur (Normal n # cs) \<longleftrightarrow> (case ns (cur @ [n]) of Some (NLink _) \<Rightarrow> False | _ \<Rightarrow> plain ns (cur @ [n]) cs)"

lemma plain_link_stays:
  assumes "link_bounds cs stack = Inr out" and "plain ns (dest @ stack) cs" and "fs_resolve k ns (dest @ stack) cs = Some p"
  shows "p = dest @ out"
  using assms
proof (induction cs arbitrary: stack)
  case (Cons c cs)
  show ?case
  proof (cases c)
    case (Normal n)
    with Cons.prems Cons.IH [of "stack @ [n]"] show ?thesis by (auto split: option.splits node.splits if_splits)
  next
    case ParentDir
    with Cons.prems Cons.IH [of "butlast stack"] show ?thesis by (auto simp: butlast_append split: if_splits)
  qed (use Cons in auto)
qed simp

section \<open>The whole extraction\<close>

definition empty_dir :: "nodes \<Rightarrow> fpath \<Rightarrow> bool" where
  "empty_dir ns dest \<longleftrightarrow> (\<forall>q. q \<noteq> [] \<longrightarrow> ns (dest @ q) = None)"

text \<open>What is relied on: the listing of an empty directory has no entry, and only that of one.\<close>

definition listing_ok :: "nodes \<Rightarrow> fpath \<Rightarrow> str + bool \<Rightarrow> bool" where
  "listing_ok ns dest listing \<longleftrightarrow> (case listing of Inr has_entry \<Rightarrow> has_entry = (\<not> empty_dir ns dest) | Inl _ \<Rightarrow> True)"

lemma extract_into_cases:
  assumes "dirs_down (fw_nodes w) [] dest" and "listing_ok (fw_nodes w) dest listing"
  shows "(fst (extract_into nfc listing arc dest L w) = w \<and> (\<exists>x. snd (extract_into nfc listing arc dest L w) = Inl x)) \<or>
    (\<exists>r. safe (fw_nodes w) L dest (fl_max_entries L) r \<and> fst (extract_into nfc listing arc dest L w) = es_world (fst r) \<and>
      snd (extract_into nfc listing arc dest L w) = (case snd r of Inl x \<Rightarrow> Inl x | Inr (_ :: unit) \<Rightarrow> Inr (es_out (fst r))))"
proof (cases "listing = Inr False \<and> (\<exists>items. arc = Inr items)")
  case False
  then show ?thesis by (auto simp: extract_into_def split: sum.splits bool.splits)
next
  case True
  then obtain items where items: "arc = Inr items" by auto
  from True assms(2) have "empty_dir (fw_nodes w) dest" by (simp add: listing_ok_def)
  then have none: "fw_nodes w (dest @ q) = None" if "q \<noteq> []" for q
    using that by (simp add: empty_dir_def)
  have "confined (fw_nodes w) dest (extract_start w)" using assms(1) by (simp add: confined_def extract_start_def)
  moreover have "tree_within L dest (fl_max_entries L) (extract_start w)"
  proof -
    have "sum_list (map (\<lambda>q. node_bytes (fw_nodes w (dest @ q))) qs) = 0" if "[] \<notin> set qs" for qs
      using that by (induction qs) (auto simp: none node_bytes_def)
    with none show ?thesis by (auto simp: tree_within_def extract_start_def entries_count_def node_ok_def)
  qed
  ultimately have "safe (fw_nodes w) L dest (fl_max_entries L) (extract_entries nfc L dest items (extract_start w))"
    by (rule extract_entries_safe)
  with True items show ?thesis
    by (intro disjI2 exI [of _ "extract_entries nfc L dest items (extract_start w)"])
      (simp add: extract_into_def case_prod_unfold Let_def)
qed

section \<open>An archive of two links\<close>

definition link_entry :: "bytes \<Rightarrow> bytes \<Rightarrow> io_error + tar_entry" where
  "link_entry p target = Inr \<lparr>te_kind = Symlink, te_mode = Some 0x1FF, te_path_bytes = p, te_path = Some p, te_link = Inr (Some target),
     te_size = Some 0, te_data = [], te_fail = None\<rparr>"

definition link_chain :: archive where
  "link_chain = [link_entry (lit ''a/up'') (lit ''..''), link_entry (lit ''.hull'') (lit ''a/up/..'')]"

text \<open>NFC leaves ASCII text as it is.\<close>

definition nfc_ok :: "(str \<Rightarrow> str) \<Rightarrow> bool" where
  "nfc_ok nfc \<longleftrightarrow> (\<forall>s. list_all (\<lambda>c. c < 128) s \<longrightarrow> nfc s = s)"

definition sample_world :: fs_world where
  "sample_world = \<lparr>fw_nodes = (\<lambda>_. None)([lit ''t''] \<mapsto> NDir, [lit ''ci.star''] \<mapsto> NFile [1] 0x1A4), fw_refuses = (\<lambda>_ _. False),
     fw_new_mode = 0x1A4, fw_chmod_error = []\<rparr>"

lemma sample_ok: "dirs_down (fw_nodes sample_world) [] [lit ''t'']" "listing_ok (fw_nodes sample_world) [lit ''t''] (Inr False)"
  by (auto simp: sample_world_def listing_ok_def empty_dir_def)

lemma fs_place_new:
  assumes "dirs_down (fw_nodes w) [] (butlast p)" and "p \<noteq> []" and "fw_nodes w p = None" and "fw_refuses w = (\<lambda>_ _. False)"
  shows "fs_place op p nd w = Some (w\<lparr>fw_nodes := (fw_nodes w)(p \<mapsto> nd)\<rparr>)"
proof -
  have "is_dir (fw_nodes w) (butlast p)" using dirs_down_end [OF assms(1)] by (auto simp: is_dir_def)
  with resolve_dirs [OF assms(1), of MAX_LINKS "[]"] assms(2-4) show ?thesis by (simp add: fs_place_def parent_of_def)
qed

definition chain_nodes :: "nodes \<Rightarrow> fpath \<Rightarrow> nodes" where
  "chain_nodes ns dest = ns(dest @ [lit ''a''] \<mapsto> NDir, dest @ [lit ''a'', lit ''up''] \<mapsto> NLink (lit ''..''),
     dest @ [lit ''.hull''] \<mapsto> NLink (lit ''a/up/..''))"

lemmas entry_eval = link_entry_def extract_entry_def extract_kind_def and_then_def claim_def count_def check_path_def path_components_def
  seg_component_def map_filter_simps starts_with_def check_symlink_ancestors_def prefixes_of_def write_symlink_def path_is_absolute_def
  make_dirs_def privileged_def display_path_def MAX_DISPLAY_BYTES_def show_fpath_def from_utf8_lossy.simps is_control_def

lemma chain_extracts:
  assumes "nfc_ok nfc" and "dirs_down (fw_nodes w) [] dest" and "empty_dir (fw_nodes w) dest" and "fw_refuses w = (\<lambda>_ _. False)"
  shows "extract_into nfc (Inr False) (Inr link_chain) dest fetch_limits_default w =
    (w\<lparr>fw_nodes := chain_nodes (fw_nodes w) dest\<rparr>, Inr \<lparr>ex_files = 0, ex_dirs = 0, ex_symlinks = 2, ex_bytes = 0\<rparr>)"
proof -
  have none: "fw_nodes w (dest @ [x]) = None" "fw_nodes w (dest @ [x, y]) = None" for x y using assms(3) by (auto simp: empty_dir_def)
  have nfc: "nfc s = s" if "list_all (\<lambda>c. c < 128) s" for s using assms(1) that by (simp add: nfc_ok_def)
  note d = assms(2)
  define w1 where "w1 = w\<lparr>fw_nodes := (fw_nodes w)(dest @ [lit ''a''] \<mapsto> NDir)\<rparr>"
  define w2 where "w2 = w1\<lparr>fw_nodes := (fw_nodes w1)(dest @ [lit ''a'', lit ''up''] \<mapsto> NLink (lit ''..''))\<rparr>"
  define w3 where "w3 = w2\<lparr>fw_nodes := (fw_nodes w2)(dest @ [lit ''.hull''] \<mapsto> NLink (lit ''a/up/..''))\<rparr>"
  have d1: "dirs_down (fw_nodes w1) [] dest" by (rule dirs_down_mono [OF d]) (use none in \<open>auto simp: w1_def\<close>)
  have d2: "dirs_down (fw_nodes w2) [] dest" by (rule dirs_down_mono [OF d1]) (use none in \<open>auto simp: w1_def w2_def\<close>)
  have p1: "fs_place OpMkdir (dest @ [lit ''a'']) NDir w = Some w1"
    using fs_place_new [of w "dest @ [lit ''a'']"] d none assms(4) by (simp add: w1_def butlast_append)
  have p2: "fs_place OpLink (dest @ [lit ''a'', lit ''up'']) (NLink (lit ''..'')) w1 = Some w2"
    using fs_place_new [of w1 "dest @ [lit ''a'', lit ''up'']"] d1 none assms(4) by (simp add: w1_def w2_def butlast_append dirs_down_append)
  have p3: "fs_place OpLink (dest @ [lit ''.hull'']) (NLink (lit ''a/up/..'')) w2 = Some w3"
    using fs_place_new [of w2 "dest @ [lit ''.hull'']"] d2 none assms(4) by (simp add: w1_def w2_def w3_def butlast_append)
  have "w3 = w\<lparr>fw_nodes := chain_nodes (fw_nodes w) dest\<rparr>" by (simp add: w1_def w2_def w3_def chain_nodes_def)
  with p1 p2 p3 nfc show ?thesis
    by (simp add: extract_into_def extract_start_def link_chain_def entry_eval fetch_limits_default_def)
qed

section \<open>Properties\<close>

text \<open>C8. Whatever the archive and wherever the extraction stops, nothing outside the destination changes: every path
  that is not strictly below it has the node it had, whatever links the archive planted. The destination
  is a directory reached through directories only.\<close>

theorem extraction_confined:
  assumes "dirs_down (fw_nodes w) [] dest" and "listing_ok (fw_nodes w) dest listing" and "\<not> below dest p"
  shows "fw_nodes (fst (extract_into nfc listing arc dest L w)) p = fw_nodes w p"
  using extract_into_cases [OF assms(1,2), of nfc arc L] assms(3) by (auto simp: safe_def confined_def)

theorem extraction_confined_witness:
  "fw_nodes (fst (extract_into (\<lambda>s. s) (Inr False) (Inr link_chain) [lit ''t''] fetch_limits_default sample_world)) [lit ''ci.star''] =
   fw_nodes sample_world [lit ''ci.star'']"
  by (rule extraction_confined [OF sample_ok]) (simp add: below_def)

text \<open>C10. What an accepted archive leaves is within the limits: at most \<open>max_entries\<close> entries counted, the files of any
  list of distinct paths below the destination together at most the bytes counted, and those at most
  \<open>max_total_bytes\<close>; and every node below it has a name of legal components, few and short enough, a file no
  more than \<open>max_file_bytes\<close> and the mode 0644 or 0755, and a link a relative target that stays in the tree
  when it is walked lexically. A link whose walk meets no other link does stay in the tree.\<close>

theorem extraction_within_limits:
  assumes "dirs_down (fw_nodes w) [] dest" and "listing_ok (fw_nodes w) dest listing"
    and "extract_into nfc listing arc dest L w = (w', Inr out)"
  shows "entries_count out \<le> fl_max_entries L \<and> ex_bytes out \<le> fl_max_total_bytes L \<and>
    (distinct qs \<and> [] \<notin> set qs \<longrightarrow> sum_list (map (\<lambda>q. node_bytes (fw_nodes w' (dest @ q))) qs) \<le> ex_bytes out) \<and>
    (q \<noteq> [] \<longrightarrow> node_ok L q (fw_nodes w' (dest @ q))) \<and>
    (q \<noteq> [] \<and> fw_nodes w' (dest @ q) = Some (NLink t) \<and> plain (fw_nodes w') (dest @ butlast q) (path_components t) \<longrightarrow>
      fs_resolve k (fw_nodes w') (dest @ butlast q) (path_components t) \<in> insert None (range (\<lambda>r. Some (dest @ r))))"
proof -
  from extract_into_cases [OF assms(1,2), of nfc arc L] assms(3)
  obtain r :: "extract_state \<times> (extract_error + unit)" where r: "safe (fw_nodes w) L dest (fl_max_entries L) r" "w' = es_world (fst r)"
    "Inr out = (case snd r of Inl x \<Rightarrow> Inl x | Inr _ \<Rightarrow> Inr (es_out (fst r)))" by auto
  define st where "st = fst r"
  from r have st: "tree_within L dest (fl_max_entries L) st" "w' = es_world st" "out = es_out st"
    by (auto simp: safe_def st_def split: sum.splits)
  then have node: "q \<noteq> [] \<longrightarrow> node_ok L q (fw_nodes w' (dest @ q))" by (simp add: tree_within_def)
  have "fs_resolve k (fw_nodes w') (dest @ butlast q) (path_components t) \<in> insert None (range (\<lambda>r. Some (dest @ r)))"
    if "q \<noteq> []" "fw_nodes w' (dest @ q) = Some (NLink t)" "plain (fw_nodes w') (dest @ butlast q) (path_components t)"
  proof -
    from node that obtain o' where "link_bounds (path_components t) (butlast q) = Inr o'" by (auto simp: node_ok_def split: sum.splits)
    from plain_link_stays [OF this that(3)] show ?thesis
      by (cases "fs_resolve k (fw_nodes w') (dest @ butlast q) (path_components t)") auto
  qed
  with st node show ?thesis by (simp add: tree_within_def)
qed

theorem extraction_within_limits_witness:
  "sum_list (map (\<lambda>q. node_bytes (chain_nodes (fw_nodes sample_world) [lit ''t''] ([lit ''t''] @ q))) [[lit ''a''], [lit ''a'', lit ''up'']]) \<le> 0 \<and>
   node_ok fetch_limits_default [lit ''a'', lit ''up''] (chain_nodes (fw_nodes sample_world) [lit ''t''] [lit ''t'', lit ''a'', lit ''up''])"
proof -
  have "extract_into (\<lambda>s. s) (Inr False) (Inr link_chain) [lit ''t''] fetch_limits_default sample_world =
      (sample_world\<lparr>fw_nodes := chain_nodes (fw_nodes sample_world) [lit ''t'']\<rparr>, Inr \<lparr>ex_files = 0, ex_dirs = 0, ex_symlinks = 2, ex_bytes = 0\<rparr>)"
    by (rule chain_extracts) (auto simp: nfc_ok_def sample_world_def empty_dir_def)
  from extraction_within_limits [OF sample_ok this, of "[[lit ''a''], [lit ''a'', lit ''up'']]" "[lit ''a'', lit ''up'']"]
  show ?thesis by simp
qed

text \<open>C34. Two links that are each in bounds lead out of the tree together. The first points from a directory to the
  tree's root, the second goes through the first and up; walked lexically the second ends inside. The
  archive is accepted, and the path at which the planner looks for the pipeline file is a file beside the
  destination, on the host.\<close>

theorem chained_links_escape:
  assumes "nfc_ok nfc" and "dirs_down (fw_nodes w) [] (dest @ [d])" and "empty_dir (fw_nodes w) (dest @ [d])"
    and "fw_refuses w = (\<lambda>_ _. False)" and "fw_nodes w (dest @ [lit ''ci.star'']) = Some (NFile secret m)"
  shows "snd (extract_into nfc (Inr False) (Inr link_chain) (dest @ [d]) fetch_limits_default w) =
      Inr \<lparr>ex_files = 0, ex_dirs = 0, ex_symlinks = 2, ex_bytes = 0\<rparr> \<and>
    fs_resolve MAX_LINKS (fw_nodes (fst (extract_into nfc (Inr False) (Inr link_chain) (dest @ [d]) fetch_limits_default w))) []
      (map Normal (dest @ [d]) @ path_components (lit ''.hull/ci.star'')) = Some (dest @ [lit ''ci.star''])"
proof -
  let ?ns = "chain_nodes (fw_nodes w) (dest @ [d])"
  have none: "fw_nodes w (dest @ d # x # xs) = None" for x xs using assms(3) [unfolded empty_dir_def, rule_format, of "x # xs"] by simp
  have down: "dirs_down ?ns [] (dest @ [d])"
    by (rule dirs_down_mono [OF assms(2)]) (use none in \<open>auto simp: chain_nodes_def\<close>)
  have star: "?ns (dest @ [lit ''ci.star'']) = Some (NFile secret m)" using assms(5) by (simp add: chain_nodes_def)
  have "fs_resolve MAX_LINKS ?ns [] (map Normal (dest @ [d]) @ path_components (lit ''.hull/ci.star'')) =
      fs_resolve MAX_LINKS ?ns (dest @ [d]) [Normal (lit ''.hull''), Normal (lit ''ci.star'')]"
    unfolding resolve_dirs [OF down] by (simp add: path_components_def seg_component_def map_filter_simps starts_with_def)
  also have "\<dots> = Some (dest @ [lit ''ci.star''])"
    using star by (simp add: chain_nodes_def MAX_LINKS_def path_components_def seg_component_def map_filter_simps starts_with_def butlast_append)
  finally show ?thesis by (simp add: chain_extracts [OF assms(1-4)])
qed

theorem chained_links_escape_witness:
  "snd (extract_into (\<lambda>s. s) (Inr False) (Inr link_chain) ([] @ [lit ''t'']) fetch_limits_default sample_world) =
     Inr \<lparr>ex_files = 0, ex_dirs = 0, ex_symlinks = 2, ex_bytes = 0\<rparr> \<and>
   fs_resolve MAX_LINKS (fw_nodes (fst (extract_into (\<lambda>s. s) (Inr False) (Inr link_chain) ([] @ [lit ''t'']) fetch_limits_default sample_world))) []
     (map Normal ([] @ [lit ''t'']) @ path_components (lit ''.hull/ci.star'')) = Some ([] @ [lit ''ci.star''])"
  by (rule chained_links_escape [of _ _ _ _ "[1]" "0x1A4"]) (simp_all add: nfc_ok_def sample_world_def empty_dir_def)

end
