(* ===== verification/Ci_Digest.thy ===== *)
theory Ci_Digest
  imports Ci_Memo "HOL-Library.While_Combinator"
begin

text \<open>
  The address of a tree and the digest of the paths a glob selects in it
  (\<open>src/crates/hull-ci-fetch/src/verify.rs\<close>, \<open>digest.rs\<close>), which is what a step's memo key is made of. keel's encoder and
  BLAKE3 are a record of functions, the extracted tree what the file system shows of it. Shown: the
  backtracking matcher ends and, on names without a star, is the declarative one; a pattern selects exactly
  the paths it describes; and a file whose name has a star can be invisible to the pattern that names it.
\<close>

section \<open>Addresses\<close>

type_synonym oid = bytes

record keel =
  kl_blob_id :: "bytes \<Rightarrow> oid"
  kl_tree_id :: "(str \<times> nat \<times> oid) list \<Rightarrow> oid"
  kl_hash :: "bytes \<Rightarrow> bytes"

definition MODE_FILE :: nat where "MODE_FILE = 0x81A4"
definition MODE_EXEC :: nat where "MODE_EXEC = 0x81ED"
definition MODE_DIR :: nat where "MODE_DIR = 0x4000"
definition MODE_SYMLINK :: nat where "MODE_SYMLINK = 0xA000"

datatype verify_error =
    Mismatch str str
  | MalformedTreeId str
  | TreeTooDeep nat
  | TreeNonUtf8
  | UnexpectedFileType
  | VerifyIo str
  | VerifyUnavailable str

datatype index_dir = IndexDir (ix_id: oid) (ix_entries: "index_entry list")
and index_entry = IndexEntry (ie_name: str) (ie_mode: nat) (ie_id: oid) (ie_dir: "index_dir option")

text \<open>What the walk meets: entries in the order of \<open>read_dir\<close>, a name that is not UTF-8 as \<open>None\<close>.\<close>

datatype disk_node =
    DiskFile nat bytes
  | DiskLink bytes
  | DiskDir "(str option \<times> disk_node) list"
  | DiskSpecial
  | DiskError str

definition file_mode :: "nat \<Rightarrow> nat" where
  "file_mode mode = (if odd mode \<or> odd (mode div 8) \<or> odd (mode div 64) then MODE_EXEC else MODE_FILE)"

definition walk_finish :: "keel \<Rightarrow> index_entry list \<Rightarrow> index_dir" where
  "walk_finish K es =
     (let es = sort_key ie_name es in IndexDir (kl_tree_id K (map (\<lambda>e. (ie_name e, ie_mode e, ie_id e)) es)) es)"

fun walk_entries :: "keel \<Rightarrow> nat \<Rightarrow> nat \<Rightarrow> bool \<Rightarrow> (str option \<times> disk_node) list \<Rightarrow> verify_error + index_entry list"
  and walk_entry :: "keel \<Rightarrow> nat \<Rightarrow> nat \<Rightarrow> bool \<Rightarrow> str \<Rightarrow> disk_node \<Rightarrow> verify_error + index_entry" where
  "walk_entries K depth max_depth retain [] = Inr []"
| "walk_entries K depth max_depth retain ((name, nd) # des) =
     (case name of
        None \<Rightarrow> Inl TreeNonUtf8
      | Some n \<Rightarrow>
          (case walk_entry K depth max_depth retain n nd of
             Inl x \<Rightarrow> Inl x
           | Inr e \<Rightarrow>
               (case walk_entries K depth max_depth retain des of Inl x \<Rightarrow> Inl x | Inr es \<Rightarrow> Inr (e # es))))"
| "walk_entry K depth max_depth retain n (DiskLink target) = Inr (IndexEntry n MODE_SYMLINK (kl_blob_id K target) None)"
| "walk_entry K depth max_depth retain n (DiskDir des) =
     (if Suc depth > max_depth then Inl (TreeTooDeep max_depth)
      else case walk_entries K (Suc depth) max_depth retain des of
        Inl x \<Rightarrow> Inl x
      | Inr es \<Rightarrow>
          let sub = walk_finish K es in Inr (IndexEntry n MODE_DIR (ix_id sub) (if retain then Some sub else None)))"
| "walk_entry K depth max_depth retain n (DiskFile mode bs) = Inr (IndexEntry n (file_mode mode) (kl_blob_id K bs) None)"
| "walk_entry K depth max_depth retain n DiskSpecial = Inl UnexpectedFileType"
| "walk_entry K depth max_depth retain n (DiskError e) = Inl (VerifyIo e)"

definition walk :: "keel \<Rightarrow> nat \<Rightarrow> bool \<Rightarrow> (str option \<times> disk_node) list \<Rightarrow> verify_error + index_dir" where
  "walk K max_depth retain des =
     (case walk_entries K 0 max_depth retain des of Inl x \<Rightarrow> Inl x | Inr es \<Rightarrow> Inr (walk_finish K es))"

definition tree_hex_id :: "keel \<Rightarrow> nat \<Rightarrow> (str option \<times> disk_node) list \<Rightarrow> verify_error + str" where
  "tree_hex_id K max_depth des = (case walk K max_depth False des of Inl x \<Rightarrow> Inl x | Inr d \<Rightarrow> Inr (hex (ix_id d)))"

definition index_tree :: "keel \<Rightarrow> nat \<Rightarrow> (str option \<times> disk_node) list \<Rightarrow> verify_error + index_dir" where
  "index_tree K max_depth des = walk K max_depth True des"

definition ascii_hexdigit :: "nat \<Rightarrow> bool" where
  "ascii_hexdigit b \<longleftrightarrow> (48 \<le> b \<and> b \<le> 57) \<or> (65 \<le> b \<and> b \<le> 70) \<or> (97 \<le> b \<and> b \<le> 102)"

definition normalize_tree_id :: "str \<Rightarrow> verify_error + str" where
  "normalize_tree_id i =
     (let lower = map to_ascii_lower (trim i) in
      if length (utf8 lower) = 64 \<and> list_all ascii_hexdigit (utf8 lower) then Inr lower else Inl (MalformedTreeId i))"

definition verify_tree :: "keel \<Rightarrow> nat \<Rightarrow> (str option \<times> disk_node) list \<Rightarrow> str \<Rightarrow> verify_error + unit" where
  "verify_tree K max_depth des expected =
     (case normalize_tree_id expected of
        Inl x \<Rightarrow> Inl x
      | Inr expected \<Rightarrow>
          (case tree_hex_id K max_depth des of
             Inl x \<Rightarrow> Inl x
           | Inr actual \<Rightarrow> if actual = expected then Inr () else Inl (Mismatch expected actual)))"

section \<open>Globs\<close>

datatype glob_error = GlobMalformed str | TooManyGlobstars nat

definition MAX_GLOBSTARS :: nat where "MAX_GLOBSTARS = 4"

datatype glob_shape = ExactGlob "str list" | PrefixGlob "str list" | PatternGlob "str list"

abbreviation globstar :: str where
  "globstar \<equiv> [42, 42]"

definition wild :: "str \<Rightarrow> bool" where
  "wild s \<longleftrightarrow> 42 \<in> set s \<or> 63 \<in> set s"

text \<open>The segments of a glob: an empty one is refused when it is the first.\<close>

fun glob_segments :: "str list \<Rightarrow> str list \<Rightarrow> str list option" where
  "glob_segments [] segments = Some segments"
| "glob_segments (seg # segs) segments =
     (if seg = [] then (if segments = [] then None else glob_segments segs segments)
      else if seg = lit ''.'' \<or> seg = lit ''..'' then None
      else glob_segments segs (segments @ [seg]))"

definition parse_glob :: "str \<Rightarrow> glob_error + glob_shape" where
  "parse_glob glob =
     (let trimmed = trim glob in
      if trimmed = [] \<or> hd trimmed = 47 then Inl (GlobMalformed glob)
      else case glob_segments (split_on 47 trimmed) [] of
        None \<Rightarrow> Inl (GlobMalformed glob)
      | Some segments \<Rightarrow>
          if segments = [] then Inl (GlobMalformed glob)
          else if length (filter (\<lambda>s. s = globstar) segments) > MAX_GLOBSTARS then Inl (TooManyGlobstars MAX_GLOBSTARS)
          else
            let leading_wild = list_ex wild (butlast segments) in
            if last segments = globstar \<and> \<not> leading_wild then Inr (PrefixGlob (butlast segments))
            else if \<not> leading_wild \<and> \<not> wild (last segments) then Inr (ExactGlob segments)
            else Inr (PatternGlob segments))"

definition shape_tag :: "glob_shape \<Rightarrow> nat" where
  "shape_tag s = (case s of ExactGlob _ \<Rightarrow> 1 | PrefixGlob _ \<Rightarrow> 2 | PatternGlob _ \<Rightarrow> 3)"

text \<open>
  \<open>segment_matches\<close>: the pattern and the name from \<open>pi\<close> and \<open>ni\<close> on, the pattern after the last star with the
  name from \<open>resume\<close> on, and whether the loop has returned false.
\<close>

record match_state =
  mt_p :: str
  mt_n :: str
  mt_star :: "(str \<times> str) option"
  mt_failed :: bool

definition match_step :: "match_state \<Rightarrow> match_state" where
  "match_step s =
     (let c = hd (mt_n s) in
      if mt_p s \<noteq> [] \<and> (hd (mt_p s) = 63 \<or> hd (mt_p s) = c) then s\<lparr>mt_p := tl (mt_p s), mt_n := tl (mt_n s)\<rparr>
      else if mt_p s \<noteq> [] \<and> hd (mt_p s) = 42 then s\<lparr>mt_p := tl (mt_p s), mt_star := Some (tl (mt_p s), mt_n s)\<rparr>
      else case mt_star s of
        Some (sp, r) \<Rightarrow> s\<lparr>mt_p := sp, mt_n := tl r, mt_star := Some (sp, tl r)\<rparr>
      | None \<Rightarrow> s\<lparr>mt_failed := True\<rparr>)"

definition match_loop :: "str \<Rightarrow> str \<Rightarrow> match_state option" where
  "match_loop p n =
     while_option (\<lambda>s. mt_n s \<noteq> [] \<and> \<not> mt_failed s) match_step \<lparr>mt_p = p, mt_n = n, mt_star = None, mt_failed = False\<rparr>"

definition match_result :: "match_state \<Rightarrow> bool" where
  "match_result s \<longleftrightarrow> \<not> mt_failed s \<and> dropWhile (\<lambda>c. c = 42) (mt_p s) = []"

definition segment_matches :: "str \<Rightarrow> str \<Rightarrow> bool" where
  "segment_matches p n = (case match_loop p n of Some s \<Rightarrow> match_result s | None \<Rightarrow> False)"

section \<open>Selection\<close>

record matched =
  md_path :: str
  md_mode :: nat
  md_id :: oid

text \<open>The binary search of \<open>child\<close>: the names of a directory are sorted and no two are equal.\<close>

definition child :: "index_dir \<Rightarrow> str \<Rightarrow> index_entry option" where
  "child d name = find (\<lambda>e. ie_name e = name) (ix_entries d)"

fun descend :: "index_dir \<Rightarrow> str list \<Rightarrow> index_entry option" where
  "descend d [] = None"
| "descend d [n] = child d n"
| "descend d (n # m # ns) = (case child d n of None \<Rightarrow> None | Some e \<Rightarrow> (case ie_dir e of None \<Rightarrow> None | Some sub \<Rightarrow> descend sub (m # ns)))"

lemma size_sub: "e \<in> set (ix_entries d) \<Longrightarrow> ie_dir e = Some sub \<Longrightarrow> size sub < size d"
proof -
  assume e: "e \<in> set (ix_entries d)" and sub: "ie_dir e = Some sub"
  have "size sub < size e" using sub by (cases e) auto
  also have "size e < size d" using e size_list_estimation' [of e "ix_entries d" "size e" size] by (cases d) auto
  finally show ?thesis .
qed

function collect_globs :: "str list \<Rightarrow> index_dir \<Rightarrow> str list \<Rightarrow> matched list" where
  "collect_globs [] d prefix = []"
| "collect_globs (first # rest) d prefix =
     (if first = globstar then
        (if rest = [] then (if ix_entries d \<noteq> [] then [\<lparr>md_path = join 47 prefix, md_mode = MODE_DIR, md_id = ix_id d\<rparr>] else [])
         else collect_globs rest d prefix @
           concat (map (\<lambda>e. case ie_dir e of None \<Rightarrow> [] | Some sub \<Rightarrow> collect_globs (first # rest) sub (prefix @ [ie_name e])) (ix_entries d)))
      else
        concat (map (\<lambda>e.
          if \<not> segment_matches first (ie_name e) then []
          else if rest = [] then [\<lparr>md_path = join 47 (prefix @ [ie_name e]), md_mode = ie_mode e, md_id = ie_id e\<rparr>]
          else case ie_dir e of None \<Rightarrow> [] | Some sub \<Rightarrow> collect_globs rest sub (prefix @ [ie_name e])) (ix_entries d)))"
  by pat_completeness auto
termination
  by (relation "measures [\<lambda>(_, d, _). size d, \<lambda>(ps, _, _). length ps]") (auto dest: size_sub)

declare collect_globs.simps(2) [simp del]

definition DIGEST_DOMAIN :: bytes where "DIGEST_DOMAIN = lit ''hull-ci/subtree-digest/v1''"

record glob_digest =
  gd_digest :: str
  gd_selected :: nat

definition selected_nothing :: "glob_digest \<Rightarrow> bool" where
  "selected_nothing g \<longleftrightarrow> gd_selected g = 0"

definition mode_bytes :: "nat \<Rightarrow> bytes" where
  "mode_bytes m = map (\<lambda>i. m div 256 ^ i mod 256) [0..<4]"

definition fold_input :: "str \<Rightarrow> nat \<Rightarrow> matched list \<Rightarrow> bytes" where
  "fold_input glob tag ms =
     DIGEST_DOMAIN @ [tag] @ lp (utf8 glob) @ le_bytes (length ms) @
     concat (map (\<lambda>m. lp (utf8 (md_path m)) @ mode_bytes (md_mode m) @ md_id m) ms)"

definition fold_matched :: "keel \<Rightarrow> str \<Rightarrow> nat \<Rightarrow> matched list \<Rightarrow> glob_digest" where
  "fold_matched K glob tag ms = \<lparr>gd_digest = hex (kl_hash K (fold_input glob tag ms)), gd_selected = length ms\<rparr>"

definition dedup_paths :: "matched list \<Rightarrow> matched list" where
  "dedup_paths ms = rev (foldl (\<lambda>out m. case out of o' # _ \<Rightarrow> if md_path o' = md_path m then out else m # out | [] \<Rightarrow> [m]) [] ms)"

definition select_path :: "index_dir \<Rightarrow> str list \<Rightarrow> matched list" where
  "select_path root path =
     (case descend root path of
        Some e \<Rightarrow>
          if (case ie_dir e of Some d \<Rightarrow> ix_entries d = [] | None \<Rightarrow> False) then []
          else [\<lparr>md_path = join 47 path, md_mode = ie_mode e, md_id = ie_id e\<rparr>]
      | None \<Rightarrow>
          if path = [] \<and> ix_entries root \<noteq> [] then [\<lparr>md_path = [], md_mode = MODE_DIR, md_id = ix_id root\<rparr>] else [])"

definition subtree_digest :: "keel \<Rightarrow> index_dir \<Rightarrow> str \<Rightarrow> glob_error + glob_digest" where
  "subtree_digest K root glob =
     (case parse_glob glob of
        Inl x \<Rightarrow> Inl x
      | Inr shape \<Rightarrow>
          let ms = (case shape of
              ExactGlob path \<Rightarrow> select_path root path
            | PrefixGlob path \<Rightarrow> select_path root path
            | PatternGlob pattern \<Rightarrow> dedup_paths (sort_key md_path (collect_globs pattern root [])))
          in Inr (fold_matched K glob (shape_tag shape) ms))"

section \<open>The digester\<close>

datatype tree_digest_error = DigestIndex verify_error | DigestGlob glob_error

record digester =
  dg_max_depth :: nat
  dg_max_indexes :: nat
  dg_max_digests :: nat
  dg_indexes :: "((str \<times> str) \<times> index_dir) list"
  dg_digests :: "(((str \<times> str) \<times> str) \<times> glob_digest) list"

definition digester_default :: digester where
  "digester_default = \<lparr>dg_max_depth = 256, dg_max_indexes = 8, dg_max_digests = 4096, dg_indexes = [], dg_digests = []\<rparr>"

definition digester_index :: "keel \<Rightarrow> str \<times> str \<Rightarrow> (str option \<times> disk_node) list \<Rightarrow> digester \<Rightarrow> digester \<times> (verify_error + index_dir)" where
  "digester_index K key root g =
     (case find (\<lambda>(k, _). k = key) (dg_indexes g) of
        Some (_, i) \<Rightarrow> (g, Inr i)
      | None \<Rightarrow>
          (case index_tree K (dg_max_depth g) root of
             Inl x \<Rightarrow> (g, Inl x)
           | Inr i \<Rightarrow>
               let g = (if length (dg_indexes g) \<ge> dg_max_indexes g then g\<lparr>dg_indexes := tl (dg_indexes g)\<rparr> else g);
                   g = (if list_ex (\<lambda>(k, _). k = key) (dg_indexes g) then g else g\<lparr>dg_indexes := dg_indexes g @ [(key, i)]\<rparr>)
               in (g, Inr i)))"

definition digester_digest :: "keel \<Rightarrow> str \<Rightarrow> str \<Rightarrow> (str option \<times> disk_node) list \<Rightarrow> str \<Rightarrow> digester \<Rightarrow>
    digester \<times> (tree_digest_error + glob_digest)" where
  "digester_digest K name tree_id root glob g =
     (case map_of (dg_digests g) ((name, tree_id), glob) of
        Some hit \<Rightarrow> (g, Inr hit)
      | None \<Rightarrow>
          (case digester_index K (name, tree_id) root g of
             (g, Inl x) \<Rightarrow> (g, Inl (DigestIndex x))
           | (g, Inr index) \<Rightarrow>
               (case subtree_digest K index glob of
                  Inl x \<Rightarrow> (g, Inl (DigestGlob x))
                | Inr d \<Rightarrow>
                    let g = (if length (dg_digests g) \<ge> dg_max_digests g then g\<lparr>dg_digests := []\<rparr> else g)
                    in (g\<lparr>dg_digests := AList.update ((name, tree_id), glob) d (dg_digests g)\<rparr>, Inr d))))"

section \<open>The declarative matcher\<close>

fun smatch :: "str \<Rightarrow> str \<Rightarrow> bool" where
  "smatch [] n \<longleftrightarrow> n = []"
| "smatch (x # p) n \<longleftrightarrow>
     (if x = 42 then smatch p n \<or> (case n of [] \<Rightarrow> False | _ # cs \<Rightarrow> smatch (x # p) cs)
      else case n of [] \<Rightarrow> False | c # cs \<Rightarrow> (x = 63 \<or> x = c) \<and> smatch p cs)"

lemma smatch_star: "smatch (42 # p) n \<longleftrightarrow> (\<exists>k. smatch p (drop k n))"
proof (induction n)
  case Nil
  then show ?case by auto
next
  case (Cons c n)
  have "(\<exists>k. smatch p (drop k (c # n))) \<longleftrightarrow> smatch p (c # n) \<or> (\<exists>k. smatch p (drop k n))"
    by (metis drop0 drop_Suc_Cons not0_implies_Suc)
  with Cons show ?case by simp
qed

definition seg_fits :: "str \<Rightarrow> str \<Rightarrow> bool" where
  "seg_fits v u \<longleftrightarrow> 42 \<notin> set v \<and> list_all2 (\<lambda>x c. x = 63 \<or> x = c) v u"

lemma smatch_seg_fits: "seg_fits v u \<Longrightarrow> smatch (v @ p) (u @ n) = smatch p n"
  unfolding seg_fits_def
proof (induction v arbitrary: u)
  case (Cons x v)
  then show ?case by (cases u) auto
qed simp

lemma smatch_split: "42 \<notin> set v \<Longrightarrow> smatch (v @ p) n \<Longrightarrow> length v \<le> length n \<and> smatch p (drop (length v) n)"
proof (induction v arbitrary: n)
  case (Cons x v)
  then show ?case by (cases n) auto
qed simp

lemma smatch_next_star:
  assumes "seg_fits v u"
  shows "smatch (42 # v @ 42 # p) (u @ n) = smatch (42 # p) n"
proof
  have len: "length v = length u" using assms by (auto simp: seg_fits_def dest: list_all2_lengthD)
  assume "smatch (42 # v @ 42 # p) (u @ n)"
  then obtain k where "smatch (v @ 42 # p) (drop k (u @ n))" unfolding smatch_star by auto
  then have "smatch (42 # p) (drop (length v) (drop k (u @ n)))" using smatch_split assms unfolding seg_fits_def by blast
  moreover have "drop (length v) (drop k (u @ n)) = drop k n" using len by (metis drop_drop add.commute append_eq_conv_conj)
  ultimately have "smatch (42 # p) (drop k n)" by (simp only:)
  then show "smatch (42 # p) n" unfolding smatch_star by (metis drop_drop)
next
  assume "smatch (42 # p) n"
  then have "smatch (v @ 42 # p) (u @ n)" using smatch_seg_fits [OF assms] by simp
  then show "smatch (42 # v @ 42 # p) (u @ n)" unfolding smatch_star by (metis drop0)
qed

section \<open>The loop is the matcher\<close>

definition match_inv :: "str \<Rightarrow> str \<Rightarrow> match_state \<Rightarrow> bool" where
  "match_inv P N s \<longleftrightarrow> 42 \<notin> set (mt_n s) \<and>
     (if mt_failed s then \<not> smatch P N
      else case mt_star s of
        None \<Rightarrow> smatch P N = smatch (mt_p s) (mt_n s) \<and> length (mt_p s) \<le> length P
      | Some (sp, r) \<Rightarrow> 42 \<notin> set r \<and> smatch P N = smatch (42 # sp) r \<and> length sp < length P \<and>
          (\<exists>u v. r = u @ mt_n s \<and> sp = v @ mt_p s \<and> seg_fits v u))"

lemma seg_fits_snoc: "seg_fits v u \<Longrightarrow> x \<noteq> 42 \<Longrightarrow> x = 63 \<or> x = c \<Longrightarrow> seg_fits (v @ [x]) (u @ [c])"
  by (auto simp: seg_fits_def list_all2_appendI)

definition match_rel :: "str \<Rightarrow> (match_state \<times> match_state) set" where
  "match_rel P = inv_image (less_than <*lex*> less_than <*lex*> less_than)
     (\<lambda>s. (case mt_star s of None \<Rightarrow> length P | Some (sp, _) \<Rightarrow> length sp, case mt_star s of None \<Rightarrow> 0 | Some (_, r) \<Rightarrow> length r,
           if mt_failed s then 0 else Suc (length (mt_n s))))"

lemma match_step_char:
  assumes inv: "match_inv P N s" and n: "mt_n s = c # cs" and go: "\<not> mt_failed s" and p: "mt_p s = x # p" and hit: "x = 63 \<or> x = c"
  shows "match_inv P N (match_step s) \<and> (match_step s, s) \<in> match_rel P"
proof -
  have x: "x \<noteq> 42" using inv n hit by (auto simp: match_inv_def)
  have step: "match_step s = s\<lparr>mt_p := p, mt_n := cs\<rparr>" using n p hit by (simp add: match_step_def)
  show ?thesis
  proof (cases "mt_star s")
    case None
    with inv n go p x hit show ?thesis unfolding step by (auto simp: match_inv_def match_rel_def)
  next
    case (Some st)
    obtain sp r where st: "st = (sp, r)" by (cases st)
    with inv go Some n p obtain u v where uv: "r = u @ c # cs" "sp = v @ x # p" "seg_fits v u" by (auto simp: match_inv_def)
    then have "r = (u @ [c]) @ cs \<and> sp = (v @ [x]) @ p \<and> seg_fits (v @ [x]) (u @ [c])" using seg_fits_snoc x hit by simp
    then have "\<exists>u v. r = u @ cs \<and> sp = v @ p \<and> seg_fits v u" by blast
    with inv n go Some st show ?thesis unfolding step by (simp add: match_inv_def match_rel_def)
  qed
qed

lemma match_step_star:
  assumes inv: "match_inv P N s" and n: "mt_n s = c # cs" and go: "\<not> mt_failed s" and p: "mt_p s = 42 # p"
  shows "match_inv P N (match_step s) \<and> (match_step s, s) \<in> match_rel P"
proof -
  have c: "c \<noteq> 42" using inv n by (auto simp: match_inv_def)
  have step: "match_step s = s\<lparr>mt_p := p, mt_star := Some (p, c # cs)\<rparr>" using n p c by (simp add: match_step_def)
  have fin: "\<exists>u v. c # cs = u @ c # cs \<and> p = v @ p \<and> seg_fits v u" by (auto simp: seg_fits_def)
  show ?thesis
  proof (cases "mt_star s")
    case None
    with inv n go p fin show ?thesis unfolding step by (simp add: match_inv_def match_rel_def)
  next
    case (Some st)
    obtain sp r where st: "st = (sp, r)" by (cases st)
    with inv go Some n p obtain u v where uv: "r = u @ c # cs" "sp = v @ 42 # p" "seg_fits v u" by (auto simp: match_inv_def)
    have "smatch P N = smatch (42 # sp) r" "length sp < length P" using inv go Some st by (auto simp: match_inv_def)
    then have "smatch P N = smatch (42 # p) (c # cs)" "length p < length P" using smatch_next_star [OF uv(3)] uv by auto
    with inv n go Some st uv(2) fin show ?thesis unfolding step by (simp add: match_inv_def match_rel_def)
  qed
qed

lemma match_step_back:
  assumes inv: "match_inv P N s" and n: "mt_n s = c # cs" and go: "\<not> mt_failed s"
    and miss: "mt_p s = [] \<or> (\<exists>x p. mt_p s = x # p \<and> x \<noteq> 63 \<and> x \<noteq> c \<and> x \<noteq> 42)"
  shows "match_inv P N (match_step s) \<and> (match_step s, s) \<in> match_rel P"
proof (cases "mt_star s")
  case None
  have "\<not> smatch (mt_p s) (c # cs)" using miss by auto
  moreover have "match_step s = s\<lparr>mt_failed := True\<rparr>" using None miss n by (auto simp: match_step_def)
  ultimately show ?thesis using None inv n go by (simp add: match_inv_def match_rel_def)
next
  case (Some st)
  obtain sp r where st: "st = (sp, r)" by (cases st)
  with inv go Some n obtain u v where uv: "r = u @ c # cs" "sp = v @ mt_p s" "seg_fits v u" by (auto simp: match_inv_def)
  have step: "match_step s = s\<lparr>mt_p := sp, mt_n := tl r, mt_star := Some (sp, tl r)\<rparr>"
    using Some st miss n by (auto simp: match_step_def)
  have r: "r \<noteq> []" using uv(1) by simp
  have r42: "42 \<notin> set r" using inv go Some st by (simp add: match_inv_def)
  have "\<not> smatch sp r" unfolding uv(1,2) smatch_seg_fits [OF uv(3)] using miss by auto
  then have "smatch (42 # sp) r = smatch (42 # sp) (tl r)" using r by (cases r) auto
  moreover have "\<exists>u v. tl r = u @ tl r \<and> sp = v @ sp \<and> seg_fits v u" by (auto simp: seg_fits_def)
  moreover have "42 \<notin> set (tl r)" "length (tl r) < length r"
    using r42 r by (cases r; auto)+
  ultimately show ?thesis using Some st inv go unfolding step by (simp add: match_inv_def match_rel_def)
qed

lemma match_step_ok:
  assumes "match_inv P N s" and "mt_n s \<noteq> [] \<and> \<not> mt_failed s"
  shows "match_inv P N (match_step s) \<and> (match_step s, s) \<in> match_rel P"
proof -
  obtain c cs where n: "mt_n s = c # cs" using assms(2) by (cases "mt_n s") auto
  consider x p where "mt_p s = x # p" "x = 63 \<or> x = c" | p where "mt_p s = 42 # p"
    | "mt_p s = [] \<or> (\<exists>x p. mt_p s = x # p \<and> x \<noteq> 63 \<and> x \<noteq> c \<and> x \<noteq> 42)" by (cases "mt_p s") blast+
  then show ?thesis
  proof cases
    case 1
    then show ?thesis using match_step_char assms n by blast
  next
    case 2
    then show ?thesis using match_step_star assms n by blast
  next
    case 3
    then show ?thesis using match_step_back assms n by blast
  qed
qed

lemma smatch_nil: "smatch p [] \<longleftrightarrow> dropWhile (\<lambda>c. c = 42) p = []"
  by (induction p) auto

text \<open>At the end of the name the attempt in hand decides: a later start leaves too few characters.\<close>

lemma match_done:
  assumes "match_inv P N s" and "\<not> (mt_n s \<noteq> [] \<and> \<not> mt_failed s)"
  shows "match_result s = smatch P N"
proof (cases "mt_failed s")
  case True
  with assms(1) show ?thesis by (simp add: match_inv_def match_result_def)
next
  case False
  with assms(2) have n: "mt_n s = []" by simp
  show ?thesis
  proof (cases "mt_star s")
    case None
    with False n assms(1) show ?thesis by (simp add: match_inv_def match_result_def smatch_nil)
  next
    case (Some st)
    obtain sp r where st: "st = (sp, r)" by (cases st)
    with assms(1) False Some n obtain v where v: "sp = v @ mt_p s" "seg_fits v r" by (auto simp: match_inv_def)
    then have len: "length v = length r" by (auto simp: seg_fits_def dest: list_all2_lengthD)
    have "smatch (v @ mt_p s) r" if k: "smatch (v @ mt_p s) (drop k r)" for k
    proof -
      have "length r \<le> length r - k" using smatch_split [OF _ k] v(2) len by (simp add: seg_fits_def)
      then have "drop k r = r" by (cases "r = []"; cases k) auto
      with k show ?thesis by simp
    qed
    then have "smatch (42 # sp) r = smatch (v @ mt_p s) r" unfolding smatch_star v(1) by (metis drop0)
    also have "\<dots> = smatch (mt_p s) []" using smatch_seg_fits [OF v(2), of "mt_p s" "[]"] by simp
    finally show ?thesis using assms(1) False Some st by (simp add: match_inv_def match_result_def smatch_nil)
  qed
qed

lemma match_loop_result:
  assumes "42 \<notin> set N"
  shows "\<exists>s. match_loop P N = Some s \<and> match_result s = smatch P N"
proof -
  let ?s = "\<lparr>mt_p = P, mt_n = N, mt_star = None, mt_failed = False\<rparr>" and ?b = "\<lambda>s. mt_n s \<noteq> [] \<and> \<not> mt_failed s"
  have init: "match_inv P N ?s" using assms by (simp add: match_inv_def)
  have "wf (match_rel P)" by (simp add: match_rel_def wf_lex_prod)
  then obtain t where t: "while_option ?b match_step ?s = Some t"
    using wf_rel_while_option_Some [of "match_rel P" "match_inv P N" ?b match_step ?s] match_step_ok init by blast
  have "match_inv P N t" by (rule while_option_rule [where P = "match_inv P N", OF _ t init]) (use match_step_ok in blast)
  moreover have "\<not> ?b t" by (rule while_option_stop [OF t])
  ultimately show ?thesis using match_done t unfolding match_loop_def by blast
qed

lemma segment_matches_smatch: "42 \<notin> set n \<Longrightarrow> segment_matches p n = smatch p n"
  using match_loop_result [of n p] by (auto simp: segment_matches_def)

section \<open>What a pattern selects\<close>

text \<open>Every entry below a directory, and every directory, with its path.\<close>

function all_entries :: "index_dir \<Rightarrow> (str list \<times> index_entry) list" where
  "all_entries d = concat (map (\<lambda>e. ([ie_name e], e) #
     (case ie_dir e of None \<Rightarrow> [] | Some sub \<Rightarrow> map (\<lambda>(p, x). (ie_name e # p, x)) (all_entries sub))) (ix_entries d))"
  by pat_completeness auto
termination by (relation "measure size") (auto dest: size_sub)

function all_dirs :: "index_dir \<Rightarrow> (str list \<times> index_dir) list" where
  "all_dirs d = ([], d) # concat (map (\<lambda>e.
     case ie_dir e of None \<Rightarrow> [] | Some sub \<Rightarrow> map (\<lambda>(p, x). (ie_name e # p, x)) (all_dirs sub)) (ix_entries d))"
  by pat_completeness auto
termination by (relation "measure size") (auto dest: size_sub)

declare all_entries.simps [simp del] all_dirs.simps [simp del]

fun gmatch :: "str list \<Rightarrow> str list \<Rightarrow> bool" where
  "gmatch [] p \<longleftrightarrow> p = []"
| "gmatch (g # gs) p \<longleftrightarrow>
     (if g = globstar then gmatch gs p \<or> (case p of [] \<Rightarrow> False | _ # ns \<Rightarrow> gmatch (g # gs) ns)
      else case p of [] \<Rightarrow> False | n # ns \<Rightarrow> smatch g n \<and> gmatch gs ns)"

declare gmatch.simps(2) [simp del]

lemma gmatch_nil: "gmatch gs [] \<longleftrightarrow> list_all (\<lambda>g. g = globstar) gs"
  by (induction gs) (auto simp: gmatch.simps(2))

lemma in_option_list: "y \<in> set (case a of None \<Rightarrow> [] | Some s \<Rightarrow> f s) \<longleftrightarrow> (\<exists>s. a = Some s \<and> y \<in> set (f s))"
  by (cases a) auto

lemma in_image_cons: "(p, x) \<in> (\<lambda>(p, y). (n # p, y)) ` S \<longleftrightarrow> (\<exists>q. (q, x) \<in> S \<and> p = n # q)"
  by force

lemma in_all_entries: "(p, x) \<in> set (all_entries d) \<longleftrightarrow>
    (\<exists>e\<in>set (ix_entries d). p = [ie_name e] \<and> x = e \<or> (\<exists>sub q. ie_dir e = Some sub \<and> (q, x) \<in> set (all_entries sub) \<and> p = ie_name e # q))"
  by (subst all_entries.simps) (auto simp: in_option_list in_image_cons)

lemma in_all_dirs: "(p, x) \<in> set (all_dirs d) \<longleftrightarrow>
    p = [] \<and> x = d \<or> (\<exists>e\<in>set (ix_entries d). \<exists>sub q. ie_dir e = Some sub \<and> (q, x) \<in> set (all_dirs sub) \<and> p = ie_name e # q)"
proof -
  have "(p, x) \<in> set (all_dirs d) \<longleftrightarrow> p = [] \<and> x = d \<or> (\<exists>e\<in>set (ix_entries d). (p, x) \<in> set (case ie_dir e of None \<Rightarrow> []
      | Some sub \<Rightarrow> map (\<lambda>(p, x). (ie_name e # p, x)) (all_dirs sub)))"
    by (subst all_dirs.simps) simp
  also have "\<dots> \<longleftrightarrow> p = [] \<and> x = d \<or> (\<exists>e\<in>set (ix_entries d). \<exists>sub q. ie_dir e = Some sub \<and> (q, x) \<in> set (all_dirs sub) \<and> p = ie_name e # q)"
    unfolding in_option_list set_map in_image_cons by blast
  finally show ?thesis .
qed

definition star_free :: "index_dir \<Rightarrow> bool" where
  "star_free d \<longleftrightarrow> list_all (\<lambda>(p, _). list_all (\<lambda>n. 42 \<notin> set n) p) (all_entries d)"

lemma star_free_sub:
  assumes "star_free d" and "e \<in> set (ix_entries d)"
  shows "42 \<notin> set (ie_name e)" and "ie_dir e = Some sub \<Longrightarrow> star_free sub"
proof -
  from assms have all: "(p, x) \<in> set (all_entries d) \<Longrightarrow> list_all (\<lambda>n. 42 \<notin> set n) p" for p x
    by (auto simp: star_free_def list_all_iff)
  from all [of "[ie_name e]" e] assms(2) show "42 \<notin> set (ie_name e)" by (auto simp: in_all_entries [of _ _ d])
  show "star_free sub" if "ie_dir e = Some sub"
  proof -
    have "list_all (\<lambda>n. 42 \<notin> set n) p" if "(p, x) \<in> set (all_entries sub)" for p x
    proof -
      have "(ie_name e # p, x) \<in> set (all_entries d)" using that \<open>ie_dir e = Some sub\<close> assms(2) in_all_entries [of _ _ d] by blast
      from all [OF this] show ?thesis by simp
    qed
    then show ?thesis by (auto simp: star_free_def list_all_iff)
  qed
qed

text \<open>What a pattern may select, by path: the entries, or (\<open>b\<close>) the directories that are not empty.\<close>

definition targets :: "bool \<Rightarrow> index_dir \<Rightarrow> (str list \<times> nat \<times> oid) set" where
  "targets b d =
     (if b then {(p, MODE_DIR, ix_id x) |p x. (p, x) \<in> set (all_dirs d) \<and> ix_entries x \<noteq> []}
      else {(p, ie_mode x, ie_id x) |p x. (p, x) \<in> set (all_entries d)})"

lemma in_targets: "(p, t) \<in> targets b d \<longleftrightarrow>
    (b \<and> p = [] \<and> ix_entries d \<noteq> [] \<and> t = (MODE_DIR, ix_id d)) \<or>
    (\<exists>e\<in>set (ix_entries d). \<not> b \<and> p = [ie_name e] \<and> t = (ie_mode e, ie_id e) \<or>
      (\<exists>sub q. ie_dir e = Some sub \<and> (q, t) \<in> targets b sub \<and> p = ie_name e # q))"
  by (cases t) (auto simp: targets_def in_all_dirs [of _ _ d] in_all_entries [of _ _ d])

definition matched_at :: "str list \<Rightarrow> nat \<times> oid \<Rightarrow> matched" where
  "matched_at p t = \<lparr>md_path = join 47 p, md_mode = fst t, md_id = snd t\<rparr>"

definition hits :: "bool \<Rightarrow> str list \<Rightarrow> index_dir \<Rightarrow> str list \<Rightarrow> matched \<Rightarrow> bool" where
  "hits b pat d prefix m \<longleftrightarrow> (\<exists>p t. (p, t) \<in> targets b d \<and> gmatch pat p \<and> m = matched_at (prefix @ p) t)"

text \<open>What a pattern is to select: under a trailing \<open>**\<close> the directories that are not empty, else the entries.\<close>

definition selected :: "str list \<Rightarrow> index_dir \<Rightarrow> str list \<Rightarrow> matched \<Rightarrow> bool" where
  "selected pat = (if last pat = globstar then hits True (butlast pat) else hits False pat)"

lemma hits_nil: "hits b [] d prefix m \<longleftrightarrow> b \<and> ix_entries d \<noteq> [] \<and> m = matched_at prefix (MODE_DIR, ix_id d)"
  by (auto simp: hits_def in_targets [of _ _ _ d])

lemma targets_entry: "e \<in> set (ix_entries d) \<Longrightarrow> \<not> b \<Longrightarrow> ([ie_name e], ie_mode e, ie_id e) \<in> targets b d"
  by (auto simp: in_targets [of _ _ _ d])

lemma targets_sub: "e \<in> set (ix_entries d) \<Longrightarrow> ie_dir e = Some sub \<Longrightarrow> (q, t) \<in> targets b sub \<Longrightarrow> (ie_name e # q, t) \<in> targets b d"
  by (auto simp: in_targets [of _ _ _ d])

lemma hits_sub:
  assumes "e \<in> set (ix_entries d)" and "ie_dir e = Some sub" and "hits b q sub (prefix @ [ie_name e]) m"
    and "\<And>p. gmatch q p \<Longrightarrow> gmatch pat (ie_name e # p)"
  shows "hits b pat d prefix m"
  using assms(3,4) targets_sub [OF assms(1,2)] unfolding hits_def by fastforce

lemma gmatch_globstar: "gmatch (globstar # q) p \<longleftrightarrow> gmatch q p \<or> (\<exists>n r. p = n # r \<and> gmatch (globstar # q) r)"
  by (cases p) (simp_all add: gmatch.simps(2) [of globstar q])

lemma hits_globstar:
  assumes "b \<or> \<not> gmatch q []"
  shows "hits b (globstar # q) d prefix m \<longleftrightarrow> hits b q d prefix m \<or>
    (\<exists>e\<in>set (ix_entries d). \<exists>sub. ie_dir e = Some sub \<and> hits b (globstar # q) sub (prefix @ [ie_name e]) m)" (is "?l \<longleftrightarrow> ?r")
proof
  assume ?l
  then obtain p t where p: "(p, t) \<in> targets b d" "gmatch (globstar # q) p" "m = matched_at (prefix @ p) t" by (auto simp: hits_def)
  show ?r
  proof (cases "gmatch q p")
    case True
    with p show ?thesis unfolding hits_def by blast
  next
    case False
    with p(2) gmatch_globstar [of q p] obtain n r where r: "p = n # r" "gmatch (globstar # q) r" by auto
    have "b \<or> r \<noteq> []" using assms r(2) by (auto simp: gmatch_nil)
    with p(1) r(1) obtain e sub where e: "e \<in> set (ix_entries d)" "ie_dir e = Some sub" "(r, t) \<in> targets b sub" "n = ie_name e"
      unfolding in_targets [of p t b d] by auto
    have "m = matched_at ((prefix @ [ie_name e]) @ r) t" using p(3) r(1) e(4) by simp
    with e(3) r(2) have "hits b (globstar # q) sub (prefix @ [ie_name e]) m" unfolding hits_def by blast
    with e show ?thesis by blast
  qed
next
  assume ?r
  then show ?l
  proof
    assume "hits b q d prefix m"
    then obtain p t where "(p, t) \<in> targets b d" "gmatch q p" "m = matched_at (prefix @ p) t" unfolding hits_def by blast
    moreover have "gmatch (globstar # q) p" using \<open>gmatch q p\<close> gmatch_globstar [of q p] by simp
    ultimately show ?l unfolding hits_def by blast
  next
    assume "\<exists>e\<in>set (ix_entries d). \<exists>sub. ie_dir e = Some sub \<and> hits b (globstar # q) sub (prefix @ [ie_name e]) m"
    then obtain e sub where e: "e \<in> set (ix_entries d)" "ie_dir e = Some sub" "hits b (globstar # q) sub (prefix @ [ie_name e]) m"
      by blast
    have "gmatch (globstar # q) (ie_name e # p)" if "gmatch (globstar # q) p" for p
      using that gmatch_globstar [of q "ie_name e # p"] by simp
    from hits_sub [OF e this] show ?l .
  qed
qed

lemma hits_segment:
  assumes "g \<noteq> globstar"
  shows "hits b (g # q) d prefix m \<longleftrightarrow> (\<exists>e\<in>set (ix_entries d). smatch g (ie_name e) \<and>
    (\<not> b \<and> gmatch q [] \<and> m = matched_at (prefix @ [ie_name e]) (ie_mode e, ie_id e) \<or>
     (\<exists>sub. ie_dir e = Some sub \<and> hits b q sub (prefix @ [ie_name e]) m)))" (is "?l \<longleftrightarrow> ?r")
proof -
  have g: "gmatch (g # q) [] \<longleftrightarrow> False" "gmatch (g # q) (n # r) \<longleftrightarrow> smatch g n \<and> gmatch q r" for n r
    using assms by (simp_all add: gmatch.simps(2) [of g q])
  show ?thesis
  proof
    assume ?l
    then obtain p t where p: "(p, t) \<in> targets b d" "gmatch (g # q) p" "m = matched_at (prefix @ p) t" by (auto simp: hits_def)
    then obtain n r where r: "p = n # r" "smatch g n" "gmatch q r" using g by (cases p) auto
    from p(1) r(1) obtain e where e: "e \<in> set (ix_entries d)" "n = ie_name e"
      "\<not> b \<and> r = [] \<and> t = (ie_mode e, ie_id e) \<or> (\<exists>sub. ie_dir e = Some sub \<and> (r, t) \<in> targets b sub)"
      unfolding in_targets [of p t b d] by auto
    from e(3) have "\<not> b \<and> gmatch q [] \<and> m = matched_at (prefix @ [ie_name e]) (ie_mode e, ie_id e) \<or>
     (\<exists>sub. ie_dir e = Some sub \<and> hits b q sub (prefix @ [ie_name e]) m)"
    proof
      assume "\<not> b \<and> r = [] \<and> t = (ie_mode e, ie_id e)"
      with r p(3) e(2) show ?thesis by simp
    next
      assume "\<exists>sub. ie_dir e = Some sub \<and> (r, t) \<in> targets b sub"
      moreover have "m = matched_at ((prefix @ [ie_name e]) @ r) t" using p(3) r(1) e(2) by simp
      ultimately show ?thesis using r(3) unfolding hits_def by blast
    qed
    with e r show ?r by blast
  next
    assume ?r
    then obtain e where e: "e \<in> set (ix_entries d)" "smatch g (ie_name e)"
      "\<not> b \<and> gmatch q [] \<and> m = matched_at (prefix @ [ie_name e]) (ie_mode e, ie_id e) \<or>
       (\<exists>sub. ie_dir e = Some sub \<and> hits b q sub (prefix @ [ie_name e]) m)" by blast
    from e(3) show ?l
    proof
      assume "\<not> b \<and> gmatch q [] \<and> m = matched_at (prefix @ [ie_name e]) (ie_mode e, ie_id e)"
      moreover from this have "([ie_name e], ie_mode e, ie_id e) \<in> targets b d" by (simp add: targets_entry [OF e(1)])
      moreover from calculation have "gmatch (g # q) [ie_name e]" using g(2) e(2) by simp
      ultimately show ?l unfolding hits_def by blast
    next
      assume "\<exists>sub. ie_dir e = Some sub \<and> hits b q sub (prefix @ [ie_name e]) m"
      then obtain sub where sub: "ie_dir e = Some sub" "hits b q sub (prefix @ [ie_name e]) m" by blast
      have "gmatch (g # q) (ie_name e # p)" if "gmatch q p" for p using that g(2) e(2) by simp
      from hits_sub [OF e(1) sub this] show ?l .
    qed
  qed
qed

section \<open>The walk selects them\<close>

lemma selected_cons:
  assumes "rest \<noteq> []"
  shows "selected (g # rest) = (if last rest = globstar then hits True (g # butlast rest) else hits False (g # rest))"
    and "selected rest = (if last rest = globstar then hits True (butlast rest) else hits False rest)"
    and "last rest \<noteq> globstar \<Longrightarrow> \<not> gmatch rest []"
  using assms by (auto simp: selected_def gmatch_nil list_all_iff dest: last_in_set)

lemma selected_globstar:
  assumes "rest \<noteq> []"
  shows "selected (globstar # rest) d prefix m \<longleftrightarrow> selected rest d prefix m \<or>
    (\<exists>e\<in>set (ix_entries d). \<exists>sub. ie_dir e = Some sub \<and> selected (globstar # rest) sub (prefix @ [ie_name e]) m)"
  using hits_globstar [of True "butlast rest" d prefix m] hits_globstar [of False rest d prefix m] selected_cons [OF assms] by simp

lemma selected_segment:
  assumes "g \<noteq> globstar"
  shows "selected (g # rest) d prefix m \<longleftrightarrow> (\<exists>e\<in>set (ix_entries d). smatch g (ie_name e) \<and>
    (if rest = [] then m = matched_at (prefix @ [ie_name e]) (ie_mode e, ie_id e)
     else \<exists>sub. ie_dir e = Some sub \<and> selected rest sub (prefix @ [ie_name e]) m))"
proof (cases "rest = []")
  case True
  then have "selected (g # rest) d prefix m \<longleftrightarrow> hits False [g] d prefix m" using assms by (simp add: selected_def)
  with True show ?thesis using hits_segment [OF assms, of False "[]" d prefix m] by (auto simp: hits_nil)
next
  case False
  show ?thesis
    using hits_segment [OF assms, of True "butlast rest" d prefix m] hits_segment [OF assms, of False rest d prefix m]
      selected_cons(1) [OF False, of g] selected_cons(2,3) [OF False] False by simp
qed

lemma collect_globs_selects:
  "pat \<noteq> [] \<Longrightarrow> star_free d \<Longrightarrow> m \<in> set (collect_globs pat d prefix) \<longleftrightarrow> selected pat d prefix m"
proof (induction pat d prefix arbitrary: m rule: collect_globs.induct)
  case (2 first rest d prefix)
  note names = star_free_sub [OF "2.prems"(2)]
  show ?case
  proof (cases "first = globstar")
    case True
    show ?thesis
    proof (cases "rest = []")
      case True
      have "m \<in> set (collect_globs [globstar] d prefix) \<longleftrightarrow> selected [globstar] d prefix m"
        by (auto simp: collect_globs.simps(2) [of globstar "[]" d prefix] selected_def hits_nil matched_at_def)
      with True \<open>first = globstar\<close> show ?thesis by simp
    next
      case False
      have "(\<exists>e\<in>set (ix_entries d). \<exists>sub. ie_dir e = Some sub \<and> m \<in> set (collect_globs (first # rest) sub (prefix @ [ie_name e]))) \<longleftrightarrow>
          (\<exists>e\<in>set (ix_entries d). \<exists>sub. ie_dir e = Some sub \<and> selected (first # rest) sub (prefix @ [ie_name e]) m)"
        using "2.IH"(2) [OF True False] names by blast
      moreover have "m \<in> set (collect_globs (first # rest) d prefix) \<longleftrightarrow> m \<in> set (collect_globs rest d prefix) \<or>
          (\<exists>e\<in>set (ix_entries d). \<exists>sub. ie_dir e = Some sub \<and> m \<in> set (collect_globs (first # rest) sub (prefix @ [ie_name e])))"
        using True False by (auto simp: collect_globs.simps(2) [of globstar rest d prefix] in_option_list)
      moreover have "m \<in> set (collect_globs rest d prefix) \<longleftrightarrow> selected rest d prefix m"
        using "2.IH"(1) [OF True False] "2.prems" False by simp
      ultimately show ?thesis using selected_globstar [OF False, of d prefix m] True by simp
    qed
  next
    case False
    have names': "segment_matches first (ie_name e) = smatch first (ie_name e)" if "e \<in> set (ix_entries d)" for e
      using segment_matches_smatch names(1) [OF that] by blast
    show ?thesis
    proof (cases "rest = []")
      case True
      then have "m \<in> set (collect_globs (first # rest) d prefix) \<longleftrightarrow> (\<exists>e\<in>set (ix_entries d). segment_matches first (ie_name e) \<and>
          m = matched_at (prefix @ [ie_name e]) (ie_mode e, ie_id e))"
        using False by (auto simp: collect_globs.simps(2) [of first "[]" d prefix] matched_at_def split: if_splits)
      with True show ?thesis using names' by (auto simp: selected_segment [OF False])
    next
      case rest: False
      have sub: "m \<in> set (collect_globs rest sub (prefix @ [ie_name e])) \<longleftrightarrow> selected rest sub (prefix @ [ie_name e]) m"
        if "e \<in> set (ix_entries d)" "segment_matches first (ie_name e)" "ie_dir e = Some sub" for e sub
        using "2.IH"(3) [OF False that(1) _ rest that(3) rest] names(2) [OF that(1,3)] that by blast
      have "m \<in> set (collect_globs (first # rest) d prefix) \<longleftrightarrow> (\<exists>e\<in>set (ix_entries d). segment_matches first (ie_name e) \<and>
          (\<exists>sub. ie_dir e = Some sub \<and> m \<in> set (collect_globs rest sub (prefix @ [ie_name e]))))"
        using False rest by (auto simp: collect_globs.simps(2) [of first rest d prefix] in_option_list eq_commute [where a = "Some x" and b = "ie_dir e" for x e])
      also have "\<dots> \<longleftrightarrow> selected (first # rest) d prefix m"
        unfolding selected_segment [OF False] using sub names' rest by (simp; blast)
      finally show ?thesis .
    qed
  qed
qed simp

section \<open>What the digest is folded over\<close>

abbreviation dedup_push :: "matched list \<Rightarrow> matched \<Rightarrow> matched list" where
  "dedup_push out m \<equiv> (case out of o' # _ \<Rightarrow> if md_path o' = md_path m then out else m # out | [] \<Rightarrow> [m])"

lemma dedup_fold:
  "sorted (map md_path ms) \<Longrightarrow> set (foldl dedup_push [] ms) \<subseteq> set ms \<and> md_path ` set (foldl dedup_push [] ms) = md_path ` set ms \<and>
     sorted_wrt (>) (map md_path (foldl dedup_push [] ms)) \<and>
     (ms \<noteq> [] \<longrightarrow> (\<exists>x xs. foldl dedup_push [] ms = x # xs \<and> md_path x = md_path (last ms)))"
proof (induction ms rule: rev_induct)
  case (snoc m ms)
  then have sorted: "sorted (map md_path ms)" and top: "x \<in> set ms \<Longrightarrow> md_path x \<le> md_path m" for x by (auto simp: sorted_append)
  show ?case
  proof (cases "ms = []")
    case False
    then obtain x xs where out: "foldl dedup_push [] ms = x # xs" "md_path x = md_path (last ms)" using snoc.IH [OF sorted] by blast
    have le: "md_path x \<le> md_path m" using top [of "last ms"] False out(2) by simp
    note IH = snoc.IH [OF sorted, unfolded out(1)]
    show ?thesis
    proof (cases "md_path x = md_path m")
      case True
      then have step: "foldl dedup_push [] (ms @ [m]) = x # xs" using out(1) by simp
      have "md_path m \<in> md_path ` set (x # xs)" using True by auto
      then show ?thesis using IH True unfolding step by auto
    next
      case False
      then have step: "foldl dedup_push [] (ms @ [m]) = m # x # xs" using out(1) by simp
      have "y \<in> set (x # xs) \<Longrightarrow> md_path y \<le> md_path x" for y using IH by auto
      then have "y \<in> set (x # xs) \<Longrightarrow> md_path y < md_path m" for y using le False by (meson le_neq_trans le_less_trans)
      then have "\<forall>k\<in>set (map md_path (x # xs)). k < md_path m" by auto
      with IH have "sorted_wrt (>) (map md_path (m # x # xs))" by (simp only: list.map sorted_wrt.simps) simp
      moreover have "md_path ` set (m # x # xs) = md_path ` set (ms @ [m])" using IH by auto
      moreover have "set (m # x # xs) \<subseteq> set (ms @ [m])" using IH by auto
      ultimately show ?thesis unfolding step by (intro conjI) (assumption | simp)+
    qed
  qed simp
qed simp

lemma dedup_sorted:
  shows "set (dedup_paths (sort_key md_path ms)) \<subseteq> set ms"
    and "md_path ` set (dedup_paths (sort_key md_path ms)) = md_path ` set ms"
    and "sorted_wrt (<) (map md_path (dedup_paths (sort_key md_path ms)))"
  using dedup_fold [of "sort_key md_path ms"] by (simp_all add: dedup_paths_def rev_map [symmetric] sorted_wrt_rev)

lemma parse_pattern: "parse_glob glob = Inr (PatternGlob pat) \<Longrightarrow> pat \<noteq> []"
  by (auto simp: parse_glob_def Let_def split: if_splits option.splits)

text \<open>C32. What a pattern glob's digest covers: on a tree none of whose names has a star, the digest is the hash of a
  list of matches whose paths are strictly increasing, each match is one the pattern describes (segment by
  segment, \<open>**\<close> standing for any run of directories and a trailing one for the directories that are not
  empty), and the path of everything the pattern describes is in the list. In particular the backtracking
  matcher returns on each name.\<close>

theorem pattern_glob_selects:
  assumes "parse_glob glob = Inr (PatternGlob pat)" and "star_free root"
  shows "\<exists>ms. subtree_digest K root glob = Inr (fold_matched K glob 3 ms) \<and>
    sorted_wrt (<) (map md_path ms) \<and>
    (\<forall>m\<in>set ms. selected pat root [] m) \<and>
    (\<forall>m. selected pat root [] m \<longrightarrow> md_path m \<in> md_path ` set ms)"
proof -
  have sel: "m \<in> set (collect_globs pat root []) \<longleftrightarrow> selected pat root [] m" for m
    by (rule collect_globs_selects [OF parse_pattern [OF assms(1)] assms(2)])
  define ms where "ms = dedup_paths (sort_key md_path (collect_globs pat root []))"
  have "subtree_digest K root glob = Inr (fold_matched K glob 3 ms)" using assms(1) by (simp add: subtree_digest_def shape_tag_def ms_def)
  then show ?thesis using dedup_sorted [of "collect_globs pat root []"] sel unfolding ms_def by blast
qed

definition toy_keel :: keel where
  "toy_keel = \<lparr>kl_blob_id = \<lambda>b. b, kl_tree_id = \<lambda>es. concat (map (\<lambda>(_, _, i). i) es), kl_hash = \<lambda>b. b\<rparr>"

definition sample_root :: index_dir where
  "sample_root = IndexDir [1] [
     IndexEntry (lit ''a.rs'') MODE_FILE [2] None,
     IndexEntry (lit ''src'') MODE_DIR [3] (Some (IndexDir [3] [IndexEntry (lit ''b.rs'') MODE_FILE [4] None]))]"

theorem pattern_glob_selects_witness:
  "\<exists>ms. subtree_digest toy_keel sample_root (lit ''**/*.rs'') = Inr (fold_matched toy_keel (lit ''**/*.rs'') 3 ms) \<and>
    sorted_wrt (<) (map md_path ms) \<and>
    (\<forall>m\<in>set ms. selected [globstar, lit ''*.rs''] sample_root [] m) \<and>
    (\<forall>m. selected [globstar, lit ''*.rs''] sample_root [] m \<longrightarrow> md_path m \<in> md_path ` set ms)"
proof (rule pattern_glob_selects)
  show "parse_glob (lit ''**/*.rs'') = Inr (PatternGlob [globstar, lit ''*.rs''])"
    by (simp add: parse_glob_def Let_def trim_def is_whitespace_def wild_def MAX_GLOBSTARS_def)
  show "star_free sample_root"
    by (simp add: star_free_def sample_root_def all_entries.simps)
qed

section \<open>The digester is transparent\<close>

definition plain_digest :: "keel \<Rightarrow> nat \<Rightarrow> (str option \<times> disk_node) list \<Rightarrow> str \<Rightarrow> tree_digest_error + glob_digest" where
  "plain_digest K max_depth root glob =
     (case index_tree K max_depth root of
        Inl x \<Rightarrow> Inl (DigestIndex x)
      | Inr i \<Rightarrow> (case subtree_digest K i glob of Inl x \<Rightarrow> Inl (DigestGlob x) | Inr d \<Rightarrow> Inr d))"

text \<open>A run of calls: an address always extracts to the same tree.\<close>

fun digest_all :: "keel \<Rightarrow> (str \<times> str \<Rightarrow> (str option \<times> disk_node) list) \<Rightarrow> ((str \<times> str) \<times> str) list \<Rightarrow> digester \<Rightarrow>
    digester \<times> (tree_digest_error + glob_digest) list" where
  "digest_all K T [] g = (g, [])"
| "digest_all K T (((name, tree_id), glob) # calls) g =
     (let (g, r) = digester_digest K name tree_id (T (name, tree_id)) glob g; (g, rs) = digest_all K T calls g in (g, r # rs))"

definition digester_ok :: "keel \<Rightarrow> (str \<times> str \<Rightarrow> (str option \<times> disk_node) list) \<Rightarrow> digester \<Rightarrow> bool" where
  "digester_ok K T g \<longleftrightarrow>
     (\<forall>(k, i)\<in>set (dg_indexes g). index_tree K (dg_max_depth g) (T k) = Inr i) \<and>
     (\<forall>((k, glob), d)\<in>set (dg_digests g). plain_digest K (dg_max_depth g) (T k) glob = Inr d) \<and>
     length (dg_indexes g) \<le> dg_max_indexes g \<and> length (dg_digests g) \<le> dg_max_digests g \<and>
     dg_max_indexes g > 0 \<and> dg_max_digests g > 0"

abbreviation same_limits :: "digester \<Rightarrow> digester \<Rightarrow> bool" where
  "same_limits g g' \<equiv> dg_max_depth g' = dg_max_depth g \<and> dg_max_indexes g' = dg_max_indexes g \<and> dg_max_digests g' = dg_max_digests g"

lemma set_update_sub: "set (AList.update k v al) \<subseteq> insert (k, v) (set al)"
  by (induction al) auto

lemma find_key: "find (\<lambda>(k, _). k = key) xs = Some e \<Longrightarrow> e \<in> set xs \<and> fst e = key"
  by (induction xs) (auto split: if_splits)

lemma digester_index_ok:
  assumes "digester_ok K T g" and "digester_index K key (T key) g = (g', r)"
  shows "digester_ok K T g' \<and> same_limits g g' \<and> dg_digests g' = dg_digests g \<and> r = index_tree K (dg_max_depth g) (T key)"
proof (cases "find (\<lambda>(k, _). k = key) (dg_indexes g)")
  case (Some e)
  from find_key [OF this] have "e \<in> set (dg_indexes g)" "fst e = key" by auto
  with assms Some show ?thesis by (fastforce simp: digester_index_def digester_ok_def split: prod.splits)
next
  case None
  show ?thesis
  proof (cases "index_tree K (dg_max_depth g) (T key)")
    case (Inl x)
    with None assms show ?thesis by (auto simp: digester_index_def)
  next
    case (Inr i)
    have "\<forall>(k, i)\<in>set (tl (dg_indexes g)). index_tree K (dg_max_depth g) (T k) = Inr i"
      using assms(1) unfolding digester_ok_def by (cases "dg_indexes g") auto
    with None Inr assms show ?thesis
      by (auto simp: digester_index_def digester_ok_def Let_def split: if_splits)
  qed
qed

lemma digester_digest_ok:
  assumes ok: "digester_ok K T g" and call: "digester_digest K name tree_id (T (name, tree_id)) glob g = (g', r)"
  shows "digester_ok K T g' \<and> same_limits g g' \<and> r = plain_digest K (dg_max_depth g) (T (name, tree_id)) glob"
proof (cases "map_of (dg_digests g) ((name, tree_id), glob)")
  case (Some hit)
  from map_of_SomeD [OF this] ok have "plain_digest K (dg_max_depth g) (T (name, tree_id)) glob = Inr hit"
    by (fastforce simp: digester_ok_def)
  with Some ok call show ?thesis by (auto simp: digester_digest_def)
next
  case None
  obtain g1 r1 where g1: "digester_index K (name, tree_id) (T (name, tree_id)) g = (g1, r1)" by fastforce
  note ok1 = digester_index_ok [OF ok g1]
  show ?thesis
  proof (cases r1)
    case (Inl x)
    with ok1 have "index_tree K (dg_max_depth g) (T (name, tree_id)) = Inl x" by simp
    with Inl None g1 ok1 call show ?thesis by (auto simp: digester_digest_def plain_digest_def)
  next
    case (Inr i)
    show ?thesis
    proof (cases "subtree_digest K i glob")
      case (Inl x)
      moreover from ok1 Inr have "index_tree K (dg_max_depth g) (T (name, tree_id)) = Inr i" by simp
      ultimately show ?thesis using None g1 ok1 Inr call by (auto simp: digester_digest_def plain_digest_def)
    next
      case d: (Inr d)
      define kept where "kept = (if length (dg_digests g1) \<ge> dg_max_digests g1 then [] else dg_digests g1)"
      have plain: "plain_digest K (dg_max_depth g) (T (name, tree_id)) glob = Inr d"
        using ok1 Inr d by (auto simp: plain_digest_def split: sum.splits)
      have g': "g' = g1\<lparr>dg_digests := AList.update ((name, tree_id), glob) d kept\<rparr>" "r = Inr d"
        using None g1 Inr d call by (auto simp: digester_digest_def kept_def Let_def)
      have kept: "set kept \<subseteq> set (dg_digests g1)" "length kept < dg_max_digests g1"
        using ok1 by (auto simp: kept_def digester_ok_def)
      have "set (AList.update ((name, tree_id), glob) d kept) \<subseteq> insert (((name, tree_id), glob), d) (set (dg_digests g1))"
        by (rule subset_trans [OF set_update_sub]) (use kept(1) in \<open>rule insert_mono\<close>)
      moreover have "length (AList.update ((name, tree_id), glob) d kept) \<le> dg_max_digests g1"
        using length_update_le [of "((name, tree_id), glob)" d kept] kept(2) by linarith
      ultimately have "digester_ok K T g'" using ok1 plain unfolding g'(1) digester_ok_def by fastforce
      with ok1 plain show ?thesis unfolding g' by simp
    qed
  qed
qed

lemma digest_all_ok:
  "digester_ok K T g \<Longrightarrow> digest_all K T calls g = (g', rs) \<Longrightarrow> digester_ok K T g' \<and> same_limits g g' \<and>
     rs = map (\<lambda>((name, tree_id), glob). plain_digest K (dg_max_depth g) (T (name, tree_id)) glob) calls"
proof (induction K T calls g arbitrary: g' rs rule: digest_all.induct)
  case (2 K T name tree_id glob calls g)
  obtain g1 r where one: "digester_digest K name tree_id (T (name, tree_id)) glob g = (g1, r)" by fastforce
  obtain g2 rs2 where rest: "digest_all K T calls g1 = (g2, rs2)" by fastforce
  note ok1 = digester_digest_ok [OF "2.prems"(1) one]
  from "2.IH" [OF one [symmetric] refl _ rest] ok1 "2.prems"(2) one rest show ?case by auto
qed auto

text \<open>C33. The digester's caches cannot be seen: over any run of calls, by any tenants on any trees, provided an
  address always extracts to the same tree, every answer, errors included, is the one a digester without caches
  gives, and it never holds more than 8 trees and 4,096 digests.\<close>

theorem digester_transparent:
  "snd (digest_all K T calls digester_default) =
     map (\<lambda>((name, tree_id), glob). plain_digest K 256 (T (name, tree_id)) glob) calls \<and>
   length (dg_indexes (fst (digest_all K T calls digester_default))) \<le> 8 \<and>
   length (dg_digests (fst (digest_all K T calls digester_default))) \<le> 4096"
proof -
  have "digester_ok K T digester_default" by (simp add: digester_ok_def digester_default_def)
  moreover obtain g' rs where run: "digest_all K T calls digester_default = (g', rs)" by fastforce
  ultimately show ?thesis using digest_all_ok [OF _ run] by (simp add: run digester_ok_def digester_default_def)
qed

section \<open>A name with a star\<close>

text \<open>C40. A file the digest does not see: the pattern \<open>*.rs\<close> describes the name \<open>*a.rs\<close>, and yet the digest of
  that pattern, over a tree with this file and another one, selects the other one only and is the same whatever
  the file holds. A step's memo key then does not change when one of its inputs does.\<close>

theorem starred_file_unseen:
  fixes K :: keel and bs bs' other :: bytes
  defines "tree \<equiv> \<lambda>bs. [(Some (lit ''*a.rs''), DiskFile 0x81A4 bs), (Some (lit ''b.rs''), DiskFile 0x81A4 other)]"
  shows "\<exists>d. plain_digest K 256 (tree bs) (lit ''*.rs'') = Inr d \<and> plain_digest K 256 (tree bs') (lit ''*.rs'') = Inr d \<and>
    gd_selected d = 1 \<and> smatch (lit ''*.rs'') (lit ''*a.rs'')"
proof -
  have parse: "parse_glob (lit ''*.rs'') = Inr (PatternGlob [lit ''*.rs''])" 
    by (simp add: parse_glob_def Let_def trim_def is_whitespace_def wild_def)
  have seg: "\<not> segment_matches (lit ''*.rs'') (lit ''*a.rs'')" "segment_matches (lit ''*.rs'') (lit ''b.rs'')" by code_simp+
  have star: "lit ''*.rs'' \<noteq> globstar" "lit ''*a.rs'' \<le> lit ''b.rs''" by code_simp+
  define root where "root i x = IndexDir i
     [IndexEntry (lit ''*a.rs'') MODE_FILE x None, IndexEntry (lit ''b.rs'') MODE_FILE (kl_blob_id K other) None]" for i x
  define hit where "hit = \<lparr>md_path = join 47 [lit ''b.rs''], md_mode = MODE_FILE, md_id = kl_blob_id K other\<rparr>"
  have walked: "\<exists>i. index_tree K 256 (tree bs) = Inr (root i (kl_blob_id K bs))" for bs
    using star(2) by (simp add: tree_def root_def index_tree_def walk_def walk_finish_def file_mode_def Let_def)
  have "collect_globs [lit ''*.rs''] (root i x) [] = [hit]" for i x
    using seg star(1) by (simp add: collect_globs.simps(2) [of "lit ''*.rs''"] root_def hit_def del: lit_simps)
  then have "subtree_digest K (root i x) (lit ''*.rs'') = Inr (fold_matched K (lit ''*.rs'') 3 [hit])" for i x
    using parse by (simp add: subtree_digest_def dedup_paths_def shape_tag_def del: lit_simps)
  then have "plain_digest K 256 (tree bs) (lit ''*.rs'') = Inr (fold_matched K (lit ''*.rs'') 3 [hit])" for bs
    using walked [of bs] by (auto simp: plain_digest_def simp del: lit_simps)
  moreover have "smatch (lit ''*.rs'') (lit ''*a.rs'')" by code_simp
  ultimately show ?thesis by (auto simp: fold_matched_def)
qed

end
