(* ===== verification/Spec2Isabelle.thy ===== *)
theory Spec2Isabelle
  imports Ci_Outbox Ci_Site Ci_Proxy Ci_Planner Ci_Extract Ci_Digest
begin

text \<open>
  hull-ci is a CI runner: Hull posts a change to it, the runner fetches the tree, plans steps, runs them in
  sandboxes on nodes and posts one verdict back to every URL that asked. This library models the parts
  of it that decide something, translated from the Rust sources under \<open>src/crates/\<close>, and proves
  what each part promises the others. Names are the source's, with a prefix or suffix where HOL has the
  name already.

  \<^bold>\<open>The parts.\<close>

  A dispatch comes in at the door (\<open>hull-ci-control\<close>, \<open>ingest.rs\<close>): the shared secret, the contract version
  and the body are checked (\<open>hull-ci-proto\<close>), the repository is put in canonical form, and \<open>Control::accept\<close>
  admits it: the claims say who drives the tree, the journal makes the debt durable, the job store keeps the
  record, and a task drives the job through fetching (\<open>hull-ci-fetch\<close> unpacks the tree), planning (\<open>hull-ci-plan\<close>: the tree's own pipeline file, evaluated in a
  bounded child, or a detected command) and running. While it runs, each pass sweeps the
  clocks, advances the step graph, looks steps up in the memo, asks the weighted-fair scheduler which steps may
  start, hands them to the fleet, and folds the outcomes into a verdict. The verdict is delivered with
  retries and its journal entry forgotten when it has been heard; at the next start the recovery pass answers
  what a crash left. Beside this, the secret broker (\<open>hull-ci-secrets\<close>) keeps the tenants' secrets sealed
  and gives them out against single-use capabilities, to nodes and to the package proxy; the proxy
  (\<open>hull-ci-proxy\<close>) is a job's only way out of its sandbox: a per-job grant, an allowlist of upstreams, and
  the tenant's credential put into the request outside the sandbox.

  \<^bold>\<open>The theories.\<close>

  \<^item> \<open>Ci_Prelude\<close>, \<open>Ci_Text\<close>: strings as lists of code points, clocks, hash and ordered maps as association
    lists, runs of operations, the methods of \<open>str\<close>, and the functions of third-party crates as a record.
  \<^item> \<open>Ci_Proto\<close> (\<open>hull-ci-proto/src/lib.rs\<close>): dispatches, verdicts, canonical repositories, summaries, log keys.
  \<^item> \<open>Ci_Model\<close>, \<open>Ci_Timeouts\<close>, \<open>Ci_Graph\<close>, \<open>Ci_Aggregate\<close>, \<open>Ci_Callback\<close>, \<open>Ci_Store\<close>, \<open>Ci_Claims\<close>, \<open>Ci_Memo\<close>
    (\<open>model.rs\<close>, \<open>timeouts.rs\<close>, \<open>graph.rs\<close>, \<open>aggregate.rs\<close>, \<open>callback.rs\<close>, \<open>store.rs\<close>, \<open>claims.rs\<close>,
    \<open>memo.rs\<close> of \<open>hull-ci-control\<close>): one component each, its records and operations and what it promises
    alone. The claims are the locale \<open>job_claims\<close>, interpreted on the in-process \<open>LocalClaims\<close>.
  \<^item> \<open>Ci_FairShare\<close>, \<open>Ci_Select\<close> (\<open>fairshare.rs\<close>): the queue's operations with their invariant, and one pass of
    the selection: what it grants, whom it may pass over and for how long.
  \<^item> \<open>Ci_Control\<close> (\<open>control.rs\<close>, \<open>seams.rs\<close>, \<open>journal.rs\<close>): the state that \<open>Control\<close> owns with every method
    on it, and the tasks it spawns as a machine over their await points. \<open>Ci_Plane\<close> runs dispatches, reports
    and task steps in any order and proves what holds in every reachable state; \<open>Ci_Methods\<close> states what
    single methods do; \<open>Ci_Dispatch\<close> (locale \<open>fleet\<close>) proves that no step is handed out twice.
  \<^item> \<open>Ci_Ingest\<close> (\<open>auth.rs\<close>, \<open>ids.rs\<close>, \<open>ingest.rs\<close>): the door, with words where the source has machine integers.
  \<^item> \<open>Ci_Journal\<close> (\<open>hull-ci-server/src/journal.rs\<close>): the file journal, one file-system state per system call, and
    the recovery pass. \<open>Ci_Outbox\<close> (locale \<open>outbox\<close>): an acknowledged job stays on the disk until it is answered,
    over the interleavings of \<open>Ci_Plane\<close> and the file system of \<open>Ci_Journal\<close>.
  \<^item> \<open>Ci_Vault\<close> (\<open>lib.rs\<close>, \<open>keys.rs\<close>, \<open>seal.rs\<close>, \<open>store.rs\<close> and the storing half of \<open>broker.rs\<close> of
    \<open>hull-ci-secrets\<close>): sealing under versioned tenant keys, refining a map from tenant and name to value.
    \<open>Ci_Broker\<close> (\<open>capability.rs\<close>, \<open>broker.rs\<close>, \<open>package.rs\<close>): the gate. \<open>Ci_Services\<close> (\<open>identity.rs\<close>,
    \<open>package.rs\<close>, \<open>service.rs\<close>): who signs, and the services. \<open>Ci_Mask\<close> (\<open>mask.rs\<close>): the output masker.
  \<^item> \<open>Ci_Grant\<close> (\<open>ratelimit.rs\<close>, \<open>grant.rs\<close> of \<open>hull-ci-proxy\<close>), \<open>Ci_Allowlist\<close> (\<open>allowlist.rs\<close>, \<open>credentials.rs\<close>,
    \<open>config.rs\<close>, \<open>jobenv.rs\<close>), \<open>Ci_Brokered\<close> (\<open>brokered.rs\<close>) and \<open>Ci_Proxy\<close> (\<open>server.rs\<close>, \<open>audit.rs\<close>): the package proxy.
    \<open>Ci_Brokered\<close> knows the broker through the locale \<open>redeemer\<close>, which \<open>Ci_Site\<close> interprets on the broker's own service.
  \<^item> \<open>Ci_Extract\<close> (\<open>hull-ci-fetch/src/extract.rs\<close>): the tar reader, over a file system with symbolic links.
    \<open>Ci_Digest\<close> (\<open>verify.rs\<close>, \<open>digest.rs\<close>): the address of a tree and the digest of what a glob selects in it.
  \<^item> \<open>Ci_Shape\<close> (\<open>shape.rs\<close> of \<open>hull-ci-plan\<close>): the scan of a pipeline file before the parser. \<open>Ci_Plan\<close> (\<open>validate.rs\<close>,
    \<open>pipeline.rs\<close>, \<open>eval.rs\<close>, \<open>lib.rs\<close>): the rules, the recorder behind the five builtins and the pipeline it
    leaves. \<open>Ci_Detect\<close> (\<open>hull-ci-node/src/detect.rs\<close>): the command of a tree without a file. \<open>Ci_Planner\<close>
    (\<open>sandbox.rs\<close>, \<open>error.rs\<close>; \<open>pipeline.rs\<close>, \<open>plan.rs\<close> of \<open>hull-ci-server\<close>): the child process and the planner.

  \<^bold>\<open>State and steps.\<close> A struct is a record, an enum a datatype with the source's variants, a method a function
  from the state to the state and its answer; an error is the left side of a sum. A \<open>HashMap\<close> is an
  association list with distinct keys and a \<open>BTreeMap\<close> a sorted one. What a method does while it holds
  a lock is one step, and so is what a task does between two await points; everything in between may be
  interleaved with any other step, and the invariants are proved for every interleaving. Counters that can
  wrap or saturate are words or have the bound written out; elsewhere integers are naturals. The scheduler's
  and the estimator's floating-point numbers are exact rationals.

  \<^bold>\<open>What is shown.\<close> The lemmas of a component theory give each operation's effect on every branch and the
  invariant it keeps; the theorems named by a claim number state what the component promises:

  \<^item> one verdict per job, from one sender, whatever the interleaving; every acknowledged job answered or
    on the disk; no step dispatched twice; a job decided at its wall clock at the latest;
  \<^item> the step graph makes progress and the verdict is the documented function of the outcomes;
  \<^item> the scheduler's accounts are exact and no tenant is passed over beyond a bound;
  \<^item> the vault is a map, a capability discloses once and as it was minted, a held credential is
    served only under a live mint, masked output has no registered value in it;
  \<^item> an archive changes nothing outside its destination, and what it leaves there is within the limits;
  \<^item> whatever a pipeline file does, its plan is within the limits and the step graph never has to break it;
  \<^item> what leaves the package proxy, under which grant, at what rate and with which headers;
  \<^item> a pattern's digest covers what the pattern describes, and the digester's caches cannot be seen;
  \<^item> and where the code falls short of its own documentation: the theorems of kind \<open>error\<close>.

  \<^bold>\<open>Bounds.\<close> Loops that the source bounds are recursions on that bound (\<open>advance_loop\<close> on the steps still
  pending, \<open>select_loop\<close> on the round's budget, \<open>deliver_loop\<close> on the attempts left, \<open>forward_loop\<close> on the redirects
  left), so no definition needs fuel; the glob matcher's loop is \<open>while_option\<close>, and that it returns is a
  lemma (\<open>match_loop_result\<close>). The loop of a job's driver and of the callback sender are step relations;
  that the sender comes to an end is a theorem (\<open>report_terminates\<close>).

  \<^bold>\<open>Parameters.\<close> Code that is not under \<open>src/\<close> is an argument: the hash, keel's encoder, the AEAD, the signature scheme,
  hexadecimal and the constant-time comparison, JSON, the \<open>url\<close>, \<open>http\<close> and \<open>tar\<close> crates, Unicode normalization, the Starlark interpreter
  (which builtins a module calls, and how its run ends), and what an upstream, a callback URL, a fetcher, a
  node or the file system answers. The control plane's own theorems hold for any planner. A theorem that relies on such code names
  the law it uses as a hypothesis (\<open>aead_ok\<close>, \<open>crates_ok\<close>, \<open>set_path_ok\<close>, \<open>nfc_ok\<close>, \<open>listing_ok\<close>), and its witness has an instance.

  \<^bold>\<open>Not modelled.\<close> The sandbox backends, the warm pool and the node agent (\<open>hull-ci-node\<close>) drive the container
  runtime's command line and child processes; the rest of the fetch broker and its content store
  (\<open>hull-ci-fetch\<close>) are an HTTP stream, hard links and file times. The control plane sees each of them through a trait, and that trait's answers are
  parameters here. The Postgres claims and workspaces, the Infisical key service, the operator panel and
  the assembly of the server (\<open>hull-ci-server\<close>) are SQL, HTTP clients, rendering and wiring. Of the
  modelled files, \<open>Debug\<close> impls, serialization derives, tracing and zeroizing are left out. The window
  between two locks of one broker call (a capability minted while its tenant is being shredded) is not
  interleaved: such a call is one step.
\<close>

end
